(* ===== verification/Prelude.thy ===== *)
theory Prelude
  imports Main "HOL-Library.Word" "HOL-Library.Multiset"
begin

text \<open>
  Shared vocabulary of the development: the C integer types of \<open>src/types.h\<close>, the error
  values by which panics and memory faults are modelled, the bind that threads them, and the
  generic lemmas on lists and words that the components use.
\<close>

unbundle bit_operations_syntax

section \<open>Integer types (src/types.h)\<close>

type_synonym uint = "32 word"
type_synonym ushort = "16 word"
type_synonym uchar = "8 word"
type_synonym ull = "64 word"

section \<open>Errors as values\<close>

text \<open>
  \<open>Panic s\<close> is a call of \<open>panic(s)\<close>, which never returns; \<open>NullDeref\<close> is a read or
  write through a null pointer; \<open>OutOfBounds\<close> is an access past the end of an array;
  \<open>Diverge\<close> is a loop that has used up the iterations its model grants it; \<open>Spin\<close> is the
  wait for a spin lock that another processor holds, and \<open>Asleep\<close> a call of \<open>sleep\<close>, so the
  operation cannot proceed until another process acts.
\<close>

datatype kerr = Panic string | NullDeref | OutOfBounds | Diverge | Spin | Asleep

type_synonym 'a res = "kerr + 'a"

definition bindE :: "'e + 'a \<Rightarrow> ('a \<Rightarrow> 'e + 'b) \<Rightarrow> 'e + 'b" where
  "bindE m f = (case m of Inl e \<Rightarrow> Inl e | Inr a \<Rightarrow> f a)"

named_theorems kernel_simps \<open>unfolding rules shared by the component proofs\<close>

lemma bindE_Inr [simp]: "bindE (Inr a) f = f a"
  by (simp add: bindE_def)

lemma bindE_Inl [simp]: "bindE (Inl e) f = Inl e"
  by (simp add: bindE_def)

lemma bindE_eq_Inr_iff: "bindE m f = Inr b \<longleftrightarrow> (\<exists>a. m = Inr a \<and> f a = Inr b)"
  by (cases m) (auto simp: bindE_def)

lemma bindE_eq_InrE [elim]:
  assumes "bindE m f = Inr b"
  obtains a where "m = Inr a" and "f a = Inr b"
  using assms by (auto simp: bindE_eq_Inr_iff)

section \<open>Lists updated by index\<close>

text \<open>Exchanging two cells, as every swap of the C code does through a temporary.\<close>

definition swap_cells :: "'a list \<Rightarrow> nat \<Rightarrow> nat \<Rightarrow> 'a list" where
  "swap_cells A i j = A[i := A ! j, j := A ! i]"

lemma length_swap_cells [simp]: "length (swap_cells A i j) = length A"
  by (simp add: swap_cells_def)

lemma nth_swap_cells:
  "i < length A \<Longrightarrow> j < length A \<Longrightarrow>
   swap_cells A i j ! k = (if k = j then A ! i else if k = i then A ! j else A ! k)"
  by (auto simp: swap_cells_def nth_list_update)

lemma mset_swap_cells [simp]:
  "i < length A \<Longrightarrow> j < length A \<Longrightarrow> mset (swap_cells A i j) = mset A"
  unfolding swap_cells_def by (rule mset_swap)

lemma take_swap_cells:
  "i < n \<Longrightarrow> j < n \<Longrightarrow> take n (swap_cells A i j) = swap_cells (take n A) i j"
  by (simp add: swap_cells_def take_update_swap)

lemma drop_swap_cells:
  "i < n \<Longrightarrow> j < n \<Longrightarrow> drop n (swap_cells A i j) = drop n A"
  by (simp add: swap_cells_def)

section \<open>Words\<close>

lemma unat_minus_one_word32 [simp]: "unat (- 1 :: uint) = 4294967295"
  by (simp add: unsigned_minus_1_eq_mask mask_eq_exp_minus_1)

lemma unat_uint_less: "unat (x :: uint) < 4294967296"
  using unsigned_less [of x, where ?'a = nat] by simp

lemma unat_word_of_nat_uint: "n < 4294967296 \<Longrightarrow> unat (word_of_nat n :: uint) = n"
  by (simp add: unat_of_nat)

lemma word_of_nat_eq_uint_iff:
  "n < 4294967296 \<Longrightarrow> word_of_nat n = (w :: uint) \<longleftrightarrow> n = unat w"
  by (auto simp: unat_word_of_nat_uint)

lemma unat_add_word_of_nat:
  "unat (a :: uint) + k < 4294967296 \<Longrightarrow> unat (a + word_of_nat k) = unat a + k"
  by (simp add: unat_plus_if' unat_word_of_nat_uint)

lemma uint_eq_uchar_iff [simp]: "uint (a :: uchar) = uint b \<longleftrightarrow> a = b"
  by (auto simp: word_uint_eq_iff)

lemma unat_plus_one_uint:
  "x \<noteq> - 1 \<Longrightarrow> unat (x + 1 :: uint) = Suc (unat x)"
  by (metis add.commute unatSuc add_eq_0_iff2)

lemma unat_minus_one_uint:
  "x \<noteq> 0 \<Longrightarrow> unat (x - 1 :: uint) = unat x - 1"
  by (simp add: unat_minus_one)

section \<open>First match in a table\<close>

text \<open>The scans of the kernel's tables stop at the first entry that passes a test.\<close>

fun first_idx :: "('a \<Rightarrow> bool) \<Rightarrow> 'a list \<Rightarrow> nat option" where
  "first_idx P [] = None"
| "first_idx P (x # xs) = (if P x then Some 0 else map_option Suc (first_idx P xs))"

lemma first_idx_Some_iff:
  "first_idx P xs = Some i \<longleftrightarrow> i < length xs \<and> P (xs ! i) \<and> (\<forall>j < i. \<not> P (xs ! j))"
proof (induction xs arbitrary: i)
  case (Cons x xs)
  show ?case by (cases i) (auto simp: Cons less_Suc_eq_0_disj)
qed simp

lemma first_idx_None_iff: "first_idx P xs = None \<longleftrightarrow> (\<forall>x \<in> set xs. \<not> P x)"
  by (induction xs) auto

section \<open>Postconditions of fallible operations\<close>

text \<open>\<open>faults\<close> are a null pointer access and the panics by which the open file layer checks its
  reference counts and types.  \<open>ensures P r\<close>: the operation does not end in one of them, and what
  it returns satisfies \<open>P\<close>; it may still panic otherwise or have to wait.  The rules follow the control structure, so a
  postcondition of an operation is proved by \<open>intro\<close> with the rules and the postconditions of the
  operations it calls, in the middle of a sequence through \<open>ensures_bind\<close> and at its end through
  \<open>ensures_weaken\<close>.\<close>

definition faults :: "kerr set" where
  "faults = {NullDeref, Panic ''fileclose'', Panic ''filedup'', Panic ''fileread'', Panic ''filewrite''}"

definition ensures :: "('a \<Rightarrow> bool) \<Rightarrow> 'a res \<Rightarrow> bool" where
  "ensures P r \<longleftrightarrow> (case r of Inl e \<Rightarrow> e \<notin> faults | Inr x \<Rightarrow> P x)"

named_theorems ensures_intros \<open>structural rules for postconditions\<close>
named_theorems keeps \<open>postconditions of the operations\<close>

lemma ensures_Inl [simp]: "ensures P (Inl e) \<longleftrightarrow> e \<notin> faults"
  and ensures_Inr [simp]: "ensures P (Inr x) \<longleftrightarrow> P x"
  by (simp_all add: ensures_def)

lemma ensures_InrD: "ensures P r \<Longrightarrow> r = Inr x \<Longrightarrow> P x"
  by simp

lemma ensures_no_fault: "ensures P r \<Longrightarrow> r \<notin> Inl ` faults"
  by auto

lemma not_faults [simp]:
  "Asleep \<notin> faults" "OutOfBounds \<notin> faults"
  "Panic m \<in> faults \<longleftrightarrow> m \<in> {''fileclose'', ''filedup'', ''fileread'', ''filewrite''}"
  by (auto simp: faults_def)

lemma ensures_weaken: "ensures Q r \<Longrightarrow> (\<And>x. Q x \<Longrightarrow> P x) \<Longrightarrow> ensures P r"
  by (cases r) auto

lemma ensures_conj: "ensures P r \<Longrightarrow> ensures Q r \<Longrightarrow> ensures (\<lambda>x. P x \<and> Q x) r"
  by (cases r) auto

lemma ensures_bind:
  "ensures Q r \<Longrightarrow> (\<And>x. Q x \<Longrightarrow> ensures P (f x)) \<Longrightarrow> ensures P (bindE r f)"
  by (cases r) auto

text \<open>Sequences are first brought into a form in which only calls are bound.\<close>

named_theorems bind_flat \<open>flattening of nested sequences\<close>

lemma bindE_assoc [bind_flat]: "bindE (bindE r f) g = bindE r (\<lambda>x. bindE (f x) g)"
  by (cases r) simp_all

lemma bindE_if [bind_flat]: "bindE (if b then x else y) f = (if b then bindE x f else bindE y f)"
  by simp

lemma bindE_option [bind_flat]:
  "bindE (case opt of None \<Rightarrow> x | Some v \<Rightarrow> g v) f = (case opt of None \<Rightarrow> bindE x f | Some v \<Rightarrow> bindE (g v) f)"
  by (cases opt) simp_all

lemma bindE_prod [bind_flat]: "bindE (case x of (a, b) \<Rightarrow> g a b) f = (case x of (a, b) \<Rightarrow> bindE (g a b) f)"
  by (cases x) simp

lemma bindE_Let [bind_flat]: "bindE (Let v g) f = (let x = v in bindE (g x) f)"
  by (simp add: Let_def)

declare bindE_Inr [bind_flat] bindE_Inl [bind_flat]

lemma ensures_if [ensures_intros]:
  "(b \<Longrightarrow> ensures P x) \<Longrightarrow> (\<not> b \<Longrightarrow> ensures P y) \<Longrightarrow> ensures P (if b then x else y)"
  by simp

lemma ensures_Let [ensures_intros]: "(\<And>x. x = v \<Longrightarrow> ensures P (f x)) \<Longrightarrow> ensures P (Let v f)"
  by (simp add: Let_def)

lemma ensures_prod [ensures_intros]:
  "(\<And>a b. x = (a, b) \<Longrightarrow> ensures P (f a b)) \<Longrightarrow> ensures P (case x of (a, b) \<Rightarrow> f a b)"
  by (cases x) simp

lemma ensures_option [ensures_intros]:
  "(opt = None \<Longrightarrow> ensures P x) \<Longrightarrow> (\<And>v. opt = Some v \<Longrightarrow> ensures P (f v)) \<Longrightarrow>
   ensures P (case opt of None \<Rightarrow> x | Some v \<Rightarrow> f v)"
  by (cases opt) simp_all

end
