(* ===== verification/Heap.thy ===== *)
theory Heap
  imports Prelude
begin

text \<open>
  The ready-queue heap of \<open>src/heap.c\<close> and \<open>src/heap.h\<close>: \<open>heapify\<close> (sift down),
  \<open>increasekey\<close> (sift up) and \<open>shitf\<close>, over an array of process pointers.  The two
  compile-time variants of the file (highest priority first, earliest deadline first) differ in
  the comparison of two array elements only, so the comparison is a parameter \<open>outranks\<close>:
  \<open>outranks a b\<close> is the C condition under which \<open>a\<close> has to move above \<open>b\<close>.
\<close>

section \<open>Index macros (src/heap.h)\<close>

definition LEFT :: "nat \<Rightarrow> nat" where
  "LEFT x = 2 * x + 1"

definition RIGHT :: "nat \<Rightarrow> nat" where
  "RIGHT x = 2 * x + 2"

definition PARENT :: "nat \<Rightarrow> nat" where
  "PARENT x = x div 2"

section \<open>The operations (src/heap.c)\<close>

text \<open>The index that the two tests at the top of \<open>heapify\<close> leave in \<open>max\<close> (or \<open>min\<close>).\<close>

definition heapify_pick :: "('a \<Rightarrow> 'a \<Rightarrow> bool) \<Rightarrow> 'a list \<Rightarrow> nat \<Rightarrow> nat \<Rightarrow> nat" where
  "heapify_pick outranks A itr_q i =
     (let m = (if LEFT i < itr_q \<and> outranks (A ! LEFT i) (A ! i) then LEFT i else i)
      in if RIGHT i < itr_q \<and> outranks (A ! RIGHT i) (A ! m) then RIGHT i else m)"

lemma heapify_pick_cases:
  "heapify_pick outranks A n i = i \<or>
   heapify_pick outranks A n i = LEFT i \<and> LEFT i < n \<or>
   heapify_pick outranks A n i = RIGHT i \<and> RIGHT i < n"
  by (auto simp: heapify_pick_def Let_def)

lemma heapify_pick_greater:
  "heapify_pick outranks A n i \<noteq> i \<Longrightarrow> i < heapify_pick outranks A n i \<and> heapify_pick outranks A n i < n"
  using heapify_pick_cases [of outranks A n i] by (auto simp: LEFT_def RIGHT_def)

function heapify :: "('a \<Rightarrow> 'a \<Rightarrow> bool) \<Rightarrow> 'a list \<Rightarrow> nat \<Rightarrow> nat \<Rightarrow> 'a list" where
  "heapify outranks A itr_q i =
     (let m = heapify_pick outranks A itr_q i
      in if m \<noteq> i then heapify outranks (swap_cells A i m) itr_q m else A)"
  by pat_completeness auto
termination
  by (relation "measure (\<lambda>(outranks, A, n, i). n - i)")
     (auto dest!: heapify_pick_greater intro!: diff_less_mono2)

declare heapify.simps [simp del]

function increasekey :: "('a \<Rightarrow> 'a \<Rightarrow> bool) \<Rightarrow> 'a list \<Rightarrow> nat \<Rightarrow> 'a list" where
  "increasekey outranks A i =
     (if i > 0 \<and> outranks (A ! i) (A ! PARENT i)
      then increasekey outranks (swap_cells A i (PARENT i)) (PARENT i) else A)"
  by pat_completeness auto
termination
  by (relation "measure (\<lambda>(outranks, A, i). i)") (auto simp: PARENT_def)

declare increasekey.simps [simp del]

text \<open>\<open>shitf\<close> moves every cell up to \<open>i\<close> one place to the right; cell 0 keeps its value.\<close>

fun shitf :: "'a list \<Rightarrow> nat \<Rightarrow> 'a list" where
  "shitf A 0 = A"
| "shitf A (Suc i) = shitf (A[Suc i := A ! i]) i"

section \<open>Permutation and frame\<close>

lemma length_heapify [simp]: "length (heapify outranks A n i) = length A"
proof (induction outranks A n i rule: heapify.induct)
  case (1 outranks A n i)
  then show ?case
    by (subst heapify.simps) (simp add: Let_def)
qed

lemma length_increasekey [simp]: "length (increasekey outranks A i) = length A"
proof (induction outranks A i rule: increasekey.induct)
  case (1 outranks A i)
  then show ?case
    by (subst increasekey.simps) simp
qed

lemma mset_heapify:
  "i < n \<Longrightarrow> n \<le> length A \<Longrightarrow> mset (take n (heapify outranks A n i)) = mset (take n A)"
proof (induction outranks A n i rule: heapify.induct)
  case (1 outranks A n i)
  show ?case
  proof (cases "heapify_pick outranks A n i = i")
    case True
    then show ?thesis by (subst heapify.simps) simp
  next
    case False
    with heapify_pick_greater have m: "heapify_pick outranks A n i < n" by blast
    with False "1" show ?thesis
      by (subst heapify.simps) (simp add: take_swap_cells Let_def)
  qed
qed

lemma drop_heapify: "i < n \<Longrightarrow> drop n (heapify outranks A n i) = drop n A"
proof (induction outranks A n i rule: heapify.induct)
  case (1 outranks A n i)
  show ?case
  proof (cases "heapify_pick outranks A n i = i")
    case True
    then show ?thesis by (subst heapify.simps) simp
  next
    case False
    with heapify_pick_greater have m: "heapify_pick outranks A n i < n" by blast
    with False "1" show ?thesis
      by (subst heapify.simps) (simp add: drop_swap_cells Let_def)
  qed
qed

lemma mset_increasekey:
  "i < n \<Longrightarrow> n \<le> length A \<Longrightarrow> mset (take n (increasekey outranks A i)) = mset (take n A)"
proof (induction outranks A i rule: increasekey.induct)
  case (1 outranks A i)
  have "PARENT i \<le> i" by (simp add: PARENT_def)
  with "1" show ?case
    by (subst increasekey.simps) (auto simp: take_swap_cells)
qed

lemma drop_increasekey: "i < n \<Longrightarrow> drop n (increasekey outranks A i) = drop n A"
proof (induction outranks A i rule: increasekey.induct)
  case (1 outranks A i)
  have "PARENT i \<le> i" by (simp add: PARENT_def)
  with "1" show ?case
    by (subst increasekey.simps) (auto simp: drop_swap_cells)
qed

lemma length_shitf [simp]: "length (shitf A i) = length A"
  by (induction A i rule: shitf.induct) auto

lemma nth_shitf:
  "i < length A \<Longrightarrow> k < length A \<Longrightarrow>
   shitf A i ! k = (if k = 0 \<or> i < k then A ! k else A ! (k - 1))"
proof (induction A i arbitrary: k rule: shitf.induct)
  case (1 A)
  then show ?case by simp
next
  case (2 A i)
  then show ?case
    by (cases "k = Suc i") (auto simp: nth_list_update)
qed

section \<open>Heap order\<close>

text \<open>
  \<open>heap_order\<close> is the order that \<open>heapify\<close> relies on and restores: no cell outranks the
  cell whose \<open>LEFT\<close> or \<open>RIGHT\<close> it is.  \<open>path_order\<close> is the order along the
  \<open>PARENT\<close> steps that \<open>increasekey\<close> climbs.  \<open>root_max\<close> is what the scheduler needs:
  no queued element outranks the one at index 0.
\<close>

definition heap_order :: "('a \<Rightarrow> 'a \<Rightarrow> bool) \<Rightarrow> 'a list \<Rightarrow> nat \<Rightarrow> bool" where
  "heap_order outranks A n \<longleftrightarrow>
     (\<forall>i c. (c = LEFT i \<or> c = RIGHT i) \<and> c < n \<longrightarrow> \<not> outranks (A ! c) (A ! i))"

definition path_order :: "('a \<Rightarrow> 'a \<Rightarrow> bool) \<Rightarrow> 'a list \<Rightarrow> nat \<Rightarrow> bool" where
  "path_order outranks A n \<longleftrightarrow> (\<forall>j. 0 < j \<and> j < n \<longrightarrow> \<not> outranks (A ! j) (A ! PARENT j))"

definition root_max :: "('a \<Rightarrow> 'a \<Rightarrow> bool) \<Rightarrow> 'a list \<Rightarrow> nat \<Rightarrow> bool" where
  "root_max outranks A n \<longleftrightarrow> (\<forall>j < n. \<not> outranks (A ! j) (A ! 0))"

text \<open>All of the heap is in order except below cell \<open>i\<close>, whose children are still dominated by
  the cell above \<open>i\<close>: the state of the array in the middle of \<open>heapify\<close>.\<close>

definition sink_inv :: "('a \<Rightarrow> 'a \<Rightarrow> bool) \<Rightarrow> 'a list \<Rightarrow> nat \<Rightarrow> nat \<Rightarrow> bool" where
  "sink_inv outranks A n i \<longleftrightarrow>
     (\<forall>j c. (c = LEFT j \<or> c = RIGHT j) \<and> c < n \<and> j \<noteq> i \<longrightarrow> \<not> outranks (A ! c) (A ! j)) \<and>
     (\<forall>j c. (i = LEFT j \<or> i = RIGHT j) \<and> (c = LEFT i \<or> c = RIGHT i) \<and> c < n \<longrightarrow>
        \<not> outranks (A ! c) (A ! j))"

text \<open>The array in the middle of \<open>increasekey\<close>, seen along the \<open>PARENT\<close> steps.\<close>

definition swim_inv :: "('a \<Rightarrow> 'a \<Rightarrow> bool) \<Rightarrow> 'a list \<Rightarrow> nat \<Rightarrow> nat \<Rightarrow> bool" where
  "swim_inv outranks A n i \<longleftrightarrow>
     (\<forall>j. 0 < j \<and> j < n \<and> j \<noteq> i \<longrightarrow> \<not> outranks (A ! j) (A ! PARENT j)) \<and>
     (\<forall>j. 0 < j \<and> j < n \<and> PARENT j = i \<and> j \<noteq> i \<longrightarrow> \<not> outranks (A ! j) (A ! PARENT i))"

lemma child_index_simps [simp]:
  "LEFT i \<noteq> i" "RIGHT i \<noteq> i" "LEFT i \<noteq> RIGHT j" "RIGHT j \<noteq> LEFT i"
  "LEFT i = LEFT j \<longleftrightarrow> i = j" "RIGHT i = RIGHT j \<longleftrightarrow> i = j"
  "LEFT i \<noteq> 0" "RIGHT i \<noteq> 0" "i < LEFT i" "i < RIGHT i"
  unfolding LEFT_def RIGHT_def by presburger+

text \<open>
  The order that survives any mix of insertions and removals as long as at most five elements
  are queued: index 0 is maximal and cell 3 does not outrank cell 1.
\<close>

definition small_order :: "('a \<Rightarrow> 'a \<Rightarrow> bool) \<Rightarrow> 'a list \<Rightarrow> nat \<Rightarrow> bool" where
  "small_order outranks A n \<longleftrightarrow>
     n \<le> 5 \<and> root_max outranks A n \<and> (3 < n \<longrightarrow> \<not> outranks (A ! 3) (A ! 1))"

text \<open>The contract of the comparison: a strict weak order.\<close>

locale prio_order =
  fixes outranks :: "'a \<Rightarrow> 'a \<Rightarrow> bool"
  assumes asym: "outranks a b \<Longrightarrow> \<not> outranks b a"
    and neg_trans: "\<not> outranks a b \<Longrightarrow> \<not> outranks b c \<Longrightarrow> \<not> outranks a c"
begin

lemma irrefl [simp]: "\<not> outranks a a"
  using asym by blast

lemma below_trans: "\<not> outranks a b \<Longrightarrow> outranks c b \<Longrightarrow> \<not> outranks a c"
  using asym neg_trans by blast

lemma pick_best:
  assumes "c = i \<or> (c = LEFT i \<or> c = RIGHT i) \<and> c < n"
  shows "\<not> outranks (A ! c) (A ! heapify_pick outranks A n i)"
proof -
  define m where "m = (if LEFT i < n \<and> outranks (A ! LEFT i) (A ! i) then LEFT i else i)"
  have pick: "heapify_pick outranks A n i =
      (if RIGHT i < n \<and> outranks (A ! RIGHT i) (A ! m) then RIGHT i else m)"
    by (simp add: heapify_pick_def m_def Let_def)
  have m: "\<not> outranks (A ! i) (A ! m)" "LEFT i < n \<Longrightarrow> \<not> outranks (A ! LEFT i) (A ! m)"
    by (simp_all add: m_def asym)
  show ?thesis
  proof (cases "RIGHT i < n \<and> outranks (A ! RIGHT i) (A ! m)")
    case True
    then show ?thesis using assms m below_trans [of _ "A ! m" "A ! RIGHT i"] by (auto simp: pick)
  next
    case False
    then show ?thesis using assms m by (auto simp: pick)
  qed
qed

lemma pick_outranks:
  "heapify_pick outranks A n i \<noteq> i \<Longrightarrow> outranks (A ! heapify_pick outranks A n i) (A ! i)"
  using neg_trans [of "A ! RIGHT i" "A ! i" "A ! LEFT i"] asym [of "A ! LEFT i" "A ! i"]
  by (auto simp: heapify_pick_def Let_def split: if_splits)

lemma sink_inv_step:
  assumes inv: "sink_inv outranks A n i" and i: "i < n" "n \<le> length A"
    and m: "m = heapify_pick outranks A n i" "m \<noteq> i"
  shows "sink_inv outranks (swap_cells A i m) n m"
proof -
  have mn: "m < n" "i < m" using heapify_pick_greater m by blast+
  have child: "m = LEFT i \<or> m = RIGHT i"
    using heapify_pick_cases m by metis
  have up: "outranks (A ! m) (A ! i)" using pick_outranks m by blast
  have best: "\<not> outranks (A ! c) (A ! m)" if "(c = LEFT i \<or> c = RIGHT i) \<and> c < n" for c
    using pick_best that m by blast
  have nth: "swap_cells A i m ! k = (if k = m then A ! i else if k = i then A ! m else A ! k)" for k
    using mn i by (simp add: nth_swap_cells)
  have ord: "\<not> outranks (A ! c) (A ! j)"
    if "c = LEFT j \<or> c = RIGHT j" "c < n" "j \<noteq> i" for c j
    using inv that unfolding sink_inv_def by blast
  have grand: "\<not> outranks (A ! c) (A ! j)"
    if "i = LEFT j \<or> i = RIGHT j" "c = LEFT i \<or> c = RIGHT i" "c < n" for c j
    using inv that unfolding sink_inv_def by blast
  have "\<not> outranks (swap_cells A i m ! c) (swap_cells A i m ! j)"
    if c: "c = LEFT j \<or> c = RIGHT j" "c < n" "j \<noteq> m" for c j
  proof (cases "j = i")
    case True
    then show ?thesis using c best asym up mn by (auto simp: nth)
  next
    case False
    then have "c \<noteq> m" using c child by auto
    then show ?thesis
      using c False ord grand [of j m] child mn by (auto simp: nth)
  qed
  moreover have "\<not> outranks (swap_cells A i m ! c) (swap_cells A i m ! j)"
    if c: "m = LEFT j \<or> m = RIGHT j" "c = LEFT m \<or> c = RIGHT m" "c < n" for c j
  proof -
    have "j = i" using c child by auto
    moreover have "c \<noteq> m \<and> c \<noteq> i" using c mn by (auto simp: LEFT_def RIGHT_def)
    ultimately show ?thesis using c ord [of c m] mn by (auto simp: nth)
  qed
  ultimately show ?thesis unfolding sink_inv_def by blast
qed

lemma heapify_heap_order:
  "sink_inv outranks A n i \<Longrightarrow> i < n \<Longrightarrow> n \<le> length A \<Longrightarrow>
   heap_order outranks (heapify outranks A n i) n"
proof (induction "n - i" arbitrary: A i rule: less_induct)
  case less
  define m where "m = heapify_pick outranks A n i"
  show ?case
  proof (cases "m = i")
    case True
    have "heap_order outranks A n"
      unfolding heap_order_def
      using less.prems(1) pick_best [of _ i n A] True unfolding sink_inv_def m_def by metis
    with True show ?thesis by (subst heapify.simps) (simp add: m_def)
  next
    case False
    then have m: "m < n" "i < m" using heapify_pick_greater unfolding m_def by blast+
    with less.prems False have "sink_inv outranks (swap_cells A i m) n m"
      by (intro sink_inv_step) (auto simp: m_def)
    with less.hyps [of m "swap_cells A i m"] m less.prems
    have "heap_order outranks (heapify outranks (swap_cells A i m) n m) n" by simp
    with False show ?thesis by (subst heapify.simps) (simp add: Let_def m_def)
  qed
qed

lemma heap_order_root_max: "heap_order outranks A n \<Longrightarrow> root_max outranks A n"
  unfolding root_max_def
proof (intro allI impI)
  fix j assume h: "heap_order outranks A n" and "j < n"
  then show "\<not> outranks (A ! j) (A ! 0)"
  proof (induction j rule: less_induct)
    case (less j)
    show ?case
    proof (cases "j = 0")
      case False
      define p where "p = (j - 1) div 2"
      have "j = LEFT p \<or> j = RIGHT p" using False unfolding p_def LEFT_def RIGHT_def by presburger
      with less.prems have "\<not> outranks (A ! j) (A ! p)" unfolding heap_order_def by blast
      moreover have "p < j" using False by (simp add: p_def)
      then have "\<not> outranks (A ! p) (A ! 0)" using less by simp
      ultimately show ?thesis by (rule neg_trans)
    qed simp
  qed
qed

lemma swim_inv_step:
  assumes inv: "swim_inv outranks A n i" and i: "0 < i" "i < n" "n \<le> length A"
    and up: "outranks (A ! i) (A ! PARENT i)"
  shows "swim_inv outranks (swap_cells A i (PARENT i)) n (PARENT i)"
proof -
  define p where "p = PARENT i"
  have p: "p < i" using i by (simp add: p_def PARENT_def)
  have nth: "swap_cells A i p ! k = (if k = p then A ! i else if k = i then A ! p else A ! k)" for k
    using p i by (simp add: nth_swap_cells)
  have ord: "\<not> outranks (A ! j) (A ! PARENT j)" if "0 < j" "j < n" "j \<noteq> i" for j
    using inv that unfolding swim_inv_def by blast
  have grand: "\<not> outranks (A ! j) (A ! p)" if "0 < j" "j < n" "PARENT j = i" "j \<noteq> i" for j
    using inv that unfolding swim_inv_def p_def by blast
  have par: "PARENT j < j" if "0 < j" for j using that by (simp add: PARENT_def)
  have up': "outranks (A ! i) (A ! p)" using up by (simp add: p_def)
  have sib: "\<not> outranks (A ! j) (A ! i)" if "0 < j" "j < n" "j \<noteq> i" "PARENT j = p" for j
    using ord [of j] that below_trans up' by metis
  have "\<not> outranks (swap_cells A i p ! j) (swap_cells A i p ! PARENT j)"
    if j: "0 < j" "j < n" "j \<noteq> p" for j
  proof (cases "j = i")
    case True
    then show ?thesis using asym [OF up'] p by (simp add: nth p_def [symmetric])
  next
    case False
    then show ?thesis
      using j par [of j] ord [of j] grand [of j] sib [of j] by (auto simp: nth)
  qed
  moreover have "\<not> outranks (swap_cells A i p ! j) (swap_cells A i p ! PARENT p)"
    if j: "0 < j" "j < n" "PARENT j = p" "j \<noteq> p" for j
  proof (cases "p = 0")
    case True
    then show ?thesis
      using j sib [of j] asym up' p
      by (cases "j = i") (auto simp: nth [unfolded True] PARENT_def)
  next
    case False
    then have pp: "PARENT p \<noteq> p" "PARENT p \<noteq> i" using par [of p] p by auto
    have "\<not> outranks (A ! p) (A ! PARENT p)" using ord [of p] False p i by simp
    then show ?thesis
      using j pp p i ord [of j] neg_trans [of "A ! j" "A ! p" "A ! PARENT p"]
      by (cases "j = i") (auto simp: nth)
  qed
  ultimately show ?thesis unfolding swim_inv_def p_def by blast
qed

lemma increasekey_path_order:
  "swim_inv outranks A n i \<Longrightarrow> i < n \<Longrightarrow> n \<le> length A \<Longrightarrow>
   path_order outranks (increasekey outranks A i) n"
proof (induction i arbitrary: A rule: less_induct)
  case (less i)
  show ?case
  proof (cases "i > 0 \<and> outranks (A ! i) (A ! PARENT i)")
    case True
    then have "PARENT i < i" by (simp add: PARENT_def)
    with True less.IH [of "PARENT i" "swap_cells A i (PARENT i)"] less.prems swim_inv_step
    show ?thesis by (subst increasekey.simps) simp
  next
    case False
    with less.prems have "path_order outranks A n"
      unfolding path_order_def swim_inv_def by blast
    with False show ?thesis by (subst increasekey.simps) auto
  qed
qed

lemma path_order_insert:
  assumes "path_order outranks A n" "n < length A"
  shows "path_order outranks (increasekey outranks (A[n := x]) n) (Suc n)"
proof (rule increasekey_path_order)
  have "PARENT j < n" if "0 < j" "j < Suc n" for j using that by (simp add: PARENT_def)
  with assms show "swim_inv outranks (A[n := x]) (Suc n) n"
    unfolding swim_inv_def path_order_def by (auto simp: nth_list_update less_Suc_eq)
qed (use assms in auto)

text \<open>Climbing along \<open>PARENT\<close> keeps index 0 maximal, whatever the order of the other cells.\<close>

lemma increasekey_root_max:
  "(\<And>j. j < n \<Longrightarrow> j \<noteq> i \<Longrightarrow> \<not> outranks (A ! j) (A ! 0)) \<Longrightarrow> i < n \<Longrightarrow> n \<le> length A \<Longrightarrow>
   root_max outranks (increasekey outranks A i) n"
proof (induction i arbitrary: A rule: less_induct)
  case (less i)
  show ?case
  proof (cases "i > 0 \<and> outranks (A ! i) (A ! PARENT i)")
    case True
    define p where "p = PARENT i"
    have p: "p < i" using True by (simp add: p_def PARENT_def)
    have nth: "swap_cells A i p ! k = (if k = p then A ! i else if k = i then A ! p else A ! k)" for k
      using p less.prems by (simp add: nth_swap_cells)
    have "\<not> outranks (swap_cells A i p ! j) (swap_cells A i p ! 0)" if "j < n" "j \<noteq> p" for j
    proof (cases "p = 0")
      case True
      with \<open>i > 0 \<and> outranks (A ! i) (A ! PARENT i)\<close> have "outranks (A ! i) (A ! 0)"
        by (simp add: p_def)
      with that True p less.prems(1) [of j] below_trans [of "A ! j" "A ! 0" "A ! i"] show ?thesis
        by (cases "j = i") (auto simp: nth [unfolded True] dest: asym)
    next
      case False
      with that p less.prems(1) [of j] less.prems(1) [of p] less.prems(2) show ?thesis
        by (auto simp: nth)
    qed
    with less.IH [of p "swap_cells A i p"] p less.prems True show ?thesis
      by (subst increasekey.simps) (simp add: p_def)
  next
    case False
    have "\<not> outranks (A ! i) (A ! 0)"
    proof (cases "i = 0")
      case False
      with \<open>\<not> (i > 0 \<and> outranks (A ! i) (A ! PARENT i))\<close>
      have "\<not> outranks (A ! i) (A ! PARENT i)" by simp
      moreover have "\<not> outranks (A ! PARENT i) (A ! 0)"
        using False less.prems by (simp add: PARENT_def)
      ultimately show ?thesis by (rule neg_trans)
    qed simp
    with less.prems have "root_max outranks A n" unfolding root_max_def by blast
    with False show ?thesis by (subst increasekey.simps) auto
  qed
qed

lemma root_max_insert:
  assumes "root_max outranks A n" "n < length A"
  shows "root_max outranks (increasekey outranks (A[n := x]) n) (Suc n)"
proof (rule increasekey_root_max)
  fix j assume "j < Suc n" "j \<noteq> n"
  with assms show "\<not> outranks (A[n := x] ! j) (A[n := x] ! 0)"
    unfolding root_max_def by (cases n) (auto simp: nth_list_update)
qed (use assms in auto)

text \<open>Removing the root: the last element takes its place and sinks.\<close>

lemma remove_root_heap_order:
  assumes "\<And>i c. c = LEFT i \<or> c = RIGHT i \<Longrightarrow> c < n \<Longrightarrow> i \<noteq> 0 \<Longrightarrow> \<not> outranks (A ! c) (A ! i)"
    and "n \<le> length A"
  shows "heap_order outranks (heapify outranks (A[0 := x]) n 0) n"
proof (cases "n = 0")
  case True
  then show ?thesis by (simp add: heap_order_def)
next
  case False
  have "sink_inv outranks (A[0 := x]) n 0"
    unfolding sink_inv_def using assms(1) by (auto simp: nth_list_update)
  with False assms(2) show ?thesis by (intro heapify_heap_order) auto
qed

lemma heap_order_remove:
  assumes "heap_order outranks A (Suc n)" "n < length A"
  shows "heap_order outranks (heapify outranks (A[0 := A ! n]) n 0) n"
proof (rule remove_root_heap_order)
  show "\<not> outranks (A ! c) (A ! i)" if "c = LEFT i \<or> c = RIGHT i" "c < n" for i c
    using assms(1) that less_SucI unfolding heap_order_def by blast
qed (use assms in simp)

lemma increasekey_cell_3_1:
  assumes "\<And>j. j < n \<Longrightarrow> j \<noteq> i \<Longrightarrow> \<not> outranks (A ! j) (A ! 0)"
    and "i \<noteq> 3 \<Longrightarrow> \<not> outranks (A ! 3) (A ! 1)"
    and "i \<le> 5" "i < n" "3 < n" "n \<le> length A"
  shows "\<not> outranks (increasekey outranks A i ! 3) (increasekey outranks A i ! 1)"
  using assms
proof (induction i arbitrary: A rule: less_induct)
  case (less i)
  define p where "p = PARENT i"
  show ?case
  proof (cases "i > 0 \<and> outranks (A ! i) (A ! p)")
    case False
    have "\<not> outranks (A ! 3) (A ! 1)"
      using False less.prems(2) by (cases "i = 3") (simp_all add: p_def PARENT_def)
    with False show ?thesis by (subst (1 2) increasekey.simps) (auto simp: p_def)
  next
    case True
    then have p: "p < i" by (simp add: p_def PARENT_def)
    have nth: "swap_cells A i p ! k = (if k = p then A ! i else if k = i then A ! p else A ! k)" for k
      using p less.prems by (simp add: nth_swap_cells)
    have root: "\<not> outranks (swap_cells A i p ! j) (swap_cells A i p ! 0)" if "j < n" "j \<noteq> p" for j
    proof (cases "p = 0")
      case True
      with that p \<open>i > 0 \<and> outranks (A ! i) (A ! p)\<close> less.prems(1) [of j]
        below_trans [of "A ! j" "A ! 0" "A ! i"] show ?thesis
        by (cases "j = i") (auto simp: nth [unfolded True] dest: asym)
    next
      case False
      with that p less.prems(1) [of j] less.prems(1) [of p] less.prems(4) show ?thesis
        by (auto simp: nth)
    qed
    have step: "\<not> outranks (swap_cells A i p ! 3) (swap_cells A i p ! 1)"
    proof -
      consider "i = 1" | "i = 2" | "i = 3" | "i = 4" | "i = 5" using True less.prems(3) by linarith
      then show ?thesis
      proof cases
        case 1
        then show ?thesis
          unfolding nth using less.prems(1) [of 3] less.prems(5) by (auto simp: p_def PARENT_def)
      next
        case 2
        then show ?thesis
          unfolding nth using less.prems(2) True below_trans [of "A ! 3" "A ! 1" "A ! 2"]
          by (auto simp: p_def PARENT_def)
      next
        case 3
        then show ?thesis unfolding nth using True asym [of "A ! 3" "A ! 1"] by (auto simp: p_def PARENT_def)
      next
        case 4
        then show ?thesis unfolding nth using less.prems(2) by (simp add: p_def PARENT_def)
      next
        case 5
        then show ?thesis unfolding nth using less.prems(2) by (simp add: p_def PARENT_def)
      qed
    qed
    have "\<not> outranks (increasekey outranks (swap_cells A i p) p ! 3)
        (increasekey outranks (swap_cells A i p) p ! 1)"
      using less.IH [of p "swap_cells A i p"] p root step less.prems by simp
    with True show ?thesis by (subst (1 2) increasekey.simps) (simp add: p_def)
  qed
qed

lemma small_order_insert:
  assumes "small_order outranks A n" "n < 5" "n < length A"
  shows "small_order outranks (increasekey outranks (A[n := x]) n) (Suc n)"
proof -
  have root: "root_max outranks A n" using assms by (simp add: small_order_def)
  have "\<not> outranks (increasekey outranks (A[n := x]) n ! 3)
      (increasekey outranks (A[n := x]) n ! 1)" if "3 < Suc n"
  proof (rule increasekey_cell_3_1)
    show "\<not> outranks (A[n := x] ! j) (A[n := x] ! 0)" if "j < Suc n" "j \<noteq> n" for j
      using that \<open>3 < Suc n\<close> root unfolding root_max_def by (simp add: nth_list_update)
    show "n \<noteq> 3 \<Longrightarrow> \<not> outranks (A[n := x] ! 3) (A[n := x] ! 1)"
      using assms that by (simp add: small_order_def nth_list_update)
  qed (use assms that in auto)
  with root_max_insert [OF root assms(3), of x] assms(2) show ?thesis
    unfolding small_order_def by auto
qed

lemma small_order_remove:
  assumes "small_order outranks A (Suc n)" "n < length A"
  shows "small_order outranks (heapify outranks (A[0 := A ! n]) n 0) n"
proof -
  define B where "B = heapify outranks (A[0 := A ! n]) n 0"
  have "heap_order outranks B n"
    unfolding B_def
  proof (rule remove_root_heap_order)
    fix i c assume c: "c = LEFT i \<or> c = RIGHT i" "c < n" "i \<noteq> 0"
    have "n \<le> 4" using assms by (simp add: small_order_def)
    with c have "c = 3 \<and> i = 1" unfolding LEFT_def RIGHT_def by linarith
    with assms c show "\<not> outranks (A ! c) (A ! i)" by (simp add: small_order_def)
  qed (use assms in simp)
  moreover from this [unfolded heap_order_def, rule_format, of 3 1]
  have "3 < n \<Longrightarrow> \<not> outranks (B ! 3) (B ! 1)" by (simp add: LEFT_def)
  ultimately show ?thesis
    using assms heap_order_root_max [of B n] unfolding small_order_def B_def by simp
qed

end

end
