(* ===== verification/Kstring.thy ===== *)
theory Kstring
  imports Prelude
begin

text \<open>
  Kernel memory and the byte routines over it: the store instructions \<open>stosb\<close> and \<open>stosl\<close>
  of \<open>src/x86.h\<close> and the functions of \<open>src/string.c\<close>.  Memory is a total map from 32-bit
  addresses to bytes; pointer arithmetic wraps as it does on the machine.
\<close>

type_synonym mem = "uint \<Rightarrow> uchar"

section \<open>32-bit loads and stores (little endian)\<close>

definition byte_of :: "uint \<Rightarrow> nat \<Rightarrow> uchar" where
  "byte_of v k = ucast (drop_bit (8 * k) v)"

definition write32 :: "mem \<Rightarrow> uint \<Rightarrow> uint \<Rightarrow> mem" where
  "write32 m a v =
     m(a := byte_of v 0, a + 1 := byte_of v 1, a + 2 := byte_of v 2, a + 3 := byte_of v 3)"

definition read32 :: "mem \<Rightarrow> uint \<Rightarrow> uint" where
  "read32 m a = ucast (m a) OR push_bit 8 (ucast (m (a + 1))) OR
     push_bit 16 (ucast (m (a + 2))) OR push_bit 24 (ucast (m (a + 3)))"

section \<open>String stores (src/x86.h)\<close>

fun stosb :: "mem \<Rightarrow> uint \<Rightarrow> uint \<Rightarrow> nat \<Rightarrow> mem" where
  "stosb m addr data 0 = m"
| "stosb m addr data (Suc cnt) = stosb (m(addr := ucast data)) (addr + 1) data cnt"

fun stosl :: "mem \<Rightarrow> uint \<Rightarrow> uint \<Rightarrow> nat \<Rightarrow> mem" where
  "stosl m addr data 0 = m"
| "stosl m addr data (Suc cnt) = stosl (write32 m addr data) (addr + 4) data cnt"

section \<open>src/string.c\<close>

definition memset :: "mem \<Rightarrow> uint \<Rightarrow> uint \<Rightarrow> uint \<Rightarrow> mem" where
  "memset m dst c n =
     (if dst mod 4 = 0 \<and> n mod 4 = 0
      then (let c = c AND 0xFF
            in stosl m dst (push_bit 24 c OR push_bit 16 c OR push_bit 8 c OR c) (unat (n div 4)))
      else stosb m dst c (unat n))"

text \<open>\<open>while(n-- > 0)\<close> runs its body once for each of the \<open>n\<close> bytes.\<close>

fun memcmp_loop :: "mem \<Rightarrow> uint \<Rightarrow> uint \<Rightarrow> nat \<Rightarrow> int" where
  "memcmp_loop m s1 s2 0 = 0"
| "memcmp_loop m s1 s2 (Suc n) =
     (if m s1 \<noteq> m s2 then uint (m s1) - uint (m s2) else memcmp_loop m (s1 + 1) (s2 + 1) n)"

definition memcmp :: "mem \<Rightarrow> uint \<Rightarrow> uint \<Rightarrow> uint \<Rightarrow> int" where
  "memcmp m v1 v2 n = memcmp_loop m v1 v2 (unat n)"

fun copy_down :: "mem \<Rightarrow> uint \<Rightarrow> uint \<Rightarrow> nat \<Rightarrow> mem" where
  \<comment> \<open>\<open>*--d = *--s\<close>\<close>
  "copy_down m d s 0 = m"
| "copy_down m d s (Suc n) = copy_down (m(d - 1 := m (s - 1))) (d - 1) (s - 1) n"

fun copy_up :: "mem \<Rightarrow> uint \<Rightarrow> uint \<Rightarrow> nat \<Rightarrow> mem" where
  \<comment> \<open>\<open>*d++ = *s++\<close>\<close>
  "copy_up m d s 0 = m"
| "copy_up m d s (Suc n) = copy_up (m(d := m s)) (d + 1) (s + 1) n"

definition memmove :: "mem \<Rightarrow> uint \<Rightarrow> uint \<Rightarrow> uint \<Rightarrow> mem" where
  "memmove m dst src n =
     (if src < dst \<and> src + n > dst then copy_down m (dst + n) (src + n) (unat n)
      else copy_up m dst src (unat n))"

definition memcpy :: "mem \<Rightarrow> uint \<Rightarrow> uint \<Rightarrow> uint \<Rightarrow> mem" where
  "memcpy m dst src n = memmove m dst src n"

fun strncmp_loop :: "mem \<Rightarrow> uint \<Rightarrow> uint \<Rightarrow> nat \<Rightarrow> int" where
  "strncmp_loop m p q 0 = 0"
| "strncmp_loop m p q (Suc n) =
     (if m p \<noteq> 0 \<and> m p = m q then strncmp_loop m (p + 1) (q + 1) n
      else uint (m p) - uint (m q))"

definition strncmp :: "mem \<Rightarrow> uint \<Rightarrow> uint \<Rightarrow> uint \<Rightarrow> int" where
  "strncmp m p q n = strncmp_loop m p q (unat n)"

text \<open>
  The two loops of \<open>strncpy\<close>: bytes are copied up to and including the NUL, then the rest of
  the \<open>n\<close> bytes is cleared.  When the first loop stops on the NUL its guard has already
  decremented \<open>n\<close>.
\<close>

fun strncpy_loop :: "mem \<Rightarrow> uint \<Rightarrow> uint \<Rightarrow> nat \<Rightarrow> mem" where
  "strncpy_loop m s t 0 = m"
| "strncpy_loop m s t (Suc n) =
     (let m' = m(s := m t)
      in if m t \<noteq> 0 then strncpy_loop m' (s + 1) (t + 1) n
         else stosb m' (s + 1) 0 n)"

definition strncpy :: "mem \<Rightarrow> uint \<Rightarrow> uint \<Rightarrow> int \<Rightarrow> mem" where
  "strncpy m s t n = strncpy_loop m s t (nat n)"

text \<open>\<open>while(--n > 0 && (*s++ = *t++) != 0)\<close>: at most \<open>n - 1\<close> bytes are copied; the pointer
  \<open>s\<close> after the loop receives the terminating NUL.\<close>

fun safestrcpy_loop :: "mem \<Rightarrow> uint \<Rightarrow> uint \<Rightarrow> nat \<Rightarrow> mem \<times> uint" where
  "safestrcpy_loop m s t 0 = (m, s)"
| "safestrcpy_loop m s t (Suc n) =
     (let m' = m(s := m t)
      in if m t \<noteq> 0 then safestrcpy_loop m' (s + 1) (t + 1) n else (m', s + 1))"

definition safestrcpy :: "mem \<Rightarrow> uint \<Rightarrow> uint \<Rightarrow> int \<Rightarrow> mem" where
  "safestrcpy m s t n =
     (if n \<le> 0 then m
      else (let (m', s') = safestrcpy_loop m s t (nat (n - 1)) in m'(s' := 0)))"

text \<open>\<open>for(n = 0; s[n]; n++)\<close> may run off a string without NUL: \<open>None\<close> then.\<close>

partial_function (option) strlen_from :: "mem \<Rightarrow> uint \<Rightarrow> nat \<Rightarrow> nat option" where
  "strlen_from m s n = (if m (s + word_of_nat n) = 0 then Some n else strlen_from m s (Suc n))"

definition strlen :: "mem \<Rightarrow> uint \<Rightarrow> nat option" where
  "strlen m s = strlen_from m s 0"

section \<open>Loads and stores\<close>

lemma read32_write32 [simp]: "read32 (write32 m a v) a = v"
proof (rule bit_word_eqI)
  fix n assume n: "n < LENGTH(32)"
  then consider "n < 8" | "8 \<le> n \<and> n < 16" | "16 \<le> n \<and> n < 24" | "24 \<le> n \<and> n < 32" by force
  then show "bit (read32 (write32 m a v) a) n = bit v n"
    by cases (auto simp: read32_def write32_def byte_of_def bit_simps)
qed

lemma write32_other:
  "x \<noteq> a \<Longrightarrow> x \<noteq> a + 1 \<Longrightarrow> x \<noteq> a + 2 \<Longrightarrow> x \<noteq> a + 3 \<Longrightarrow> write32 m a v x = m x"
  by (simp add: write32_def)

lemma read32_cong:
  assumes "\<And>k. k < 4 \<Longrightarrow> m (a + word_of_nat k) = m' (a + word_of_nat k)"
  shows "read32 m a = read32 m' a"
  using assms [of 0] assms [of 1] assms [of 2] assms [of 3] by (simp add: read32_def)

section \<open>Filling and copying\<close>

lemma unat_step_down:
  "x \<noteq> a \<Longrightarrow> unat (x - a) = Suc (unat (x - (a + 1 :: uint)))"
  using unat_minus_one_uint [of "x - a"] unat_eq_zero [of "x - a"]
  by (simp add: algebra_simps)

lemma stosb_apply:
  "n \<le> 2 ^ 32 \<Longrightarrow> stosb m a c n x = (if unat (x - a) < n then ucast c else m x)"
proof (induction n arbitrary: m a)
  case 0
  then show ?case by simp
next
  case (Suc n)
  show ?case
  proof (cases "x = a")
    case True
    have "\<not> unat (a - (a + 1)) < n" using Suc.prems by simp
    with True Suc show ?thesis by simp
  next
    case False
    with Suc unat_step_down [OF False] show ?thesis by simp
  qed
qed

definition rep_byte :: "uint \<Rightarrow> uint" where
  "rep_byte c = push_bit 24 (c AND 0xFF) OR push_bit 16 (c AND 0xFF) OR push_bit 8 (c AND 0xFF) OR
     (c AND 0xFF)"

lemma and_255: "(c :: uint) AND 0xFF = take_bit 8 c"
  by (simp add: take_bit_eq_mask mask_eq_exp_minus_1)

lemma byte_of_rep_byte: "k < 4 \<Longrightarrow> byte_of (rep_byte c) k = ucast c"
proof (rule bit_word_eqI)
  fix n assume "k < 4" "n < LENGTH(8)"
  then consider "k = 0" | "k = 1" | "k = 2" | "k = 3" by linarith
  then show "bit (byte_of (rep_byte c) k) n = bit (ucast c :: uchar) n"
    using \<open>n < LENGTH(8)\<close>
    by cases (auto simp: byte_of_def rep_byte_def and_255 bit_simps)
qed

lemma write32_rep_byte: "write32 m a (rep_byte c) = stosb m a c 4"
  by (simp add: write32_def byte_of_rep_byte numeral_eq_Suc add.assoc)

lemma stosb_add: "stosb m a c (k + n) = stosb (stosb m a c k) (a + word_of_nat k) c n"
  by (induction k arbitrary: m a) (simp_all add: add.assoc)

lemma stosl_rep_byte: "stosl m a (rep_byte c) n = stosb m a c (4 * n)"
proof (induction n arbitrary: m a)
  case (Suc n)
  then show ?case
    using stosb_add [of m a c 4 "4 * n"] by (simp add: write32_rep_byte)
qed simp

text \<open>Whichever of its two branches runs, \<open>memset\<close> fills exactly the \<open>n\<close> bytes at \<open>dst\<close>.\<close>

lemma unat_numeral_4_uint: "unat (4 :: uint) = 4"
  by simp

lemma memset_stosb: "memset m dst c n = stosb m dst c (unat n)"
proof (cases "dst mod 4 = 0 \<and> n mod 4 = 0")
  case True
  then have "unat n mod 4 = 0" 

    by (metis unat_0 unat_mod unat_numeral_4_uint)
  then have "4 * unat (n div 4) = unat n"
    by (simp add: unat_div mod_eq_0_iff_dvd)
  with True stosl_rep_byte [of m dst c "unat (n div 4)"] show ?thesis
    by (simp add: memset_def Let_def rep_byte_def)
next
  case False
  then show ?thesis by (auto simp: memset_def)
qed

lemma memset_apply:
  "memset m dst c n x = (if x - dst < n then ucast c else m x)"
proof -
  have "unat n \<le> 2 ^ 32" by (simp add: unat_uint_less less_imp_le)
  then show ?thesis by (simp add: memset_stosb stosb_apply word_less_nat_alt)
qed

lemma copy_up_apply:
  "n \<le> 2 ^ 32 \<Longrightarrow> (\<And>i. i < n \<Longrightarrow> i \<le> unat (s + word_of_nat i - d)) \<Longrightarrow>
   copy_up m d s n x = (if unat (x - d) < n then m (s + (x - d)) else m x)"
proof (induction n arbitrary: m d s)
  case 0
  then show ?case by simp
next
  case (Suc n)
  have "i \<le> unat (s + 1 + word_of_nat i - (d + 1))" if "i < n" for i
    using Suc.prems(2) [of i] that by (simp add: algebra_simps)
  with Suc have IH: "copy_up (m(d := m s)) (d + 1) (s + 1) n x =
      (if unat (x - (d + 1)) < n then (m(d := m s)) (s + 1 + (x - (d + 1))) else (m(d := m s)) x)"
    by simp
  show ?case
  proof (cases "x = d")
    case True
    have "\<not> unat (d - (d + 1)) < n" using Suc.prems by simp
    with True IH show ?thesis by simp
  next
    case False
    note step = unat_step_down [OF False]
    have "s + (x - d) \<noteq> d" if "unat (x - d) < Suc n"
    proof
      assume eq: "s + (x - d) = d"
      define i where "i = unat (x - d)"
      have "word_of_nat i = x - d" by (simp add: i_def)
      with Suc.prems(2) [of i] that eq have "i \<le> 0" by (simp add: i_def)
      with False show False by (simp add: i_def unat_eq_zero)
    qed
    with IH False step show ?thesis by (auto simp: algebra_simps)
  qed
qed

lemma copy_down_apply:
  "n \<le> 2 ^ 32 \<Longrightarrow>
   (\<And>i j. i < j \<Longrightarrow> j < n \<Longrightarrow> d + word_of_nat j \<noteq> s + (word_of_nat i :: uint)) \<Longrightarrow>
   copy_down m (d + word_of_nat n) (s + word_of_nat n) n x =
     (if unat (x - d) < n then m (s + (x - d)) else m x)"
proof (induction n arbitrary: m)
  case 0
  then show ?case by simp
next
  case (Suc n)
  define e where "e = d + word_of_nat n"
  have "copy_down m (d + word_of_nat (Suc n)) (s + word_of_nat (Suc n)) (Suc n) x =
      copy_down (m(e := m (s + word_of_nat n))) (d + word_of_nat n) (s + word_of_nat n) n x"
    by (simp add: e_def algebra_simps)
  also have "\<dots> = (if unat (x - d) < n then (m(e := m (s + word_of_nat n))) (s + (x - d))
      else (m(e := m (s + word_of_nat n))) x)"
    using Suc by simp
  also have "\<dots> = (if unat (x - d) < Suc n then m (s + (x - d)) else m x)"
  proof -
    have "x = e \<longleftrightarrow> unat (x - d) = n"
      using Suc.prems(1)
      by (auto simp: e_def unat_word_of_nat_uint algebra_simps)
    moreover have "s + (x - d) \<noteq> e" if "unat (x - d) < n"
      using Suc.prems(2) [of "unat (x - d)" n] that by (auto simp: e_def)
    ultimately show ?thesis by (auto simp: less_Suc_eq e_def)
  qed
  finally show ?case .
qed

text \<open>
  \<open>memmove\<close> copies as if through a temporary buffer, overlapping areas included, when neither
  area runs past the end of the address space.
\<close>

lemma memmove_apply:
  assumes src: "unat src + unat n < 4294967296" and dst: "unat dst + unat n \<le> 4294967296"
  shows "memmove m dst src n x = (if x - dst < n then m (src + (x - dst)) else m x)"
proof (cases "src < dst \<and> src + n > dst")
  case True
  have "dst + word_of_nat j \<noteq> src + (word_of_nat i :: uint)" if "i < j" "j < unat n" for i j
  proof -
    have "unat (src + (word_of_nat i :: uint)) = unat src + i"
      using src that by (intro unat_add_word_of_nat) simp
    moreover have "unat (dst + (word_of_nat j :: uint)) = unat dst + j"
      using dst that by (intro unat_add_word_of_nat) simp
    ultimately show ?thesis using True that by (auto simp: word_less_nat_alt)
  qed
  then have "copy_down m (dst + n) (src + n) (unat n) x =
      (if unat (x - dst) < unat n then m (src + (x - dst)) else m x)"
    using copy_down_apply [of "unat n" dst src m x] by (simp add: unat_uint_less less_imp_le)
  with True show ?thesis by (simp add: memmove_def word_less_nat_alt)
next
  case False
  have "i \<le> unat (src + word_of_nat i - dst)" if "i < unat n" for i
  proof -
    have u: "unat (src + (word_of_nat i :: uint)) = unat src + i"
      using src that by (intro unat_add_word_of_nat) simp
    have "unat (src + n) = unat src + unat n" using src by (simp add: unat_plus_if')
    with False that have "unat dst \<le> unat src \<or> unat src + i < unat dst"
      by (auto simp: word_less_nat_alt not_less)
    then show ?thesis
      using u unat_uint_less [of dst] by (auto simp: unat_sub_if_size word_size)
  qed
  then have "copy_up m dst src (unat n) x =
      (if unat (x - dst) < unat n then m (src + (x - dst)) else m x)"
    using copy_up_apply [of "unat n" src dst m x] by (simp add: unat_uint_less less_imp_le)
  with False show ?thesis by (auto simp: memmove_def word_less_nat_alt)
qed

section \<open>Comparing\<close>

lemma memcmp_loop_zero_iff:
  "memcmp_loop m p q n = 0 \<longleftrightarrow> (\<forall>i < n. m (p + word_of_nat i) = m (q + word_of_nat i))"
proof (induction n arbitrary: p q)
  case (Suc n)
  show ?case
    by (auto simp: Suc All_less_Suc2 algebra_simps uint_0_iff)
qed simp

lemma strncmp_loop_zero_iff:
  "strncmp_loop m p q n = 0 \<longleftrightarrow>
   (\<forall>i < n. (\<forall>j < i. m (p + word_of_nat j) \<noteq> 0) \<longrightarrow> m (p + word_of_nat i) = m (q + word_of_nat i))"
proof (induction n arbitrary: p q)
  case (Suc n)
  show ?case
    by (auto simp: Suc All_less_Suc2 algebra_simps uint_0_iff)
qed simp

lemma memcmp_sign:
  "memcmp_loop m p q n = d \<Longrightarrow> d \<noteq> 0 \<Longrightarrow>
   \<exists>i < n. (\<forall>j < i. m (p + word_of_nat j) = m (q + word_of_nat j)) \<and>
     d = uint (m (p + word_of_nat i)) - uint (m (q + word_of_nat i))"
proof (induction n arbitrary: p q)
  case (Suc n)
  show ?case
  proof (cases "m p = m q")
    case True
    with Suc.IH [of "p + 1" "q + 1"] Suc.prems obtain i where "i < n" "\<forall>j < i. m (p + 1 + word_of_nat j) = m (q + 1 + word_of_nat j)"
      "d = uint (m (p + 1 + word_of_nat i)) - uint (m (q + 1 + word_of_nat i))" by auto
    with True show ?thesis by (intro exI [of _ "Suc i"]) (auto simp: All_less_Suc2 algebra_simps)
  next
    case False
    with Suc.prems show ?thesis by (intro exI [of _ 0]) simp
  qed
qed simp

section \<open>Bounded string copies\<close>

lemma strncpy_loop_frame:
  "n \<le> 2 ^ 32 \<Longrightarrow> \<not> unat (x - s) < n \<Longrightarrow> strncpy_loop m s t n x = m x"
proof (induction n arbitrary: m s t)
  case (Suc n)
  then have "x \<noteq> s" by auto
  with Suc unat_step_down [of x s] show ?case by (auto simp: Let_def stosb_apply)
qed simp

lemma strncpy_loop_apply:
  "n \<le> 2 ^ 32 \<Longrightarrow> (\<And>i j. i < n \<Longrightarrow> j < n \<Longrightarrow> s + word_of_nat i \<noteq> t + (word_of_nat j :: uint)) \<Longrightarrow>
   i < n \<Longrightarrow> strncpy_loop m s t n (s + word_of_nat i) =
     (if \<exists>j < i. m (t + word_of_nat j) = 0 then 0 else m (t + word_of_nat i))"
proof (induction n arbitrary: m s t i)
  case (Suc n)
  define m' where "m' = m(s := m t)"
  have first: "\<not> unat (s - (s + 1)) < n" using Suc.prems(1) by simp
  show ?case
  proof (cases i)
    case 0
    have "strncpy_loop m' (s + 1) (t + 1) n s = m t" "stosb m' (s + 1) 0 n s = m t"
      using Suc.prems(1) first by (simp_all add: strncpy_loop_frame stosb_apply m'_def)
    with 0 show ?thesis by (auto simp: Let_def m'_def)
  next
    case (Suc k)
    have m': "m' (t + 1 + word_of_nat j) = m (t + 1 + word_of_nat j)" if "j < n" for j
      using Suc.prems(2) [of 0 "Suc j"] that by (simp add: m'_def add.assoc)
    have off: "s + 1 + word_of_nat a \<noteq> t + 1 + (word_of_nat b :: uint)" if "a < n" "b < n" for a b
      using Suc.prems(2) [of "Suc a" "Suc b"] that by (simp add: algebra_simps)
    have k: "k < n" using Suc Suc.prems(3) by simp
    show ?thesis
    proof (cases "m t = 0")
      case True
      have "unat (s + word_of_nat i - (s + 1)) = k"
        using Suc k Suc.prems(1) by (simp add: algebra_simps unat_word_of_nat_uint)
      moreover have "\<exists>j < i. m (t + word_of_nat j) = 0" using Suc True by (intro exI [of _ 0]) simp
      ultimately show ?thesis
        using True k Suc.prems(1) by (simp add: Let_def stosb_apply)
    next
      case False
      have "strncpy_loop m' (s + 1) (t + 1) n (s + 1 + word_of_nat k) =
          (if \<exists>j < k. m' (t + 1 + word_of_nat j) = 0 then 0 else m' (t + 1 + word_of_nat k))"
        using Suc.IH [of "s + 1" "t + 1" k m'] off k Suc.prems(1) by simp
      moreover have "(\<exists>j < k. m' (t + 1 + word_of_nat j) = 0) \<longleftrightarrow>
          (\<exists>j < i. m (t + word_of_nat j) = 0)"
        using m' k False Suc by (auto simp: Ex_less_Suc2 algebra_simps)
      moreover have "m' (t + 1 + word_of_nat k) = m (t + word_of_nat i)"
        using m' [OF k] Suc by (simp add: algebra_simps)
      moreover have "strncpy_loop m s t (Suc n) (s + word_of_nat i) =
          strncpy_loop m' (s + 1) (t + 1) n (s + 1 + word_of_nat k)"
        using False Suc by (simp add: Let_def algebra_simps flip: m'_def)
      ultimately show ?thesis by (simp only: )
    qed
  qed
qed simp

text \<open>A name stored with \<open>strncpy\<close> compares equal to the original under \<open>strncmp\<close> with the
  same bound, which is how directory entries are written and looked up.\<close>

lemma strncmp_after_strncpy:
  assumes "0 \<le> n" "n < 2 ^ 32"
    and "\<And>i j. i < nat n \<Longrightarrow> j < nat n \<Longrightarrow> s + word_of_nat i \<noteq> t + (word_of_nat j :: uint)"
  shows "strncmp (strncpy m s t n) t s (word_of_int n) = 0"
proof -
  define m' where "m' = strncpy m s t n"
  have n: "nat n \<le> 2 ^ 32" "unat (word_of_int n :: uint) = nat n"
    using assms(1,2) by (simp_all add: unat_eq_nat_uint uint_word_of_int)
  have t: "m' (t + word_of_nat j) = m (t + word_of_nat j)" if "j < nat n" for j
  proof -
    have "\<not> unat (t + word_of_nat j - s) < nat n"
    proof
      assume *: "unat (t + word_of_nat j - s) < nat n"
      have "s + word_of_nat (unat (t + word_of_nat j - s)) = t + word_of_nat j" by simp
      with assms(3) [OF * that] show False by blast
    qed
    then show ?thesis unfolding m'_def strncpy_def using n(1) by (rule strncpy_loop_frame [rotated])
  qed
  have s: "m' (s + word_of_nat i) = m (t + word_of_nat i)"
    if "i < nat n" "\<forall>j < i. m (t + word_of_nat j) \<noteq> 0" for i
    unfolding m'_def strncpy_def using that n(1) assms(3) by (subst strncpy_loop_apply) auto
  show ?thesis
    unfolding strncmp_def m'_def [symmetric] n(2) strncmp_loop_zero_iff using s t by simp
qed

lemma safestrcpy_loop_spec:
  assumes "safestrcpy_loop m s t n = (m', s')" "n < 2 ^ 32"
    and "\<And>i j. i < n \<Longrightarrow> j < n \<Longrightarrow> s + word_of_nat i \<noteq> t + (word_of_nat j :: uint)"
  shows "\<exists>k \<le> n. s' = s + word_of_nat k \<and>
     (\<forall>i < k. m' (s + word_of_nat i) = m (t + word_of_nat i)) \<and>
     (\<forall>i. i + 1 < k \<longrightarrow> m (t + word_of_nat i) \<noteq> 0) \<and>
     (k < n \<longrightarrow> 0 < k \<and> m (t + word_of_nat (k - 1)) = 0) \<and>
     (\<forall>x. \<not> unat (x - s) < k \<longrightarrow> m' x = m x)"
  using assms
proof (induction n arbitrary: m s t)
  case 0
  then show ?case by simp
next
  case (Suc n)
  define m1 where "m1 = m(s := m t)"
  show ?case
  proof (cases "m t = 0")
    case True
    with Suc.prems have "m' = m1" "s' = s + 1" by (simp_all add: m1_def Let_def)
    with True show ?thesis
      by (intro exI [of _ 1]) (auto simp: m1_def unat_eq_zero)
  next
    case False
    have m1: "m1 (t + 1 + word_of_nat j) = m (t + 1 + word_of_nat j)" if "j < n" for j
      using Suc.prems(3) [of 0 "Suc j"] that by (simp add: m1_def add.assoc)
    have off: "s + 1 + word_of_nat a \<noteq> t + 1 + (word_of_nat b :: uint)" if "a < n" "b < n" for a b
      using Suc.prems(3) [of "Suc a" "Suc b"] that by (simp add: algebra_simps)
    have "safestrcpy_loop m1 (s + 1) (t + 1) n = (m', s')"
      using Suc.prems(1) False by (simp add: m1_def Let_def)
    from Suc.IH [OF this _ off] Suc.prems(2) obtain k where k: "k \<le> n"
      "s' = s + 1 + word_of_nat k"
      "\<forall>i < k. m' (s + 1 + word_of_nat i) = m1 (t + 1 + word_of_nat i)"
      "\<forall>i. i + 1 < k \<longrightarrow> m1 (t + 1 + word_of_nat i) \<noteq> 0"
      "k < n \<longrightarrow> 0 < k \<and> m1 (t + 1 + word_of_nat (k - 1)) = 0"
      "\<forall>x. \<not> unat (x - (s + 1)) < k \<longrightarrow> m' x = m1 x"
      by auto
    have "\<not> unat (s - (s + 1)) < k" using Suc.prems(2) k(1) by simp
    then have "m' s = m t" using k(6) by (simp add: m1_def)
    moreover have "m' x = m x" if "\<not> unat (x - s) < Suc k" for x
      using that k(6) unat_step_down [of x s] by (cases "x = s") (auto simp: m1_def)
    moreover have "m (t + word_of_nat i) \<noteq> 0" if "i + 1 < Suc k" for i
      using that k(1,4) m1 False by (cases i) (auto simp: algebra_simps)
    ultimately show ?thesis
      using k m1 False
      by (intro exI [of _ "Suc k"]) (auto simp: All_less_Suc2 algebra_simps gr0_conv_Suc)
  qed
qed

lemma fields_disjoint:
  assumes "unat s + n \<le> unat t" and "unat t + n \<le> 4294967296" and "i < n" and "j < n"
  shows "s + word_of_nat i \<noteq> t + (word_of_nat j :: uint)"
proof -
  have "unat (s + (word_of_nat i :: uint)) = unat s + i" "unat (t + (word_of_nat j :: uint)) = unat t + j"
    using assms by (intro unat_add_word_of_nat; linarith)+
  then have "unat (s + (word_of_nat i :: uint)) < unat (t + (word_of_nat j :: uint))" using assms by linarith
  then show ?thesis by auto
qed

section \<open>Properties\<close>

text \<open>Copying and filling memory: \<open>memmove\<close> (and \<open>memcpy\<close>) leaves in the destination the old
  contents of the source even where the two overlap, and changes nothing else, and
  \<open>memset\<close> sets exactly the \<open>n\<close> bytes from \<open>dst\<close>, whichever of the two store instructions it uses.\<close>

theorem memory_operations:
  assumes "unat src + unat n < 4294967296" and "unat dst + unat n \<le> 4294967296"
  shows "memmove m dst src n x = (if x - dst < n then m (src + (x - dst)) else m x) \<and>
    memcpy m dst src n = memmove m dst src n \<and>
    memset m dst c n x = (if x - dst < n then ucast c else m x)"
  using memmove_apply [OF assms] memset_apply by (simp add: memcpy_def)

theorem memory_operations_witness:
  "memmove (\<lambda>a. ucast a) 102 100 4 105 = 103 \<and> memset (\<lambda>a. ucast a) 102 7 4 105 = 7"
  using memory_operations [of 100 4 102 "\<lambda>a. ucast a" 105 7] by simp

text \<open>Round trip of fixed-width names, as directory entries use them: when the two fields do not
  overlap, \<open>strncpy\<close> of a name makes \<open>strncmp\<close> on the same width find the copy equal to it.\<close>

theorem name_round_trip:
  assumes "0 \<le> n" and "n < 2 ^ 32"
    and "\<And>i j. i < nat n \<Longrightarrow> j < nat n \<Longrightarrow> s + word_of_nat i \<noteq> t + (word_of_nat j :: uint)"
  shows "strncmp (strncpy m s t n) t s (word_of_int n) = 0"
  using strncmp_after_strncpy [OF assms] .

theorem name_round_trip_witness:
  "strncmp (strncpy (\<lambda>a. ucast a) 100 200 14) 200 100 14 = 0"
proof -
  have "(100 :: uint) + word_of_nat i \<noteq> 200 + word_of_nat j" if "i < nat 14" "j < nat 14" for i j
    using that by (intro fields_disjoint [of _ 14]) simp_all
  then show ?thesis using name_round_trip [of 14 100 200 "\<lambda>a. ucast a"] by simp
qed

text \<open>\<open>safestrcpy\<close> never writes outside the \<open>n\<close> bytes of its destination and always leaves a
  NUL-terminated string there, a prefix of the source.\<close>

theorem safestrcpy_terminates:
  assumes "0 < n" and "n < 2 ^ 32"
    and "\<And>i j. i < nat n \<Longrightarrow> j < nat n \<Longrightarrow> s + word_of_nat i \<noteq> t + (word_of_nat j :: uint)"
  shows "\<exists>k. int k < n \<and> safestrcpy m s t n (s + word_of_nat k) = 0 \<and>
    (\<forall>i < k. safestrcpy m s t n (s + word_of_nat i) = m (t + word_of_nat i)) \<and>
    (\<forall>x. \<not> unat (x - s) < nat n \<longrightarrow> safestrcpy m s t n x = m x)"
proof -
  obtain m' s' where l: "safestrcpy_loop m s t (nat (n - 1)) = (m', s')"
    by (cases "safestrcpy_loop m s t (nat (n - 1))")
  have N: "nat (n - 1) < nat n" "nat n < 2 ^ 32" using assms(1,2) by auto
  have dis: "s + word_of_nat i \<noteq> t + (word_of_nat j :: uint)" if "i < nat (n - 1)" "j < nat (n - 1)" for i j
    using assms(3) that N(1) by (meson less_trans)
  obtain k where k: "k \<le> nat (n - 1)" "s' = s + word_of_nat k"
    "\<forall>i < k. m' (s + word_of_nat i) = m (t + word_of_nat i)"
    "\<forall>x. \<not> unat (x - s) < k \<longrightarrow> m' x = m x"
    using safestrcpy_loop_spec [OF l less_trans [OF N] dis] by blast
  have r: "safestrcpy m s t n = m'(s' := 0)" using assms(1) l by (simp add: safestrcpy_def)
  have kn: "k < nat n" "k < 2 ^ 32" using k(1) N by auto
  have ne: "s + word_of_nat i \<noteq> s'" if "i < k" for i
    using that kn k(2) by (auto simp: word_of_nat_eq_uint_iff unat_word_of_nat_uint)
  have "x \<noteq> s'" if "\<not> unat (x - s) < nat n" for x
    using that kn k(2) by (auto simp: unat_word_of_nat_uint)
  then show ?thesis
    using k kn ne r by (intro exI [of _ k]) auto
qed

theorem safestrcpy_terminates_witness:
  "\<exists>k. int k < 4 \<and> safestrcpy (\<lambda>a. ucast a) 100 200 4 (100 + word_of_nat k) = 0"
proof -
  have "(100 :: uint) + word_of_nat i \<noteq> 200 + word_of_nat j" if "i < nat 4" "j < nat 4" for i j
    using that by (intro fields_disjoint [of _ 4]) simp_all
  then show ?thesis using safestrcpy_terminates [of 4 100 200 "\<lambda>a. ucast a"] by auto
qed

end
