(* ===== verification/Mmu.thy ===== *)
theory Mmu
  imports Prelude
begin

text \<open>
  Address arithmetic: the paging macros of \<open>src/mmu.h\<close> and the address-space layout of
  \<open>src/memlayout.h\<close>, on 32-bit words.
\<close>

section \<open>Layout constants (src/memlayout.h)\<close>

definition EXTMEM :: uint where "EXTMEM = 0x100000"

definition PHYSTOP :: uint where "PHYSTOP = 0xE000000"

definition DEVSPACE :: uint where "DEVSPACE = 0xFE000000"

definition KERNBASE :: uint where "KERNBASE = 0x80000000"

definition KERNLINK :: uint where "KERNLINK = KERNBASE + EXTMEM"

definition v2p :: "uint \<Rightarrow> uint" where "v2p a = a - KERNBASE"

definition p2v :: "uint \<Rightarrow> uint" where "p2v a = a + KERNBASE"

section \<open>Paging macros (src/mmu.h)\<close>

definition PGSIZE :: uint where "PGSIZE = 4096"

definition PDXSHIFT :: nat where "PDXSHIFT = 22"

definition PTXSHIFT :: nat where "PTXSHIFT = 12"

definition NPDENTRIES :: nat where "NPDENTRIES = 1024"

definition NPTENTRIES :: nat where "NPTENTRIES = 1024"

definition PDX :: "uint \<Rightarrow> uint" where "PDX va = drop_bit PDXSHIFT va AND 0x3FF"

definition PTX :: "uint \<Rightarrow> uint" where "PTX va = drop_bit PTXSHIFT va AND 0x3FF"

definition PGADDR :: "uint \<Rightarrow> uint \<Rightarrow> uint \<Rightarrow> uint" where
  "PGADDR d t off = push_bit PDXSHIFT d OR push_bit PTXSHIFT t OR off"

definition PGROUNDUP :: "uint \<Rightarrow> uint" where
  "PGROUNDUP sz = (sz + PGSIZE - 1) AND NOT (PGSIZE - 1)"

definition PGROUNDDOWN :: "uint \<Rightarrow> uint" where
  "PGROUNDDOWN a = a AND NOT (PGSIZE - 1)"

definition PTE_P :: uint where "PTE_P = 0x001"

definition PTE_W :: uint where "PTE_W = 0x002"

definition PTE_U :: uint where "PTE_U = 0x004"

definition PTE_ADDR :: "uint \<Rightarrow> uint" where "PTE_ADDR pte = pte AND NOT 0xFFF"

definition PTE_FLAGS :: "uint \<Rightarrow> uint" where "PTE_FLAGS pte = pte AND 0xFFF"

section \<open>Masks\<close>

lemma page_mask: "(0xFFF :: uint) = mask 12"
  by (simp add: mask_eq_exp_minus_1)

lemma index_mask: "(0x3FF :: uint) = mask 10"
  by (simp add: mask_eq_exp_minus_1)

lemma PGSIZE_minus_1 [simp]: "PGSIZE - 1 = 0xFFF"
  by (simp add: PGSIZE_def)

lemma and_not_page_mask: "(a :: uint) AND NOT 0xFFF = a - take_bit 12 a"
proof -
  have "a AND NOT 0xFFF = push_bit 12 (drop_bit 12 a)"
    by (rule bit_word_eqI) (auto simp: page_mask bit_simps)
  then show ?thesis using bits_ident [of 12 a] by (simp add: eq_diff_eq)
qed

lemma take_bit_12_uint: "take_bit 12 (a :: uint) = a mod 4096"
  by (simp add: take_bit_eq_mod)

section \<open>Page alignment\<close>

definition aligned :: "uint \<Rightarrow> bool" where
  "aligned a \<longleftrightarrow> a mod PGSIZE = 0"

lemma aligned_unat: "aligned a \<longleftrightarrow> unat a mod 4096 = 0"
  by (simp add: aligned_def PGSIZE_def word_unat_eq_iff unat_mod)

lemma aligned_dvd: "aligned a \<longleftrightarrow> 4096 dvd unat a"
  by (simp add: aligned_unat mod_eq_0_iff_dvd)

lemma aligned_take_bit: "aligned a \<longleftrightarrow> take_bit 12 a = 0"
  by (simp add: aligned_def PGSIZE_def take_bit_12_uint)

lemma aligned_0 [simp]: "aligned 0"
  by (simp add: aligned_def)

lemma unat_PGROUNDDOWN: "unat (PGROUNDDOWN a) = unat a - unat a mod 4096"
proof -
  have "a mod 4096 \<le> a" by (simp add: word_le_nat_alt unat_mod)
  then show ?thesis
    unfolding PGROUNDDOWN_def PGSIZE_minus_1 and_not_page_mask take_bit_12_uint
    by (simp add: unat_sub unat_mod)
qed

lemma aligned_PGROUNDDOWN [simp]: "aligned (PGROUNDDOWN a)"
  by (simp add: aligned_unat unat_PGROUNDDOWN minus_mod_eq_mult_div)

lemma PGROUNDUP_alt: "PGROUNDUP sz = PGROUNDDOWN (sz + 0xFFF)"
  by (simp add: PGROUNDUP_def PGROUNDDOWN_def PGSIZE_def algebra_simps)

lemma aligned_PGROUNDUP [simp]: "aligned (PGROUNDUP sz)"
  by (simp add: PGROUNDUP_alt)

lemma unat_PGROUNDUP:
  "unat sz + 4095 < 4294967296 \<Longrightarrow> unat (PGROUNDUP sz) = (unat sz + 4095) div 4096 * 4096"
  by (simp add: PGROUNDUP_alt unat_PGROUNDDOWN unat_plus_if' minus_mod_eq_div_mult)

lemma PTE_ADDR_alt: "PTE_ADDR = PGROUNDDOWN"
  by (simp add: fun_eq_iff PTE_ADDR_def PGROUNDDOWN_def)

lemma aligned_diff: "aligned a \<Longrightarrow> aligned b \<Longrightarrow> aligned (a - b)"
  by (auto simp: aligned_dvd unat_sub_if_size word_size intro!: dvd_diff_nat)

lemma aligned_add: "aligned a \<Longrightarrow> aligned b \<Longrightarrow> aligned (a + b)"
  by (auto simp: aligned_dvd unat_plus_if' intro!: dvd_diff_nat)

lemma aligned_PGSIZE [simp]: "aligned PGSIZE"
  by (simp add: aligned_def)

text \<open>Two different aligned pages do not overlap.\<close>

lemma pages_disjoint:
  assumes "aligned a" "aligned b" "a \<noteq> b" "k < 4096"
  shows "\<not> a + word_of_nat k - b < PGSIZE"
proof -
  define d where "d = a - b"
  have "aligned d" "d \<noteq> 0" using assms by (simp_all add: d_def aligned_diff)
  then have "4096 dvd unat d" "unat d \<noteq> 0" by (simp_all add: aligned_dvd unat_eq_zero)
  then obtain q where q: "unat d = 4096 * q" "q \<noteq> 0" by auto
  have "unat d < 4294967296" by (rule unat_uint_less)
  with q have "q < 1048576" by simp
  with q assms(4) have "unat d + k < 4294967296" by simp
  then have u: "unat (d + word_of_nat k) = unat d + k" by (rule unat_add_word_of_nat)
  have eq: "a + word_of_nat k - b = d + word_of_nat k" by (simp add: d_def)
  show ?thesis unfolding eq word_less_nat_alt u using q by (simp add: PGSIZE_def)
qed

section \<open>Entries\<close>

lemma less_4096_take_bit: "(perm :: uint) < 4096 \<longleftrightarrow> take_bit 12 perm = perm"
  unfolding take_bit_12_uint word_less_nat_alt word_unat_eq_iff unat_mod
  by (simp, metis mod_less mod_less_divisor zero_less_numeral)

lemma PTE_ADDR_or:
  assumes "aligned pa" "take_bit 12 perm = perm"
  shows "PTE_ADDR (pa OR perm) = pa"
proof (rule bit_word_eqI)
  fix n assume "n < LENGTH(32)"
  have "\<not> bit pa n" if "n < 12"
    using assms(1) that by (metis aligned_take_bit bit_take_bit_iff bit_0_eq bot_apply bot_bool_def)
  moreover have "\<not> bit perm n" if "\<not> n < 12"
    using assms(2) that by (metis bit_take_bit_iff)
  ultimately show "bit (PTE_ADDR (pa OR perm)) n = bit pa n"
    using \<open>n < LENGTH(32)\<close> by (auto simp: PTE_ADDR_def page_mask bit_simps)
qed

lemma PTE_FLAGS_or:
  assumes "aligned pa" "take_bit 12 perm = perm"
  shows "PTE_FLAGS (pa OR perm) = perm"
  unfolding PTE_FLAGS_def page_mask
  using assms by (simp add: aligned_take_bit flip: take_bit_eq_mask)

text \<open>\<open>PDX\<close>, \<open>PTX\<close> and the page offset determine the address, and \<open>PGADDR\<close> rebuilds it.\<close>

lemma PGADDR_split: "PGADDR (PDX va) (PTX va) (PTE_FLAGS va) = va"
proof (rule bit_word_eqI)
  fix n assume n: "n < LENGTH(32)"
  then consider "n < 12" | "12 \<le> n \<and> n < 22" | "22 \<le> n \<and> n < 32" by force
  then show "bit (PGADDR (PDX va) (PTX va) (PTE_FLAGS va)) n = bit va n"
    by cases (auto simp: PGADDR_def PDX_def PTX_def PTE_FLAGS_def PDXSHIFT_def PTXSHIFT_def
        page_mask index_mask bit_simps)
qed

lemma v2p_p2v [simp]: "v2p (p2v a) = a" and p2v_v2p [simp]: "p2v (v2p a) = a"
  by (simp_all add: v2p_def p2v_def)

section \<open>Properties\<close>

text \<open>Address arithmetic: the directory index, table index and offset of an address determine
  it, rounding down and up give the enclosing page boundaries, and a page table entry made from a
  page-aligned physical address and permission bits yields back both.\<close>

theorem address_round_trips:
  assumes "aligned pa" and "take_bit 12 perm = perm" and "unat va + 4095 < 4294967296"
  shows "PGADDR (PDX va) (PTX va) (PTE_FLAGS va) = va \<and>
    PTE_ADDR (pa OR perm) = pa \<and> PTE_FLAGS (pa OR perm) = perm \<and>
    unat (PGROUNDDOWN va) = unat va div 4096 * 4096 \<and>
    unat (PGROUNDUP va) = (unat va + 4095) div 4096 * 4096"
  using PGADDR_split PTE_ADDR_or [OF assms(1,2)] PTE_FLAGS_or [OF assms(1,2)]
    unat_PGROUNDUP [OF assms(3)] by (simp add: unat_PGROUNDDOWN minus_mod_eq_div_mult)

theorem address_round_trips_witness:
  "PTE_ADDR (0x5000 OR 7) = 0x5000 \<and> PTE_FLAGS (0x5000 OR 7) = 7 \<and> unat (PGROUNDUP 0x1234) = 0x2000"
proof -
  have "aligned 0x5000" "take_bit 12 (7 :: uint) = 7" by code_simp+
  moreover have "unat (0x1234 :: uint) + 4095 < 4294967296" by simp
  ultimately show ?thesis using address_round_trips [of "0x5000" 7 "0x1234"] by simp
qed

end
