(* ===== verification/Kalloc.thy ===== *)
theory Kalloc
  imports Kstring Mmu
begin

text \<open>
  The physical page allocator of \<open>src/kalloc.c\<close>.  The free list is threaded through the free
  pages themselves: the first word of a free page points to the next one, so the model keeps the
  list in kernel memory and \<open>flist\<close> relates it to the abstract list of free pages.  The symbol
  \<open>end\<close> (the first address after the loaded kernel) is fixed by the linker and is the
  parameter \<open>kend\<close>.
\<close>

record kmem =
  use_lock :: bool
  freelist :: uint
  kbytes :: mem

section \<open>Operations\<close>

definition kfree :: "uint \<Rightarrow> kmem \<Rightarrow> uint \<Rightarrow> kmem res" where
  "kfree kend k v =
     (if v mod PGSIZE \<noteq> 0 \<or> v < kend \<or> v2p v \<ge> PHYSTOP then Inl (Panic ''kfree'')
      else (let m = memset (kbytes k) v 1 PGSIZE
            in Inr (k\<lparr>kbytes := write32 m v (freelist k), freelist := v\<rparr>)))"

definition kalloc :: "kmem \<Rightarrow> uint \<times> kmem" where
  "kalloc k =
     (let r = freelist k
      in (r, if r \<noteq> 0 then k\<lparr>freelist := read32 (kbytes k) r\<rparr> else k))"

text \<open>
  \<open>for(; p + PGSIZE <= vend; p += PGSIZE) kfree(p)\<close>.  The addition can wrap, so the loop is
  counted: \<open>fuel\<close> bounds the number of iterations and running out of it is \<open>Diverge\<close>.
\<close>

fun freerange_loop :: "nat \<Rightarrow> uint \<Rightarrow> kmem \<Rightarrow> uint \<Rightarrow> uint \<Rightarrow> kmem res" where
  "freerange_loop 0 kend k p vend = Inl Diverge"
| "freerange_loop (Suc fuel) kend k p vend =
     (if p + PGSIZE \<le> vend
      then bindE (kfree kend k p) (\<lambda>k'. freerange_loop fuel kend k' (p + PGSIZE) vend)
      else Inr k)"

text \<open>There are \<open>2 ^ 20\<close> pages in the address space, so one round more than that is enough for
  every range that does not wrap.\<close>

definition all_pages :: nat where
  "all_pages = Suc (2 ^ 20)"

definition freerange :: "uint \<Rightarrow> kmem \<Rightarrow> uint \<Rightarrow> uint \<Rightarrow> kmem res" where
  "freerange kend k vstart vend = freerange_loop all_pages kend k (PGROUNDUP vstart) vend"

definition kinit1 :: "uint \<Rightarrow> kmem \<Rightarrow> uint \<Rightarrow> uint \<Rightarrow> kmem res" where
  "kinit1 kend k vstart vend = freerange kend (k\<lparr>use_lock := False\<rparr>) vstart vend"

definition kinit2 :: "uint \<Rightarrow> kmem \<Rightarrow> uint \<Rightarrow> uint \<Rightarrow> kmem res" where
  "kinit2 kend k vstart vend =
     bindE (freerange kend k vstart vend) (\<lambda>k'. Inr (k'\<lparr>use_lock := True\<rparr>))"

section \<open>Abstraction: the list of free pages\<close>

definition page_ok :: "uint \<Rightarrow> uint \<Rightarrow> bool" where
  "page_ok kend v \<longleftrightarrow> aligned v \<and> kend \<le> v \<and> v2p v < PHYSTOP"

fun flist :: "mem \<Rightarrow> uint \<Rightarrow> uint list \<Rightarrow> bool" where
  "flist m h [] \<longleftrightarrow> h = 0"
| "flist m h (x # xs) \<longleftrightarrow> h = x \<and> x \<noteq> 0 \<and> flist m (read32 m x) xs"

definition kmem_inv :: "uint \<Rightarrow> kmem \<Rightarrow> uint list \<Rightarrow> bool" where
  "kmem_inv kend k xs \<longleftrightarrow>
     flist (kbytes k) (freelist k) xs \<and> distinct xs \<and> (\<forall>x \<in> set xs. page_ok kend x)"

text \<open>The bytes of page \<open>v\<close>.\<close>

definition in_page :: "uint \<Rightarrow> uint \<Rightarrow> bool" where
  "in_page v x \<longleftrightarrow> x - v < PGSIZE"

lemma kfree_ok_iff: "(\<exists>k'. kfree kend k v = Inr k') \<longleftrightarrow> page_ok kend v"
  by (auto simp: kfree_def page_ok_def aligned_def Let_def not_le not_less)

lemma kfree_panic_iff: "kfree kend k v = Inl (Panic ''kfree'') \<longleftrightarrow> \<not> page_ok kend v"
  by (auto simp: kfree_def page_ok_def aligned_def Let_def not_le not_less)

lemma flist_unique: "flist m h xs \<Longrightarrow> flist m h ys \<Longrightarrow> xs = ys"
proof (induction xs arbitrary: h ys)
  case Nil
  then show ?case by (cases ys) auto
next
  case (Cons x xs)
  then show ?case by (cases ys) auto
qed

lemma flist_cong:
  "(\<And>x. x \<in> set xs \<Longrightarrow> read32 m' x = read32 m x) \<Longrightarrow> flist m' h xs = flist m h xs"
  by (induction xs arbitrary: h) auto

text \<open>What \<open>kfree\<close> does to memory: page \<open>v\<close> is overwritten, every other byte is kept.\<close>

lemma kfree_frame:
  assumes "kfree kend k v = Inr k'" "\<not> in_page v x"
  shows "kbytes k' x = kbytes k x"
proof -
  have "x \<noteq> v + word_of_nat j" if "j < 4" for j
  proof
    assume "x = v + word_of_nat j"
    then have "x - v = word_of_nat j" by simp
    moreover have "unat (word_of_nat j :: uint) = j" using that by (simp add: unat_word_of_nat_uint)
    ultimately show False using assms(2) that by (simp add: in_page_def word_less_nat_alt PGSIZE_def)
  qed
  from this [of 0] this [of 1] this [of 2] this [of 3] assms show ?thesis
    by (auto simp: kfree_def Let_def write32_other memset_apply in_page_def split: if_splits)
qed

lemma kfree_link:
  "kfree kend k v = Inr k' \<Longrightarrow> freelist k' = v \<and> read32 (kbytes k') v = freelist k"
  by (auto simp: kfree_def Let_def split: if_splits)

lemma kfree_read32_other:
  assumes "kfree kend k v = Inr k'" "aligned v" "aligned x" "x \<noteq> v"
  shows "read32 (kbytes k') x = read32 (kbytes k) x"
proof (rule read32_cong)
  fix j :: nat assume "j < 4"
  with assms pages_disjoint [of x v j] have "\<not> in_page v (x + word_of_nat j)"
    by (simp add: in_page_def)
  with assms(1) show "kbytes k' (x + word_of_nat j) = kbytes k (x + word_of_nat j)"
    by (rule kfree_frame)
qed

lemma kfree_inv:
  assumes "kmem_inv kend k xs" "page_ok kend v" "v \<notin> set xs" "v \<noteq> 0"
    and "kfree kend k v = Inr k'"
  shows "kmem_inv kend k' (v # xs)"
proof -
  have "read32 (kbytes k') x = read32 (kbytes k) x" if "x \<in> set xs" for x
    using assms that by (intro kfree_read32_other) (auto simp: kmem_inv_def page_ok_def)
  then have "flist (kbytes k') h xs = flist (kbytes k) h xs" for h by (rule flist_cong)
  with assms kfree_link [OF assms(5)] show ?thesis by (auto simp: kmem_inv_def)
qed

lemma kalloc_Cons:
  "kmem_inv kend k (x # xs) \<Longrightarrow>
   \<exists>k'. kalloc k = (x, k') \<and> kmem_inv kend k' xs \<and> kbytes k' = kbytes k \<and> use_lock k' = use_lock k"
  by (auto simp: kalloc_def kmem_inv_def)

lemma kalloc_Nil: "kmem_inv kend k [] \<Longrightarrow> kalloc k = (0, k)"
  by (simp add: kalloc_def kmem_inv_def)

section \<open>Building the free list at boot\<close>

definition pages_from :: "uint \<Rightarrow> nat \<Rightarrow> uint list" where
  "pages_from p n = map (\<lambda>i. p + word_of_nat (4096 * i)) [0..<n]"

lemma pages_from_Suc: "pages_from p (Suc n) = p # pages_from (p + PGSIZE) n"
proof -
  have "map (\<lambda>i. p + word_of_nat (4096 * i)) [1..<Suc n] =
      map (\<lambda>i. p + PGSIZE + word_of_nat (4096 * i)) [0..<n]"
    unfolding One_nat_def map_Suc_upt [symmetric] by (simp add: PGSIZE_def algebra_simps)
  then show ?thesis by (simp add: pages_from_def upt_conv_Cons del: upt_Suc)
qed

lemma set_pages_from_gt:
  "x \<in> set (pages_from p n) \<Longrightarrow> unat p + 4096 * n \<le> 4294967296 \<Longrightarrow>
   unat p \<le> unat x \<and> unat x < unat p + 4096 * n"
  by (auto simp: pages_from_def unat_add_word_of_nat simp del: of_nat_mult)

text \<open>
  The range is scanned page by page; every page is valid, none is on the list yet, so
  \<open>kfree\<close> never panics and the loop stops after as many rounds as there are pages.
\<close>

lemma freerange_loop_ok:
  assumes "kmem_inv kend k xs" "aligned p" "kend \<le> p" "KERNBASE \<le> p" "vend \<le> p2v PHYSTOP"
    and "unat vend < unat p + 4096 * n + 4096" "0 < n \<longrightarrow> unat p + 4096 * n \<le> unat vend"
    and "unat p \<le> unat (p2v PHYSTOP)"
    and "set (pages_from p n) \<inter> set xs = {}" "n < fuel"
  shows "\<exists>k'. freerange_loop fuel kend k p vend = Inr k' \<and>
     kmem_inv kend k' (rev (pages_from p n) @ xs)"
  using assms
proof (induction n arbitrary: k xs p fuel)
  case 0
  then obtain f where "fuel = Suc f" by (cases fuel) auto
  have "unat (p + PGSIZE) = unat p + 4096"
    using "0.prems"(8) by (simp add: unat_plus_if' PGSIZE_def p2v_def PHYSTOP_def KERNBASE_def)
  with "0.prems" have "\<not> p + PGSIZE \<le> vend" by (simp add: word_le_nat_alt)
  with 0 \<open>fuel = Suc f\<close> show ?case by (simp add: pages_from_def)
next
  case (Suc n)
  then obtain f where f: "fuel = Suc f" "n < f" by (cases fuel) auto
  have lim: "unat (p2v PHYSTOP) = 2382364672" "unat KERNBASE = 2147483648"
    by (simp_all add: p2v_def PHYSTOP_def KERNBASE_def)
  have up: "unat p + 4096 * Suc n \<le> unat vend" "unat vend \<le> 2382364672" "2147483648 \<le> unat p"
    using Suc.prems by (simp_all add: word_le_nat_alt lim)
  have step: "unat (p + PGSIZE) = unat p + 4096"
    using up by (simp add: unat_plus_if' PGSIZE_def)
  have "v2p p < PHYSTOP"
    using up by (simp add: v2p_def word_less_nat_alt PHYSTOP_def KERNBASE_def unat_sub_if_size word_size)
  then have ok: "page_ok kend p" using Suc.prems by (simp add: page_ok_def)
  then obtain k1 where k1: "kfree kend k p = Inr k1" using kfree_ok_iff by blast
  have "p \<notin> set xs" using Suc.prems(9) by (auto simp: pages_from_Suc)
  moreover have "p \<noteq> 0" using up by auto
  ultimately have inv1: "kmem_inv kend k1 (p # xs)" using kfree_inv Suc.prems(1) ok k1 by blast
  have "p \<notin> set (pages_from (p + PGSIZE) n)"
    using set_pages_from_gt [of p "p + PGSIZE" n] step up by auto
  then have fresh: "set (pages_from (p + PGSIZE) n) \<inter> set (p # xs) = {}"
    using Suc.prems(9) by (auto simp: pages_from_Suc)
  have "\<exists>k'. freerange_loop f kend k1 (p + PGSIZE) vend = Inr k' \<and>
     kmem_inv kend k' (rev (pages_from (p + PGSIZE) n) @ p # xs)"
  proof (rule Suc.IH [OF inv1])
    show "kend \<le> p + PGSIZE" "KERNBASE \<le> p + PGSIZE"
      using Suc.prems(3,4) step by (simp_all add: word_le_nat_alt)
  qed (use Suc.prems step up fresh f lim in \<open>simp_all add: aligned_add\<close>)
  moreover have "p + PGSIZE \<le> vend" using up step by (simp add: word_le_nat_alt)
  ultimately show ?case using k1 f by (simp add: pages_from_Suc)
qed

section \<open>The allocator as an interface\<close>

text \<open>What the users of the page allocator rely on: \<open>free_list\<close> relates a state to the list of free
  pages, \<open>alloc\<close> takes its head and \<open>free\<close> puts a page back.\<close>

locale page_allocator =
  fixes alloc :: "'s \<Rightarrow> uint \<times> 's"
    and free :: "'s \<Rightarrow> uint \<Rightarrow> 's res"
    and free_list :: "'s \<Rightarrow> uint list \<Rightarrow> bool"
    and page :: "uint \<Rightarrow> bool"
  assumes alloc_page: "free_list s (x # xs) \<Longrightarrow> \<exists>s'. alloc s = (x, s') \<and> free_list s' xs"
    and alloc_empty: "free_list s [] \<Longrightarrow> alloc s = (0, s)"
    and free_page: "free_list s xs \<Longrightarrow> page v \<Longrightarrow> v \<notin> set xs \<Longrightarrow> v \<noteq> 0 \<Longrightarrow>
                      \<exists>s'. free s v = Inr s' \<and> free_list s' (v # xs)"
    and free_list_wf: "free_list s xs \<Longrightarrow> distinct xs \<and> 0 \<notin> set xs \<and> (\<forall>x \<in> set xs. page x)"
begin

text \<open>A number of allocations in a row, as a program that keeps what it gets.\<close>

fun alloc_many :: "nat \<Rightarrow> 's \<Rightarrow> uint list \<times> 's" where
  "alloc_many 0 s = ([], s)"
| "alloc_many (Suc n) s =
     (let (x, s') = alloc s; (xs, s'') = alloc_many n s' in (x # xs, s''))"

fun free_many :: "uint list \<Rightarrow> 's \<Rightarrow> 's res" where
  "free_many [] s = Inr s"
| "free_many (x # xs) s = bindE (free_many xs s) (\<lambda>s'. free s' x)"

lemma alloc_many_take:
  "free_list s xs \<Longrightarrow> n \<le> length xs \<Longrightarrow>
   \<exists>s'. alloc_many n s = (take n xs, s') \<and> free_list s' (drop n xs)"
proof (induction n arbitrary: s xs)
  case (Suc n)
  then obtain x ys where xs: "xs = x # ys" by (cases xs) auto
  with Suc.prems alloc_page obtain s' where s': "alloc s = (x, s')" "free_list s' ys" by blast
  with Suc.IH [OF s'(2)] Suc.prems xs obtain s'' where
    "alloc_many n s' = (take n ys, s'')" "free_list s'' (drop n ys)" by auto
  then show ?case using s' xs by auto
qed simp

lemma free_many_restores:
  "free_list s ys \<Longrightarrow> distinct (xs @ ys) \<Longrightarrow> 0 \<notin> set xs \<Longrightarrow> (\<forall>x \<in> set xs. page x) \<Longrightarrow>
   \<exists>s'. free_many xs s = Inr s' \<and> free_list s' (xs @ ys)"
proof (induction xs)
  case (Cons x xs)
  then obtain s' where s': "free_many xs s = Inr s'" "free_list s' (xs @ ys)" by auto
  with free_page [OF s'(2), of x] Cons.prems show ?case by auto
qed auto

text \<open>Pages obtained together are distinct, and giving them back restores the free list.\<close>

lemma alloc_free_many:
  assumes "free_list s xs" and "n \<le> length xs"
  shows "\<exists>ps s' s''. alloc_many n s = (ps, s') \<and> length ps = n \<and> distinct ps \<and> 0 \<notin> set ps \<and>
    free_many ps s' = Inr s'' \<and> free_list s'' xs"
proof -
  obtain s' where s': "alloc_many n s = (take n xs, s')" "free_list s' (drop n xs)"
    using alloc_many_take [OF assms] by blast
  have wf: "distinct xs" "0 \<notin> set xs" "\<forall>x \<in> set xs. page x" using free_list_wf [OF assms(1)] by auto
  have "\<exists>s''. free_many (take n xs) s' = Inr s'' \<and> free_list s'' (take n xs @ drop n xs)"
    using wf s'(2) by (intro free_many_restores) (auto dest: in_set_takeD)
  then show ?thesis using s' wf assms(2) by (auto dest: in_set_takeD)
qed

end

lemma flist_nonzero: "flist m h xs \<Longrightarrow> 0 \<notin> set xs"
  by (induction xs arbitrary: h) auto

interpretation kmem: page_allocator kalloc "kfree kend" "kmem_inv kend" "page_ok kend" for kend
proof unfold_locales
  show "\<exists>s'. kalloc s = (x, s') \<and> kmem_inv kend s' xs" if "kmem_inv kend s (x # xs)" for s x xs
    using kalloc_Cons [OF that] by blast
  show "kalloc s = (0, s)" if "kmem_inv kend s []" for s
    by (rule kalloc_Nil [OF that])
  show "\<exists>s'. kfree kend s v = Inr s' \<and> kmem_inv kend s' (v # xs)"
    if "kmem_inv kend s xs" "page_ok kend v" "v \<notin> set xs" "v \<noteq> 0" for s xs v
    using kfree_ok_iff [of kend s v] kfree_inv [OF that] that(2) by blast
  show "distinct xs \<and> 0 \<notin> set xs \<and> (\<forall>x \<in> set xs. page_ok kend x)" if "kmem_inv kend s xs" for s xs
    using that flist_nonzero by (auto simp: kmem_inv_def)
qed

section \<open>Properties\<close>

text \<open>C24: The page allocator refines a list of free pages: \<open>n\<close> calls of \<open>kalloc\<close> return \<open>n\<close> distinct
  non-null pages as long as the list has that many, and freeing them again with \<open>kfree\<close> succeeds and
  restores the list.\<close>

theorem kalloc_kfree_many:
  assumes "kmem_inv kend k xs" and "n \<le> length xs"
  shows "\<exists>ps k' k''. kmem.alloc_many n k = (ps, k') \<and> length ps = n \<and> distinct ps \<and> 0 \<notin> set ps \<and>
    kmem.free_many kend ps k' = Inr k'' \<and> kmem_inv kend k'' xs"
  using kmem.alloc_free_many [OF assms] .

text \<open>A memory whose free list is the two pages at \<open>0x80200000\<close>.\<close>

definition two_pages :: kmem where
  "two_pages = \<lparr>use_lock = False, freelist = 0x80201000,
     kbytes = write32 (write32 (\<lambda>_. 0) 0x80201000 0x80200000) 0x80200000 0\<rparr>"

lemma two_pages_inv: "kmem_inv 0x80110000 two_pages [0x80201000, 0x80200000]"
proof -
  have "flist (kbytes two_pages) (freelist two_pages) [0x80201000, 0x80200000]" by code_simp
  moreover have "page_ok 0x80110000 0x80201000" "page_ok 0x80110000 0x80200000" by code_simp+
  ultimately show ?thesis by (simp add: kmem_inv_def)
qed

theorem kalloc_kfree_many_witness:
  "\<exists>ps k' k''. kmem.alloc_many 2 two_pages = (ps, k') \<and> distinct ps \<and>
     kmem.free_many 0x80110000 ps k' = Inr k'' \<and> kmem_inv 0x80110000 k'' [0x80201000, 0x80200000]"
  using kalloc_kfree_many [OF two_pages_inv, of 2] by auto

text \<open>C30: At boot, \<open>freerange\<close> over a range of kernel memory that lies between the end of the kernel
  and \<open>PHYSTOP\<close> terminates, does not panic, and leaves exactly the whole pages of the range on the
  free list, the highest first.\<close>

theorem freerange_builds:
  assumes "kmem_inv kend k []" and "kend \<le> vstart" and "KERNBASE \<le> vstart"
    and "vstart \<le> vend" and "vend \<le> p2v PHYSTOP" and "PGROUNDUP vstart \<le> vend"
  shows "\<exists>k'. freerange kend k vstart vend = Inr k' \<and>
    kmem_inv kend k' (rev (pages_from (PGROUNDUP vstart) ((unat vend - unat (PGROUNDUP vstart)) div 4096)))"
proof -
  let ?p = "PGROUNDUP vstart" and ?n = "(unat vend - unat (PGROUNDUP vstart)) div 4096"
  have top: "unat (p2v PHYSTOP) = 2382364672" by (simp add: p2v_def PHYSTOP_def KERNBASE_def)
  have v: "unat vstart \<le> unat vend" "unat vend \<le> 2382364672"
    using assms(4,5) top by (simp_all add: word_le_nat_alt)
  have up: "unat ?p = (unat vstart + 4095) div 4096 * 4096" using v by (intro unat_PGROUNDUP) simp
  have ge: "unat vstart \<le> unat ?p"
    unfolding up using div_mult_mod_eq [of "unat vstart + 4095" 4096]
      mod_less_divisor [of 4096 "unat vstart + 4095"] by linarith
  have al: "aligned ?p" unfolding aligned_dvd up by simp
  have pv: "unat ?p \<le> unat vend" using assms(6) by (simp add: word_le_nat_alt)
  have dm: "unat vend - unat ?p = 4096 * ?n + (unat vend - unat ?p) mod 4096" by simp
  have ml: "(unat vend - unat ?p) mod 4096 < 4096" by simp
  have "\<exists>k'. freerange_loop all_pages kend k ?p vend = Inr k' \<and>
      kmem_inv kend k' (rev (pages_from ?p ?n) @ [])"
  proof (rule freerange_loop_ok [OF assms(1) al])
    show "kend \<le> ?p" "KERNBASE \<le> ?p" using assms(2,3) ge by (auto simp: word_le_nat_alt)
    show "vend \<le> p2v PHYSTOP" by fact
    show "unat vend < unat ?p + 4096 * ?n + 4096" using pv dm ml by linarith
    show "0 < ?n \<longrightarrow> unat ?p + 4096 * ?n \<le> unat vend" using pv dm by linarith
    show "unat ?p \<le> unat (p2v PHYSTOP)" using pv v top by simp
    show "set (pages_from ?p ?n) \<inter> set [] = {}" by simp
    have "?n \<le> unat vend div 4096" by (rule div_le_mono) simp
    also have "\<dots> \<le> 2382364672 div 4096" using v(2) by (rule div_le_mono)
    finally show "?n < all_pages" by (simp add: all_pages_def)
  qed
  then show ?thesis by (simp add: freerange_def)
qed

theorem freerange_builds_witness:
  "\<exists>k'. freerange 0x80110000 (\<lparr>use_lock = False, freelist = 0, kbytes = (\<lambda>_. 0)\<rparr>) 0x80110004 0x80113800 = Inr k' \<and>
     kmem_inv 0x80110000 k' [0x80112000, 0x80111000]"
proof -
  let ?k = "\<lparr>use_lock = False, freelist = 0, kbytes = (\<lambda>_. 0 :: uchar)\<rparr>"
  have up: "PGROUNDUP 0x80110004 = 0x80111000" by code_simp
  have "kmem_inv 0x80110000 ?k []" by (simp add: kmem_inv_def)
  moreover have "(0x80110000 :: uint) \<le> 0x80110004" "KERNBASE \<le> 0x80110004" "(0x80110004 :: uint) \<le> 0x80113800"
    "0x80113800 \<le> p2v PHYSTOP" "PGROUNDUP 0x80110004 \<le> 0x80113800" by code_simp+
  ultimately have "\<exists>k'. freerange 0x80110000 ?k 0x80110004 0x80113800 = Inr k' \<and>
     kmem_inv 0x80110000 k' (rev (pages_from (PGROUNDUP 0x80110004)
        ((unat (0x80113800 :: uint) - unat (PGROUNDUP 0x80110004)) div 4096)))"
    by (rule freerange_builds)
  moreover have "(unat (0x80113800 :: uint) - unat (0x80111000 :: uint)) div 4096 = 2" by simp
  moreover have "rev (pages_from 0x80111000 2) = [0x80112000, 0x80111000]" by code_simp
  ultimately show ?thesis unfolding up by metis
qed

end
