(* ===== verification/Vm.thy ===== *)
theory Vm
  imports Kalloc
begin

text \<open>
  Page tables and user address spaces (\<open>src/vm.c\<close>).  A page directory is a page of kernel memory
  holding 1024 entries, as are the page tables it refers to, so every operation here reads and
  writes \<open>kbytes\<close> through \<open>read32\<close> and \<open>write32\<close> and allocates through \<open>kalloc\<close>.  The
  start of the kernel's data segment, a symbol of \<open>src/kernel.ld\<close>, is the parameter \<open>kdata\<close>.
\<close>

section \<open>Walking and mapping\<close>

definition entry :: "uint \<Rightarrow> uint \<Rightarrow> uint" where
  "entry tab i = tab + 4 * i"

definition walkpgdir :: "kmem \<Rightarrow> uint \<Rightarrow> uint \<Rightarrow> bool \<Rightarrow> uint \<times> kmem" where
  "walkpgdir k pgdir va alloc =
     (let pde = entry pgdir (PDX va); v = read32 (kbytes k) pde
      in if v AND PTE_P \<noteq> 0 then (entry (p2v (PTE_ADDR v)) (PTX va), k)
         else if \<not> alloc then (0, k)
         else (let (pgtab, k) = kalloc k
               in if pgtab = 0 then (0, k)
                  else (let m = memset (kbytes k) pgtab 0 PGSIZE;
                            m = write32 m pde (v2p pgtab OR PTE_P OR PTE_W OR PTE_U)
                        in (entry pgtab (PTX va), k\<lparr>kbytes := m\<rparr>))))"

text \<open>The result \<open>-1\<close> of the C function is \<open>False\<close>.  \<open>fuel\<close> bounds the rounds of the
  \<open>for(;;)\<close> loop.\<close>

fun mappages_loop ::
  "nat \<Rightarrow> kmem \<Rightarrow> uint \<Rightarrow> uint \<Rightarrow> uint \<Rightarrow> uint \<Rightarrow> uint \<Rightarrow> (bool \<times> kmem) res" where
  "mappages_loop 0 k pgdir a lst pa perm = Inl Diverge"
| "mappages_loop (Suc fuel) k pgdir a lst pa perm =
     (let (pte, k) = walkpgdir k pgdir a True
      in if pte = 0 then Inr (False, k)
         else if read32 (kbytes k) pte AND PTE_P \<noteq> 0 then Inl (Panic ''remap'')
         else (let k = k\<lparr>kbytes := write32 (kbytes k) pte (pa OR perm OR PTE_P)\<rparr>
               in if a = lst then Inr (True, k)
                  else mappages_loop fuel k pgdir (a + PGSIZE) lst (pa + PGSIZE) perm))"

definition mappages ::
  "kmem \<Rightarrow> uint \<Rightarrow> uint \<Rightarrow> uint \<Rightarrow> uint \<Rightarrow> uint \<Rightarrow> (bool \<times> kmem) res" where
  "mappages k pgdir va sz pa perm =
     mappages_loop all_pages k pgdir (PGROUNDDOWN va) (PGROUNDDOWN (va + sz - 1)) pa perm"

section \<open>Kernel mappings\<close>

record kmap =
  kvirt :: uint
  phys_start :: uint
  phys_end :: uint
  kperm :: uint

definition kmap_table :: "uint \<Rightarrow> kmap list" where
  "kmap_table kdata =
    [\<lparr>kvirt = KERNBASE, phys_start = 0, phys_end = EXTMEM, kperm = PTE_W\<rparr>,
     \<lparr>kvirt = KERNLINK, phys_start = v2p KERNLINK, phys_end = v2p kdata, kperm = 0\<rparr>,
     \<lparr>kvirt = kdata, phys_start = v2p kdata, phys_end = PHYSTOP, kperm = PTE_W\<rparr>,
     \<lparr>kvirt = DEVSPACE, phys_start = DEVSPACE, phys_end = 0, kperm = PTE_W\<rparr>]"

fun setupkvm_loop :: "kmem \<Rightarrow> uint \<Rightarrow> kmap list \<Rightarrow> (uint \<times> kmem) res" where
  "setupkvm_loop k pgdir [] = Inr (pgdir, k)"
| "setupkvm_loop k pgdir (e # es) =
     bindE (mappages k pgdir (kvirt e) (phys_end e - phys_start e) (phys_start e) (kperm e))
       (\<lambda>(ok, k). if ok then setupkvm_loop k pgdir es else Inr (0, k))"

definition setupkvm :: "uint \<Rightarrow> kmem \<Rightarrow> (uint \<times> kmem) res" where
  "setupkvm kdata k =
     (let (pgdir, k) = kalloc k
      in if pgdir = 0 then Inr (0, k)
         else (let k = k\<lparr>kbytes := memset (kbytes k) pgdir 0 PGSIZE\<rparr>
               in if p2v PHYSTOP > DEVSPACE then Inl (Panic ''PHYSTOP too high'')
                  else setupkvm_loop k pgdir (kmap_table kdata)))"

section \<open>User memory\<close>

text \<open>\<open>inituvm\<close> does not check the results of \<open>kalloc\<close> and \<open>mappages\<close>; with no free page the
  fill goes through the null pointer.  \<open>init\<close> is the address of the linked-in code.\<close>

definition inituvm :: "kmem \<Rightarrow> uint \<Rightarrow> uint \<Rightarrow> uint \<Rightarrow> kmem res" where
  "inituvm k pgdir init sz =
     (if sz \<ge> PGSIZE then Inl (Panic ''inituvm: more than a page'')
      else (let (m, k) = kalloc k
            in if m = 0 then Inl NullDeref
               else bindE (mappages (k\<lparr>kbytes := memset (kbytes k) m 0 PGSIZE\<rparr>) pgdir 0 PGSIZE
                      (v2p m) (PTE_W OR PTE_U))
                      (\<lambda>(ok, k). Inr (k\<lparr>kbytes := memmove (kbytes k) m init sz\<rparr>))))"

text \<open>The results of \<open>deallocuvm\<close> are the new size and the updated memory.\<close>

fun deallocuvm_loop :: "nat \<Rightarrow> uint \<Rightarrow> kmem \<Rightarrow> uint \<Rightarrow> uint \<Rightarrow> uint \<Rightarrow> kmem res" where
  "deallocuvm_loop 0 kend k pgdir a oldsz = Inl Diverge"
| "deallocuvm_loop (Suc fuel) kend k pgdir a oldsz =
     (if a < oldsz
      then (let (pte, k) = walkpgdir k pgdir a False
            in if pte = 0
               then deallocuvm_loop fuel kend k pgdir
                      (a + word_of_nat (NPTENTRIES - 1) * PGSIZE + PGSIZE) oldsz
               else if read32 (kbytes k) pte AND PTE_P \<noteq> 0
               then (let pa = PTE_ADDR (read32 (kbytes k) pte)
                     in if pa = 0 then Inl (Panic ''kfree'')
                        else bindE (kfree kend k (p2v pa))
                          (\<lambda>k. deallocuvm_loop fuel kend
                                 (k\<lparr>kbytes := write32 (kbytes k) pte 0\<rparr>) pgdir (a + PGSIZE) oldsz))
               else deallocuvm_loop fuel kend k pgdir (a + PGSIZE) oldsz)
      else Inr k)"

definition deallocuvm :: "uint \<Rightarrow> kmem \<Rightarrow> uint \<Rightarrow> uint \<Rightarrow> uint \<Rightarrow> (uint \<times> kmem) res" where
  "deallocuvm kend k pgdir oldsz newsz =
     (if newsz \<ge> oldsz then Inr (oldsz, k)
      else bindE (deallocuvm_loop all_pages kend k pgdir (PGROUNDUP newsz) oldsz)
             (\<lambda>k. Inr (newsz, k)))"

text \<open>The result of \<open>mappages\<close> is dropped, as in the C code.\<close>

fun allocuvm_loop ::
  "nat \<Rightarrow> uint \<Rightarrow> kmem \<Rightarrow> uint \<Rightarrow> uint \<Rightarrow> uint \<Rightarrow> uint \<Rightarrow> (uint \<times> kmem) res" where
  "allocuvm_loop 0 kend k pgdir a oldsz newsz = Inl Diverge"
| "allocuvm_loop (Suc fuel) kend k pgdir a oldsz newsz =
     (if a < newsz
      then (let (m, k) = kalloc k
            in if m = 0
               then bindE (deallocuvm kend k pgdir newsz oldsz) (\<lambda>(sz, k). Inr (0, k))
               else bindE (mappages (k\<lparr>kbytes := memset (kbytes k) m 0 PGSIZE\<rparr>) pgdir a PGSIZE
                      (v2p m) (PTE_W OR PTE_U))
                      (\<lambda>(ok, k). allocuvm_loop fuel kend k pgdir (a + PGSIZE) oldsz newsz))
      else Inr (newsz, k))"

definition allocuvm :: "uint \<Rightarrow> kmem \<Rightarrow> uint \<Rightarrow> uint \<Rightarrow> uint \<Rightarrow> (uint \<times> kmem) res" where
  "allocuvm kend k pgdir oldsz newsz =
     (if newsz \<ge> KERNBASE then Inr (0, k)
      else if newsz < oldsz then Inr (oldsz, k)
      else allocuvm_loop all_pages kend k pgdir (PGROUNDUP oldsz) oldsz newsz)"

fun freevm_tables :: "uint \<Rightarrow> kmem \<Rightarrow> uint \<Rightarrow> nat list \<Rightarrow> kmem res" where
  "freevm_tables kend k pgdir [] = Inr k"
| "freevm_tables kend k pgdir (i # is) =
     (let pde = read32 (kbytes k) (entry pgdir (word_of_nat i))
      in if pde AND PTE_P \<noteq> 0
         then bindE (kfree kend k (p2v (PTE_ADDR pde))) (\<lambda>k. freevm_tables kend k pgdir is)
         else freevm_tables kend k pgdir is)"

definition freevm :: "uint \<Rightarrow> kmem \<Rightarrow> uint \<Rightarrow> kmem res" where
  "freevm kend k pgdir =
     (if pgdir = 0 then Inl (Panic ''freevm: no pgdir'')
      else bindE (deallocuvm kend k pgdir KERNBASE 0) (\<lambda>(sz, k).
           bindE (freevm_tables kend k pgdir [0..<NPDENTRIES]) (\<lambda>k.
           kfree kend k pgdir)))"

definition clearpteu :: "kmem \<Rightarrow> uint \<Rightarrow> uint \<Rightarrow> kmem res" where
  "clearpteu k pgdir uva =
     (let (pte, k) = walkpgdir k pgdir uva False
      in if pte = 0 then Inl (Panic ''clearpteu'')
         else Inr (k\<lparr>kbytes := write32 (kbytes k) pte (read32 (kbytes k) pte AND NOT PTE_U)\<rparr>))"

text \<open>On both failures the C code jumps to \<open>bad\<close>, frees the new directory and returns 0.\<close>

fun copyuvm_loop :: "nat \<Rightarrow> uint \<Rightarrow> kmem \<Rightarrow> uint \<Rightarrow> uint \<Rightarrow> uint \<Rightarrow> uint \<Rightarrow> (uint \<times> kmem) res" where
  "copyuvm_loop 0 kend k pgdir d i sz = Inl Diverge"
| "copyuvm_loop (Suc fuel) kend k pgdir d i sz =
     (if i < sz
      then (let (pte, k) = walkpgdir k pgdir i False
            in if pte = 0 then Inl (Panic ''copyuvm: pte should exist'')
               else (let v = read32 (kbytes k) pte
                     in if v AND PTE_P = 0 then Inl (Panic ''copyuvm: page not present'')
                        else (let pa = PTE_ADDR v; flags = PTE_FLAGS v; (m, k) = kalloc k
                              in if m = 0 then bindE (freevm kend k d) (\<lambda>k. Inr (0, k))
                                 else bindE (mappages
                                        (k\<lparr>kbytes := memmove (kbytes k) m (p2v pa) PGSIZE\<rparr>)
                                        d i PGSIZE (v2p m) flags)
                                        (\<lambda>(ok, k). if ok
                                           then copyuvm_loop fuel kend k pgdir d (i + PGSIZE) sz
                                           else bindE (freevm kend k d) (\<lambda>k. Inr (0, k))))))
      else Inr (d, k))"

definition copyuvm :: "uint \<Rightarrow> uint \<Rightarrow> kmem \<Rightarrow> uint \<Rightarrow> uint \<Rightarrow> (uint \<times> kmem) res" where
  "copyuvm kend kdata k pgdir sz =
     bindE (setupkvm kdata k) (\<lambda>(d, k).
       if d = 0 then Inr (0, k) else copyuvm_loop all_pages kend k pgdir d 0 sz)"

section \<open>Copying to user space\<close>

text \<open>\<open>uva2ka\<close> reads \<open>*pte\<close> without a test for the null result of \<open>walkpgdir\<close>.\<close>

definition uva2ka :: "kmem \<Rightarrow> uint \<Rightarrow> uint \<Rightarrow> uint res" where
  "uva2ka k pgdir uva =
     (let (pte, k) = walkpgdir k pgdir uva False
      in if pte = 0 then Inl NullDeref
         else (let v = read32 (kbytes k) pte
               in if v AND PTE_P = 0 then Inr 0
                  else if v AND PTE_U = 0 then Inr 0
                  else Inr (p2v (PTE_ADDR v))))"

fun copyout_loop :: "nat \<Rightarrow> kmem \<Rightarrow> uint \<Rightarrow> uint \<Rightarrow> uint \<Rightarrow> uint \<Rightarrow> (bool \<times> kmem) res" where
  "copyout_loop 0 k pgdir va buf len = Inl Diverge"
| "copyout_loop (Suc fuel) k pgdir va buf len =
     (if len > 0
      then (let va0 = PGROUNDDOWN va
            in bindE (uva2ka k pgdir va0) (\<lambda>pa0.
                 if pa0 = 0 then Inr (False, k)
                 else (let n = PGSIZE - (va - va0);
                           n = (if n > len then len else n);
                           k = k\<lparr>kbytes := memmove (kbytes k) (pa0 + (va - va0)) buf n\<rparr>
                       in copyout_loop fuel k pgdir (va0 + PGSIZE) (buf + n) (len - n))))
      else Inr (True, k))"

definition copyout :: "kmem \<Rightarrow> uint \<Rightarrow> uint \<Rightarrow> uint \<Rightarrow> uint \<Rightarrow> (bool \<times> kmem) res" where
  "copyout k pgdir va p len = copyout_loop (Suc (unat len)) k pgdir va p len"

end
