(* ===== verification/Spinlock.thy ===== *)
theory Spinlock
  imports Prelude
begin

text \<open>
  Spin locks and the matched interrupt disabling they rest on (\<open>src/spinlock.c\<close>,
  \<open>src/spinlock.h\<close>), with the per-processor state of \<open>src/proc.h\<close> that they use.  A processor
  is a number; \<open>fl_if\<close> is the interrupt flag of its \<open>eflags\<close> register, \<open>esp0\<close> the stack
  pointer of its task state and \<open>cr3\<close> its page table register.  The call stack that
  \<open>getcallerpcs\<close> records for debugging is not part of the state.
\<close>

section \<open>State and operations\<close>

record cpu =
  ncli :: int
  intena :: bool
  fl_if :: bool
  cproc :: "nat option"
  esp0 :: "32 word"
  cr3 :: "32 word"

record spinlock =
  locked :: bool
  lcpu :: "nat option"
  lname :: string

definition initlock :: "string \<Rightarrow> spinlock" where
  "initlock name = \<lparr>locked = False, lcpu = None, lname = name\<rparr>"

definition cli :: "cpu \<Rightarrow> cpu" where
  "cli k = k\<lparr>fl_if := False\<rparr>"

definition sti :: "cpu \<Rightarrow> cpu" where
  "sti k = k\<lparr>fl_if := True\<rparr>"

definition pushcli :: "cpu \<Rightarrow> cpu" where
  "pushcli k =
     (let eflags = fl_if k; k1 = cli k; k2 = k1\<lparr>ncli := ncli k1 + 1\<rparr>
      in if ncli k1 = 0 then k2\<lparr>intena := eflags\<rparr> else k2)"

definition popcli :: "cpu \<Rightarrow> cpu res" where
  "popcli k =
     (if fl_if k then Inl (Panic ''popcli - interruptible'')
      else (let k1 = k\<lparr>ncli := ncli k - 1\<rparr>
            in if ncli k1 < 0 then Inl (Panic ''popcli'')
               else if ncli k1 = 0 \<and> intena k1 then Inr (sti k1) else Inr k1))"

definition holding :: "nat \<Rightarrow> spinlock \<Rightarrow> bool" where
  "holding c lk \<longleftrightarrow> locked lk \<and> lcpu lk = Some c"

text \<open>The loop on \<open>xchg\<close> ends at the first exchange that finds the lock free.  One attempt is
  modelled: \<open>Spin\<close> when the lock is held elsewhere, and the caller tries again later.\<close>

definition acquire :: "nat \<Rightarrow> cpu \<times> spinlock \<Rightarrow> (cpu \<times> spinlock) res" where
  "acquire c s =
     (case s of (k, lk) \<Rightarrow>
       (let k = pushcli k
        in if holding c lk then Inl (Panic ''acquire'')
           else if locked lk then Inl Spin
           else Inr (k, lk\<lparr>locked := True, lcpu := Some c\<rparr>)))"

definition release :: "nat \<Rightarrow> cpu \<times> spinlock \<Rightarrow> (cpu \<times> spinlock) res" where
  "release c s =
     (case s of (k, lk) \<Rightarrow>
       (if \<not> holding c lk then Inl (Panic ''release'')
        else (let lk = lk\<lparr>lcpu := None, locked := False\<rparr>
              in bindE (popcli k) (\<lambda>k. Inr (k, lk)))))"

section \<open>Matched disabling of interrupts\<close>

text \<open>The state a processor is in outside every critical section is recoverable from any
  nesting of \<open>pushcli\<close>: \<open>cli_inv\<close> says interrupts are off while \<open>ncli\<close> is positive.\<close>

definition cli_inv :: "cpu \<Rightarrow> bool" where
  "cli_inv k \<longleftrightarrow> 0 \<le> ncli k \<and> (0 < ncli k \<longrightarrow> \<not> fl_if k)"

lemmas cli_defs [kernel_simps] = cli_def sti_def pushcli_def popcli_def cli_inv_def Let_def

lemma cli_inv_pushcli: "cli_inv k \<Longrightarrow> cli_inv (pushcli k)"
  by (auto simp: cli_defs)

lemma popcli_ok:
  "\<lbrakk>cli_inv k; 0 < ncli k\<rbrakk> \<Longrightarrow>
     popcli k = Inr (k\<lparr>ncli := ncli k - 1, fl_if := (ncli k = 1 \<and> intena k)\<rparr>)"
  by (cases k) (auto simp: cli_defs)

lemma pushcli_inner: "0 < ncli k \<Longrightarrow> pushcli k = k\<lparr>fl_if := False, ncli := ncli k + 1\<rparr>"
  by (simp add: cli_defs)

lemma popcli_pushcli_outer:
  "ncli k = 0 \<Longrightarrow> popcli (pushcli k) = Inr (k\<lparr>intena := fl_if k\<rparr>)"
  by (cases k) (auto simp: cli_defs)

lemma popcli_pushcli_inner:
  "\<lbrakk>cli_inv k; 0 < ncli k\<rbrakk> \<Longrightarrow> popcli (pushcli k) = Inr k"
  by (cases k) (auto simp: cli_defs)

fun popclis :: "nat \<Rightarrow> cpu \<Rightarrow> cpu res" where
  "popclis 0 k = Inr k"
| "popclis (Suc n) k = bindE (popcli k) (popclis n)"

lemma pushclis_inv: "cli_inv k \<Longrightarrow> cli_inv ((pushcli ^^ n) k)"
  by (induction n) (simp_all add: cli_inv_pushcli)

lemma ncli_pushclis: "ncli ((pushcli ^^ n) k) = ncli k + int n"
  by (induction n) (simp_all add: cli_defs)

lemma popclis_pushclis:
  assumes "ncli k = 0" and "cli_inv k" and "0 < n"
  shows "popclis n ((pushcli ^^ n) k) = Inr (k\<lparr>intena := fl_if k\<rparr>)"
  using assms(3)
proof (induction n)
  case (Suc n)
  show ?case
  proof (cases n)
    case 0
    then show ?thesis using assms by (simp add: popcli_pushcli_outer bindE_def)
  next
    case (Suc m)
    have "popcli (pushcli ((pushcli ^^ n) k)) = Inr ((pushcli ^^ n) k)"
      using Suc assms by (intro popcli_pushcli_inner) (simp_all add: pushclis_inv ncli_pushclis del: funpow.simps)
    then show ?thesis using Suc.IH Suc by simp
  qed
qed simp

section \<open>Mutual exclusion\<close>

text \<open>Any number of processors use one lock.  The state is the lock and every processor's
  state; a step is a successful \<open>acquire\<close> or \<open>release\<close>, an interrupt-flag change in code
  outside critical sections, or a \<open>pushcli\<close>/\<open>popcli\<close> pair on behalf of another lock.\<close>

type_synonym lock_state = "(nat \<Rightarrow> cpu) \<times> spinlock"

inductive lock_step :: "lock_state \<Rightarrow> lock_state \<Rightarrow> bool" where
  ls_acquire: "acquire c (K c, lk) = Inr (k', lk') \<Longrightarrow> lock_step (K, lk) (K(c := k'), lk')"
| ls_release: "release c (K c, lk) = Inr (k', lk') \<Longrightarrow> lock_step (K, lk) (K(c := k'), lk')"
| ls_push: "lock_step (K, lk) (K(c := pushcli (K c)), lk)"
| ls_pop: "\<lbrakk>popcli (K c) = Inr k'; holding c lk \<longrightarrow> 1 < ncli (K c)\<rbrakk> \<Longrightarrow> lock_step (K, lk) (K(c := k'), lk)"
| ls_sti: "ncli (K c) = 0 \<Longrightarrow> lock_step (K, lk) (K(c := sti (K c)), lk)"
| ls_cli: "lock_step (K, lk) (K(c := cli (K c)), lk)"

inductive_cases lock_stepE: "lock_step s t"

definition lock_inv :: "lock_state \<Rightarrow> bool" where
  "lock_inv s \<longleftrightarrow>
     (\<forall>c. cli_inv (fst s c)) \<and>
     (locked (snd s) \<longleftrightarrow> lcpu (snd s) \<noteq> None) \<and>
     (\<forall>c. holding c (snd s) \<longrightarrow> 0 < ncli (fst s c))"

lemma acquire_Inr_iff:
  "acquire c (k, lk) = Inr (k', lk') \<longleftrightarrow>
     \<not> locked lk \<and> k' = pushcli k \<and> lk' = lk\<lparr>locked := True, lcpu := Some c\<rparr>"
  by (auto simp: acquire_def Let_def holding_def)

lemma release_Inr_iff:
  "release c (k, lk) = Inr (k', lk') \<longleftrightarrow>
     holding c lk \<and> popcli k = Inr k' \<and> lk' = lk\<lparr>lcpu := None, locked := False\<rparr>"
  by (auto simp: release_def Let_def bindE_eq_Inr_iff)

lemma popcli_Inr_cli_inv: "popcli k = Inr k' \<Longrightarrow> cli_inv k' \<and> ncli k' = ncli k - 1"
  by (auto simp: cli_defs split: if_splits)

lemma ncli_pushcli [simp]: "ncli (pushcli k) = ncli k + 1"
  by (simp add: cli_defs)

lemma lock_step_inv:
  assumes "lock_step s t" and "lock_inv s"
  shows "lock_inv t"
  using assms
proof cases
  case (ls_acquire c K lk k' lk')
  then show ?thesis using assms(2)
    by (auto simp: lock_inv_def acquire_Inr_iff holding_def cli_inv_pushcli) (auto simp: cli_inv_def add_strict_increasing2)
next
  case (ls_release c K lk k' lk')
  then show ?thesis using assms(2)
    by (auto simp: lock_inv_def release_Inr_iff holding_def dest: popcli_Inr_cli_inv)
next
  case (ls_push K lk c)
  then show ?thesis using assms(2)
    by (auto simp: lock_inv_def cli_inv_pushcli)
next
  case (ls_pop K c k' lk)
  then show ?thesis using assms(2)
    by (auto simp: lock_inv_def dest!: popcli_Inr_cli_inv)
next
  case (ls_sti K c lk)
  then show ?thesis using assms(2)
    by (auto simp: lock_inv_def sti_def cli_inv_def)
next
  case (ls_cli K lk c)
  then show ?thesis using assms(2)
    by (auto simp: lock_inv_def cli_def cli_inv_def)
qed

lemma lock_reach_inv: "\<lbrakk>lock_step\<^sup>*\<^sup>* s t; lock_inv s\<rbrakk> \<Longrightarrow> lock_inv t"
  by (induction rule: rtranclp_induct) (auto intro: lock_step_inv)

definition boot_cpu :: cpu where
  "boot_cpu = \<lparr>ncli = 0, intena = False, fl_if = False, cproc = None, esp0 = 0, cr3 = 0\<rparr>"

lemma lock_inv_init: "lock_inv (\<lambda>_. boot_cpu, initlock nm)"
  by (simp add: lock_inv_def boot_cpu_def initlock_def cli_inv_def holding_def)

section \<open>Properties\<close>

text \<open>C29: Mutual exclusion: from a free lock, however the processors acquire and release it, at most
  one of them holds it, the holder runs with interrupts disabled, and an \<open>acquire\<close> by any
  other spins while an \<open>acquire\<close> by the holder panics.\<close>

theorem spinlock_mutual_exclusion:
  assumes "lock_step\<^sup>*\<^sup>* (\<lambda>_. boot_cpu, initlock nm) (K, lk)" and "holding c lk"
  shows "\<not> fl_if (K c) \<and> 0 < ncli (K c) \<and> acquire c (K c, lk) = Inl (Panic ''acquire'') \<and>
    (d \<noteq> c \<longrightarrow> \<not> holding d lk \<and> acquire d (K d, lk) = Inl Spin)"
proof -
  have "lock_inv (K, lk)" using lock_reach_inv [OF assms(1) lock_inv_init] .
  then have "0 < ncli (K c)" "cli_inv (K c)" using assms(2) by (simp_all add: lock_inv_def)
  then show ?thesis
    using assms(2) by (auto simp: cli_inv_def acquire_def holding_def Let_def)
qed

theorem spinlock_mutual_exclusion_witness:
  "\<exists>K lk. lock_step\<^sup>*\<^sup>* (\<lambda>_. boot_cpu, initlock ''x'') (K, lk) \<and> holding 0 lk \<and> acquire 1 (K 1, lk) = Inl Spin"
proof -
  let ?K = "(\<lambda>_ :: nat. boot_cpu)(0 := pushcli boot_cpu)" and ?lk = "(initlock ''x'')\<lparr>locked := True, lcpu := Some 0\<rparr>"
  have "acquire 0 (boot_cpu, initlock ''x'') = Inr (pushcli boot_cpu, ?lk)"
    by (simp add: acquire_Inr_iff) (simp add: initlock_def)
  then have r: "lock_step\<^sup>*\<^sup>* (\<lambda>_. boot_cpu, initlock ''x'') (?K, ?lk)"
    using ls_acquire [of 0 "\<lambda>_. boot_cpu"] by blast
  moreover have h: "holding 0 ?lk" by (simp add: holding_def)
  moreover have "acquire 1 (?K 1, ?lk) = Inl Spin" using spinlock_mutual_exclusion [OF r h, of 1] by simp
  ultimately show ?thesis by blast
qed

text \<open>Matched disabling: any number of nested \<open>pushcli\<close> calls undone by as many \<open>popcli\<close> calls
  panics nowhere and leaves the interrupt flag as it was.\<close>

theorem pushcli_popcli_matched:
  assumes "ncli k = 0" and "0 < n"
  shows "popclis n ((pushcli ^^ n) k) = Inr (k\<lparr>intena := fl_if k\<rparr>)"
  using popclis_pushclis [of k n] assms by (simp add: cli_inv_def)

theorem pushcli_popcli_matched_witness:
  "popclis 3 ((pushcli ^^ 3) (sti boot_cpu)) = Inr ((sti boot_cpu)\<lparr>intena := True\<rparr>)"
  using pushcli_popcli_matched [of "sti boot_cpu" 3] by (simp add: sti_def boot_cpu_def)

end
