(* ===== verification/File.thy ===== *)
theory File
  imports Prelude
begin

text \<open>
  The table of open files (\<open>src/file.h\<close>, \<open>src/file.c\<close>) and the reference counts of the inode
  cache (\<open>iget\<close> and \<open>idup\<close> of \<open>src/fs.c\<close>).  Files and cached inodes are referred to by their
  index in the table, \<open>None\<close> being the null pointer; each operation runs under the lock of its
  table and is one step.
\<close>

section \<open>Types (src/file.h)\<close>

datatype ftype = FD_NONE | FD_PIPE | FD_INODE

record ofile =
  f_type :: ftype
  f_ref :: int
  f_readable :: bool
  f_writable :: bool
  f_pipe :: "nat option"
  f_ip :: "nat option"
  f_off :: uint

record inode =
  i_dev :: uint
  i_inum :: uint
  i_ref :: int
  i_busy :: bool
  i_valid :: bool
  i_type :: ushort
  i_major :: ushort
  i_minor :: ushort
  i_nlink :: ushort
  i_size :: uint
  i_addrs :: "uint list"

definition NOFILE :: nat where "NOFILE = 16"
definition NFILE :: nat where "NFILE = 100"
definition ROOTINO :: uint where "ROOTINO = 1"
definition ROOTDEV :: uint where "ROOTDEV = 1"
definition NINODE :: nat where "NINODE = 50"

section \<open>File table (src/file.c)\<close>

definition filealloc :: "ofile list \<Rightarrow> nat option \<times> ofile list" where
  "filealloc ft =
     (case first_idx (\<lambda>f. f_ref f = 0) ft of
        None \<Rightarrow> (None, ft)
      | Some i \<Rightarrow> (Some i, ft[i := (ft ! i)\<lparr>f_ref := 1\<rparr>]))"

definition filedup :: "ofile list \<Rightarrow> nat \<Rightarrow> ofile list res" where
  "filedup ft i =
     (if f_ref (ft ! i) < 1 then Inl (Panic ''filedup'')
      else Inr (ft[i := (ft ! i)\<lparr>f_ref := f_ref (ft ! i) + 1\<rparr>]))"

section \<open>Inode cache references (src/fs.c)\<close>

definition iget :: "inode list \<Rightarrow> uint \<Rightarrow> uint \<Rightarrow> (nat \<times> inode list) res" where
  "iget ic dev inum =
     (case first_idx (\<lambda>ip. i_ref ip > 0 \<and> i_dev ip = dev \<and> i_inum ip = inum) ic of
        Some i \<Rightarrow> Inr (i, ic[i := (ic ! i)\<lparr>i_ref := i_ref (ic ! i) + 1\<rparr>])
      | None \<Rightarrow>
         (case first_idx (\<lambda>ip. i_ref ip = 0) ic of
            None \<Rightarrow> Inl (Panic ''iget: no inodes'')
          | Some i \<Rightarrow> Inr (i, ic[i := (ic ! i)\<lparr>i_dev := dev, i_inum := inum, i_ref := 1,
                                                i_busy := False, i_valid := False\<rparr>])))"

definition idup :: "inode list \<Rightarrow> nat \<Rightarrow> inode list" where
  "idup ic i = ic[i := (ic ! i)\<lparr>i_ref := i_ref (ic ! i) + 1\<rparr>]"

text \<open>No two live cache entries stand for the same inode.\<close>

definition same_inode :: "inode \<Rightarrow> inode \<Rightarrow> bool" where
  "same_inode a b \<longleftrightarrow> i_ref a > 0 \<and> i_ref b > 0 \<and> i_dev a = i_dev b \<and> i_inum a = i_inum b"

definition icache_inv :: "inode list \<Rightarrow> bool" where
  "icache_inv ic \<longleftrightarrow>
     (\<forall>i < length ic. 0 \<le> i_ref (ic ! i)) \<and>
     (\<forall>i < length ic. \<forall>j < length ic. same_inode (ic ! i) (ic ! j) \<longrightarrow> i = j)"

lemma icache_inv_update:
  assumes "icache_inv ic" and "0 \<le> i_ref ip" and "i < length ic"
    and "\<And>j. \<lbrakk>j < length ic; j \<noteq> i\<rbrakk> \<Longrightarrow> \<not> same_inode ip (ic ! j)"
  shows "icache_inv (ic[i := ip])"
proof -
  have "\<not> same_inode (ic ! j) ip" if "j < length ic" "j \<noteq> i" for j
    using assms(4) [OF that] by (auto simp: same_inode_def)
  then show ?thesis
    using assms by (simp add: icache_inv_def nth_list_update)
qed

lemma icache_inv_idup:
  assumes "icache_inv ic" and "i < length ic" and "i_ref (ic ! i) > 0"
  shows "icache_inv (idup ic i)"
proof -
  have "\<not> same_inode (ic ! i) (ic ! j)" if "j < length ic" "j \<noteq> i" for j
    using assms that by (auto simp: icache_inv_def)
  then show ?thesis
    unfolding idup_def using assms by (intro icache_inv_update) (auto simp: same_inode_def)
qed

lemma iget_ok:
  assumes "icache_inv ic" and "iget ic dev inum = Inr (i, ic')"
  shows "icache_inv ic' \<and> i < length ic' \<and> length ic' = length ic \<and>
         i_dev (ic' ! i) = dev \<and> i_inum (ic' ! i) = inum \<and>
         i_ref (ic' ! i) = i_ref (ic ! i) + 1 \<and> (\<forall>j. j \<noteq> i \<longrightarrow> ic' ! j = ic ! j)"
proof (cases "first_idx (\<lambda>ip. i_ref ip > 0 \<and> i_dev ip = dev \<and> i_inum ip = inum) ic")
  case None
  with assms(2) obtain e where e: "first_idx (\<lambda>ip. i_ref ip = 0) ic = Some e" "e = i"
    and ic': "ic' = ic[i := (ic ! i)\<lparr>i_dev := dev, i_inum := inum, i_ref := 1,
                                       i_busy := False, i_valid := False\<rparr>]"
    by (auto simp: iget_def split: option.splits)
  from e have i: "i < length ic" "i_ref (ic ! i) = 0" by (auto simp: first_idx_Some_iff)
  have "icache_inv ic'" unfolding ic'
    using assms(1) None i by (intro icache_inv_update) (auto simp: same_inode_def first_idx_None_iff)
  then show ?thesis using i by (simp add: ic')
next
  case (Some a)
  with assms(2) have i: "i < length ic" "i_ref (ic ! i) > 0" "i_dev (ic ! i) = dev"
      "i_inum (ic ! i) = inum" and ic': "ic' = idup ic i"
    by (auto simp: iget_def first_idx_Some_iff idup_def)
  then show ?thesis
    using icache_inv_idup [OF assms(1) i(1,2)] by (simp add: idup_def)
qed

lemma iget_shares: "\<lbrakk>i < length ic; icache_inv ic; i_ref (ic ! i) > 0\<rbrakk> \<Longrightarrow>
  iget ic (i_dev (ic ! i)) (i_inum (ic ! i)) = Inr (i, idup ic i)"
proof -
  assume *: "i < length ic" "icache_inv ic" "i_ref (ic ! i) > 0"
  have "first_idx (\<lambda>ip. i_ref ip > 0 \<and> i_dev ip = i_dev (ic ! i) \<and> i_inum ip = i_inum (ic ! i)) ic
      = Some i"
    unfolding first_idx_Some_iff
  proof (intro conjI allI impI)
    fix j assume j: "j < i"
    then have "\<not> same_inode (ic ! i) (ic ! j)"
      using * less_trans [OF j] unfolding icache_inv_def by blast
    then show "\<not> (i_ref (ic ! j) > 0 \<and> i_dev (ic ! j) = i_dev (ic ! i) \<and>
        i_inum (ic ! j) = i_inum (ic ! i))"
      using * by (auto simp: same_inode_def)
  qed (use * in simp_all)
  then show ?thesis by (simp add: iget_def idup_def)
qed

end
