(* ===== verification/Proc.thy ===== *)
theory Proc
  imports Heap Vm Spinlock File
begin

text \<open>
  Processes and the real-time scheduler (\<open>src/proc.h\<close>, \<open>src/proc.c\<close>) in the configuration
  \<open>RT 0\<close> of \<open>src/types.h\<close>: fixed priorities with preemption thresholds.  A process is referred
  to by its slot in \<open>ptable.proc\<close>, \<open>None\<close> being the null pointer.  Every operation runs its
  critical section under \<open>ptable.lock\<close> as the C code does, on behalf of processor \<open>c\<close>.

  A context switch is modelled by where it continues: \<open>p_kont\<close> says which call of \<open>sched\<close>
  (or the first entry to \<open>forkret\<close>) the saved context of the process returns to, together with
  the value of \<open>cpu->intena\<close> that \<open>sched\<close> keeps in its frame.
\<close>

section \<open>Types and state (src/proc.h)\<close>

datatype procstate = UNUSED | EMBRYO | SLEEPING | RUNNABLE | RUNNING | ZOMBIE | WAITING

text \<open>A sleep channel is the address of a process or of some other kernel object.\<close>

datatype chan = ChProc nat | ChAddr uint

datatype kont = AtForkret | AtYield bool | AtSleep bool | AtWait bool | AtExit

record proc =
  p_O :: uint
  p_P :: uint
  p_rt :: uint
  p_ctxswt :: uint
  p_arrtime :: ull
  p_firstsch :: ull
  p_D :: uint
  p_C :: uint
  p_sz :: uint
  p_pgdir :: uint
  p_kstack :: uint
  p_state :: procstate
  p_pid :: uint
  p_parent :: "nat option"
  p_tf :: uint
  p_context :: uint
  p_kont :: kont
  p_chan :: "chan option"
  p_killed :: bool
  p_ofile :: "nat option list"
  p_cwd :: "nat option"
  p_name :: string

record statistic =
  s_O :: uint
  s_P :: uint
  s_arrtime :: ull
  s_firstsch :: ull
  s_finish :: ull
  s_D :: uint
  s_C :: uint
  s_ctxswt :: uint
  s_pid :: uint

definition NPROC :: nat where "NPROC = 64"
definition KSTACKSIZE :: uint where "KSTACKSIZE = 4096"
definition TAM :: uint where "TAM = 50000"

record kern =
  km :: kmem
  procs :: "proc list"
  queue :: "nat option list"
  itr_q :: uint
  itr_s :: uint
  frozen :: uint
  interrupt :: uint
  miss :: uint
  nextpid :: uint
  initproc :: "nat option"
  statistics :: "nat \<Rightarrow> statistic"
  plock :: spinlock
  cpus :: "nat \<Rightarrow> cpu"
  kpgdir :: uint
  ftable :: "ofile list"
  icache :: "inode list"

text \<open>Addresses fixed by the linker and the assembly files.\<close>

record ksyms =
  sym_end :: uint
  sym_data :: uint
  sym_forkret :: uint
  sym_trapret :: uint
  sym_initcode :: uint
  sym_initcode_size :: uint

definition upd_proc :: "nat \<Rightarrow> (proc \<Rightarrow> proc) \<Rightarrow> kern \<Rightarrow> kern" where
  "upd_proc i f s = s\<lparr>procs := (procs s)[i := f (procs s ! i)]\<rparr>"

definition upd_cpu :: "nat \<Rightarrow> (cpu \<Rightarrow> cpu) \<Rightarrow> kern \<Rightarrow> kern" where
  "upd_cpu c f s = s\<lparr>cpus := (cpus s)(c := f (cpus s c))\<rparr>"

section \<open>Time, locks and address spaces\<close>

text \<open>\<open>tick()\<close> is the time stamp counter shifted down; the counter is read afresh by every call,
  so the operations take the readings as an argument.\<close>

definition tick :: "ull \<Rightarrow> ull" where
  "tick tsc = drop_bit 23 tsc"

definition acquire_ptable :: "nat \<Rightarrow> kern \<Rightarrow> kern res" where
  "acquire_ptable c s =
     bindE (acquire c (cpus s c, plock s)) (\<lambda>(k, lk).
       Inr (s\<lparr>cpus := (cpus s)(c := k), plock := lk\<rparr>))"

definition release_ptable :: "nat \<Rightarrow> kern \<Rightarrow> kern res" where
  "release_ptable c s =
     bindE (release c (cpus s c, plock s)) (\<lambda>(k, lk).
       Inr (s\<lparr>cpus := (cpus s)(c := k), plock := lk\<rparr>))"

definition switchkvm :: "nat \<Rightarrow> kern \<Rightarrow> kern" where
  "switchkvm c s = upd_cpu c (\<lambda>k. k\<lparr>cr3 := v2p (kpgdir s)\<rparr>) s"

text \<open>The kernel stack comes from \<open>proc\<close>, the page table from \<open>p\<close>.\<close>

definition switchuvm :: "nat \<Rightarrow> nat \<Rightarrow> kern \<Rightarrow> kern res" where
  "switchuvm c p s =
     (case cproc (cpus s c) of
        None \<Rightarrow> Inl NullDeref
      | Some q \<Rightarrow>
         (let k = (pushcli (cpus s c))\<lparr>esp0 := p_kstack (procs s ! q) + KSTACKSIZE\<rparr>
          in if p_pgdir (procs s ! p) = 0 then Inl (Panic ''switchuvm: no pgdir'')
             else bindE (popcli (k\<lparr>cr3 := v2p (p_pgdir (procs s ! p))\<rparr>)) (\<lambda>k.
                    Inr (s\<lparr>cpus := (cpus s)(c := k)\<rparr>))))"

section \<open>The ready queue\<close>

text \<open>The comparison of \<open>src/heap.c\<close> on two queue entries.\<close>

definition prio :: "proc list \<Rightarrow> nat option \<Rightarrow> uint" where
  "prio ps q = (case q of None \<Rightarrow> 0 | Some i \<Rightarrow> p_P (ps ! i))"

definition pt_above :: "proc list \<Rightarrow> nat option \<Rightarrow> nat option \<Rightarrow> bool" where
  "pt_above ps a b \<longleftrightarrow> prio ps a > prio ps b"

text \<open>\<open>itr_q++; ptable.queue[itr_q] = p; increasekey(ptable.queue, itr_q)\<close>, which \<open>fork\<close>,
  \<open>yield\<close>, \<open>wakeup1\<close>, \<open>kill\<close> and \<open>freeze\<close> all contain.\<close>

definition enqueue :: "nat \<Rightarrow> kern \<Rightarrow> kern res" where
  "enqueue p s =
     (let i = itr_q s + 1
      in if unat i \<ge> NPROC then Inl OutOfBounds
         else Inr (s\<lparr>itr_q := i,
                    queue := increasekey (pt_above (procs s)) ((queue s)[unat i := Some p]) (unat i)\<rparr>))"

text \<open>\<open>queue[0] = queue[itr_q]; heapify(queue, itr_q, 0); itr_q--\<close> of \<open>scheduler\<close>.\<close>

definition dequeue :: "kern \<Rightarrow> kern res" where
  "dequeue s =
     (if unat (itr_q s) \<ge> NPROC then Inl OutOfBounds
      else Inr (s\<lparr>queue := heapify (pt_above (procs s))
                             ((queue s)[0 := queue s ! unat (itr_q s)]) (unat (itr_q s)) 0,
                  itr_q := itr_q s - 1\<rparr>))"

section \<open>Creating processes\<close>

definition write16 :: "mem \<Rightarrow> uint \<Rightarrow> ushort \<Rightarrow> mem" where
  "write16 m a v = m(a := ucast v, a + 1 := ucast (drop_bit 8 v))"

text \<open>Sizes of \<open>struct trapframe\<close> and \<open>struct context\<close> (\<open>src/x86.h\<close>, \<open>src/proc.h\<close>).\<close>

definition TF_SIZE :: uint where "TF_SIZE = 76"
definition CONTEXT_SIZE :: uint where "CONTEXT_SIZE = 20"

text \<open>The kernel stack of a new process: room for the trap frame, the return address
  \<open>trapret\<close>, and a cleared context whose \<open>eip\<close> is \<open>forkret\<close>.\<close>

definition init_kstack :: "ksyms \<Rightarrow> mem \<Rightarrow> uint \<Rightarrow> mem" where
  "init_kstack sy m kstack =
     (let tf = kstack + KSTACKSIZE - TF_SIZE;
          m = write32 m (tf - 4) (sym_trapret sy);
          ctx = tf - 4 - CONTEXT_SIZE;
          m = memset m ctx 0 CONTEXT_SIZE
      in write32 m (ctx + 16) (sym_forkret sy))"

definition allocproc :: "ksyms \<Rightarrow> nat \<Rightarrow> kern \<Rightarrow> (nat option \<times> kern) res" where
  "allocproc sy c s =
     bindE (acquire_ptable c s) (\<lambda>s.
     case first_idx (\<lambda>p. p_state p = UNUSED) (procs s) of
       None \<Rightarrow> bindE (release_ptable c s) (\<lambda>s. Inr (None, s))
     | Some i \<Rightarrow>
         (let s = upd_proc i (\<lambda>p. p\<lparr>p_state := EMBRYO, p_pid := nextpid s\<rparr>) s;
              s = s\<lparr>nextpid := nextpid s + 1\<rparr>
          in bindE (release_ptable c s) (\<lambda>s.
             let (kstack, k) = kalloc (km s);
                 s = upd_proc i (\<lambda>p. p\<lparr>p_kstack := kstack\<rparr>) (s\<lparr>km := k\<rparr>)
             in if kstack = 0
                then Inr (None, upd_proc i (\<lambda>p. p\<lparr>p_state := UNUSED\<rparr>) s)
                else (let tf = kstack + KSTACKSIZE - TF_SIZE;
                          s = s\<lparr>km := k\<lparr>kbytes := init_kstack sy (kbytes k) kstack\<rparr>, interrupt := 0\<rparr>
                      in Inr (Some i, upd_proc i (\<lambda>p. p\<lparr>p_tf := tf,
                                p_context := tf - 4 - CONTEXT_SIZE, p_kont := AtForkret,
                                p_D := 0, p_C := 0, p_ctxswt := 0, p_arrtime := 0,
                                p_firstsch := 0, p_P := 0, p_O := 0\<rparr>) s)))))"

text \<open>The trap frame of the first process, field by field (offsets of \<open>struct trapframe\<close>).\<close>

definition init_tf :: "mem \<Rightarrow> uint \<Rightarrow> mem" where
  "init_tf m tf =
     (let m = memset m tf 0 TF_SIZE;
          m = write16 m (tf + 60) ((4 * 8) OR 3);
          m = write16 m (tf + 44) ((5 * 8) OR 3);
          m = write16 m (tf + 40) ((5 * 8) OR 3);
          m = write16 m (tf + 72) ((5 * 8) OR 3);
          m = write32 m (tf + 64) 0x200;
          m = write32 m (tf + 68) PGSIZE
      in write32 m (tf + 56) 0)"

text \<open>\<open>safestrcpy\<close> on the NUL-terminated text of a 16 byte name.\<close>

definition copy_name :: "string \<Rightarrow> string" where
  "copy_name nm = take 15 nm"

text \<open>\<open>namei(\<open>"/"\<close>)\<close> is \<open>iget(ROOTDEV, ROOTINO)\<close>: the path has no element to look up.\<close>

definition userinit :: "ksyms \<Rightarrow> nat \<Rightarrow> kern \<Rightarrow> kern res" where
  "userinit sy c s =
     bindE (allocproc sy c s) (\<lambda>(r, s).
     let s = s\<lparr>initproc := r\<rparr>
     in case r of
       None \<Rightarrow> Inl NullDeref
     | Some p \<Rightarrow>
         bindE (setupkvm (sym_data sy) (km s)) (\<lambda>(pgdir, k).
         let s = upd_proc p (\<lambda>q. q\<lparr>p_pgdir := pgdir\<rparr>) (s\<lparr>km := k\<rparr>)
         in if pgdir = 0 then Inl (Panic ''userinit: out of memory?'')
            else bindE (inituvm (km s) pgdir (sym_initcode sy) (sym_initcode_size sy)) (\<lambda>k.
            let s = s\<lparr>km := k\<lparr>kbytes := init_tf (kbytes k) (p_tf (procs s ! p))\<rparr>\<rparr>;
                s = upd_proc p (\<lambda>q. q\<lparr>p_sz := PGSIZE, p_name := copy_name ''initcode''\<rparr>) s
            in bindE (iget (icache s) ROOTDEV ROOTINO) (\<lambda>(ip, ic).
            let s = upd_proc p (\<lambda>q. q\<lparr>p_cwd := Some ip, p_state := RUNNABLE\<rparr>) (s\<lparr>icache := ic, miss := 0\<rparr>)
            in bindE (acquire_ptable c s) (\<lambda>s.
            let s = s\<lparr>itr_q := 0, itr_s := 0, frozen := 0\<rparr>;
                s = upd_proc p (\<lambda>q. q\<lparr>p_D := 100, p_C := 100, p_P := 1, p_O := 1\<rparr>) s;
                s = s\<lparr>queue := (queue s)[0 := Some p]\<rparr>
            in release_ptable c s)))))"

definition growproc :: "ksyms \<Rightarrow> nat \<Rightarrow> uint \<Rightarrow> kern \<Rightarrow> (bool \<times> kern) res" where
  "growproc sy c n s =
     (case cproc (cpus s c) of
        None \<Rightarrow> Inl NullDeref
      | Some me \<Rightarrow>
         (let sz = p_sz (procs s ! me); pgdir = p_pgdir (procs s ! me);
              finish = (\<lambda>(sz, k). bindE (switchuvm c me
                          (upd_proc me (\<lambda>p. p\<lparr>p_sz := sz\<rparr>) (s\<lparr>km := k\<rparr>))) (\<lambda>s. Inr (True, s)))
          in if sint n > 0
             then bindE (allocuvm (sym_end sy) (km s) pgdir sz (sz + n)) (\<lambda>(sz, k).
                    if sz = 0 then Inr (False, s\<lparr>km := k\<rparr>) else finish (sz, k))
             else if sint n < 0
             then bindE (deallocuvm (sym_end sy) (km s) pgdir sz (sz + n)) (\<lambda>(sz, k).
                    if sz = 0 then Inr (False, s\<lparr>km := k\<rparr>) else finish (sz, k))
             else finish (sz, km s)))"

fun dup_files :: "nat option list \<Rightarrow> nat option list \<Rightarrow> ofile list \<Rightarrow> (nat option list \<times> ofile list) res" where
  "dup_files (Some f # fs) (g # gs) ft =
     bindE (filedup ft f) (\<lambda>ft. bindE (dup_files fs gs ft) (\<lambda>(hs, ft). Inr (Some f # hs, ft)))"
| "dup_files (None # fs) (g # gs) ft =
     bindE (dup_files fs gs ft) (\<lambda>(hs, ft). Inr (g # hs, ft))"
| "dup_files fs gs ft = Inr (gs, ft)"

text \<open>The end of \<open>fork\<close>, under \<open>ptable.lock\<close>: the parameters of the new process, and its
  admission to the ready queue unless creation in batches is on.\<close>

definition fork_admit :: "nat \<Rightarrow> nat \<Rightarrow> ull \<Rightarrow> uint \<Rightarrow> uint \<Rightarrow> uint \<Rightarrow> uint \<Rightarrow> kern \<Rightarrow> kern res" where
  "fork_admit c np tsc d cc pr th s =
     bindE (acquire_ptable c s) (\<lambda>s.
     let s = upd_proc np (\<lambda>p. p\<lparr>p_state := RUNNABLE, p_D := d, p_C := cc, p_P := pr, p_O := th,
                                 p_ctxswt := 0\<rparr>) s
     in bindE (if frozen s \<noteq> 0 then Inr (upd_proc np (\<lambda>p. p\<lparr>p_state := WAITING\<rparr>) s)
               else enqueue np (upd_proc np (\<lambda>p. p\<lparr>p_arrtime := tick tsc\<rparr>) s))
          (release_ptable c))"

text \<open>The result is the child's pid, or \<open>-1\<close>.  The call is one step: other processors do not act between
  its two critical sections, where the new slot is EMBRYO and nobody else touches it.\<close>

definition fork ::
  "ksyms \<Rightarrow> nat \<Rightarrow> ull \<Rightarrow> uint \<Rightarrow> uint \<Rightarrow> uint \<Rightarrow> uint \<Rightarrow> kern \<Rightarrow> (uint \<times> kern) res" where
  "fork sy c tsc d cc pr th s =
     (case cproc (cpus s c) of
        None \<Rightarrow> Inl NullDeref
      | Some me \<Rightarrow>
     bindE (allocproc sy c s) (\<lambda>(r, s).
     case r of
       None \<Rightarrow> Inr (- 1, s)
     | Some np \<Rightarrow>
     bindE (copyuvm (sym_end sy) (sym_data sy) (km s) (p_pgdir (procs s ! me)) (p_sz (procs s ! me))) (\<lambda>(d', k).
     let s = upd_proc np (\<lambda>p. p\<lparr>p_pgdir := d'\<rparr>) (s\<lparr>km := k\<rparr>)
     in if d' = 0
        then bindE (kfree (sym_end sy) (km s) (p_kstack (procs s ! np))) (\<lambda>k.
               Inr (- 1, upd_proc np (\<lambda>p. p\<lparr>p_kstack := 0, p_state := UNUSED\<rparr>) (s\<lparr>km := k\<rparr>)))
        else (let s = upd_proc np (\<lambda>p. p\<lparr>p_sz := p_sz (procs s ! me), p_parent := Some me\<rparr>) s;
                  m = memmove (kbytes (km s)) (p_tf (procs s ! np)) (p_tf (procs s ! me)) TF_SIZE;
                  m = write32 m (p_tf (procs s ! np) + 28) 0;
                  s = s\<lparr>km := (km s)\<lparr>kbytes := m\<rparr>\<rparr>
              in bindE (dup_files (p_ofile (procs s ! me)) (p_ofile (procs s ! np)) (ftable s)) (\<lambda>(fs, ft).
              case p_cwd (procs s ! me) of
                None \<Rightarrow> Inl NullDeref
              | Some ip \<Rightarrow>
              (let s = s\<lparr>ftable := ft, icache := idup (icache s) ip\<rparr>;
                   s = upd_proc np (\<lambda>p. p\<lparr>p_ofile := fs, p_cwd := Some ip,
                                            p_name := copy_name (p_name (procs s ! me))\<rparr>) s;
                   pid = p_pid (procs s ! np)
               in bindE (fork_admit c np tsc d cc pr th s) (\<lambda>s. Inr (pid, s))))))))"

section \<open>Sleeping and waking\<close>

text \<open>\<open>*(int *)chan\<close>: the first word of the object a channel points to, which for a process is
  its threshold.\<close>

definition chan_word :: "kern \<Rightarrow> chan option \<Rightarrow> uint res" where
  "chan_word s ch =
     (case ch of
        None \<Rightarrow> Inl NullDeref
      | Some (ChProc i) \<Rightarrow> Inr (p_O (procs s ! i))
      | Some (ChAddr a) \<Rightarrow> if a = 0 then Inl NullDeref else Inr (read32 (kbytes (km s)) a))"

fun wakeup_scan :: "(nat \<Rightarrow> ull) \<Rightarrow> chan option \<Rightarrow> nat list \<Rightarrow> kern \<Rightarrow> kern res" where
  "wakeup_scan tsc ch [] s = Inr s"
| "wakeup_scan tsc ch (i # is) s =
     (if p_state (procs s ! i) = SLEEPING
      then bindE (chan_word s (p_chan (procs s ! i))) (\<lambda>v.
           bindE (chan_word s ch) (\<lambda>w.
             if v = w
             then bindE (enqueue i (upd_proc i (\<lambda>p. p\<lparr>p_state := RUNNABLE, p_chan := None,
                            p_arrtime := tick (tsc i), p_firstsch := 0, p_ctxswt := 0\<rparr>) s))
                    (\<lambda>s. wakeup_scan tsc ch is (s\<lparr>interrupt := 1\<rparr>))
             else wakeup_scan tsc ch is s))
      else wakeup_scan tsc ch is s)"

definition wakeup1 :: "(nat \<Rightarrow> ull) \<Rightarrow> chan option \<Rightarrow> kern \<Rightarrow> kern res" where
  "wakeup1 tsc ch s = wakeup_scan tsc ch [0..<NPROC] s"

definition wakeup :: "nat \<Rightarrow> (nat \<Rightarrow> ull) \<Rightarrow> chan option \<Rightarrow> kern \<Rightarrow> kern res" where
  "wakeup c tsc ch s =
     bindE (acquire_ptable c s) (\<lambda>s. bindE (wakeup1 tsc ch s) (release_ptable c))"

section \<open>Switching to and from the scheduler\<close>

text \<open>\<open>sched\<close> up to its \<open>swtch\<close>; \<open>k\<close> is the place its caller will continue at.\<close>

definition sched :: "nat \<Rightarrow> (bool \<Rightarrow> kont) \<Rightarrow> kern \<Rightarrow> kern res" where
  "sched c k s =
     (if \<not> holding c (plock s) then Inl (Panic ''sched ptable.lock'')
      else if ncli (cpus s c) \<noteq> 1 then Inl (Panic ''sched locks'')
      else case cproc (cpus s c) of
        None \<Rightarrow> Inl NullDeref
      | Some me \<Rightarrow>
          if p_state (procs s ! me) = RUNNING then Inl (Panic ''sched running'')
          else if fl_if (cpus s c) then Inl (Panic ''sched interruptible'')
          else Inr (upd_proc me (\<lambda>p. p\<lparr>p_kont := k (intena (cpus s c))\<rparr>) s))"

text \<open>What \<open>scheduler\<close> does after its \<open>swtch\<close> comes back.\<close>

definition scheduler_back :: "nat \<Rightarrow> kern \<Rightarrow> kern res" where
  "scheduler_back c s =
     release_ptable c (upd_cpu c (\<lambda>k. k\<lparr>cproc := None\<rparr>) (switchkvm c s))"

definition sched_switch :: "nat \<Rightarrow> (bool \<Rightarrow> kont) \<Rightarrow> kern \<Rightarrow> kern res" where
  "sched_switch c k s = bindE (sched c k s) (scheduler_back c)"

text \<open>\<open>yield\<close>: the process gives up the processor only to one whose priority exceeds its own
  threshold.\<close>

definition yield :: "nat \<Rightarrow> kern \<Rightarrow> kern res" where
  "yield c s =
     bindE (acquire_ptable c s) (\<lambda>s.
     case (queue s ! 0, cproc (cpus s c)) of
       (Some q, Some me) \<Rightarrow>
         if p_P (procs s ! q) > p_O (procs s ! me)
         then bindE (enqueue me (upd_proc me (\<lambda>p. p\<lparr>p_state := RUNNABLE\<rparr>) s)) (sched_switch c AtYield)
         else release_ptable c (s\<lparr>interrupt := 0\<rparr>)
     | _ \<Rightarrow> Inl NullDeref)"

text \<open>The lock argument of \<open>sleep\<close>: null, \<open>ptable.lock\<close>, or a lock of another component.\<close>

datatype lockarg = NoLock | PtableLock | OtherLock spinlock

text \<open>Releasing another component's lock on the processor that holds it.\<close>

definition release_other :: "nat \<Rightarrow> spinlock \<Rightarrow> kern \<Rightarrow> (spinlock \<times> kern) res" where
  "release_other c lk s =
     bindE (release c (cpus s c, lk)) (\<lambda>(k, lk). Inr (lk, s\<lparr>cpus := (cpus s)(c := k)\<rparr>))"

definition sleep_on :: "nat \<Rightarrow> nat \<Rightarrow> chan option \<Rightarrow> (bool \<Rightarrow> kont) \<Rightarrow> kern \<Rightarrow> kern res" where
  "sleep_on c me ch k s =
     sched_switch c k (upd_proc me (\<lambda>p. p\<lparr>p_chan := ch, p_state := SLEEPING\<rparr>) s)"

text \<open>With \<open>ptable.lock\<close> as its lock, \<open>sleep\<close> returns into \<open>wait\<close>, its one such caller.\<close>

definition sleep :: "nat \<Rightarrow> chan option \<Rightarrow> lockarg \<Rightarrow> kern \<Rightarrow> (lockarg \<times> kern) res" where
  "sleep c ch lk s =
     (case cproc (cpus s c) of
        None \<Rightarrow> Inl (Panic ''sleep'')
      | Some me \<Rightarrow>
         (case lk of
            NoLock \<Rightarrow> Inl (Panic ''sleep without lk'')
          | PtableLock \<Rightarrow> bindE (sleep_on c me ch AtWait s) (\<lambda>s. Inr (PtableLock, s))
          | OtherLock l \<Rightarrow>
              bindE (acquire_ptable c s) (\<lambda>s.
              bindE (release_other c l s) (\<lambda>(l, s).
              bindE (sleep_on c me ch AtSleep s) (\<lambda>s. Inr (OtherLock l, s))))))"

section \<open>Ending and reaping processes\<close>

text \<open>The second half of \<open>exit\<close>, from \<open>acquire(&ptable.lock)\<close> on; the files and the working
  directory have been given up before.\<close>

fun reparent_scan :: "(nat \<Rightarrow> nat \<Rightarrow> ull) \<Rightarrow> nat \<Rightarrow> nat list \<Rightarrow> kern \<Rightarrow> kern res" where
  "reparent_scan tsc me [] s = Inr s"
| "reparent_scan tsc me (i # is) s =
     (if p_parent (procs s ! i) = Some me
      then (let s = upd_proc i (\<lambda>p. p\<lparr>p_parent := initproc s\<rparr>) s
            in if p_state (procs s ! i) = ZOMBIE
               then bindE (wakeup1 (tsc i) (map_option ChProc (initproc s)) s) (reparent_scan tsc me is)
               else reparent_scan tsc me is s)
      else reparent_scan tsc me is s)"

definition exit_proc :: "nat \<Rightarrow> (nat \<Rightarrow> ull) \<Rightarrow> (nat \<Rightarrow> nat \<Rightarrow> ull) \<Rightarrow> kern \<Rightarrow> kern res" where
  "exit_proc c tsc tsc' s =
     (case cproc (cpus s c) of
        None \<Rightarrow> Inl NullDeref
      | Some me \<Rightarrow>
          if initproc s = Some me then Inl (Panic ''init exiting'')
          else
          bindE (acquire_ptable c s) (\<lambda>s.
          bindE (wakeup1 tsc (map_option ChProc (p_parent (procs s ! me))) s) (\<lambda>s.
          bindE (reparent_scan tsc' me [0..<NPROC] s) (\<lambda>s.
          sched_switch c (\<lambda>_. AtExit) (upd_proc me (\<lambda>p. p\<lparr>p_state := ZOMBIE\<rparr>) s)))))"

definition reap :: "ksyms \<Rightarrow> nat \<Rightarrow> kern \<Rightarrow> kern res" where
  "reap sy i s =
     bindE (kfree (sym_end sy) (km s) (p_kstack (procs s ! i))) (\<lambda>k.
     bindE (freevm (sym_end sy) k (p_pgdir (procs s ! i))) (\<lambda>k.
       Inr (upd_proc i (\<lambda>p. p\<lparr>p_kstack := 0, p_state := UNUSED, p_pid := 0, p_parent := None,
                              p_name := '''', p_killed := False\<rparr>) (s\<lparr>km := k\<rparr>))))"

text \<open>One pass of \<open>wait\<close> over the table: whether there are children, and the pid of the one
  that was reaped.\<close>

fun wait_scan :: "ksyms \<Rightarrow> nat \<Rightarrow> nat list \<Rightarrow> bool \<Rightarrow> kern \<Rightarrow> (bool \<times> uint option \<times> kern) res" where
  "wait_scan sy me [] havekids s = Inr (havekids, None, s)"
| "wait_scan sy me (i # is) havekids s =
     (if p_parent (procs s ! i) \<noteq> Some me then wait_scan sy me is havekids s
      else if p_state (procs s ! i) = ZOMBIE
      then bindE (reap sy i s) (\<lambda>s'. Inr (True, Some (p_pid (procs s ! i)), s'))
      else wait_scan sy me is True s)"

text \<open>The body of the loop of \<open>wait\<close> with the lock held.  \<open>None\<close> means that the process has
  gone to sleep and will come back to the loop.\<close>

definition wait_loop :: "ksyms \<Rightarrow> nat \<Rightarrow> nat \<Rightarrow> kern \<Rightarrow> (uint option \<times> kern) res" where
  "wait_loop sy c me s =
     bindE (wait_scan sy me [0..<NPROC] False s) (\<lambda>(havekids, r, s).
     case r of
       Some pid \<Rightarrow> bindE (release_ptable c s) (\<lambda>s. Inr (Some pid, s))
     | None \<Rightarrow>
         if \<not> havekids \<or> p_killed (procs s ! me)
         then bindE (release_ptable c s) (\<lambda>s. Inr (Some (- 1), s))
         else bindE (sleep c (Some (ChProc me)) PtableLock s) (\<lambda>(_, s). Inr (None, s)))"

definition wait :: "ksyms \<Rightarrow> nat \<Rightarrow> kern \<Rightarrow> (uint option \<times> kern) res" where
  "wait sy c s =
     bindE (acquire_ptable c s) (\<lambda>s.
     case cproc (cpus s c) of None \<Rightarrow> Inl NullDeref | Some me \<Rightarrow> wait_loop sy c me s)"

section \<open>The scheduler\<close>

text \<open>Where \<open>swtch(&cpu->scheduler, proc->context)\<close> takes the processor: the rest of the call in
  which process \<open>me\<close> gave it up.  The initialisation of the file system by the first
  \<open>forkret\<close> is left out, and so is the \<open>acquire(lk)\<close> that ends \<open>sleep\<close>: the lock belongs to another
  component, and the theory \<open>Wakeup\<close> has that operation as a step of its own.\<close>

definition resume :: "ksyms \<Rightarrow> nat \<Rightarrow> nat \<Rightarrow> kern \<Rightarrow> (uint option \<times> kern) res" where
  "resume sy c me s =
     (case p_kont (procs s ! me) of
        AtForkret \<Rightarrow> bindE (release_ptable c s) (\<lambda>s. Inr (None, s))
      | AtYield b \<Rightarrow>
          bindE (release_ptable c ((upd_cpu c (\<lambda>k. k\<lparr>intena := b\<rparr>) s)\<lparr>interrupt := 0\<rparr>)) (\<lambda>s. Inr (None, s))
      | AtSleep b \<Rightarrow>
          bindE (release_ptable c (upd_proc me (\<lambda>p. p\<lparr>p_chan := None\<rparr>)
                   (upd_cpu c (\<lambda>k. k\<lparr>intena := b\<rparr>) s))) (\<lambda>s. Inr (None, s))
      | AtWait b \<Rightarrow>
          wait_loop sy c me (upd_proc me (\<lambda>p. p\<lparr>p_chan := None\<rparr>) (upd_cpu c (\<lambda>k. k\<lparr>intena := b\<rparr>) s))
      | AtExit \<Rightarrow> Inl (Panic ''zombie exit''))"

text \<open>The statements between taking the head of the queue and \<open>swtch\<close>.\<close>

definition start_run :: "ull \<Rightarrow> proc \<Rightarrow> proc" where
  "start_run tsc q = q\<lparr>p_state := RUNNING,
     p_firstsch := (if p_firstsch q = 0 then tick tsc else p_firstsch q)\<rparr>"

definition dispatch :: "nat \<Rightarrow> ull \<Rightarrow> nat \<Rightarrow> kern \<Rightarrow> kern res" where
  "dispatch c tsc p s =
     bindE (dequeue s) (\<lambda>s.
     bindE (switchuvm c p (upd_cpu c (\<lambda>k. k\<lparr>cproc := Some p\<rparr>) s)) (\<lambda>s.
       Inr (upd_proc p (start_run tsc) s)))"

text \<open>One round of the scheduler's loop, up to the process it switches to giving the processor
  back or leaving the kernel.\<close>

definition scheduler :: "ksyms \<Rightarrow> nat \<Rightarrow> ull \<Rightarrow> kern \<Rightarrow> (uint option \<times> kern) res" where
  "scheduler sy c tsc s =
     bindE (acquire_ptable c (upd_cpu c sti s)) (\<lambda>s.
     if itr_q s \<noteq> - 1
     then (case queue s ! 0 of
             None \<Rightarrow> Inl NullDeref
           | Some p \<Rightarrow>
              (let s = upd_proc p (\<lambda>q. q\<lparr>p_ctxswt := p_ctxswt q + 1\<rparr>) s
               in bindE (if frozen s = 0 then Inr True
                         else case cproc (cpus s c) of
                                None \<Rightarrow> Inl NullDeref
                              | Some me \<Rightarrow> Inr (p_P (procs s ! p) > p_O (procs s ! me)))
                    (\<lambda>go. if go then bindE (dispatch c tsc p s) (resume sy c p)
                          else bindE (release_ptable c s) (\<lambda>s. Inr (None, s)))))
     else bindE (release_ptable c s) (\<lambda>s. Inr (None, s)))"

section \<open>Kill, freeze and statistics\<close>

text \<open>\<open>kill\<close>; the listing of the queue that \<open>printQueue\<close> writes to the console when the victim was asleep is output only
  and left out.\<close>

definition kill :: "nat \<Rightarrow> uint \<Rightarrow> kern \<Rightarrow> (bool \<times> kern) res" where
  "kill c pid s =
     bindE (acquire_ptable c s) (\<lambda>s.
     case first_idx (\<lambda>p. p_pid p = pid) (procs s) of
       None \<Rightarrow> bindE (release_ptable c s) (\<lambda>s. Inr (False, s))
     | Some i \<Rightarrow>
         (let s = upd_proc i (\<lambda>p. p\<lparr>p_killed := True\<rparr>) s
          in bindE (if p_state (procs s ! i) = SLEEPING
                    then enqueue i (upd_proc i (\<lambda>p. p\<lparr>p_state := RUNNABLE\<rparr>) s) else Inr s)
               (\<lambda>s. bindE (release_ptable c s) (\<lambda>s. Inr (True, s)))))"

fun unfreeze_scan :: "nat list \<Rightarrow> kern \<Rightarrow> kern res" where
  "unfreeze_scan [] s = Inr s"
| "unfreeze_scan (i # is) s =
     (if p_state (procs s ! i) = WAITING
      then bindE (enqueue i (upd_proc i (\<lambda>p. p\<lparr>p_state := RUNNABLE\<rparr>) s)) (unfreeze_scan is)
      else unfreeze_scan is s)"

definition freeze :: "nat \<Rightarrow> bool \<Rightarrow> kern \<Rightarrow> kern res" where
  "freeze c f s =
     (if f then Inr (s\<lparr>frozen := 1\<rparr>)
      else bindE (acquire_ptable c (s\<lparr>frozen := 0\<rparr>)) (\<lambda>s.
           bindE (unfreeze_scan [0..<NPROC] s) (release_ptable c)))"

text \<open>\<open>tsc1\<close> and \<open>tsc2\<close> are the two counter readings.\<close>

definition getData :: "ull \<Rightarrow> ull \<Rightarrow> nat \<Rightarrow> kern \<Rightarrow> kern" where
  "getData tsc1 tsc2 i s =
     (if itr_s s > TAM - 1 then s
      else (let p = procs s ! i;
                st = \<lparr>s_O = p_O p, s_P = p_P p, s_arrtime = p_arrtime p, s_firstsch = p_firstsch p,
                      s_finish = tick tsc2, s_D = p_D p, s_C = p_C p, s_ctxswt = p_ctxswt p,
                      s_pid = p_pid p\<rparr>
            in upd_proc i (\<lambda>p. p\<lparr>p_firstsch := 0, p_arrtime := tick tsc1, p_ctxswt := 0\<rparr>)
                 (s\<lparr>statistics := (statistics s)(unat (itr_s s) := st), itr_s := itr_s s + 1\<rparr>)))"

text \<open>A job misses its deadline when its response time exceeds \<open>D\<close>; the comparison is in 64
  bits.  \<open>report\<close> lists the rows that \<open>print(1)\<close> writes, each with its last column.\<close>

definition missed :: "statistic \<Rightarrow> bool" where
  "missed st \<longleftrightarrow> s_finish st - s_arrtime st > ucast (s_D st)"

definition report :: "kern \<Rightarrow> (statistic \<times> bool) list" where
  "report s =
     map (\<lambda>st. (st, missed st))
       (filter (\<lambda>st. s_P st \<noteq> 0) (map (statistics s) [0..<unat (itr_s s)]))"

text \<open>The result is the rows, the number of misses written after them, and the new state.\<close>

definition print :: "nat \<Rightarrow> ull \<Rightarrow> ull \<Rightarrow> uint \<Rightarrow> kern \<Rightarrow> ((statistic \<times> bool) list \<times> uint option \<times> kern) res" where
  "print c tsc1 tsc2 flag s =
     (if flag = 2
      then (case cproc (cpus s c) of
              None \<Rightarrow> (if itr_s s > TAM - 1 then Inr ([], None, s) else Inl NullDeref)
            | Some me \<Rightarrow> Inr ([], None, getData tsc1 tsc2 me s))
      else if flag = 1
      then Inr (report s, Some (miss s + word_of_nat (length (filter snd (report s)))), s\<lparr>miss := 0\<rparr>)
      else Inr ([], None, s\<lparr>itr_s := 0\<rparr>))"

end
