(* ===== verification/Sched.thy ===== *)
theory Sched
  imports Proc
begin

text \<open>
  Correctness of the scheduler of \<open>src/proc.c\<close>: the invariant that ties the ready queue, the
  process states and the processors together, its preservation by every operation, and the
  kernel as a transition system over any number of processors.
\<close>

section \<open>The comparison is a strict weak order\<close>

interpretation pt: prio_order "pt_above ps" for ps
  by unfold_locales (auto simp: pt_above_def)

lemma pt_above_cong:
  "prio ps a = prio ps' a \<Longrightarrow> prio ps b = prio ps' b \<Longrightarrow> pt_above ps a b = pt_above ps' a b"
  by (simp add: pt_above_def)

section \<open>The invariant\<close>

text \<open>\<open>R\<close> is the set of slots held by the first \<open>n\<close> cells of the queue.\<close>

definition rq_inv :: "nat option list \<Rightarrow> nat \<Rightarrow> nat set \<Rightarrow> bool" where
  "rq_inv q n R \<longleftrightarrow> length q = NPROC \<and> n \<le> NPROC \<and> distinct (take n q) \<and> set (take n q) = Some ` R"

definition ready :: "proc list \<Rightarrow> nat set" where
  "ready ps = {i. i < length ps \<and> p_state (ps ! i) = RUNNABLE}"

definition proc_ok :: "proc \<Rightarrow> bool" where
  "proc_ok p \<longleftrightarrow>
     (p_state p \<in> {RUNNABLE, RUNNING, SLEEPING, WAITING} \<longrightarrow> p_pgdir p \<noteq> 0 \<and> p_kont p \<noteq> AtExit)"

definition cpus_ok :: "proc list \<Rightarrow> (nat \<Rightarrow> nat option) \<Rightarrow> bool" where
  "cpus_ok ps cp \<longleftrightarrow>
     (\<forall>i < length ps. p_state (ps ! i) = RUNNING \<longleftrightarrow> (\<exists>c. cp c = Some i)) \<and>
     (\<forall>c i. cp c = Some i \<longrightarrow> i < length ps) \<and>
     (\<forall>c d i. cp c = Some i \<longrightarrow> cp d = Some i \<longrightarrow> c = d)"

text \<open>Cell 0 is read by \<open>yield\<close> even when the queue is empty; it then holds an old entry.\<close>

definition head_ok :: "nat option list \<Rightarrow> bool" where
  "head_ok q \<longleftrightarrow> (\<exists>h < NPROC. q ! 0 = Some h)"

text \<open>\<open>b\<close> records that there have never been more than five ready processes; as long as it is
  true the queue is in the stronger order of \<open>small_order\<close>.\<close>

definition pinv :: "bool \<Rightarrow> proc list \<Rightarrow> nat option list \<Rightarrow> nat \<Rightarrow> (nat \<Rightarrow> nat option) \<Rightarrow> bool" where
  "pinv b ps q n cp \<longleftrightarrow>
     length ps = NPROC \<and> rq_inv q n (ready ps) \<and> cpus_ok ps cp \<and>
     (\<forall>i < NPROC. proc_ok (ps ! i)) \<and> head_ok q \<and> (b \<longrightarrow> small_order (pt_above ps) q n)"

definition qlen :: "kern \<Rightarrow> nat" where
  "qlen s = unat (itr_q s + 1)"

definition cur :: "kern \<Rightarrow> nat \<Rightarrow> nat option" where
  "cur s = (\<lambda>c. cproc (cpus s c))"

definition kcore :: "bool \<Rightarrow> kern \<Rightarrow> bool" where
  "kcore b s \<longleftrightarrow> pinv b (procs s) (queue s) (qlen s) (cur s)"

lemma rq_card: "rq_inv q n R \<Longrightarrow> card R = n"
proof -
  assume *: "rq_inv q n R"
  then have "card (set (take n q)) = n"
    using distinct_card [of "take n q"] by (simp add: rq_inv_def)
  with * show ?thesis
    by (simp add: rq_inv_def card_image)
qed

lemma rq_nth: "rq_inv q n R \<Longrightarrow> j < n \<Longrightarrow> \<exists>i \<in> R. q ! j = Some i"
proof -
  assume *: "rq_inv q n R" "j < n"
  then have "take n q ! j \<in> set (take n q)" by (intro nth_mem) (simp add: rq_inv_def)
  with * show ?thesis by (auto simp: rq_inv_def)
qed

lemma rq_mem: "rq_inv q n R \<Longrightarrow> i \<in> R \<Longrightarrow> \<exists>j < n. q ! j = Some i"
proof -
  assume *: "rq_inv q n R" "i \<in> R"
  then have "Some i \<in> set (take n q)" by (simp add: rq_inv_def)
  then show ?thesis by (auto simp: in_set_conv_nth)
qed

lemma rq_head: "rq_inv q n R \<Longrightarrow> 0 < n \<Longrightarrow> R \<subseteq> {..<NPROC} \<Longrightarrow> head_ok q"
  using rq_nth [of q n R 0] by (auto simp: head_ok_def)

lemma rq_insert:
  assumes "rq_inv q n R" and "i \<notin> R" and "insert i R \<subseteq> {..<NPROC}"
  shows "n < NPROC" and "rq_inv (increasekey r (q[n := Some i]) n) (Suc n) (insert i R)"
proof -
  have fin: "finite R" using assms(3) finite_subset by auto
  have "card (insert i R) \<le> NPROC" using card_mono [OF _ assms(3)] by simp
  with assms(2) fin rq_card [OF assms(1)] show n: "n < NPROC" by simp
  have len: "length q = NPROC" using assms(1) by (simp add: rq_inv_def)
  define q' where "q' = increasekey r (q[n := Some i]) n"
  have "mset (take (Suc n) q') = mset (take (Suc n) (q[n := Some i]))"
    unfolding q'_def using n len by (intro mset_increasekey) simp_all
  also have "\<dots> = add_mset (Some i) (mset (take n q))"
    using n len by (simp add: take_Suc_conv_app_nth)
  finally have m: "mset (take (Suc n) q') = add_mset (Some i) (mset (take n q))" .
  have "set (take (Suc n) q') = Some ` insert i R"
    using arg_cong [OF m, of set_mset] assms(1) by (simp add: rq_inv_def)
  moreover have "distinct (take (Suc n) q')"
    using assms(1,2) m mset_eq_imp_distinct_iff [of "take (Suc n) q'" "Some i # take n q"]
    by (auto simp: rq_inv_def)
  ultimately show "rq_inv (increasekey r (q[n := Some i]) n) (Suc n) (insert i R)"
    using n len by (simp add: rq_inv_def q'_def)
qed

lemma mset_dequeue:
  assumes "Suc n \<le> length q"
  shows "mset (take n (heapify r (q[0 := q ! n]) n 0)) = mset (take (Suc n) q) - {#q ! 0#}"
proof (cases n)
  case 0
  with assms show ?thesis by (cases q) simp_all
next
  case (Suc m)
  then have "mset (take n (heapify r (q[0 := q ! n]) n 0)) = mset (take n (q[0 := q ! n]))"
    using assms by (intro mset_heapify) simp_all
  also have "\<dots> = mset (take (Suc n) q) - {#q ! 0#}"
    using assms Suc by (cases q) (simp_all add: take_Suc_conv_app_nth)
  finally show ?thesis .
qed

lemma rq_remove:
  assumes "rq_inv q (Suc n) R" and "q ! 0 = Some i"
  shows "rq_inv (heapify r (q[0 := q ! n]) n 0) n (R - {i})"
proof -
  define q' where "q' = heapify r (q[0 := q ! n]) n 0"
  have len: "Suc n \<le> length q" "length q = NPROC" using assms(1) by (simp_all add: rq_inv_def)
  have m: "mset (take (Suc n) q) = add_mset (Some i) (mset (take n q'))"
    unfolding q'_def mset_dequeue [OF len(1)] using len assms(2)
    by (cases q) simp_all
  have "set (take (Suc n) q) = insert (Some i) (set (take n q'))"
    using arg_cong [OF m, of set_mset] by simp
  moreover have "distinct (Some i # take n q')"
    using assms(1) m mset_eq_imp_distinct_iff [of "take (Suc n) q" "Some i # take n q'"]
    by (auto simp: rq_inv_def)
  ultimately show ?thesis
    using assms(1) len by (auto simp: rq_inv_def q'_def)
qed

section \<open>Single updates\<close>

lemma ready_update:
  "i < length ps \<Longrightarrow>
   ready (ps[i := p]) = (if p_state p = RUNNABLE then insert i (ready ps) else ready ps - {i})"
  by (auto simp: ready_def nth_list_update split: if_splits)

lemma prio_update:
  "p_P p = p_P (ps ! i) \<Longrightarrow> prio (ps[i := p]) a = prio ps a"
  by (cases "i < length ps")
     (auto simp: prio_def nth_list_update list_update_beyond split: option.splits)

lemma prio_update_other: "a \<noteq> Some i \<Longrightarrow> prio (ps[i := p]) a = prio ps a"
  by (cases a; simp add: prio_def; metis nth_list_update_neq)

lemma small_order_cong:
  assumes "\<And>j. j < n \<Longrightarrow> prio ps (q ! j) = prio ps' (q ! j)"
  shows "small_order (pt_above ps) q n = small_order (pt_above ps') q n"
  using assms by (auto simp: small_order_def root_max_def pt_above_def)

text \<open>An update that keeps the scheduling state of a process and, while it is ready, its priority.\<close>

lemma pinv_keep:
  assumes "pinv b ps q n cp" and "i < NPROC" and "proc_ok p"
    and "p_state p = RUNNABLE \<longleftrightarrow> p_state (ps ! i) = RUNNABLE"
    and "p_state p = RUNNING \<longleftrightarrow> p_state (ps ! i) = RUNNING"
    and "p_state p = RUNNABLE \<Longrightarrow> p_P p = p_P (ps ! i)"
  shows "pinv b (ps[i := p]) q n cp"
proof -
  have len: "length ps = NPROC" using assms(1) by (simp add: pinv_def)
  have r: "ready (ps[i := p]) = ready ps"
    using assms(2,4) len by (auto simp: ready_update) (auto simp: ready_def)
  have "small_order (pt_above (ps[i := p])) q n = small_order (pt_above ps) q n"
  proof (rule small_order_cong)
    fix j assume "j < n"
    then obtain k where k: "k \<in> ready ps" "q ! j = Some k"
      using assms(1) rq_nth by (fastforce simp: pinv_def)
    show "prio (ps[i := p]) (q ! j) = prio ps (q ! j)"
    proof (cases "k = i")
      case True
      then have "p_P p = p_P (ps ! i)" using k assms(4,6) by (simp add: ready_def)
      then show ?thesis by (rule prio_update)
    qed (simp add: k prio_update_other)
  qed
  moreover have "cpus_ok (ps[i := p]) cp"
    using assms(1,2,5) len by (auto simp: pinv_def cpus_ok_def nth_list_update)
  ultimately show ?thesis
    using assms len r by (auto simp: pinv_def nth_list_update)
qed

text \<open>The process of processor \<open>c\<close> stops running without becoming ready.\<close>

lemma pinv_stop:
  assumes "pinv b ps q n cp" and "cp c = Some i" and "proc_ok p"
    and "p_state p \<noteq> RUNNABLE" and "p_state p \<noteq> RUNNING"
  shows "pinv b (ps[i := p]) q n (cp(c := None))"
proof -
  have len: "length ps = NPROC" and i: "i < NPROC" and run: "p_state (ps ! i) = RUNNING"
    using assms(1,2) by (auto simp: pinv_def cpus_ok_def)
  have r: "ready (ps[i := p]) = ready ps"
    using assms(4) len i run by (auto simp: ready_update) (auto simp: ready_def)
  have "small_order (pt_above (ps[i := p])) q n = small_order (pt_above ps) q n"
  proof (rule small_order_cong)
    fix j assume "j < n"
    then obtain k where "k \<in> ready ps" "q ! j = Some k"
      using assms(1) rq_nth by (fastforce simp: pinv_def)
    then show "prio (ps[i := p]) (q ! j) = prio ps (q ! j)"
      using run by (intro prio_update_other) (auto simp: ready_def)
  qed
  moreover have "cpus_ok (ps[i := p]) (cp(c := None))"
    using assms(1,2,5) len i unfolding pinv_def cpus_ok_def
    by (simp add: nth_list_update) (metis option.inject)
  ultimately show ?thesis
    using assms len i r by (auto simp: pinv_def nth_list_update)
qed

lemma pinv_enqueue:
  assumes "pinv b ps q n cp" and "i < NPROC" and "proc_ok p"
    and "p_state (ps ! i) \<noteq> RUNNABLE" and "p_state (ps ! i) \<noteq> RUNNING" and "p_state p = RUNNABLE"
  shows "n < NPROC \<and> pinv (b \<and> Suc n \<le> 5) (ps[i := p])
           (increasekey (pt_above (ps[i := p])) (q[n := Some i]) n) (Suc n) cp"
proof -
  have len: "length ps = NPROC" and rq: "rq_inv q n (ready ps)"
    using assms(1) by (auto simp: pinv_def)
  have r: "ready (ps[i := p]) = insert i (ready ps)"
    using assms(2,6) len by (simp add: ready_update)
  have new: "i \<notin> ready ps" "insert i (ready ps) \<subseteq> {..<NPROC}"
    using assms(2,4) len by (auto simp: ready_def)
  note ins = rq_insert [OF rq new]
  have hd: "head_ok (increasekey (pt_above (ps[i := p])) (q[n := Some i]) n)"
    using ins(2) new(2) by (intro rq_head [OF ins(2)]) simp_all
  have "small_order (pt_above (ps[i := p])) q n = small_order (pt_above ps) q n"
  proof (rule small_order_cong)
    fix j assume "j < n"
    then obtain k where "k \<in> ready ps" "q ! j = Some k" using rq_nth [OF rq] by blast
    then show "prio (ps[i := p]) (q ! j) = prio ps (q ! j)"
      using new(1) by (intro prio_update_other) auto
  qed
  then have "small_order (pt_above (ps[i := p]))
      (increasekey (pt_above (ps[i := p])) (q[n := Some i]) n) (Suc n)" if "b" "Suc n \<le> 5"
    using assms(1) that ins(1) rq by (intro pt.small_order_insert) (auto simp: pinv_def rq_inv_def)
  moreover have "cpus_ok (ps[i := p]) cp"
    using assms(1,2,5,6) len by (auto simp: pinv_def cpus_ok_def nth_list_update)
  ultimately show ?thesis
    using assms len r ins hd by (auto simp: pinv_def nth_list_update)
qed

text \<open>Processor \<open>c\<close> takes the head of the queue.\<close>

lemma pinv_dispatch:
  assumes "pinv b ps q (Suc n) cp" and "q ! 0 = Some i" and "proc_ok p" and "cp c = None"
    and "p_state p = RUNNING" and "\<And>a. prio ps' a = prio ps a"
  shows "pinv b (ps[i := p]) (heapify (pt_above ps') (q[0 := q ! n]) n 0) n (cp(c := Some i))"
proof -
  have len: "length ps = NPROC" and rq: "rq_inv q (Suc n) (ready ps)"
    using assms(1) by (auto simp: pinv_def)
  have above: "pt_above ps' = pt_above ps"
    using assms(6) by (intro ext) (simp add: pt_above_def)
  obtain k where "k \<in> ready ps" "q ! 0 = Some k" using rq_nth [OF rq, of 0] by auto
  then have i: "i < NPROC" "p_state (ps ! i) = RUNNABLE" using assms(2) len by (auto simp: ready_def)
  have r: "ready (ps[i := p]) = ready ps - {i}"
    using i len assms(5) by (simp add: ready_update)
  note rem = rq_remove [OF rq assms(2), of "pt_above ps"]
  have hd: "head_ok (heapify (pt_above ps) (q[0 := q ! n]) n 0)"
  proof (cases n)
    case 0
    have "heapify_pick (pt_above ps) (q[0 := q ! 0]) 0 0 = 0" by (simp add: heapify_pick_def)
    then show ?thesis
      using 0 assms(2) i rq by (subst heapify.simps) (simp add: head_ok_def rq_inv_def)
  next
    case (Suc m)
    with len show ?thesis by (intro rq_head [OF rem]) (auto simp: ready_def)
  qed
  have "small_order (pt_above (ps[i := p])) (heapify (pt_above ps) (q[0 := q ! n]) n 0) n =
        small_order (pt_above ps) (heapify (pt_above ps) (q[0 := q ! n]) n 0) n"
  proof (rule small_order_cong)
    fix j assume "j < n"
    then obtain k where "k \<in> ready ps - {i}" "heapify (pt_above ps) (q[0 := q ! n]) n 0 ! j = Some k"
      using rq_nth [OF rem] by blast
    then show "prio (ps[i := p]) (heapify (pt_above ps) (q[0 := q ! n]) n 0 ! j) =
        prio ps (heapify (pt_above ps) (q[0 := q ! n]) n 0 ! j)"
      by (intro prio_update_other) auto
  qed
  moreover have "small_order (pt_above ps) (heapify (pt_above ps) (q[0 := q ! n]) n 0) n" if b
    using assms(1) that rq by (intro pt.small_order_remove) (auto simp: pinv_def rq_inv_def)
  moreover have "cpus_ok (ps[i := p]) (cp(c := Some i))"
  proof -
    have no: "cp d \<noteq> Some i" for d using assms(1) len i by (auto simp: pinv_def cpus_ok_def)
    have "p_state (ps[i := p] ! j) = RUNNING \<longleftrightarrow> (\<exists>d. (cp(c := Some i)) d = Some j)"
      if "j < NPROC" for j
    proof (cases "j = i")
      case True
      then show ?thesis using assms(5) i len by auto
    next
      case False
      then have "(\<exists>d. (cp(c := Some i)) d = Some j) \<longleftrightarrow> (\<exists>d. cp d = Some j)"
        using assms(4) by (metis fun_upd_apply option.inject option.distinct(1))
      then show ?thesis using False that assms(1) len by (simp add: pinv_def cpus_ok_def)
    qed
    then show ?thesis
      using assms(1) no len i by (auto simp: pinv_def cpus_ok_def)
  qed
  ultimately show ?thesis
    using assms(1,3) len r rem i hd by (auto simp: pinv_def nth_list_update above)
qed

section \<open>The lock of the process table\<close>

text \<open>\<open>quiet\<close>: no processor is in a critical section.  \<open>held c\<close>: processor \<open>c\<close> holds
  \<open>ptable.lock\<close> and no other lock.\<close>

definition quiet :: "kern \<Rightarrow> bool" where
  "quiet s \<longleftrightarrow> \<not> locked (plock s) \<and> (\<forall>c. ncli (cpus s c) = 0)"

definition held :: "nat \<Rightarrow> kern \<Rightarrow> bool" where
  "held c s \<longleftrightarrow>
     holding c (plock s) \<and> ncli (cpus s c) = 1 \<and> \<not> fl_if (cpus s c) \<and>
     (\<forall>d. d \<noteq> c \<longrightarrow> ncli (cpus s d) = 0)"

definition lock_on :: "nat \<Rightarrow> kern \<Rightarrow> kern" where
  "lock_on c s = s\<lparr>cpus := (cpus s)(c := pushcli (cpus s c)),
                   plock := (plock s)\<lparr>locked := True, lcpu := Some c\<rparr>\<rparr>"

definition lock_off :: "nat \<Rightarrow> kern \<Rightarrow> kern" where
  "lock_off c s = s\<lparr>cpus := (cpus s)(c := (cpus s c)\<lparr>ncli := 0, fl_if := intena (cpus s c)\<rparr>),
                    plock := (plock s)\<lparr>lcpu := None, locked := False\<rparr>\<rparr>"

lemma acquire_ptable_quiet: "quiet s \<Longrightarrow> acquire_ptable c s = Inr (lock_on c s)"
  by (simp add: acquire_ptable_def quiet_def acquire_def holding_def lock_on_def Let_def)

lemma popcli_last:
  "\<not> fl_if k \<Longrightarrow> ncli k = 1 \<Longrightarrow> popcli k = Inr (k\<lparr>ncli := 0, fl_if := intena k\<rparr>)"
  by (cases k) (simp add: popcli_def sti_def Let_def)

lemma release_ptable_held: "held c s \<Longrightarrow> release_ptable c s = Inr (lock_off c s)"
  by (simp add: release_ptable_def held_def release_def popcli_last lock_off_def Let_def)

lemma held_lock_on: "quiet s \<Longrightarrow> held c (lock_on c s)"
  by (auto simp: quiet_def held_def lock_on_def holding_def pushcli_def cli_def Let_def)

lemma quiet_lock_off: "held c s \<Longrightarrow> quiet (lock_off c s)"
  by (auto simp: quiet_def held_def lock_off_def)

text \<open>Everything but the lock and the interrupt state of the processors is untouched.\<close>

lemma lock_frame [simp]:
  "procs (lock_on c s) = procs s" "procs (lock_off c s) = procs s"
  "queue (lock_on c s) = queue s" "queue (lock_off c s) = queue s"
  "itr_q (lock_on c s) = itr_q s" "itr_q (lock_off c s) = itr_q s"
  "frozen (lock_on c s) = frozen s" "frozen (lock_off c s) = frozen s"
  "interrupt (lock_on c s) = interrupt s" "interrupt (lock_off c s) = interrupt s"
  "initproc (lock_on c s) = initproc s" "initproc (lock_off c s) = initproc s"
  "nextpid (lock_on c s) = nextpid s" "nextpid (lock_off c s) = nextpid s"
  "km (lock_on c s) = km s" "km (lock_off c s) = km s"
  "kpgdir (lock_on c s) = kpgdir s" "kpgdir (lock_off c s) = kpgdir s"
  by (simp_all add: lock_on_def lock_off_def)

lemma pushcli_frame [simp]:
  "cproc (pushcli k) = cproc k" "esp0 (pushcli k) = esp0 k" "cr3 (pushcli k) = cr3 k"
  by (simp_all add: pushcli_def cli_def Let_def)

lemma cur_lock [simp]: "cur (lock_on c s) = cur s" "cur (lock_off c s) = cur s"
  by (auto simp: cur_def lock_on_def lock_off_def)

lemma qlen_lock [simp]: "qlen (lock_on c s) = qlen s" "qlen (lock_off c s) = qlen s"
  by (simp_all add: qlen_def)

lemma kcore_lock [simp]: "kcore b (lock_on c s) = kcore b s" "kcore b (lock_off c s) = kcore b s"
  by (simp_all add: kcore_def)

text \<open>Updates of one process leave the rest of the state alone.\<close>

lemma upd_proc_frame [simp]:
  "procs (upd_proc i f s) = (procs s)[i := f (procs s ! i)]"
  "queue (upd_proc i f s) = queue s" "itr_q (upd_proc i f s) = itr_q s"
  "cpus (upd_proc i f s) = cpus s" "plock (upd_proc i f s) = plock s"
  "frozen (upd_proc i f s) = frozen s" "initproc (upd_proc i f s) = initproc s"
  "km (upd_proc i f s) = km s" "interrupt (upd_proc i f s) = interrupt s"
  "nextpid (upd_proc i f s) = nextpid s" "kpgdir (upd_proc i f s) = kpgdir s"
  "qlen (upd_proc i f s) = qlen s" "cur (upd_proc i f s) = cur s"
  "held c (upd_proc i f s) = held c s" "quiet (upd_proc i f s) = quiet s"
  by (auto simp: upd_proc_def qlen_def cur_def held_def quiet_def)

lemma upd_cpu_frame [simp]:
  "procs (upd_cpu c f s) = procs s" "queue (upd_cpu c f s) = queue s"
  "itr_q (upd_cpu c f s) = itr_q s" "plock (upd_cpu c f s) = plock s"
  "frozen (upd_cpu c f s) = frozen s" "initproc (upd_cpu c f s) = initproc s"
  "km (upd_cpu c f s) = km s" "interrupt (upd_cpu c f s) = interrupt s"
  "kpgdir (upd_cpu c f s) = kpgdir s" "qlen (upd_cpu c f s) = qlen s"
  "cpus (upd_cpu c f s) = (cpus s)(c := f (cpus s c))"
  by (simp_all add: upd_cpu_def qlen_def)

text \<open>The fields that the invariant does not mention.\<close>

lemma other_frame [simp]:
  "cur (s\<lparr>interrupt := x_interrupt\<rparr>) = cur s" "qlen (s\<lparr>interrupt := x_interrupt\<rparr>) = qlen s"
  "held c (s\<lparr>interrupt := x_interrupt\<rparr>) = held c s" "quiet (s\<lparr>interrupt := x_interrupt\<rparr>) = quiet s"
  "kcore b (s\<lparr>interrupt := x_interrupt\<rparr>) = kcore b s"
  "cur (s\<lparr>frozen := x_frozen\<rparr>) = cur s" "qlen (s\<lparr>frozen := x_frozen\<rparr>) = qlen s"
  "held c (s\<lparr>frozen := x_frozen\<rparr>) = held c s" "quiet (s\<lparr>frozen := x_frozen\<rparr>) = quiet s"
  "kcore b (s\<lparr>frozen := x_frozen\<rparr>) = kcore b s"
  "cur (s\<lparr>miss := x_miss\<rparr>) = cur s" "qlen (s\<lparr>miss := x_miss\<rparr>) = qlen s"
  "held c (s\<lparr>miss := x_miss\<rparr>) = held c s" "quiet (s\<lparr>miss := x_miss\<rparr>) = quiet s"
  "kcore b (s\<lparr>miss := x_miss\<rparr>) = kcore b s"
  "cur (s\<lparr>nextpid := x_nextpid\<rparr>) = cur s" "qlen (s\<lparr>nextpid := x_nextpid\<rparr>) = qlen s"
  "held c (s\<lparr>nextpid := x_nextpid\<rparr>) = held c s" "quiet (s\<lparr>nextpid := x_nextpid\<rparr>) = quiet s"
  "kcore b (s\<lparr>nextpid := x_nextpid\<rparr>) = kcore b s"
  "cur (s\<lparr>itr_s := x_itr_s\<rparr>) = cur s" "qlen (s\<lparr>itr_s := x_itr_s\<rparr>) = qlen s"
  "held c (s\<lparr>itr_s := x_itr_s\<rparr>) = held c s" "quiet (s\<lparr>itr_s := x_itr_s\<rparr>) = quiet s"
  "kcore b (s\<lparr>itr_s := x_itr_s\<rparr>) = kcore b s"
  "cur (s\<lparr>km := x_km\<rparr>) = cur s" "qlen (s\<lparr>km := x_km\<rparr>) = qlen s"
  "held c (s\<lparr>km := x_km\<rparr>) = held c s" "quiet (s\<lparr>km := x_km\<rparr>) = quiet s"
  "kcore b (s\<lparr>km := x_km\<rparr>) = kcore b s"
  "cur (s\<lparr>ftable := x_ftable\<rparr>) = cur s" "qlen (s\<lparr>ftable := x_ftable\<rparr>) = qlen s"
  "held c (s\<lparr>ftable := x_ftable\<rparr>) = held c s" "quiet (s\<lparr>ftable := x_ftable\<rparr>) = quiet s"
  "kcore b (s\<lparr>ftable := x_ftable\<rparr>) = kcore b s"
  "cur (s\<lparr>icache := x_icache\<rparr>) = cur s" "qlen (s\<lparr>icache := x_icache\<rparr>) = qlen s"
  "held c (s\<lparr>icache := x_icache\<rparr>) = held c s" "quiet (s\<lparr>icache := x_icache\<rparr>) = quiet s"
  "kcore b (s\<lparr>icache := x_icache\<rparr>) = kcore b s"
  "cur (s\<lparr>initproc := x_initproc\<rparr>) = cur s" "qlen (s\<lparr>initproc := x_initproc\<rparr>) = qlen s"
  "held c (s\<lparr>initproc := x_initproc\<rparr>) = held c s" "quiet (s\<lparr>initproc := x_initproc\<rparr>) = quiet s"
  "kcore b (s\<lparr>initproc := x_initproc\<rparr>) = kcore b s"
  "cur (s\<lparr>statistics := x_statistics\<rparr>) = cur s" "qlen (s\<lparr>statistics := x_statistics\<rparr>) = qlen s"
  "held c (s\<lparr>statistics := x_statistics\<rparr>) = held c s" "quiet (s\<lparr>statistics := x_statistics\<rparr>) = quiet s"
  "kcore b (s\<lparr>statistics := x_statistics\<rparr>) = kcore b s"
  by (simp_all add: cur_def qlen_def held_def quiet_def kcore_def)

section \<open>Queue operations on the kernel state\<close>

definition others_same :: "kern \<Rightarrow> kern \<Rightarrow> bool" where
  "others_same s s' \<longleftrightarrow> cpus s' = cpus s \<and> plock s' = plock s \<and> frozen s' = frozen s \<and>
     initproc s' = initproc s \<and> km s' = km s \<and> kpgdir s' = kpgdir s"

lemma others_same_refl [simp]: "others_same s s"
  by (simp add: others_same_def)

lemma others_same_cur: "others_same s s' \<Longrightarrow> cur s' = cur s"
  by (simp add: others_same_def cur_def)

lemma others_same_held: "others_same s s' \<Longrightarrow> held c s' = held c s"
  by (simp add: others_same_def held_def)

lemma qlen_Suc:
  assumes "qlen s < NPROC"
  shows "unat (itr_q s + 1 + 1) = Suc (qlen s)"
proof -
  have "itr_q s + 1 \<noteq> - 1"
  proof
    assume "itr_q s + 1 = - 1"
    then have "qlen s = unat (- 1 :: uint)" by (simp only: qlen_def)
    with assms show False by (simp add: NPROC_def)
  qed
  then show ?thesis unfolding qlen_def by (rule unat_plus_one_uint)
qed

lemma kcore_enqueue:
  assumes "kcore b s" and "i < NPROC" and "p_state (procs s ! i) \<noteq> RUNNABLE"
    and "p_state (procs s ! i) \<noteq> RUNNING" and "p_state (f (procs s ! i)) = RUNNABLE"
    and "proc_ok (f (procs s ! i))"
  shows "\<exists>s'. enqueue i (upd_proc i f s) = Inr s' \<and> kcore (b \<and> qlen s' \<le> 5) s' \<and>
    qlen s' = Suc (qlen s) \<and> procs s' = (procs s)[i := f (procs s ! i)] \<and> others_same s s'"
proof -
  let ?ps = "(procs s)[i := f (procs s ! i)]"
  let ?q = "increasekey (pt_above ?ps) ((queue s)[qlen s := Some i]) (qlen s)"
  have *: "qlen s < NPROC \<and> pinv (b \<and> Suc (qlen s) \<le> 5) ?ps ?q (Suc (qlen s)) (cur s)"
    using assms by (intro pinv_enqueue) (simp_all add: kcore_def)
  let ?s = "(upd_proc i f s)\<lparr>itr_q := itr_q s + 1, queue := ?q\<rparr>"
  have q: "qlen ?s = Suc (qlen s)"
    using * qlen_Suc by (simp add: qlen_def)
  have "enqueue i (upd_proc i f s) = Inr ?s"
    using * by (simp add: enqueue_def Let_def qlen_def)
  moreover have "kcore (b \<and> qlen ?s \<le> 5) ?s"
    using * unfolding kcore_def q by (simp add: cur_def)
  ultimately show ?thesis
    using q by (intro exI [of _ ?s]) (simp add: others_same_def)
qed

lemma kcore_keep:
  assumes "kcore b s" and "i < NPROC" and "proc_ok (f (procs s ! i))"
    and "p_state (f (procs s ! i)) = RUNNABLE \<longleftrightarrow> p_state (procs s ! i) = RUNNABLE"
    and "p_state (f (procs s ! i)) = RUNNING \<longleftrightarrow> p_state (procs s ! i) = RUNNING"
    and "p_state (procs s ! i) = RUNNABLE \<Longrightarrow> p_P (f (procs s ! i)) = p_P (procs s ! i)"
  shows "kcore b (upd_proc i f s)"
  using assms unfolding kcore_def upd_proc_frame by (intro pinv_keep) auto

lemma kcore_proc_ok: "kcore b s \<Longrightarrow> i < NPROC \<Longrightarrow> proc_ok (procs s ! i)"
  by (simp add: kcore_def pinv_def)

lemma kcore_running:
  assumes "kcore b s" and "cur s c = Some me"
  shows "me < NPROC" and "p_state (procs s ! me) = RUNNING" and "p_pgdir (procs s ! me) \<noteq> 0"
    and "p_kont (procs s ! me) \<noteq> AtExit"
proof -
  show i: "me < NPROC" and r: "p_state (procs s ! me) = RUNNING"
    using assms by (auto simp: kcore_def pinv_def cpus_ok_def)
  from kcore_proc_ok [OF assms(1) i] r
  show "p_pgdir (procs s ! me) \<noteq> 0" and "p_kont (procs s ! me) \<noteq> AtExit"
    by (simp_all add: proc_ok_def)
qed

lemma kcore_length: "kcore b s \<Longrightarrow> length (procs s) = NPROC"
  by (simp add: kcore_def pinv_def)

lemma kcore_cong:
  "\<lbrakk>procs s' = procs s; queue s' = queue s; itr_q s' = itr_q s; cur s' = cur s\<rbrakk> \<Longrightarrow>
   kcore b s' = kcore b s"
  by (simp add: kcore_def qlen_def)

text \<open>Giving up the processor, for a process that is not running any more.\<close>

definition stopped :: "bool \<Rightarrow> nat \<Rightarrow> kern \<Rightarrow> bool" where
  "stopped b c s \<longleftrightarrow> pinv b (procs s) (queue s) (qlen s) ((cur s)(c := None))"

definition switched :: "nat \<Rightarrow> nat \<Rightarrow> kont \<Rightarrow> kern \<Rightarrow> kern" where
  "switched c me k s =
     lock_off c (upd_cpu c (\<lambda>u. u\<lparr>cproc := None\<rparr>) (switchkvm c (upd_proc me (\<lambda>p. p\<lparr>p_kont := k\<rparr>) s)))"

lemma sched_switch_eq:
  assumes "held c s" and "cur s c = Some me" and "p_state (procs s ! me) \<noteq> RUNNING"
  shows "sched_switch c k s = Inr (switched c me (k (intena (cpus s c))) s)"
proof -
  let ?s = "upd_proc me (\<lambda>p. p\<lparr>p_kont := k (intena (cpus s c))\<rparr>) s"
  have "sched c k s = Inr ?s"
    using assms by (simp add: sched_def held_def cur_def)
  moreover have "held c (upd_cpu c (\<lambda>u. u\<lparr>cproc := None\<rparr>) (switchkvm c ?s))"
    using assms(1) by (auto simp: held_def switchkvm_def)
  ultimately show ?thesis
    by (simp add: sched_switch_def scheduler_back_def release_ptable_held switched_def)
qed

lemma switched_frame [simp]:
  "procs (switched c me k s) = (procs s)[me := (procs s ! me)\<lparr>p_kont := k\<rparr>]"
  "queue (switched c me k s) = queue s" "itr_q (switched c me k s) = itr_q s"
  "frozen (switched c me k s) = frozen s" "initproc (switched c me k s) = initproc s"
  "interrupt (switched c me k s) = interrupt s" "km (switched c me k s) = km s"
  "cur (switched c me k s) = (cur s)(c := None)" "qlen (switched c me k s) = qlen s"
  by (auto simp: switched_def switchkvm_def cur_def lock_off_def qlen_def)

lemma quiet_switched: "held c s \<Longrightarrow> quiet (switched c me k s)"
  unfolding switched_def by (rule quiet_lock_off) (auto simp: held_def switchkvm_def)

lemma kcore_switched:
  assumes "stopped b c s" and "me < NPROC"
    and "p_state (procs s ! me) \<in> {RUNNABLE, RUNNING, SLEEPING, WAITING} \<Longrightarrow> k \<noteq> AtExit"
  shows "kcore b (switched c me k s)"
proof -
  have "proc_ok (procs s ! me)" using assms by (simp add: stopped_def pinv_def)
  then have "proc_ok ((procs s ! me)\<lparr>p_kont := k\<rparr>)" using assms(3) by (auto simp: proc_ok_def)
  then show ?thesis
    using assms unfolding kcore_def switched_frame stopped_def by (intro pinv_keep) auto
qed

section \<open>Yield\<close>

lemma head_queue: "kcore b s \<Longrightarrow> \<exists>q < NPROC. queue s ! 0 = Some q"
  by (simp add: kcore_def pinv_def head_ok_def)

lemma stopped_yield:
  assumes "kcore b s" and "held c s" and "cur s c = Some me"
  obtains s' where "enqueue me (upd_proc me (\<lambda>p. p\<lparr>p_state := RUNNABLE\<rparr>) s) = Inr s'"
    and "stopped (b \<and> qlen s' \<le> 5) c s'" and "held c s'"
    and "procs s' = (procs s)[me := (procs s ! me)\<lparr>p_state := RUNNABLE\<rparr>]" and "cur s' = cur s"
    and "qlen s' = Suc (qlen s)" and "frozen s' = frozen s"
proof -
  note me = kcore_running [OF assms(1,3)]
  let ?z = "(procs s ! me)\<lparr>p_state := SLEEPING\<rparr>" and ?r = "(procs s ! me)\<lparr>p_state := RUNNABLE\<rparr>"
  have "pinv b ((procs s)[me := ?z]) (queue s) (qlen s) ((cur s)(c := None))"
    using assms me by (intro pinv_stop) (simp_all add: kcore_def proc_ok_def)
  then have "qlen s < NPROC \<and> pinv (b \<and> Suc (qlen s) \<le> 5) ((procs s)[me := ?z, me := ?r])
      (increasekey (pt_above ((procs s)[me := ?z, me := ?r])) ((queue s)[qlen s := Some me]) (qlen s))
      (Suc (qlen s)) ((cur s)(c := None))"
    using assms me kcore_length [OF assms(1)] by (intro pinv_enqueue) (auto simp: proc_ok_def)
  then have *: "qlen s < NPROC" "pinv (b \<and> Suc (qlen s) \<le> 5) ((procs s)[me := ?r])
      (increasekey (pt_above ((procs s)[me := ?r])) ((queue s)[qlen s := Some me]) (qlen s))
      (Suc (qlen s)) ((cur s)(c := None))"
    by simp_all
  let ?s = "(upd_proc me (\<lambda>p. p\<lparr>p_state := RUNNABLE\<rparr>) s)\<lparr>itr_q := itr_q s + 1,
     queue := increasekey (pt_above ((procs s)[me := ?r])) ((queue s)[qlen s := Some me]) (qlen s)\<rparr>"
  have q: "qlen ?s = Suc (qlen s)" using *(1) qlen_Suc by (simp add: qlen_def)
  have "enqueue me (upd_proc me (\<lambda>p. p\<lparr>p_state := RUNNABLE\<rparr>) s) = Inr ?s"
    using *(1) by (simp add: enqueue_def Let_def qlen_def)
  moreover have "stopped (b \<and> qlen ?s \<le> 5) c ?s"
    using *(2) unfolding stopped_def q by (simp add: cur_def)
  moreover have "held c ?s" using assms(2) by (simp add: held_def)
  ultimately show thesis using q by (intro that [of ?s]) (simp_all add: cur_def)
qed

text \<open>The invariant between operations.\<close>

definition kinv :: "bool \<Rightarrow> kern \<Rightarrow> bool" where
  "kinv b s \<longleftrightarrow> kcore b s \<and> quiet s"

lemma kinv_lock_off: "kcore b s \<Longrightarrow> held c s \<Longrightarrow> kinv b (lock_off c s)"
  by (simp add: kinv_def quiet_lock_off)

lemma kcore_weaken: "kcore b s \<Longrightarrow> (b' \<longrightarrow> b) \<Longrightarrow> kcore b' s"
  by (auto simp: kcore_def pinv_def)

lemma kinv_weaken: "kinv b s \<Longrightarrow> (b' \<longrightarrow> b) \<Longrightarrow> kinv b' s"
  using kcore_weaken by (auto simp: kinv_def)

lemma kinv_and: "kinv b s \<Longrightarrow> kinv (b \<and> x) s"
  by (erule kinv_weaken) simp

lemma yield_preempted:
  assumes "kinv b s" and "cur s c = Some me" and "queue s ! 0 = Some q"
    and "p_P (procs s ! q) > p_O (procs s ! me)"
  obtains s' where "yield c s = Inr s'" and "kinv (b \<and> qlen s' \<le> 5) s'"
    and "cur s' = (cur s)(c := None)" and "p_state (procs s' ! me) = RUNNABLE"
    and "qlen s' = Suc (qlen s)" and "\<And>i. i \<noteq> me \<Longrightarrow> procs s' ! i = procs s ! i"
proof -
  let ?l = "lock_on c s"
  have l: "kcore b ?l" "held c ?l" "cur ?l c = Some me"
    using assms by (simp_all add: kinv_def held_lock_on)
  note me = kcore_running [OF l(1,3)]
  obtain t where t: "enqueue me (upd_proc me (\<lambda>p. p\<lparr>p_state := RUNNABLE\<rparr>) ?l) = Inr t"
    and t': "stopped (b \<and> qlen t \<le> 5) c t" "held c t"
      "procs t = (procs ?l)[me := (procs ?l ! me)\<lparr>p_state := RUNNABLE\<rparr>]" "cur t = cur ?l"
      "qlen t = Suc (qlen ?l)"
    by (rule stopped_yield [OF l])
  let ?s = "switched c me (AtYield (intena (cpus t c))) t"
  have st: "p_state (procs t ! me) = RUNNABLE"
    using t' me kcore_length [OF l(1)] by simp
  have "yield c s = Inr ?s"
    using assms l(3) t t' st
    by (simp add: yield_def acquire_ptable_quiet kinv_def cur_def sched_switch_eq)
  moreover have "kinv (b \<and> qlen ?s \<le> 5) ?s"
    using t' me by (auto simp: kinv_def quiet_switched intro!: kcore_switched)
  ultimately show thesis
    using st t' me kcore_length [OF l(1)] by (intro that [of ?s]) simp_all
qed

lemma yield_continues:
  assumes "kinv b s" and "cur s c = Some me" and "queue s ! 0 = Some q"
    and "p_P (procs s ! q) \<le> p_O (procs s ! me)"
  shows "yield c s = Inr (lock_off c ((lock_on c s)\<lparr>interrupt := 0\<rparr>))"
    and "kinv b (lock_off c ((lock_on c s)\<lparr>interrupt := 0\<rparr>))"
proof -
  let ?l = "(lock_on c s)\<lparr>interrupt := 0\<rparr>"
  have l: "held c ?l" "kcore b ?l"
    using assms(1) by (simp_all add: kinv_def held_lock_on)
  show "kinv b (lock_off c ?l)" by (rule kinv_lock_off [OF l(2,1)])
  have "cproc (cpus (lock_on c s) c) = Some me" using assms(2) by (simp add: cur_def lock_on_def)
  moreover have "\<not> p_O (procs s ! me) < p_P (procs s ! q)" using assms(4) by (simp add: not_less)
  ultimately show "yield c s = Inr (lock_off c ?l)"
    using assms(1-3) l by (simp add: yield_def acquire_ptable_quiet kinv_def release_ptable_held)
qed

lemma kinv_yield:
  assumes "kinv b s" and "cur s c = Some me" and "yield c s = Inr s'"
  shows "kinv (b \<and> qlen s' \<le> 5) s'"
proof -
  obtain q where q: "queue s ! 0 = Some q" using assms(1) head_queue by (auto simp: kinv_def)
  show ?thesis
  proof (cases "p_P (procs s ! q) > p_O (procs s ! me)")
    case True
    then obtain t where "yield c s = Inr t" "kinv (b \<and> qlen t \<le> 5) t"
      using yield_preempted [OF assms(1,2) q] by metis
    then show ?thesis using assms(3) by simp
  next
    case False
    then have "s' = lock_off c ((lock_on c s)\<lparr>interrupt := 0\<rparr>)" and "kinv b s'"
      using yield_continues [OF assms(1,2) q] assms(3) by auto
    then show ?thesis by (intro kinv_and)
  qed
qed

section \<open>Sleep\<close>

text \<open>Stopping to sleep or to exit.\<close>

lemma stopped_by:
  assumes "kcore b s" and "cur s c = Some me" and "proc_ok (f (procs s ! me))"
    and "p_state (f (procs s ! me)) \<noteq> RUNNABLE" and "p_state (f (procs s ! me)) \<noteq> RUNNING"
  shows "stopped b c (upd_proc me f s)"
  using assms unfolding stopped_def kcore_def upd_proc_frame by (intro pinv_stop) simp_all

lemma sleep_on_ok:
  assumes "kcore b s" and "held c s" and "cur s c = Some me" and "\<And>x. k x \<noteq> AtExit"
  obtains s' where "sleep_on c me ch k s = Inr s'" and "kinv b s'" and "cur s' = (cur s)(c := None)"
    and "p_state (procs s' ! me) = SLEEPING" and "p_chan (procs s' ! me) = ch"
    and "\<And>i. i \<noteq> me \<Longrightarrow> procs s' ! i = procs s ! i" and "qlen s' = qlen s"
    and "queue s' = queue s"
proof -
  note me = kcore_running [OF assms(1,3)]
  let ?f = "\<lambda>p. p\<lparr>p_chan := ch, p_state := SLEEPING\<rparr>"
  let ?t = "upd_proc me ?f s"
  have st: "stopped b c ?t"
    using assms(1,3) me by (intro stopped_by) (simp_all add: proc_ok_def)
  have p: "p_state (procs ?t ! me) = SLEEPING" "p_chan (procs ?t ! me) = ch"
    using me kcore_length [OF assms(1)] by simp_all
  let ?s = "switched c me (k (intena (cpus ?t c))) ?t"
  have "sleep_on c me ch k s = Inr ?s"
    unfolding sleep_on_def using assms p by (intro sched_switch_eq) simp_all
  moreover have "kinv b ?s"
    using st me assms by (auto simp: kinv_def quiet_switched intro!: kcore_switched)
  ultimately show thesis
    using p me kcore_length [OF assms(1)] by (intro that [of ?s]) simp_all
qed

text \<open>Sleeping with a lock of another component held: \<open>lk\<close> was acquired first.\<close>

definition sleep_call :: "nat \<Rightarrow> chan option \<Rightarrow> spinlock \<Rightarrow> kern \<Rightarrow> (lockarg \<times> kern) res" where
  "sleep_call c ch lk s =
     bindE (acquire c (cpus s c, lk)) (\<lambda>(k, lk).
       sleep c ch (OtherLock lk) (s\<lparr>cpus := (cpus s)(c := k)\<rparr>))"

lemma release_other_inner:
  assumes "quiet s" and "\<not> locked lk"
    and "acquire c (cpus s c, lk) = Inr (k, lk')"
    and "acquire_ptable c (s\<lparr>cpus := (cpus s)(c := k)\<rparr>) = Inr t"
  shows "release_other c lk' t = Inr (lk\<lparr>lcpu := None, locked := False\<rparr>, lock_on c s)"
proof -
  have k: "k = pushcli (cpus s c)" "lk' = lk\<lparr>locked := True, lcpu := Some c\<rparr>"
    using assms(3) by (auto simp: acquire_Inr_iff)
  have "ncli k = 1" "cli_inv k" using assms(1) k by (auto simp: quiet_def pushcli_def cli_inv_def cli_def Let_def)
  then have "popcli (pushcli k) = Inr k" by (intro popcli_pushcli_inner) simp_all
  moreover have "t = s\<lparr>cpus := (cpus s)(c := pushcli k), plock := (plock s)\<lparr>locked := True, lcpu := Some c\<rparr>\<rparr>"
    using assms(1,4) by (simp add: acquire_ptable_def acquire_def quiet_def holding_def Let_def)
  ultimately show ?thesis
    using k by (simp add: release_other_def release_def holding_def Let_def lock_on_def)
qed

lemma sleep_call_ok:
  assumes "kinv b s" and "cur s c = Some me" and "\<not> locked lk"
  obtains s' where "sleep_call c ch lk s = Inr (OtherLock (lk\<lparr>lcpu := None, locked := False\<rparr>), s')"
    and "kinv b s'" and "cur s' = (cur s)(c := None)"
    and "p_state (procs s' ! me) = SLEEPING" and "p_chan (procs s' ! me) = ch"
    and "\<And>i. i \<noteq> me \<Longrightarrow> procs s' ! i = procs s ! i" and "qlen s' = qlen s"
proof -
  let ?k = "pushcli (cpus s c)" and ?lk = "lk\<lparr>locked := True, lcpu := Some c\<rparr>"
  let ?s = "s\<lparr>cpus := (cpus s)(c := ?k)\<rparr>"
  have acq: "acquire c (cpus s c, lk) = Inr (?k, ?lk)" using assms(3) by (simp add: acquire_Inr_iff)
  obtain t where t: "acquire_ptable c ?s = Inr t"
    using assms(1) by (simp add: acquire_ptable_def acquire_def kinv_def quiet_def holding_def Let_def)
  have r: "release_other c ?lk t = Inr (lk\<lparr>lcpu := None, locked := False\<rparr>, lock_on c s)"
    using assms(1,3) acq t by (intro release_other_inner) (simp_all add: kinv_def)
  have l: "kcore b (lock_on c s)" "held c (lock_on c s)" "cur (lock_on c s) c = Some me"
    using assms by (simp_all add: kinv_def held_lock_on)
  obtain s' where s': "sleep_on c me ch AtSleep (lock_on c s) = Inr s'" "kinv b s'"
    "cur s' = (cur (lock_on c s))(c := None)" "p_state (procs s' ! me) = SLEEPING"
    "p_chan (procs s' ! me) = ch" "\<And>i. i \<noteq> me \<Longrightarrow> procs s' ! i = procs (lock_on c s) ! i"
    "qlen s' = qlen (lock_on c s)"
    using sleep_on_ok [OF l, of AtSleep] by (metis kont.distinct(17))
  have "cproc ?k = Some me" using assms(2) by (simp add: cur_def)
  then have "sleep_call c ch lk s = Inr (OtherLock (lk\<lparr>lcpu := None, locked := False\<rparr>), s')"
    using acq t r s'(1) by (simp add: sleep_call_def sleep_def)
  then show thesis using s' by (intro that [of s']) simp_all
qed

section \<open>Wakeup\<close>

definition wake_proc :: "ull \<Rightarrow> proc \<Rightarrow> proc" where
  "wake_proc t p = p\<lparr>p_state := RUNNABLE, p_chan := None, p_arrtime := tick t, p_firstsch := 0,
                    p_ctxswt := 0\<rparr>"

lemma wake_proc_eta:
  "(\<lambda>p. p\<lparr>p_state := RUNNABLE, p_chan := None, p_arrtime := tick t, p_firstsch := 0, p_ctxswt := 0\<rparr>)
     = wake_proc t"
  by (simp add: wake_proc_def fun_eq_iff)

lemma wake_proc_frame [simp]:
  "p_O (wake_proc t p) = p_O p" "p_P (wake_proc t p) = p_P p" "p_parent (wake_proc t p) = p_parent p"
  "p_state (wake_proc t p) = RUNNABLE" "p_pid (wake_proc t p) = p_pid p"
  by (simp_all add: wake_proc_def)

text \<open>The test of \<open>wakeup1\<close>: the words the two channels point to are equal.\<close>

definition woken :: "kern \<Rightarrow> chan option \<Rightarrow> nat \<Rightarrow> bool" where
  "woken s ch i \<longleftrightarrow>
     p_state (procs s ! i) = SLEEPING \<and>
     (\<exists>v. chan_word s (p_chan (procs s ! i)) = Inr v \<and> chan_word s ch = Inr v)"

lemma chan_word_cong:
  assumes "km s' = km s" and "\<And>i. p_O (procs s' ! i) = p_O (procs s ! i)"
  shows "chan_word s' ch = chan_word s ch"
  using assms by (simp add: chan_word_def split: option.split chan.split)

lemma nth_update_same: "(xs[k := f (xs ! k)]) ! i = (if i = k \<and> k < length xs then f (xs ! k) else xs ! i)"
  by (cases "k < length xs") (auto simp: nth_list_update list_update_beyond)

lemma wakeup_scan_ok:
  assumes "kcore b s" and "set is \<subseteq> {..<NPROC}" and "distinct is"
    and "wakeup_scan tsc ch is s = Inr s'"
  shows "kcore (b \<and> qlen s' \<le> 5) s' \<and> qlen s \<le> qlen s' \<and> others_same s s' \<and>
    (\<forall>i. procs s' ! i = (if i \<in> set is \<and> woken s ch i then wake_proc (tsc i) (procs s ! i) else procs s ! i))"
  using assms
proof (induction "is" arbitrary: s b)
  case Nil
  then show ?case using kcore_weaken by auto
next
  case (Cons i "is")
  show ?case
  proof (cases "woken s ch i")
    case False
    then have "wakeup_scan tsc ch is s = Inr s'"
      using Cons.prems(4) by (auto simp: woken_def bindE_eq_Inr_iff split: if_splits)
    then show ?thesis using Cons.IH [OF Cons.prems(1)] Cons.prems False by auto
  next
    case True
    let ?f = "wake_proc (tsc i)"
    have i: "i < NPROC" "p_state (procs s ! i) = SLEEPING" "i < length (procs s)"
      using Cons.prems True kcore_length [OF Cons.prems(1)] by (auto simp: woken_def)
    have ok: "proc_ok (?f (procs s ! i))"
      using kcore_proc_ok [OF Cons.prems(1) i(1)] i(2) by (simp add: proc_ok_def wake_proc_def)
    obtain t where t: "enqueue i (upd_proc i ?f s) = Inr t" "kcore (b \<and> qlen t \<le> 5) t"
      "qlen t = Suc (qlen s)" "procs t = (procs s)[i := ?f (procs s ! i)]" "others_same s t"
      using kcore_enqueue [OF Cons.prems(1) i(1), of ?f] i ok by auto
    let ?t = "t\<lparr>interrupt := 1\<rparr>"
    have scan: "wakeup_scan tsc ch is ?t = Inr s'"
      using Cons.prems(4) True t(1) by (auto simp: woken_def wake_proc_eta)
    have w: "chan_word ?t x = chan_word s x" for x
      using t(4,5) by (intro chan_word_cong) (simp_all add: others_same_def nth_update_same [where f = ?f])
    have wk: "woken ?t ch j \<longleftrightarrow> woken s ch j" if "j \<noteq> i" for j
      using that t(4) w by (simp add: woken_def)
    have IH: "kcore ((b \<and> qlen t \<le> 5) \<and> qlen s' \<le> 5) s'" "qlen t \<le> qlen s'" "others_same ?t s'"
      "\<forall>j. procs s' ! j = (if j \<in> set is \<and> woken ?t ch j then wake_proc (tsc j) (procs t ! j) else procs t ! j)"
      using Cons.IH [of "b \<and> qlen t \<le> 5" ?t] t(2) Cons.prems scan by auto
    have "procs s' ! j = (if j \<in> set (i # is) \<and> woken s ch j then wake_proc (tsc j) (procs s ! j) else procs s ! j)"
      for j
      using IH(4) wk [of j] t(4) i(3) True Cons.prems(3) by (cases "j = i") simp_all
    moreover have "kcore (b \<and> qlen s' \<le> 5) s'" using IH(2) by (intro kcore_weaken [OF IH(1)]) auto
    ultimately show ?thesis
      using IH(2,3) t(3,5) by (auto simp: others_same_def)
  qed
qed

lemma wakeup1_ok:
  assumes "kcore b s" and "wakeup1 tsc ch s = Inr s'"
  shows "kcore (b \<and> qlen s' \<le> 5) s'" and "qlen s \<le> qlen s'" and "others_same s s'"
    and "i < NPROC \<Longrightarrow> procs s' ! i = (if woken s ch i then wake_proc (tsc i) (procs s ! i) else procs s ! i)"
  using wakeup_scan_ok [OF assms(1), of "[0..<NPROC]" tsc ch s'] assms(2)
  by (auto simp: wakeup1_def lessThan_atLeast0)

text \<open>A completed \<open>wakeup1\<close> has read the channel of every sleeping process and its own.\<close>

lemma wakeup_scan_words:
  assumes "wakeup_scan tsc ch is s = Inr s'" and "i \<in> set is" and "p_state (procs s ! i) = SLEEPING"
  shows "(\<exists>v. chan_word s (p_chan (procs s ! i)) = Inr v) \<and> (\<exists>w. chan_word s ch = Inr w)"
  using assms
proof (induction "is" arbitrary: s)
  case (Cons j "is")
  show ?case
  proof (cases "i = j")
    case True
    then show ?thesis using Cons.prems by (auto simp: bindE_eq_Inr_iff)
  next
    case False
    show ?thesis
    proof (cases "woken s ch j")
      case w: True
      let ?f = "wake_proc (tsc j)"
      obtain t where t: "enqueue j (upd_proc j ?f s) = Inr t" "wakeup_scan tsc ch is (t\<lparr>interrupt := 1\<rparr>) = Inr s'"
        using Cons.prems(1) w by (auto simp: woken_def wake_proc_eta bindE_eq_Inr_iff)
      have same: "km t = km s" "procs t = (procs s)[j := ?f (procs s ! j)]"
        using t(1) by (auto simp: enqueue_def Let_def split: if_splits)
      have cw: "chan_word (t\<lparr>interrupt := 1\<rparr>) x = chan_word s x" for x
        using same by (intro chan_word_cong) (simp_all add: nth_update_same [where f = ?f])
      show ?thesis using Cons.IH [OF t(2)] Cons.prems(2,3) False same(2) by (simp add: cw)
    next
      case nw: False
      then have "wakeup_scan tsc ch is s = Inr s'"
        using Cons.prems(1) by (auto simp: woken_def bindE_eq_Inr_iff split: if_splits)
      then show ?thesis using Cons.IH Cons.prems(2,3) False by simp
    qed
  qed
qed simp

lemma wakeup1_wakes:
  assumes "wakeup1 tsc ch s = Inr s'" and "i < NPROC"
    and "p_state (procs s ! i) = SLEEPING" and "p_chan (procs s ! i) = ch"
  shows "woken s ch i"
  using wakeup_scan_words [of tsc ch "[0..<NPROC]" s s' i] assms
  by (auto simp: wakeup1_def woken_def)

lemma wakeup_scan_interrupt:
  assumes "wakeup_scan tsc ch is s = Inr s'" and "interrupt s = 1 \<or> (\<exists>i \<in> set is. woken s ch i)" and "distinct is"
  shows "interrupt s' = 1"
  using assms
proof (induction "is" arbitrary: s)
  case (Cons j "is")
  show ?case
  proof (cases "woken s ch j")
    case True
    then obtain t where "wakeup_scan tsc ch is (t\<lparr>interrupt := 1\<rparr>) = Inr s'"
      using Cons.prems(1) by (auto simp: woken_def bindE_eq_Inr_iff)
    then show ?thesis using Cons.IH Cons.prems(3) by simp
  next
    case False
    then have "wakeup_scan tsc ch is s = Inr s'"
      using Cons.prems(1) by (auto simp: woken_def bindE_eq_Inr_iff split: if_splits)
    then show ?thesis using Cons.IH Cons.prems(2,3) False by auto
  qed
qed simp

lemma wakeup1_interrupt:
  "wakeup1 tsc ch s = Inr s' \<Longrightarrow> i < NPROC \<Longrightarrow> woken s ch i \<Longrightarrow> interrupt s' = 1"
  unfolding wakeup1_def by (erule wakeup_scan_interrupt) auto

lemma wakeup_eq:
  assumes "kinv b s" and "wakeup c tsc ch s = Inr s'"
  obtains t where "wakeup1 tsc ch (lock_on c s) = Inr t" and "s' = lock_off c t" and "held c t"
    and "kcore (b \<and> qlen t \<le> 5) t"
proof -
  have k: "kcore b (lock_on c s)" "held c (lock_on c s)"
    using assms(1) by (simp_all add: kinv_def held_lock_on)
  from assms obtain t where t: "wakeup1 tsc ch (lock_on c s) = Inr t" "release_ptable c t = Inr s'"
    by (auto simp: wakeup_def kinv_def acquire_ptable_quiet)
  note w = wakeup1_ok [OF k(1) t(1)]
  have "held c t" using others_same_held [OF w(3)] k(2) by simp
  then show thesis using t w by (intro that [of t]) (simp_all add: release_ptable_held)
qed

lemma kinv_wakeup:
  assumes "kinv b s" and "wakeup c tsc ch s = Inr s'"
  shows "kinv (b \<and> qlen s' \<le> 5) s'"
  using wakeup_eq [OF assms] by (metis kinv_lock_off qlen_lock(2))

end
