(* ===== verification/Kstep.thy ===== *)
theory Kstep
  imports Sched
begin

text \<open>
  Preservation of the scheduler's invariant by the remaining operations of \<open>src/proc.c\<close>, and the
  kernel as a transition system: any number of processors call the operations in any order, and
  the rest of the system may change memory, files and inodes at any time.
\<close>

section \<open>Kill and freeze\<close>

lemma kinv_release:
  assumes "kcore b s" and "held c s" and "release_ptable c s = Inr s'"
  shows "kinv b s'" and "s' = lock_off c s"
  using assms by (auto simp: release_ptable_held kinv_lock_off)

lemma kinv_kill:
  assumes "kinv b s" and "kill c pid s = Inr (r, s')"
  shows "kinv (b \<and> qlen s' \<le> 5) s'"
proof -
  let ?l = "lock_on c s"
  have l: "kcore b ?l" "held c ?l" using assms(1) by (simp_all add: kinv_def held_lock_on)
  have acq: "acquire_ptable c s = Inr ?l" using assms(1) by (simp add: kinv_def acquire_ptable_quiet)
  show ?thesis
  proof (cases "first_idx (\<lambda>p. p_pid p = pid) (procs s)")
    case None
    then have "release_ptable c ?l = Inr s'"
      using assms(2) acq by (auto simp: kill_def bindE_eq_Inr_iff)
    then show ?thesis by (intro kinv_and kinv_release(1) [OF l])
  next
    case (Some i)
    then have i: "i < NPROC" "i < length (procs s)"
      using kcore_length [OF l(1)] by (auto simp: first_idx_Some_iff)
    let ?k = "upd_proc i (\<lambda>p. p\<lparr>p_killed := True\<rparr>) ?l"
    have k: "kcore b ?k" "held c ?k"
      using l i kcore_proc_ok [OF l(1) i(1)] by (auto intro!: kcore_keep simp: proc_ok_def)
    show ?thesis
    proof (cases "p_state (procs s ! i) = SLEEPING")
      case True
      have ok: "p_state (procs ?k ! i) = SLEEPING" "proc_ok (procs ?k ! i)"
        using True i kcore_proc_ok [OF k(1) i(1)] by simp_all
      have rdy: "proc_ok ((procs ?k ! i)\<lparr>p_state := RUNNABLE\<rparr>)"
        using ok by (simp add: proc_ok_def)
      obtain t where t: "enqueue i (upd_proc i (\<lambda>p. p\<lparr>p_state := RUNNABLE\<rparr>) ?k) = Inr t"
        "kcore (b \<and> qlen t \<le> 5) t" "others_same ?k t"
        using kcore_enqueue [OF k(1) i(1), of "\<lambda>p. p\<lparr>p_state := RUNNABLE\<rparr>"] rdy ok i(2) True by auto
      have "held c t" using k(2) others_same_held [OF t(3)] by simp
      moreover have "release_ptable c t = Inr s'"
        using assms(2) acq Some True i t(1) by (auto simp: kill_def Let_def bindE_eq_Inr_iff)
      ultimately show ?thesis using kinv_release [OF t(2), of c s'] by auto
    next
      case False
      then have "release_ptable c ?k = Inr s'"
        using assms(2) acq Some i by (auto simp: kill_def Let_def bindE_eq_Inr_iff)
      then show ?thesis by (intro kinv_and kinv_release(1) [OF k])
    qed
  qed
qed

lemma unfreeze_scan_ok:
  assumes "kcore b s" and "set is \<subseteq> {..<NPROC}" and "distinct is"
  shows "\<exists>s'. unfreeze_scan is s = Inr s' \<and> kcore (b \<and> qlen s' \<le> 5) s' \<and> qlen s \<le> qlen s' \<and>
    others_same s s' \<and>
    (\<forall>i. procs s' ! i = (if i \<in> set is \<and> p_state (procs s ! i) = WAITING
                          then (procs s ! i)\<lparr>p_state := RUNNABLE\<rparr> else procs s ! i))"
  using assms
proof (induction "is" arbitrary: s b)
  case Nil
  then show ?case using kcore_weaken by auto
next
  case (Cons i "is")
  show ?case
  proof (cases "p_state (procs s ! i) = WAITING")
    case False
    then show ?thesis using Cons.IH [OF Cons.prems(1)] Cons.prems by auto
  next
    case True
    let ?f = "\<lambda>p. p\<lparr>p_state := RUNNABLE\<rparr>"
    have i: "i < NPROC" "i < length (procs s)" using Cons.prems kcore_length by auto
    have ok: "proc_ok (?f (procs s ! i))"
      using kcore_proc_ok [OF Cons.prems(1) i(1)] True by (simp add: proc_ok_def)
    obtain t where t: "enqueue i (upd_proc i ?f s) = Inr t" "kcore (b \<and> qlen t \<le> 5) t"
      "qlen t = Suc (qlen s)" "procs t = (procs s)[i := ?f (procs s ! i)]" "others_same s t"
      using kcore_enqueue [OF Cons.prems(1) i(1), of ?f] True ok by auto
    obtain s' where s': "unfreeze_scan is t = Inr s'" "kcore ((b \<and> qlen t \<le> 5) \<and> qlen s' \<le> 5) s'"
      "qlen t \<le> qlen s'" "others_same t s'"
      "\<forall>j. procs s' ! j = (if j \<in> set is \<and> p_state (procs t ! j) = WAITING
                            then (procs t ! j)\<lparr>p_state := RUNNABLE\<rparr> else procs t ! j)"
      using Cons.IH [OF t(2)] Cons.prems by auto
    have "procs s' ! j = (if j \<in> set (i # is) \<and> p_state (procs s ! j) = WAITING
                          then (procs s ! j)\<lparr>p_state := RUNNABLE\<rparr> else procs s ! j)" for j
      using s'(5) t(4) i(2) True Cons.prems(3) by (cases "j = i") simp_all
    moreover have "kcore (b \<and> qlen s' \<le> 5) s'" using s'(3) by (intro kcore_weaken [OF s'(2)]) auto
    ultimately show ?thesis
      using s' t True by (intro exI [of _ s']) (auto simp: others_same_def)
  qed
qed

lemma freeze_ok:
  assumes "kinv b s"
  obtains s' where "freeze c f s = Inr s'" and "kinv (b \<and> qlen s' \<le> 5) s'"
    and "frozen s' = (if f then 1 else 0)"
    and "\<And>i. i < NPROC \<Longrightarrow> procs s' ! i = (if \<not> f \<and> p_state (procs s ! i) = WAITING
             then (procs s ! i)\<lparr>p_state := RUNNABLE\<rparr> else procs s ! i)"
proof (cases f)
  case True
  have "kinv (b \<and> qlen (s\<lparr>frozen := 1\<rparr>) \<le> 5) (s\<lparr>frozen := 1\<rparr>)"
    using assms by (intro kinv_and) (simp add: kinv_def)
  then show thesis using True by (intro that [of "s\<lparr>frozen := 1\<rparr>"]) (simp_all add: freeze_def)
next
  case False
  let ?s = "s\<lparr>frozen := 0\<rparr>"
  have l: "kcore b (lock_on c ?s)" "held c (lock_on c ?s)" "acquire_ptable c ?s = Inr (lock_on c ?s)"
    using assms by (simp_all add: kinv_def held_lock_on acquire_ptable_quiet)
  obtain t where t: "unfreeze_scan [0..<NPROC] (lock_on c ?s) = Inr t" "kcore (b \<and> qlen t \<le> 5) t"
    "others_same (lock_on c ?s) t"
    "\<forall>i. procs t ! i = (if i \<in> set [0..<NPROC] \<and> p_state (procs s ! i) = WAITING
                          then (procs s ! i)\<lparr>p_state := RUNNABLE\<rparr> else procs s ! i)"
    using unfreeze_scan_ok [OF l(1), of "[0..<NPROC]"] by (auto simp: lessThan_atLeast0)
  have "held c t" using others_same_held [OF t(3)] l(2) by simp
  then have "freeze c f s = Inr (lock_off c t)" "kinv (b \<and> qlen t \<le> 5) (lock_off c t)"
    using False l(3) t(1,2) by (simp_all add: freeze_def release_ptable_held kinv_lock_off)
  then show thesis
    using False t(3,4) by (intro that [of "lock_off c t"]) (simp_all add: others_same_def)
qed

section \<open>Exit\<close>

lemma reparent_scan_ok:
  assumes "kcore b s" and "set is \<subseteq> {..<NPROC}" and "reparent_scan tsc me is s = Inr s'"
  shows "kcore (b \<and> qlen s' \<le> 5) s' \<and> qlen s \<le> qlen s' \<and> others_same s s'"
  using assms
proof (induction "is" arbitrary: s b)
  case Nil
  then show ?case using kcore_weaken by auto
next
  case (Cons i "is")
  show ?case
  proof (cases "p_parent (procs s ! i) = Some me")
    case False
    then show ?thesis using Cons.IH [OF Cons.prems(1)] Cons.prems by auto
  next
    case True
    let ?u = "upd_proc i (\<lambda>p. p\<lparr>p_parent := initproc s\<rparr>) s"
    have u: "kcore b ?u" "others_same s ?u" "qlen ?u = qlen s"
      using Cons.prems kcore_proc_ok [OF Cons.prems(1), of i]
      by (auto intro!: kcore_keep simp: proc_ok_def others_same_def)
    show ?thesis
    proof (cases "p_state (procs ?u ! i) = ZOMBIE")
      case False
      then have "reparent_scan tsc me is ?u = Inr s'"
        using Cons.prems(3) True by (simp add: Let_def)
      then show ?thesis using Cons.IH [OF u(1)] Cons.prems u by (auto simp: others_same_def)
    next
      case True': True
      obtain t where t: "wakeup1 (tsc i) (map_option ChProc (initproc s)) ?u = Inr t"
        "reparent_scan tsc me is t = Inr s'"
        using Cons.prems(3) True True' by (auto simp: Let_def)
      note w = wakeup1_ok [OF u(1) t(1)]
      have IH: "kcore ((b \<and> qlen t \<le> 5) \<and> qlen s' \<le> 5) s'" "qlen t \<le> qlen s'" "others_same t s'"
        using Cons.IH [OF w(1) _ t(2)] Cons.prems by auto
      have "kcore (b \<and> qlen s' \<le> 5) s'" using IH(2) by (intro kcore_weaken [OF IH(1)]) auto
      then show ?thesis using IH w u by (auto simp: others_same_def)
    qed
  qed
qed

text \<open>Who the children of \<open>me\<close> belong to afterwards, and that a process in one of the states
  \<open>RUNNABLE\<close>, \<open>RUNNING\<close> stays there.\<close>

lemma reparent_scan_parents:
  assumes "kcore b s" and "set is \<subseteq> {..<NPROC}" and "reparent_scan tsc me is s = Inr s'" and "i < NPROC"
    and "initproc s \<noteq> Some me"
  shows "p_parent (procs s' ! i) = (if i \<in> set is \<and> p_parent (procs s ! i) = Some me then initproc s else p_parent (procs s ! i)) \<and>
    (p_state (procs s ! i) \<in> {RUNNABLE, RUNNING} \<longrightarrow> p_state (procs s' ! i) = p_state (procs s ! i))"
  using assms
proof (induction "is" arbitrary: s b)
  case (Cons j "is")
  show ?case
  proof (cases "p_parent (procs s ! j) = Some me")
    case False
    then show ?thesis using Cons.IH [OF Cons.prems(1)] Cons.prems by auto
  next
    case True
    let ?u = "upd_proc j (\<lambda>p. p\<lparr>p_parent := initproc s\<rparr>) s"
    have j: "j < NPROC" "j < length (procs s)" using Cons.prems kcore_length by auto
    have u: "kcore b ?u"
      using Cons.prems kcore_proc_ok [OF Cons.prems(1) j(1)] by (auto intro!: kcore_keep simp: proc_ok_def)
    have ui: "procs ?u ! i = (if i = j then (procs s ! j)\<lparr>p_parent := initproc s\<rparr> else procs s ! i)"
      using j(2) by (simp add: nth_list_update)
    show ?thesis
    proof (cases "p_state (procs ?u ! j) = ZOMBIE")
      case False
      then have "reparent_scan tsc me is ?u = Inr s'"
        using Cons.prems(3) True by (simp add: Let_def)
      note IH = Cons.IH [OF u _ this Cons.prems(4)]
      then show ?thesis using IH Cons.prems(2,5) True ui by (auto split: if_splits)
    next
      case z: True
      obtain t where t: "wakeup1 (tsc j) (map_option ChProc (initproc s)) ?u = Inr t"
        "reparent_scan tsc me is t = Inr s'"
        using Cons.prems(3) True z by (auto simp: Let_def)
      note w = wakeup1_ok [OF u t(1)]
      have it: "initproc t = initproc s" using w(3) by (simp add: others_same_def)
      have ti: "p_parent (procs t ! i) = p_parent (procs ?u ! i)"
        "p_state (procs ?u ! i) \<in> {RUNNABLE, RUNNING} \<Longrightarrow> p_state (procs t ! i) = p_state (procs ?u ! i)"
        using w(4) [OF Cons.prems(4)] by (auto simp: woken_def)
      have IH: "p_parent (procs s' ! i) = (if i \<in> set is \<and> p_parent (procs t ! i) = Some me then initproc t else p_parent (procs t ! i)) \<and>
         (p_state (procs t ! i) \<in> {RUNNABLE, RUNNING} \<longrightarrow> p_state (procs s' ! i) = p_state (procs t ! i))"
        using Cons.IH [OF w(1) _ t(2) Cons.prems(4)] Cons.prems(2,5) it by simp
      show ?thesis
        using IH ti ui it True Cons.prems(5) by (cases "i = j") auto
    qed
  qed
qed simp

lemma kinv_exit:
  assumes "kinv b s" and "exit_proc c tsc tsc' s = Inr s'"
  shows "kinv (b \<and> qlen s' \<le> 5) s'"
proof -
  let ?l = "lock_on c s"
  have l: "kcore b ?l" "held c ?l" "acquire_ptable c s = Inr ?l"
    using assms(1) by (simp_all add: kinv_def held_lock_on acquire_ptable_quiet)
  obtain me t u where me: "cur s c = Some me"
    and t: "wakeup1 tsc (map_option ChProc (p_parent (procs s ! me))) ?l = Inr t"
    and u: "reparent_scan tsc' me [0..<NPROC] t = Inr u"
    and sw: "sched_switch c (\<lambda>_. AtExit) (upd_proc me (\<lambda>p. p\<lparr>p_state := ZOMBIE\<rparr>) u) = Inr s'"
    using assms(2) l(3) by (auto simp: exit_proc_def cur_def bindE_eq_Inr_iff split: option.splits if_splits)
  note w = wakeup1_ok [OF l(1) t]
  have r: "kcore ((b \<and> qlen t \<le> 5) \<and> qlen u \<le> 5) u" "qlen t \<le> qlen u" "others_same t u"
    using reparent_scan_ok [OF w(1) _ u] by (auto simp: lessThan_atLeast0)
  have k: "kcore (b \<and> qlen u \<le> 5) u" using r(2) by (intro kcore_weaken [OF r(1)]) auto
  have h: "held c u" "cur u c = Some me"
    using l(2) me w(3) r(3) by (simp_all add: others_same_held others_same_cur)
  note run = kcore_running [OF k h(2)]
  let ?z = "upd_proc me (\<lambda>p. p\<lparr>p_state := ZOMBIE\<rparr>) u"
  have z: "stopped (b \<and> qlen u \<le> 5) c ?z" "p_state (procs ?z ! me) = ZOMBIE"
    using k h run kcore_length [OF k] by (auto intro!: stopped_by simp: proc_ok_def)
  then have "s' = switched c me AtExit ?z"
    using sw h by (simp add: sched_switch_eq)
  moreover have "kcore (b \<and> qlen u \<le> 5) (switched c me AtExit ?z)"
    by (rule kcore_switched [OF z(1) run(1)]) (simp add: run kcore_length [OF k])
  moreover have "quiet (switched c me AtExit ?z)" using h(1) by (intro quiet_switched) simp
  ultimately show ?thesis by (simp add: kinv_def)
qed

section \<open>Wait\<close>

lemma reap_ok:
  assumes "kcore b s" and "i < NPROC" and "p_state (procs s ! i) = ZOMBIE" and "reap sy i s = Inr s'"
  shows "kcore b s'" and "cpus s' = cpus s" and "plock s' = plock s" and "qlen s' = qlen s"
    and "p_state (procs s' ! i) = UNUSED" and "\<And>j. j \<noteq> i \<Longrightarrow> procs s' ! j = procs s ! j"
proof -
  let ?f = "\<lambda>p. p\<lparr>p_kstack := 0, p_state := UNUSED, p_pid := 0, p_parent := None, p_name := '''',
                  p_killed := False\<rparr>"
  obtain k where s': "s' = upd_proc i ?f (s\<lparr>km := k\<rparr>)"
    using assms(4) by (auto simp: reap_def)
  show "kcore b s'" unfolding s'
    using assms by (intro kcore_keep) (simp_all add: proc_ok_def)
  show "cpus s' = cpus s" "plock s' = plock s" "qlen s' = qlen s"
    "p_state (procs s' ! i) = UNUSED" "\<And>j. j \<noteq> i \<Longrightarrow> procs s' ! j = procs s ! j"
    using assms(2) kcore_length [OF assms(1)] by (simp_all add: s')
qed

lemma wait_scan_ok:
  assumes "kcore b s" and "set is \<subseteq> {..<NPROC}" and "wait_scan sy me is hk s = Inr (hk', r, s')"
  shows "kcore b s' \<and> cpus s' = cpus s \<and> plock s' = plock s \<and> qlen s' = qlen s"
  using assms
proof (induction "is" arbitrary: hk)
  case (Cons i "is")
  show ?case
  proof (cases "p_parent (procs s ! i) = Some me \<and> p_state (procs s ! i) = ZOMBIE")
    case True
    then have "reap sy i s = Inr s'" using Cons.prems(3) by (auto simp: bindE_eq_Inr_iff)
    then show ?thesis using reap_ok(1-4) [OF Cons.prems(1), of i sy s'] Cons.prems(2) True by simp
  next
    case False
    then show ?thesis using Cons.IH Cons.prems by (auto split: if_splits)
  qed
qed simp

text \<open>What the pass found: the first ZOMBIE child, which it has reaped, or nothing.\<close>

lemma wait_scan_result:
  assumes "wait_scan sy me is hk s = Inr (hk', r, s')"
  shows "case r of
      Some pid \<Rightarrow> \<exists>i \<in> set is. p_parent (procs s ! i) = Some me \<and> p_state (procs s ! i) = ZOMBIE \<and>
                    pid = p_pid (procs s ! i) \<and> reap sy i s = Inr s'
    | None \<Rightarrow> s' = s \<and> (\<forall>i \<in> set is. p_parent (procs s ! i) = Some me \<longrightarrow> p_state (procs s ! i) \<noteq> ZOMBIE) \<and>
             (hk' \<longleftrightarrow> hk \<or> (\<exists>i \<in> set is. p_parent (procs s ! i) = Some me))"
  using assms
proof (induction "is" arbitrary: hk)
  case (Cons a "is")
  consider (other) "p_parent (procs s ! a) \<noteq> Some me"
    | (zombie) "p_parent (procs s ! a) = Some me" "p_state (procs s ! a) = ZOMBIE"
    | (child) "p_parent (procs s ! a) = Some me" "p_state (procs s ! a) \<noteq> ZOMBIE"
    by blast
  then show ?case
  proof cases
    case other
    then show ?thesis using Cons.IH [of hk] Cons.prems by (auto split: option.splits)
  next
    case zombie
    then show ?thesis using Cons.prems by (auto simp: bindE_eq_Inr_iff)
  next
    case child
    then show ?thesis using Cons.IH [of True] Cons.prems by (auto split: option.splits)
  qed
qed auto

lemma kinv_wait_loop:
  assumes "kcore b s" and "held c s" and "cur s c = Some me" and "wait_loop sy c me s = Inr (r, s')"
  shows "kinv b s'"
proof -
  obtain hk q t where t: "wait_scan sy me [0..<NPROC] False s = Inr (hk, q, t)"
    using assms(4) by (auto simp: wait_loop_def)
  have k: "kcore b t" "cpus t = cpus s" "plock t = plock s"
    using wait_scan_ok [OF assms(1) _ t] by (auto simp: lessThan_atLeast0)
  have h: "held c t" "cur t c = Some me"
    using assms(2,3) k(2,3) by (simp_all add: held_def cur_def)
  have rel: "kinv b s'" if "release_ptable c t = Inr s'"
    by (rule kinv_release(1) [OF k(1) h(1) that])
  show ?thesis
  proof (cases "q = None \<and> hk \<and> \<not> p_killed (procs t ! me)")
    case True
    then obtain la where "sleep c (Some (ChProc me)) PtableLock t = Inr (la, s')"
      using assms(4) t by (auto simp: wait_loop_def bindE_eq_Inr_iff)
    then have "sleep_on c me (Some (ChProc me)) AtWait t = Inr s'"
      using h(2) by (auto simp: sleep_def cur_def bindE_eq_Inr_iff)
    moreover obtain u where "sleep_on c me (Some (ChProc me)) AtWait t = Inr u" "kinv b u"
      using sleep_on_ok [OF k(1) h(1,2), of AtWait "Some (ChProc me)"] by (metis kont.distinct(19))
    ultimately show ?thesis by simp
  next
    case False
    then show ?thesis using assms(4) t
      by (auto simp: wait_loop_def bindE_eq_Inr_iff split: option.splits if_splits intro: rel)
  qed
qed

lemma kinv_wait:
  assumes "kinv b s" and "cur s c = Some me" and "wait sy c s = Inr (r, s')"
  shows "kinv b s'"
proof -
  have "wait_loop sy c me (lock_on c s) = Inr (r, s')"
    using assms by (auto simp: wait_def kinv_def acquire_ptable_quiet cur_def lock_on_def)
  then show ?thesis
    using assms by (intro kinv_wait_loop [of b "lock_on c s" c me]) (simp_all add: kinv_def held_lock_on)
qed

section \<open>The scheduler\<close>

lemma switchuvm_held:
  assumes "held c s" and "cproc (cpus s c) = Some p" and "p_pgdir (procs s ! p) \<noteq> 0"
  shows "switchuvm c p s =
    Inr (upd_cpu c (\<lambda>k. k\<lparr>esp0 := p_kstack (procs s ! p) + KSTACKSIZE, cr3 := v2p (p_pgdir (procs s ! p))\<rparr>) s)"
proof -
  let ?k = "(cpus s c)\<lparr>esp0 := p_kstack (procs s ! p) + KSTACKSIZE, cr3 := v2p (p_pgdir (procs s ! p))\<rparr>"
  have "pushcli (cpus s c)\<lparr>esp0 := p_kstack (procs s ! p) + KSTACKSIZE, cr3 := v2p (p_pgdir (procs s ! p))\<rparr>
      = ?k\<lparr>ncli := 2\<rparr>"
    using assms(1) by (cases "cpus s c") (simp add: held_def pushcli_def cli_def Let_def)
  moreover have "popcli (?k\<lparr>ncli := 2\<rparr>) = Inr ?k"
    using assms(1) by (cases "cpus s c") (simp add: held_def popcli_def Let_def)
  ultimately show ?thesis
    using assms(2,3) by (simp add: switchuvm_def Let_def upd_cpu_def)
qed

lemma start_run_frame [simp]:
  "p_state (start_run tsc p) = RUNNING" "p_kont (start_run tsc p) = p_kont p"
  "p_pgdir (start_run tsc p) = p_pgdir p" "p_ctxswt (start_run tsc p) = p_ctxswt p"
  "p_kstack (start_run tsc p) = p_kstack p" "p_P (start_run tsc p) = p_P p"
  by (simp_all add: start_run_def)

text \<open>What \<open>dispatch\<close> leaves: the old head of the queue runs on processor \<open>c\<close>.\<close>

lemma dispatch_ok:
  assumes "kcore b s" and "held c s" and "cur s c = None" and "0 < qlen s" and "queue s ! 0 = Some p"
  obtains s' where "dispatch c tsc p s = Inr s'" and "kcore b s'" and "held c s'"
    and "cur s' = (cur s)(c := Some p)" and "Suc (qlen s') = qlen s"
    and "procs s' = (procs s)[p := start_run tsc (procs s ! p)]"
    and "cr3 (cpus s' c) = v2p (p_pgdir (procs s ! p))"
    and "esp0 (cpus s' c) = p_kstack (procs s ! p) + KSTACKSIZE"
proof -
  obtain n where n: "qlen s = Suc n" using assms(4) by (cases "qlen s") simp_all
  have inv: "pinv b (procs s) (queue s) (Suc n) (cur s)" using assms(1) n by (simp add: kcore_def)
  have "itr_q s + 1 \<noteq> 0" using n by (auto simp: qlen_def)
  then have itr: "unat (itr_q s) = n" using n unat_minus_one_uint [of "itr_q s + 1"] by (simp add: qlen_def)
  have nlt: "n < NPROC" using inv by (simp add: pinv_def rq_inv_def)
  let ?q = "heapify (pt_above (procs s)) ((queue s)[0 := queue s ! n]) n 0"
  let ?d = "s\<lparr>queue := ?q, itr_q := itr_q s - 1\<rparr>"
  have d: "dequeue s = Inr ?d" using itr nlt by (simp add: dequeue_def)
  obtain k where "k \<in> ready (procs s)" "queue s ! 0 = Some k"
    using rq_nth [of "queue s" "Suc n" "ready (procs s)" 0] inv by (auto simp: pinv_def)
  then have p: "p < NPROC" "p_state (procs s ! p) = RUNNABLE" "p < length (procs s)"
    using assms(5) kcore_length [OF assms(1)] by (auto simp: ready_def)
  have ok: "proc_ok (procs s ! p)" using kcore_proc_ok [OF assms(1) p(1)] .
  let ?e = "upd_cpu c (\<lambda>k. k\<lparr>cproc := Some p\<rparr>) ?d"
  let ?u = "upd_cpu c (\<lambda>k. k\<lparr>esp0 := p_kstack (procs s ! p) + KSTACKSIZE, cr3 := v2p (p_pgdir (procs s ! p))\<rparr>) ?e"
  have "held c ?e" using assms(2) by (auto simp: held_def)
  then have u: "switchuvm c p ?e = Inr ?u"
    using ok p by (subst switchuvm_held) (simp_all add: proc_ok_def)
  let ?s = "upd_proc p (start_run tsc) ?u"
  have cur: "cur ?s = (cur s)(c := Some p)" by (auto simp: cur_def)
  have ql: "qlen ?s = n" using itr by (simp add: qlen_def)
  have "pinv b ((procs s)[p := start_run tsc (procs s ! p)]) ?q n ((cur s)(c := Some p))"
    using inv assms(3,5) ok p by (intro pinv_dispatch) (simp_all add: proc_ok_def)
  then have "kcore b ?s" unfolding kcore_def cur ql by simp
  moreover have "dispatch c tsc p s = Inr ?s" using d u by (simp add: dispatch_def)
  moreover have "held c ?s" using assms(2) by (auto simp: held_def)
  ultimately show thesis using cur ql n by (intro that [of ?s]) simp_all
qed

lemma held_upd_cpu:
  "held c s \<Longrightarrow> (\<And>k. ncli (f k) = ncli k \<and> fl_if (f k) = fl_if k) \<Longrightarrow> held c (upd_cpu c f s)"
  by (auto simp: held_def)

lemma cur_upd_cpu: "(\<And>k. cproc (f k) = cproc k) \<Longrightarrow> cur (upd_cpu c f s) = cur s"
  by (auto simp: cur_def)

lemma kcore_upd_cpu: "(\<And>k. cproc (f k) = cproc k) \<Longrightarrow> kcore b (upd_cpu c f s) = kcore b s"
  by (simp add: kcore_def cur_upd_cpu)

lemma kcore_clear_chan:
  assumes "kcore b s" and "i < NPROC"
  shows "kcore b (upd_proc i (\<lambda>p. p\<lparr>p_chan := None\<rparr>) s)"
  using assms kcore_proc_ok [OF assms] by (intro kcore_keep) (simp_all add: proc_ok_def)

text \<open>The process that is switched to runs its call to the end, or gives up the processor again.\<close>

lemma kinv_resume:
  assumes "kcore b s" and "held c s" and "cur s c = Some me" and "resume sy c me s = Inr (r, s')"
  shows "kinv b s'"
proof -
  note run = kcore_running [OF assms(1,3)]
  have w: "kcore b (upd_cpu c (\<lambda>k. k\<lparr>intena := v\<rparr>) s)" "held c (upd_cpu c (\<lambda>k. k\<lparr>intena := v\<rparr>) s)"
    "cur (upd_cpu c (\<lambda>k. k\<lparr>intena := v\<rparr>) s) c = Some me" for v
    using assms by (simp_all add: kcore_upd_cpu held_upd_cpu cur_upd_cpu)
  show ?thesis
  proof (cases "p_kont (procs s ! me)")
    case AtForkret
    then have "release_ptable c s = Inr s'" using assms(4) by (auto simp: resume_def bindE_eq_Inr_iff)
    then show ?thesis by (rule kinv_release(1) [OF assms(1,2)])
  next
    case (AtYield v)
    let ?t = "(upd_cpu c (\<lambda>k. k\<lparr>intena := v\<rparr>) s)\<lparr>interrupt := 0\<rparr>"
    have "release_ptable c ?t = Inr s'"
      using AtYield assms(4) by (auto simp: resume_def bindE_eq_Inr_iff)
    moreover have "kcore b ?t" "held c ?t" using w [of v] by simp_all
    ultimately show ?thesis using kinv_release(1) by blast
  next
    case (AtSleep v)
    let ?t = "upd_proc me (\<lambda>p. p\<lparr>p_chan := None\<rparr>) (upd_cpu c (\<lambda>k. k\<lparr>intena := v\<rparr>) s)"
    have "release_ptable c ?t = Inr s'"
      using AtSleep assms(4) by (auto simp: resume_def bindE_eq_Inr_iff)
    moreover have "kcore b ?t" "held c ?t"
      using w [of v] kcore_clear_chan [OF w(1) run(1), of v] by simp_all
    ultimately show ?thesis using kinv_release(1) by blast
  next
    case (AtWait v)
    let ?t = "upd_proc me (\<lambda>p. p\<lparr>p_chan := None\<rparr>) (upd_cpu c (\<lambda>k. k\<lparr>intena := v\<rparr>) s)"
    have "kcore b ?t" "held c ?t" "cur ?t c = Some me"
      using w [of v] kcore_clear_chan [OF w(1) run(1), of v] by simp_all
    then show ?thesis
      using AtWait assms(4) by (intro kinv_wait_loop [of b ?t]) (simp_all add: resume_def)
  next
    case AtExit
    then show ?thesis using run(4) by simp
  qed
qed

lemma resume_returns:
  assumes "kcore b s" and "held c s" and "cur s c = Some me"
    and "\<And>v. p_kont (procs s ! me) \<noteq> AtWait v"
  shows "\<exists>s'. resume sy c me s = Inr (None, s') \<and> cur s' = cur s \<and> kinv b s'"
proof -
  have ex: "p_kont (procs s ! me) \<noteq> AtExit" using kcore_running(4) [OF assms(1,3)] .
  have w: "held c (upd_cpu c (\<lambda>k. k\<lparr>intena := v\<rparr>) s)" "cur (upd_cpu c (\<lambda>k. k\<lparr>intena := v\<rparr>) s) = cur s" for v
    using assms by (simp_all add: held_upd_cpu cur_upd_cpu)
  have "\<exists>s'. resume sy c me s = Inr (None, s') \<and> cur s' = cur s"
    using assms(2,4) ex w
    by (cases "p_kont (procs s ! me)") (auto simp: resume_def release_ptable_held)
  then show ?thesis using kinv_resume [OF assms(1-3)] by blast
qed

lemma quiet_sti: "quiet s \<Longrightarrow> quiet (upd_cpu c sti s)"
  by (simp add: quiet_def sti_def)

lemma kcore_count_switch:
  assumes "kcore b s" and "i < NPROC"
  shows "kcore b (upd_proc i (\<lambda>q. q\<lparr>p_ctxswt := p_ctxswt q + 1\<rparr>) s)"
  using assms kcore_proc_ok [OF assms] by (intro kcore_keep) (simp_all add: proc_ok_def)

lemma qlen_nonempty: "itr_q s \<noteq> - 1 \<longleftrightarrow> 0 < qlen s"
  by (auto simp: qlen_def unat_eq_0 add_eq_0_iff2 simp flip: neq0_conv)

text \<open>The scheduler's step, up to the point where it resumes the process it has chosen.\<close>

lemma scheduler_picks:
  assumes "kinv b s" and "cur s c = None" and "frozen s = 0" and "0 < qlen s"
    and "queue s ! 0 = Some p"
  obtains t where "scheduler sy c tsc s = resume sy c p t" and "kcore b t" and "held c t"
    and "cur t = (cur s)(c := Some p)" and "Suc (qlen t) = qlen s" and "p < NPROC"
    and "p_state (procs s ! p) = RUNNABLE" and "p_state (procs t ! p) = RUNNING"
    and "p_kont (procs t ! p) = p_kont (procs s ! p)"
    and "p_ctxswt (procs t ! p) = p_ctxswt (procs s ! p) + 1"
    and "\<And>i. i \<noteq> p \<Longrightarrow> procs t ! i = procs s ! i"
    and "cr3 (cpus t c) = v2p (p_pgdir (procs s ! p))"
proof -
  let ?l = "lock_on c (upd_cpu c sti s)"
  have q: "quiet (upd_cpu c sti s)" using assms(1) by (simp add: kinv_def quiet_sti)
  have l: "kcore b ?l" "held c ?l"
    using assms(1) q by (simp_all add: kinv_def kcore_upd_cpu sti_def held_lock_on)
  have cl: "cur ?l = cur s" by (simp add: cur_upd_cpu sti_def)
  obtain k where "k \<in> ready (procs s)" "queue s ! 0 = Some k"
    using rq_nth [of "queue s" "qlen s" "ready (procs s)" 0] assms(1,4)
    by (auto simp: kinv_def kcore_def pinv_def)
  then have p: "p < NPROC" "p_state (procs s ! p) = RUNNABLE" "p < length (procs s)"
    using assms(5) kcore_length [OF l(1)] by (auto simp: ready_def)
  let ?u = "upd_proc p (\<lambda>q. q\<lparr>p_ctxswt := p_ctxswt q + 1\<rparr>) ?l"
  have u: "kcore b ?u" "held c ?u" "cur ?u c = None" "0 < qlen ?u" "queue ?u ! 0 = Some p"
    using kcore_count_switch [OF l(1) p(1)] l(2) cl assms by simp_all
  obtain t where t: "dispatch c tsc p ?u = Inr t" "kcore b t" "held c t" "cur t = (cur ?u)(c := Some p)"
    "Suc (qlen t) = qlen ?u"
    "procs t = (procs ?u)[p := start_run tsc (procs ?u ! p)]"
    "cr3 (cpus t c) = v2p (p_pgdir (procs ?u ! p))"
    "esp0 (cpus t c) = p_kstack (procs ?u ! p) + KSTACKSIZE"
    by (rule dispatch_ok [OF u])
  have "scheduler sy c tsc s = resume sy c p t"
    using assms t(1) qlen_nonempty [of s] by (simp add: scheduler_def acquire_ptable_quiet q Let_def)
  then show thesis
    using t p cl by (intro that [of t]) simp_all
qed

lemma kinv_scheduler:
  assumes "kinv b s" and "cur s c = None" and "scheduler sy c tsc s = Inr (r, s')"
  shows "kinv b s'"
proof (cases "0 < qlen s")
  case False
  let ?l = "lock_on c (upd_cpu c sti s)"
  have q: "quiet (upd_cpu c sti s)" using assms(1) by (simp add: kinv_def quiet_sti)
  have l: "kcore b ?l" "held c ?l"
    using assms(1) q by (simp_all add: kinv_def kcore_upd_cpu sti_def held_lock_on)
  have "release_ptable c ?l = Inr s'"
    using assms(3) False qlen_nonempty [of s] by (auto simp: scheduler_def acquire_ptable_quiet q bindE_eq_Inr_iff)
  then show ?thesis by (rule kinv_release(1) [OF l])
next
  case True
  obtain p where p: "queue s ! 0 = Some p" using head_queue [of b s] assms(1) by (auto simp: kinv_def)
  have q: "quiet (upd_cpu c sti s)" using assms(1) by (simp add: kinv_def quiet_sti)
  have "cproc (cpus (lock_on c (upd_cpu c sti s)) c) = None"
    using assms(2) by (simp add: cur_def lock_on_def sti_def)
  then have "frozen s = 0"
    using assms(3) True qlen_nonempty [of s] p
    by (auto simp: scheduler_def acquire_ptable_quiet q Let_def split: if_splits)
  then obtain t where t: "scheduler sy c tsc s = resume sy c p t" "kcore b t" "held c t"
    "cur t = (cur s)(c := Some p)"
    using scheduler_picks [OF assms(1,2) _ True p] by metis
  then show ?thesis using assms(3) by (intro kinv_resume [of b t c p sy r]) simp_all
qed

section \<open>Fork\<close>

text \<open>A slot being set up by \<open>allocproc\<close> is nobody else's concern.\<close>

lemma kinv_fresh:
  assumes "kinv b s" and "i < NPROC" and "p_state (procs s ! i) \<in> {UNUSED, EMBRYO}"
    and "p_state (f (procs s ! i)) \<in> {UNUSED, EMBRYO}"
  shows "kinv b (upd_proc i f s)"
proof -
  have "kcore b (upd_proc i f s)"
    using assms by (intro kcore_keep) (auto simp: kinv_def proc_ok_def)
  then show ?thesis using assms(1) by (simp add: kinv_def)
qed

lemma kinv_other [simp]:
  "kinv b (s\<lparr>km := k\<rparr>) = kinv b s" "kinv b (s\<lparr>interrupt := v\<rparr>) = kinv b s"
  "kinv b (s\<lparr>ftable := ft\<rparr>) = kinv b s" "kinv b (s\<lparr>icache := ic\<rparr>) = kinv b s"
  "kinv b (s\<lparr>nextpid := w\<rparr>) = kinv b s" "kinv b (s\<lparr>miss := w\<rparr>) = kinv b s"
  "kinv b (s\<lparr>itr_s := w\<rparr>) = kinv b s" "kinv b (s\<lparr>statistics := st\<rparr>) = kinv b s"
  by (simp_all add: kinv_def)

text \<open>\<open>f\<close> is the final update of the slot.\<close>

lemma allocproc_ok:
  assumes "kinv b s" and "allocproc sy c s = Inr (r, s')"
  shows "kinv b s'" and "cur s' = cur s" and "qlen s' = qlen s" and "frozen s' = frozen s"
    and "\<And>i. r = Some i \<Longrightarrow> i < NPROC \<and> p_state (procs s ! i) = UNUSED \<and>
           p_state (procs s' ! i) = EMBRYO \<and> p_kont (procs s' ! i) = AtForkret \<and>
           p_pid (procs s' ! i) = nextpid s \<and> (\<forall>j. j \<noteq> i \<longrightarrow> procs s' ! j = procs s ! j)"
proof -
  let ?l = "lock_on c s"
  have l: "kcore b ?l" "held c ?l" "acquire_ptable c s = Inr ?l"
    using assms(1) by (simp_all add: kinv_def held_lock_on acquire_ptable_quiet)
  have len: "length (procs s) = NPROC" using kcore_length [OF l(1)] by simp
  have "kinv b s' \<and> cur s' = cur s \<and> qlen s' = qlen s \<and> frozen s' = frozen s \<and>
    (\<forall>i. r = Some i \<longrightarrow> i < NPROC \<and> p_state (procs s ! i) = UNUSED \<and>
           p_state (procs s' ! i) = EMBRYO \<and> p_kont (procs s' ! i) = AtForkret \<and>
           p_pid (procs s' ! i) = nextpid s \<and> (\<forall>j. j \<noteq> i \<longrightarrow> procs s' ! j = procs s ! j))"
  proof (cases "first_idx (\<lambda>p. p_state p = UNUSED) (procs s)")
    case None
    then have "r = None" "s' = lock_off c ?l"
      using assms(2) l by (auto simp: allocproc_def release_ptable_held)
    then show ?thesis using kinv_lock_off [OF l(1,2)] by simp
  next
    case (Some i)
    then have i: "i < NPROC" "i < length (procs s)" "p_state (procs s ! i) = UNUSED"
      using len by (auto simp: first_idx_Some_iff)
    let ?e = "(upd_proc i (\<lambda>p. p\<lparr>p_state := EMBRYO, p_pid := nextpid s\<rparr>) ?l)\<lparr>nextpid := nextpid s + 1\<rparr>"
    have e: "kcore b ?e" "held c ?e"
      using l i by (auto intro!: kcore_keep simp: proc_ok_def)
    let ?s = "lock_off c ?e"
    have s: "kinv b ?s" "cur ?s = cur s" "qlen ?s = qlen s" "frozen ?s = frozen s"
      "p_state (procs ?s ! i) = EMBRYO" "p_pid (procs ?s ! i) = nextpid s"
      using kinv_lock_off [OF e] i by simp_all
    obtain kst k where ka: "kalloc (km s) = (kst, k)" by (cases "kalloc (km s)")
    let ?t = "upd_proc i (\<lambda>p. p\<lparr>p_kstack := kst\<rparr>) (?s\<lparr>km := k\<rparr>)"
    have t: "kinv b ?t" using s i by (intro kinv_fresh) simp_all
    show ?thesis
    proof (cases "kst = 0")
      case True
      then have "r = None" "s' = upd_proc i (\<lambda>p. p\<lparr>p_state := UNUSED\<rparr>) ?t"
        using assms(2) l e Some ka by (auto simp: allocproc_def release_ptable_held Let_def)
      moreover have "kinv b (upd_proc i (\<lambda>p. p\<lparr>p_state := UNUSED\<rparr>) ?t)"
        by (rule kinv_fresh) (use t i in simp_all)
      ultimately show ?thesis using s by simp
    next
      case False
      let ?tf = "kst + KSTACKSIZE - TF_SIZE"
      let ?f = "\<lambda>p. p\<lparr>p_tf := ?tf, p_context := ?tf - 4 - CONTEXT_SIZE, p_kont := AtForkret,
                       p_D := 0, p_C := 0, p_ctxswt := 0, p_arrtime := 0, p_firstsch := 0,
                       p_P := 0, p_O := 0\<rparr>"
      let ?k = "k\<lparr>kbytes := init_kstack sy (kbytes k) kst\<rparr>"
      have "r = Some i" "s' = upd_proc i ?f (?t\<lparr>km := ?k, interrupt := 0\<rparr>)"
        using assms(2) l e Some ka False by (auto simp: allocproc_def release_ptable_held Let_def)
      moreover have "kinv b (upd_proc i ?f (?t\<lparr>km := ?k, interrupt := 0\<rparr>))"
        by (rule kinv_fresh) (use t i in simp_all)
      ultimately show ?thesis using s i by simp
    qed
  qed
  then show "kinv b s'" and "cur s' = cur s" and "qlen s' = qlen s" and "frozen s' = frozen s"
    and "\<And>i. r = Some i \<Longrightarrow> i < NPROC \<and> p_state (procs s ! i) = UNUSED \<and>
           p_state (procs s' ! i) = EMBRYO \<and> p_kont (procs s' ! i) = AtForkret \<and>
           p_pid (procs s' ! i) = nextpid s \<and> (\<forall>j. j \<noteq> i \<longrightarrow> procs s' ! j = procs s ! j)"
    by auto
qed

lemma fork_admit_ok:
  assumes "kinv b s" and "np < NPROC" and "p_state (procs s ! np) = EMBRYO"
    and "p_pgdir (procs s ! np) \<noteq> 0" and "p_kont (procs s ! np) \<noteq> AtExit"
  shows "\<exists>s'. fork_admit c np tsc d cc pr th s = Inr s' \<and> kinv (b \<and> qlen s' \<le> 5) s' \<and>
    cur s' = cur s \<and> frozen s' = frozen s \<and>
    p_state (procs s' ! np) = (if frozen s = 0 then RUNNABLE else WAITING) \<and>
    qlen s' = (if frozen s = 0 then Suc (qlen s) else qlen s) \<and>
    p_D (procs s' ! np) = d \<and> p_C (procs s' ! np) = cc \<and> p_P (procs s' ! np) = pr \<and>
    p_O (procs s' ! np) = th \<and> (\<forall>i. i \<noteq> np \<longrightarrow> procs s' ! i = procs s ! i)"
proof -
  let ?l = "lock_on c s"
  have l: "kcore b ?l" "held c ?l" "acquire_ptable c s = Inr ?l"
    using assms(1) by (simp_all add: kinv_def held_lock_on acquire_ptable_quiet)
  have len: "np < length (procs s)" using kcore_length [OF l(1)] assms(2) by simp
  define f :: "proc \<Rightarrow> proc" where "f = (\<lambda>p. p\<lparr>p_state := RUNNABLE, p_D := d, p_C := cc, p_P := pr, p_O := th, p_ctxswt := 0\<rparr>)"
  show ?thesis
  proof (cases "frozen s = 0")
    case True
    define g where "g = (\<lambda>p. (f p)\<lparr>p_arrtime := tick tsc\<rparr>)"
    have two: "upd_proc np (\<lambda>p. p\<lparr>p_arrtime := tick tsc\<rparr>) (upd_proc np f ?l) = upd_proc np g ?l"
      using len by (simp add: upd_proc_def g_def)
    have "\<exists>t. enqueue np (upd_proc np g ?l) = Inr t \<and> kcore (b \<and> qlen t \<le> 5) t \<and>
        qlen t = Suc (qlen ?l) \<and> procs t = (procs ?l)[np := g (procs ?l ! np)] \<and> others_same ?l t"
      using assms by (intro kcore_enqueue [OF l(1)]) (simp_all add: g_def f_def proc_ok_def)
    then obtain t where t: "enqueue np (upd_proc np g ?l) = Inr t" "kcore (b \<and> qlen t \<le> 5) t"
      "qlen t = Suc (qlen s)" "procs t = (procs s)[np := g (procs s ! np)]" "others_same ?l t"
      by auto
    have h: "held c t" using others_same_held [OF t(5)] l(2) by simp
    have "fork_admit c np tsc d cc pr th s = Inr (lock_off c t)"
      using l(3) t(1) h True two
      by (simp add: fork_admit_def Let_def release_ptable_held flip: f_def)
    moreover have "kinv (b \<and> qlen (lock_off c t) \<le> 5) (lock_off c t)"
      using kinv_lock_off [OF t(2) h] by simp
    moreover have "cur t = cur s" "frozen t = frozen s"
      using others_same_cur [OF t(5)] t(5) by (simp_all add: others_same_def)
    ultimately show ?thesis
      using True t len by (intro exI [of _ "lock_off c t"]) (simp add: g_def f_def)
  next
    case False
    define g where "g = (\<lambda>p. (f p)\<lparr>p_state := WAITING\<rparr>)"
    have two: "upd_proc np (\<lambda>p. p\<lparr>p_state := WAITING\<rparr>) (upd_proc np f ?l) = upd_proc np g ?l"
      using len by (simp add: upd_proc_def g_def)
    have k: "kcore b (upd_proc np g ?l)" "held c (upd_proc np g ?l)"
      using l assms by (auto intro!: kcore_keep simp: g_def f_def proc_ok_def)
    have "fork_admit c np tsc d cc pr th s = Inr (lock_off c (upd_proc np g ?l))"
      using l(3) False two k(2)
      by (simp add: fork_admit_def Let_def release_ptable_held flip: f_def)
    moreover have "kinv (b \<and> qlen s \<le> 5) (lock_off c (upd_proc np g ?l))"
      using kinv_lock_off [OF k] by (rule kinv_and)
    ultimately show ?thesis
      using False len by (intro exI [of _ "lock_off c (upd_proc np g ?l)"]) (simp add: g_def f_def)
  qed
qed

lemma fork_admit_pid:
  assumes "fork_admit c np tsc d cc pr th s = Inr s'" and "kinv b s" and "np < NPROC"
  shows "p_pid (procs s' ! np) = p_pid (procs s ! np)"
proof -
  have q: "quiet s" "np < length (procs s)"
    using assms(2,3) kcore_length by (auto simp: kinv_def)
  have h: "procs s' = procs t" if "release_ptable c t = Inr s'" for t
    using that by (auto simp: release_ptable_def bindE_eq_Inr_iff)
  show ?thesis
    using assms(1) q h
    by (auto simp: fork_admit_def acquire_ptable_quiet enqueue_def Let_def split: if_splits)
qed

text \<open>The child before it is admitted: everything \<open>fork\<close> does between \<open>allocproc\<close> and the final
  critical section.\<close>

lemma fork_child:
  assumes "kinv b s" and "fork sy c tsc d cc pr th s = Inr (pid, s')"
  shows "kinv b s' \<and> pid = - 1 \<and> qlen s' = qlen s \<or>
    (\<exists>np t. np < NPROC \<and> p_state (procs s ! np) = UNUSED \<and> kinv b t \<and> cur t = cur s \<and>
       qlen t = qlen s \<and> frozen t = frozen s \<and> p_state (procs t ! np) = EMBRYO \<and>
       p_pgdir (procs t ! np) \<noteq> 0 \<and> p_kont (procs t ! np) = AtForkret \<and>
       p_parent (procs t ! np) = cur s c \<and> pid = nextpid s \<and> p_pid (procs t ! np) = pid \<and>
       (\<forall>i. i \<noteq> np \<longrightarrow> procs t ! i = procs s ! i) \<and> fork_admit c np tsc d cc pr th t = Inr s')"
proof -
  obtain me where me: "cur s c = Some me" using assms(2) by (auto simp: fork_def cur_def split: option.splits)
  obtain r u where u: "allocproc sy c s = Inr (r, u)"
    using assms(2) me by (auto simp: fork_def cur_def bindE_eq_Inr_iff)
  note a = allocproc_ok [OF assms(1) u]
  show ?thesis
  proof (cases r)
    case None
    then show ?thesis using assms(2) me u a by (auto simp: fork_def cur_def)
  next
    case (Some np)
    note np = a(5) [OF Some]
    have len: "length (procs u) = NPROC" using a(1) by (auto simp: kinv_def intro: kcore_length)
    obtain d' k where k: "copyuvm (sym_end sy) (sym_data sy) (km u) (p_pgdir (procs u ! me))
        (p_sz (procs u ! me)) = Inr (d', k)"
      using assms(2) me u Some by (auto simp: fork_def cur_def bindE_eq_Inr_iff)
    let ?v = "upd_proc np (\<lambda>p. p\<lparr>p_pgdir := d'\<rparr>) (u\<lparr>km := k\<rparr>)"
    have v: "kinv b ?v" by (rule kinv_fresh) (use a np in simp_all)
    show ?thesis
    proof (cases "d' = 0")
      case True
      then obtain k' where "pid = - 1" and s': "s' = upd_proc np (\<lambda>p. p\<lparr>p_kstack := 0, p_state := UNUSED\<rparr>) (?v\<lparr>km := k'\<rparr>)"
        using assms(2) me u Some k by (auto simp: fork_def cur_def bindE_eq_Inr_iff Let_def)
      moreover have "kinv b s'" unfolding s' by (rule kinv_fresh) (use v np len in simp_all)
      ultimately show ?thesis using a by simp
    next
      case False
      define x where "x = upd_proc np (\<lambda>p. p\<lparr>p_sz := p_sz (procs ?v ! me), p_parent := Some me\<rparr>) ?v"
      have x: "kinv b x" unfolding x_def by (rule kinv_fresh) (use v np len in simp_all)
      obtain m fs ft ip where ad: "fork_admit c np tsc d cc pr th
          (upd_proc np (\<lambda>p. p\<lparr>p_ofile := fs, p_cwd := Some ip, p_name := copy_name (p_name (procs x ! me))\<rparr>)
             (x\<lparr>km := (km x)\<lparr>kbytes := m\<rparr>, ftable := ft, icache := idup (icache x) ip\<rparr>)) = Inr s'"
        and pid: "pid = p_pid (procs x ! np)"
        using assms(2) me u Some k False np len
        by (auto simp: fork_def cur_def bindE_eq_Inr_iff Let_def x_def split: option.splits)
      let ?y = "x\<lparr>km := (km x)\<lparr>kbytes := m\<rparr>, ftable := ft, icache := idup (icache x) ip\<rparr>"
      let ?t = "upd_proc np (\<lambda>p. p\<lparr>p_ofile := fs, p_cwd := Some ip, p_name := copy_name (p_name (procs x ! me))\<rparr>) ?y"
      have t: "kinv b ?t" by (rule kinv_fresh) (use x np len in \<open>simp_all add: x_def\<close>)
      have "p_pid (procs x ! np) = nextpid s" using np len by (simp add: x_def)
      then show ?thesis
        using t ad pid np a len me False
        by (intro disjI2 exI [of _ np] exI [of _ ?t]) (simp add: x_def)
    qed
  qed
qed

lemma kinv_fork:
  assumes "kinv b s" and "fork sy c tsc d cc pr th s = Inr (pid, s')"
  shows "kinv (b \<and> qlen s' \<le> 5) s'"
  using fork_child [OF assms]
proof
  assume "kinv b s' \<and> pid = - 1 \<and> qlen s' = qlen s"
  then show ?thesis by (intro kinv_and) simp
next
  assume "\<exists>np t. np < NPROC \<and> p_state (procs s ! np) = UNUSED \<and> kinv b t \<and> cur t = cur s \<and>
       qlen t = qlen s \<and> frozen t = frozen s \<and> p_state (procs t ! np) = EMBRYO \<and>
       p_pgdir (procs t ! np) \<noteq> 0 \<and> p_kont (procs t ! np) = AtForkret \<and>
       p_parent (procs t ! np) = cur s c \<and> pid = nextpid s \<and> p_pid (procs t ! np) = pid \<and>
       (\<forall>i. i \<noteq> np \<longrightarrow> procs t ! i = procs s ! i) \<and> fork_admit c np tsc d cc pr th t = Inr s'"
  then obtain np t where t: "np < NPROC" "kinv b t" "p_state (procs t ! np) = EMBRYO"
    "p_pgdir (procs t ! np) \<noteq> 0" "p_kont (procs t ! np) = AtForkret"
    "fork_admit c np tsc d cc pr th t = Inr s'" by blast
  then show ?thesis using fork_admit_ok [OF t(2,1,3,4), of c tsc d cc pr th] by auto
qed

section \<open>Memory growth and statistics\<close>

lemma switchuvm_quiet:
  assumes "quiet s" and "cproc (cpus s c) = Some q" and "switchuvm c p s = Inr s'"
  shows "quiet s'" and "cur s' = cur s" and "procs s' = procs s" and "queue s' = queue s"
    and "itr_q s' = itr_q s"
proof -
  obtain k where k: "popcli ((pushcli (cpus s c))\<lparr>esp0 := p_kstack (procs s ! q) + KSTACKSIZE,
      cr3 := v2p (p_pgdir (procs s ! p))\<rparr>) = Inr k" "s' = s\<lparr>cpus := (cpus s)(c := k)\<rparr>"
    using assms(2,3) by (auto simp: switchuvm_def Let_def bindE_eq_Inr_iff split: if_splits)
  have "ncli k = 0" "cproc k = cproc (cpus s c)"
    using k(1) assms(1) by (auto simp: popcli_def pushcli_def cli_def sti_def quiet_def Let_def split: if_splits)
  then show "quiet s'" "cur s' = cur s" "procs s' = procs s" "queue s' = queue s" "itr_q s' = itr_q s"
    using k(2) assms(1) by (auto simp: quiet_def cur_def)
qed

lemma kinv_growproc:
  assumes "kinv b s" and "cur s c = Some me" and "growproc sy c n s = Inr (r, s')"
  shows "kinv b s'"
proof -
  have fin: "kinv b t" if "switchuvm c me (upd_proc me (\<lambda>p. p\<lparr>p_sz := sz\<rparr>) (s\<lparr>km := k\<rparr>)) = Inr t" for sz k t
  proof -
    let ?u = "upd_proc me (\<lambda>p. p\<lparr>p_sz := sz\<rparr>) (s\<lparr>km := k\<rparr>)"
    have me: "me < NPROC" using kcore_running [of b s c me] assms(1,2) by (simp add: kinv_def)
    have u: "kcore b ?u" "quiet ?u"
      using assms(1) me kcore_proc_ok [of b s me] by (auto simp: kinv_def proc_ok_def intro!: kcore_keep)
    have "cproc (cpus ?u c) = Some me" using assms(2) by (simp add: cur_def)
    note sw = switchuvm_quiet [OF u(2) this that]
    have "kcore b t" using u(1) kcore_cong [OF sw(3-5,2)] by simp
    then show ?thesis using sw(1) by (simp add: kinv_def)
  qed
  show ?thesis
    using assms fin fin [of _ "km s", simplified]
    by (auto simp: growproc_def cur_def Let_def bindE_eq_Inr_iff split: if_splits)
qed

lemma kinv_getData:
  assumes "kinv b s" and "i < NPROC"
  shows "kinv b (getData t1 t2 i s)"
proof -
  have "kcore b (upd_proc i (\<lambda>p. p\<lparr>p_firstsch := 0, p_arrtime := tick t1, p_ctxswt := 0\<rparr>)
      (s\<lparr>statistics := st, itr_s := n\<rparr>))" for st n
    using assms kcore_proc_ok [of b s i] by (intro kcore_keep) (auto simp: kinv_def proc_ok_def)
  then show ?thesis using assms by (simp add: getData_def Let_def kinv_def)
qed

lemma kinv_print:
  assumes "kinv b s" and "cur s c = Some me" and "print c t1 t2 fl s = Inr (rows, m, s')"
  shows "kinv b s'"
proof -
  have "me < NPROC" using kcore_running [of b s c me] assms(1,2) by (simp add: kinv_def)
  then show ?thesis
    using assms kinv_getData [OF assms(1), of me t1 t2]
    by (auto simp: print_def cur_def split: if_splits)
qed

section \<open>The kernel as a transition system\<close>

text \<open>A step is one call on one processor: \<open>ks_sched\<close> by an idle processor, the others by the
  process it runs, except \<open>ks_wakeup\<close>, which interrupt handlers use as well.  \<open>ks_env\<close> is
  everything the rest of the kernel and user code do to memory, files and inodes.\<close>

inductive kstep :: "ksyms \<Rightarrow> kern \<Rightarrow> kern \<Rightarrow> bool" for sy :: ksyms where
  ks_sched: "\<lbrakk>cur s c = None; scheduler sy c tsc s = Inr (r, s')\<rbrakk> \<Longrightarrow> kstep sy s s'"
| ks_yield: "\<lbrakk>cur s c = Some me; yield c s = Inr s'\<rbrakk> \<Longrightarrow> kstep sy s s'"
| ks_sleep: "\<lbrakk>cur s c = Some me; sleep_call c ch lk s = Inr (la, s')\<rbrakk> \<Longrightarrow> kstep sy s s'"
| ks_wakeup: "wakeup c tscs ch s = Inr s' \<Longrightarrow> kstep sy s s'"
| ks_fork: "fork sy c tsc d cc pr th s = Inr (pid, s') \<Longrightarrow> kstep sy s s'"
| ks_exit: "exit_proc c tscs tscs' s = Inr s' \<Longrightarrow> kstep sy s s'"
| ks_wait: "\<lbrakk>cur s c = Some me; wait sy c s = Inr (w, s')\<rbrakk> \<Longrightarrow> kstep sy s s'"
| ks_kill: "kill c pid s = Inr (ok, s') \<Longrightarrow> kstep sy s s'"
| ks_freeze: "freeze c f s = Inr s' \<Longrightarrow> kstep sy s s'"
| ks_growproc: "\<lbrakk>cur s c = Some me; growproc sy c n s = Inr (ok, s')\<rbrakk> \<Longrightarrow> kstep sy s s'"
| ks_print: "\<lbrakk>cur s c = Some me; print c t1 t2 fl s = Inr (rows, m, s')\<rbrakk> \<Longrightarrow> kstep sy s s'"
| ks_env: "kstep sy s (s\<lparr>km := k, ftable := ft, icache := ic\<rparr>)"

lemma kinv_sleep_call:
  assumes "kinv b s" and "cur s c = Some me" and "sleep_call c ch lk s = Inr (la, s')"
  shows "kinv b s'"
proof -
  have "\<not> locked lk"
    using assms(3) by (auto simp: sleep_call_def bindE_eq_Inr_iff acquire_Inr_iff)
  then show ?thesis using sleep_call_ok [OF assms(1,2)] assms(3) by (metis Inr_inject prod.inject)
qed

lemma kinv_kstep:
  assumes "kstep sy s s'" and "kinv b s"
  shows "kinv (b \<and> qlen s' \<le> 5) s'"
  using assms
proof cases
  case (ks_freeze c f)
  then show ?thesis using freeze_ok [OF assms(2), of c f] by (metis Inr_inject)
next
  case (ks_env k ft ic)
  then show ?thesis using assms(2) by (intro kinv_and) simp
qed (use assms(2) in \<open>blast intro: kinv_and kinv_scheduler kinv_yield kinv_sleep_call kinv_wakeup
       kinv_fork kinv_exit kinv_wait kinv_kill kinv_growproc kinv_print\<close>)+

text \<open>Runs of the kernel from a start state.  The flag says whether the number of ready processes
  has stayed at five or below in every state so far.\<close>

inductive kreach :: "ksyms \<Rightarrow> kern \<Rightarrow> bool \<Rightarrow> kern \<Rightarrow> bool" for sy s0 where
  kr_start: "kreach sy s0 True s0"
| kr_step: "\<lbrakk>kreach sy s0 b s; kstep sy s s'\<rbrakk> \<Longrightarrow> kreach sy s0 (b \<and> qlen s' \<le> 5) s'"

lemma kinv_kreach: "kreach sy s0 b s \<Longrightarrow> kinv True s0 \<Longrightarrow> kinv b s"
  by (induction rule: kreach.induct) (auto intro: kinv_kstep)

section \<open>Start of the system\<close>

text \<open>Static data is zero when the kernel starts.\<close>

definition zero_proc :: proc where
  "zero_proc = \<lparr>p_O = 0, p_P = 0, p_rt = 0, p_ctxswt = 0, p_arrtime = 0, p_firstsch = 0, p_D = 0, p_C = 0,
     p_sz = 0, p_pgdir = 0, p_kstack = 0, p_state = UNUSED, p_pid = 0, p_parent = None, p_tf = 0,
     p_context = 0, p_kont = AtForkret, p_chan = None, p_killed = False,
     p_ofile = replicate NOFILE None, p_cwd = None, p_name = ''''\<rparr>"

definition zero_inode :: inode where
  "zero_inode = \<lparr>i_dev = 0, i_inum = 0, i_ref = 0, i_busy = False, i_valid = False, i_type = 0,
     i_major = 0, i_minor = 0, i_nlink = 0, i_size = 0, i_addrs = replicate 13 0\<rparr>"

definition zero_file :: ofile where
  "zero_file = \<lparr>f_type = FD_NONE, f_ref = 0, f_readable = False, f_writable = False,
     f_pipe = None, f_ip = None, f_off = 0\<rparr>"

definition zero_statistic :: statistic where
  "zero_statistic = \<lparr>s_O = 0, s_P = 0, s_arrtime = 0, s_firstsch = 0, s_finish = 0, s_D = 0, s_C = 0,
     s_ctxswt = 0, s_pid = 0\<rparr>"

text \<open>The state when \<open>main\<close> calls \<open>userinit\<close>: memory \<open>k\<close> and the kernel page table have been
  set up, the process table is untouched.\<close>

definition boot_kern :: "kmem \<Rightarrow> uint \<Rightarrow> kern" where
  "boot_kern k pgdir = \<lparr>km = k, procs = replicate NPROC zero_proc, queue = replicate NPROC None, itr_q = 0,
     itr_s = 0, frozen = 0, interrupt = 0, miss = 0, nextpid = 1, initproc = None,
     statistics = (\<lambda>_. zero_statistic), plock = initlock ''ptable'', cpus = (\<lambda>_. boot_cpu),
     kpgdir = pgdir, ftable = replicate NFILE zero_file, icache = replicate NINODE zero_inode\<rparr>"

lemma first_unused_boot: "first_idx (\<lambda>p. p_state p = UNUSED) (replicate NPROC zero_proc) = Some 0"
  by (simp add: NPROC_def zero_proc_def numeral_eq_Suc)

lemma allocproc_boot:
  assumes "allocproc sy c (boot_kern k pgdir) = Inr (r, s)"
  shows "r = None \<or> (r = Some 0 \<and> quiet s \<and> cur s = (\<lambda>_. None) \<and> itr_q s = 0 \<and>
    queue s = replicate NPROC None \<and>
    (\<exists>p. procs s = (replicate NPROC zero_proc)[0 := p] \<and> p_state p = EMBRYO \<and> p_kont p = AtForkret))"
proof -
  let ?b = "boot_kern k pgdir"
  have q: "quiet ?b" by (simp add: quiet_def boot_kern_def initlock_def boot_cpu_def)
  let ?e = "(upd_proc 0 (\<lambda>p. p\<lparr>p_state := EMBRYO, p_pid := nextpid ?b\<rparr>) (lock_on c ?b))\<lparr>nextpid := nextpid ?b + 1\<rparr>"
  have e: "held c ?e" using held_lock_on [OF q] by simp
  have c: "cur ?b = (\<lambda>_. None)" by (simp add: cur_def boot_kern_def boot_cpu_def)
  have f: "first_idx (\<lambda>p. p_state p = UNUSED) (procs ?b) = Some 0"
    by (simp add: boot_kern_def first_unused_boot)
  obtain kst k' where ka: "kalloc (km ?b) = (kst, k')" by (cases "kalloc (km ?b)")
  show ?thesis
  proof (cases "kst = 0")
    case True
    then show ?thesis
      using assms q e f ka by (auto simp: allocproc_def acquire_ptable_quiet release_ptable_held Let_def)
  next
    case False
    let ?tf = "kst + KSTACKSIZE - TF_SIZE"
    let ?f = "\<lambda>p. p\<lparr>p_tf := ?tf, p_context := ?tf - 4 - CONTEXT_SIZE, p_kont := AtForkret,
                     p_D := 0, p_C := 0, p_ctxswt := 0, p_arrtime := 0, p_firstsch := 0,
                     p_P := 0, p_O := 0\<rparr>"
    have "r = Some 0" and s: "s = upd_proc 0 ?f ((upd_proc 0 (\<lambda>p. p\<lparr>p_kstack := kst\<rparr>)
        ((lock_off c ?e)\<lparr>km := k'\<rparr>))\<lparr>km := k'\<lparr>kbytes := init_kstack sy (kbytes k') kst\<rparr>, interrupt := 0\<rparr>)"
      using assms q e f ka False by (auto simp: allocproc_def acquire_ptable_quiet release_ptable_held Let_def)
    moreover have "quiet s" "cur s = (\<lambda>_. None)"
      using quiet_lock_off [OF e] c by (simp_all add: s)
    moreover have "itr_q s = 0" "queue s = replicate NPROC None"
      by (simp_all add: s) (simp_all add: boot_kern_def)
    moreover have "\<exists>p. procs s = (replicate NPROC zero_proc)[0 := p] \<and> p_state p = EMBRYO \<and> p_kont p = AtForkret"
      by (rule exI [of _ "?f (zero_proc\<lparr>p_state := EMBRYO, p_pid := 1, p_kstack := kst\<rparr>)"])
         (simp add: s boot_kern_def NPROC_def)
    ultimately show ?thesis by blast
  qed
qed

lemma kcore_single:
  assumes "procs s = (replicate NPROC zero_proc)[0 := p]" and "p_state p = RUNNABLE" and "proc_ok p"
    and "itr_q s = 0" and "queue s = (replicate NPROC None)[0 := Some 0]" and "cur s = (\<lambda>_. None)"
  shows "kcore True s"
proof -
  have z: "p_state zero_proc = UNUSED" "proc_ok zero_proc" by (simp_all add: zero_proc_def proc_ok_def)
  have n: "0 < NPROC" by (simp add: NPROC_def)
  have st: "p_state (procs s ! i) = (if i = 0 then RUNNABLE else UNUSED)" if "i < NPROC" for i
    using assms(1,2) z that n by (simp add: nth_list_update)
  have r: "ready (procs s) = {0}"
    using st n assms(1,2) by (auto simp: ready_def split: if_splits)
  have q: "qlen s = 1" using assms(4) by (simp add: qlen_def)
  have tk: "take 1 (queue s) = [Some 0]" using take_Suc_conv_app_nth [of 0 "queue s"] assms(5) n by simp
  have "rq_inv (queue s) 1 {0}" using n assms(5) tk by (simp add: rq_inv_def)
  moreover have "cpus_ok (procs s) (cur s)" using st assms(1,6) by (simp add: cpus_ok_def)
  moreover have "\<forall>i < NPROC. proc_ok (procs s ! i)" using assms(1,3) z n by (simp add: nth_list_update)
  moreover have "head_ok (queue s)" using assms(5) n by (simp add: head_ok_def)
  moreover have "small_order (pt_above (procs s)) (queue s) 1"
    by (simp add: small_order_def root_max_def)
  ultimately show ?thesis unfolding kcore_def pinv_def r q using assms(1) by simp
qed

lemma kinv_userinit:
  assumes "userinit sy c (boot_kern k pgdir) = Inr s"
  shows "kinv True s"
proof -
  obtain r t where t: "allocproc sy c (boot_kern k pgdir) = Inr (r, t)"
    using assms by (auto simp: userinit_def)
  have "r \<noteq> None" using assms t by (cases r) (auto simp: userinit_def Let_def)
  with allocproc_boot [OF t] obtain p where p: "r = Some 0" "quiet t" "cur t = (\<lambda>_. None)"
    "queue t = replicate NPROC None" "procs t = (replicate NPROC zero_proc)[0 := p]"
    "p_state p = EMBRYO" "p_kont p = AtForkret" by blast
  have p0: "procs t ! 0 = p" using p(5) by (simp add: NPROC_def)
  obtain pg k1 k2 ip ic w where pg: "pg \<noteq> 0"
    and acq: "acquire_ptable c (upd_proc 0 (\<lambda>q. q\<lparr>p_cwd := Some ip, p_state := RUNNABLE\<rparr>)
         ((upd_proc 0 (\<lambda>q. q\<lparr>p_sz := PGSIZE, p_name := copy_name ''initcode''\<rparr>)
           ((upd_proc 0 (\<lambda>q. q\<lparr>p_pgdir := pg\<rparr>) (t\<lparr>initproc := Some 0, km := k1\<rparr>))\<lparr>km := k2\<rparr>))\<lparr>icache := ic, miss := 0\<rparr>)) = Inr w"
    and rel: "release_ptable c ((upd_proc 0 (\<lambda>q. q\<lparr>p_D := 100, p_C := 100, p_P := 1, p_O := 1\<rparr>)
              (w\<lparr>itr_q := 0, itr_s := 0, frozen := 0\<rparr>))\<lparr>queue := (queue w)[0 := Some 0]\<rparr>) = Inr s"
    using assms t p(1) by (auto simp: userinit_def Let_def bindE_eq_Inr_iff split: if_splits)
  let ?y = "upd_proc 0 (\<lambda>q. q\<lparr>p_cwd := Some ip, p_state := RUNNABLE\<rparr>)
         ((upd_proc 0 (\<lambda>q. q\<lparr>p_sz := PGSIZE, p_name := copy_name ''initcode''\<rparr>)
           ((upd_proc 0 (\<lambda>q. q\<lparr>p_pgdir := pg\<rparr>) (t\<lparr>initproc := Some 0, km := k1\<rparr>))\<lparr>km := k2\<rparr>))\<lparr>icache := ic, miss := 0\<rparr>)"
  let ?z = "(upd_proc 0 (\<lambda>q. q\<lparr>p_D := 100, p_C := 100, p_P := 1, p_O := 1\<rparr>)
              ((lock_on c ?y)\<lparr>itr_q := 0, itr_s := 0, frozen := 0\<rparr>))\<lparr>queue := (queue t)[0 := Some 0]\<rparr>"
  have qy: "quiet ?y" using p(2) by simp
  have hz: "held c ?z" using held_lock_on [OF qy, of c] by (simp add: held_def)
  have cy: "cur ?z = (\<lambda>_. None)" using p(3) by (simp add: cur_def lock_on_def fun_eq_iff)
  have "kcore True ?z"
    by (rule kcore_single [where p = "p\<lparr>p_pgdir := pg, p_sz := PGSIZE, p_name := copy_name ''initcode'',
          p_cwd := Some ip, p_state := RUNNABLE, p_D := 100, p_C := 100, p_P := 1, p_O := 1\<rparr>"])
       (use p p0 pg cy in \<open>simp_all add: proc_ok_def NPROC_def\<close>)
  moreover have "w = lock_on c ?y" using acq acquire_ptable_quiet [OF qy] by simp
  then have "release_ptable c ?z = Inr s" using rel by simp
  then have "s = lock_off c ?z" using release_ptable_held [OF hz] by simp
  ultimately show ?thesis using hz by (simp add: kinv_lock_off)
qed

end
