(* ===== verification/SchedProps.thy ===== *)
theory SchedProps
  imports Kstep
begin

text \<open>
  The properties of the scheduler of \<open>src/proc.c\<close> and of its ready queue \<open>src/heap.c\<close>, stated
  over the operations of \<open>Proc\<close> and the runs of \<open>Kstep\<close>, with the concrete states that show
  their hypotheses can hold.
\<close>

section \<open>Concrete states\<close>

definition demo_mem :: kmem where
  "demo_mem = \<lparr>use_lock = False, freelist = 0, kbytes = (\<lambda>_. 0)\<rparr>"

definition demo_proc :: "procstate \<Rightarrow> uint \<Rightarrow> uint \<Rightarrow> proc" where
  "demo_proc st pr th = zero_proc\<lparr>p_state := st, p_P := pr, p_O := th, p_pgdir := 4096, p_pid := 1\<rparr>"

text \<open>One ready process, all processors idle.\<close>

definition demo_ready :: kern where
  "demo_ready = (boot_kern demo_mem 4096)\<lparr>procs := (replicate NPROC zero_proc)[0 := demo_proc RUNNABLE 1 1],
     queue := (replicate NPROC None)[0 := Some 0], itr_q := 0, initproc := Some 0\<rparr>"

lemma boot_quiet [simp]: "quiet (boot_kern k pg)" "cur (boot_kern k pg) = (\<lambda>_. None)"
  by (simp_all add: quiet_def cur_def boot_kern_def initlock_def boot_cpu_def)

lemma kinv_demo_ready: "kinv True demo_ready"
proof -
  have "cur demo_ready = (\<lambda>_. None)" "quiet demo_ready"
    by (simp_all add: demo_ready_def cur_def quiet_def boot_kern_def initlock_def boot_cpu_def)
  moreover have "kcore True demo_ready"
    by (rule kcore_single [where p = "demo_proc RUNNABLE 1 1"])
       (simp_all add: demo_ready_def demo_proc_def proc_ok_def zero_proc_def cur_def boot_kern_def boot_cpu_def)
  ultimately show ?thesis by (simp add: kinv_def)
qed

text \<open>Process 0 runs on processor 0; process 1 is in state \<open>st\<close>, with priority \<open>pr\<close>.\<close>

definition demo_pair :: "procstate \<Rightarrow> uint \<Rightarrow> chan option \<Rightarrow> kern" where
  "demo_pair st pr ch = (boot_kern demo_mem 4096)\<lparr>
     procs := (replicate NPROC zero_proc)[0 := demo_proc RUNNING 1 1,
                1 := (demo_proc st pr pr)\<lparr>p_chan := ch, p_parent := Some 0, p_pid := 2\<rparr>],
     queue := (replicate NPROC None)[0 := Some 1],
     itr_q := (if st = RUNNABLE then 0 else - 1), initproc := Some 0, nextpid := 3,
     cpus := (\<lambda>_. boot_cpu)(0 := boot_cpu\<lparr>cproc := Some 0\<rparr>)\<rparr>"

lemma kinv_demo_pair:
  assumes "st \<in> {RUNNABLE, SLEEPING, WAITING, ZOMBIE}"
  shows "kinv True (demo_pair st pr ch)"
proof -
  let ?s = "demo_pair st pr ch"
  let ?b = "(demo_proc st pr pr)\<lparr>p_chan := ch, p_parent := Some 0, p_pid := 2\<rparr>"
  have n: "0 < NPROC" "1 < NPROC" by (simp_all add: NPROC_def)
  have ps: "procs ?s ! i = (if i = 0 then demo_proc RUNNING 1 1 else if i = 1 then ?b else zero_proc)"
    if "i < NPROC" for i
    using that n by (simp add: demo_pair_def nth_list_update)
  have len: "length (procs ?s) = NPROC" by (simp add: demo_pair_def)
  have st: "p_state (procs ?s ! i) = (if i = 0 then RUNNING else if i = 1 then st else UNUSED)"
    if "i < NPROC" for i
    using that by (simp add: ps demo_proc_def zero_proc_def)
  have cu: "cur ?s = (\<lambda>_. None)(0 := Some 0)"
    by (auto simp: demo_pair_def cur_def boot_cpu_def)
  have ql: "qlen ?s = (if st = RUNNABLE then 1 else 0)" by (simp add: demo_pair_def qlen_def)
  have r: "ready (procs ?s) = (if st = RUNNABLE then {1} else {})"
    using st n len by (auto simp: ready_def split: if_splits)
  have tk: "take (Suc 0) (queue ?s) = [Some 1]"
    using take_Suc_conv_app_nth [of 0 "queue ?s"] n by (simp add: demo_pair_def)
  have "rq_inv (queue ?s) (qlen ?s) (ready (procs ?s))"
    using n tk unfolding rq_inv_def r ql by (simp add: demo_pair_def)
  moreover have "cpus_ok (procs ?s) (cur ?s)"
    using st assms n unfolding cpus_ok_def cu len by auto
  moreover have "\<forall>i < NPROC. proc_ok (procs ?s ! i)"
    by (simp add: ps proc_ok_def demo_proc_def zero_proc_def)
  moreover have "head_ok (queue ?s)" using n by (simp add: head_ok_def demo_pair_def)
  moreover have "small_order (pt_above (procs ?s)) (queue ?s) (qlen ?s)"
    unfolding ql by (simp add: small_order_def root_max_def)
  moreover have "quiet ?s" by (simp add: quiet_def demo_pair_def boot_kern_def initlock_def boot_cpu_def)
  ultimately show ?thesis using len by (simp add: kinv_def kcore_def pinv_def)
qed

lemma demo_pair_simps [simp]:
  "cur (demo_pair st pr ch) 0 = Some 0" "queue (demo_pair st pr ch) ! 0 = Some 1"
  "procs (demo_pair st pr ch) ! 0 = demo_proc RUNNING 1 1"
  "procs (demo_pair st pr ch) ! Suc 0 = (demo_proc st pr pr)\<lparr>p_chan := ch, p_parent := Some 0, p_pid := 2\<rparr>"
  "frozen (demo_pair st pr ch) = 0" "km (demo_pair st pr ch) = demo_mem"
  by (simp_all add: demo_pair_def cur_def NPROC_def boot_kern_def)

definition demo_syms :: ksyms where
  "demo_syms = \<lparr>sym_end = 0x80110000, sym_data = 0x8010a000, sym_forkret = 0x80104000, sym_trapret = 0x80105000,
     sym_initcode = 0x8010b000, sym_initcode_size = 44\<rparr>"

section \<open>The ready queue, the process states and the processors agree\<close>

text \<open>C1: In every state the kernel reaches, whatever operations the processors run in whatever
  order, the first \<open>itr_q + 1\<close> cells of \<open>ptable.queue\<close> hold exactly the RUNNABLE processes, each
  once (so the queue never overflows), a process is RUNNING exactly when some processor has it as
  its \<open>proc\<close>, no two processors run the same process, and outside the operations
  \<open>ptable.lock\<close> is free.\<close>

theorem sched_invariant:
  assumes "kinv True s0" and "kreach sy s0 b s"
  shows "distinct (take (qlen s) (queue s)) \<and> qlen s \<le> NPROC \<and>
    set (take (qlen s) (queue s)) = Some ` {i. i < NPROC \<and> p_state (procs s ! i) = RUNNABLE} \<and>
    (\<forall>i < NPROC. p_state (procs s ! i) = RUNNING \<longleftrightarrow> (\<exists>c. cproc (cpus s c) = Some i)) \<and>
    (\<forall>c d i. cproc (cpus s c) = Some i \<longrightarrow> cproc (cpus s d) = Some i \<longrightarrow> c = d) \<and>
    \<not> locked (plock s)"
  using kinv_kreach [OF assms(2,1)]
  by (auto simp: kinv_def kcore_def pinv_def rq_inv_def ready_def cpus_ok_def cur_def quiet_def)

theorem sched_invariant_witness:
  "\<exists>s. kreach demo_syms (demo_pair SLEEPING 7 (Some (ChAddr 8))) True s \<and>
     set (take (qlen s) (queue s)) = Some ` {i. i < NPROC \<and> p_state (procs s ! i) = RUNNABLE}"
proof -
  let ?s = "demo_pair SLEEPING 7 (Some (ChAddr 8))"
  have k: "kinv True ?s" by (rule kinv_demo_pair) simp
  obtain t where "sleep_call 0 (Some (ChAddr 16)) (initlock ''l'') ?s = Inr (OtherLock (initlock ''l''), t)"
    "qlen t = qlen ?s"
    using sleep_call_ok [OF k, of 0 0 "initlock ''l''" "Some (ChAddr 16)"] by (auto simp: initlock_def)
  then have "kstep demo_syms ?s t" by (auto intro: ks_sleep [where c = 0 and me = 0])
  then have "kreach demo_syms ?s (True \<and> qlen t \<le> 5) t" by (rule kr_step [OF kr_start])
  moreover have "qlen t \<le> 5" using \<open>qlen t = qlen ?s\<close> by (simp add: demo_pair_def qlen_def)
  ultimately have "kreach demo_syms ?s True t" by simp
  then show ?thesis using sched_invariant [OF k] by blast
qed

text \<open>C2: The scheduler never picks a process that is not one of the highest ready priority, as long
  as there have never been more than five ready processes: an idle processor takes the head of
  the queue, whose priority no ready process exceeds, makes it RUNNING on this processor with
  its address space loaded, counts the switch, and continues it; a process that gave up the
  processor in \<open>yield\<close> or \<open>sleep\<close>, or a new one, then returns with the lock released.\<close>

theorem scheduler_highest_priority:
  assumes "kinv True s0" and "kreach sy s0 True s" and "cproc (cpus s c) = None" and "frozen s = 0"
    and "i < NPROC" and "p_state (procs s ! i) = RUNNABLE"
  shows "\<exists>p t. queue s ! 0 = Some p \<and> p_state (procs s ! p) = RUNNABLE \<and>
    (\<forall>j < NPROC. p_state (procs s ! j) = RUNNABLE \<longrightarrow> p_P (procs s ! j) \<le> p_P (procs s ! p)) \<and>
    scheduler sy c tsc s = resume sy c p t \<and> cproc (cpus t c) = Some p \<and>
    p_state (procs t ! p) = RUNNING \<and> p_ctxswt (procs t ! p) = p_ctxswt (procs s ! p) + 1 \<and>
    cr3 (cpus t c) = v2p (p_pgdir (procs s ! p)) \<and>
    (case p_kont (procs s ! p) of
       AtWait _ \<Rightarrow> True | _ \<Rightarrow> \<exists>s'. resume sy c p t = Inr (None, s') \<and> cproc (cpus s' c) = Some p \<and> kinv True s')"
proof -
  have k: "kinv True s" using kinv_kreach [OF assms(2,1)] .
  then have rq: "rq_inv (queue s) (qlen s) (ready (procs s))" "length (procs s) = NPROC"
    and so: "small_order (pt_above (procs s)) (queue s) (qlen s)"
    by (simp_all add: kinv_def kcore_def pinv_def)
  have "i \<in> ready (procs s)" using assms(5,6) rq(2) by (simp add: ready_def)
  then obtain n where "n < qlen s" using rq_mem [OF rq(1)] by blast
  then have pos: "0 < qlen s" by simp
  obtain p where p: "queue s ! 0 = Some p" using rq_nth [OF rq(1) pos] by blast
  have best: "p_P (procs s ! j) \<le> p_P (procs s ! p)" if j: "j < NPROC" "p_state (procs s ! j) = RUNNABLE" for j
  proof -
    obtain m where "m < qlen s" "queue s ! m = Some j"
      using rq_mem [OF rq(1), of j] j rq(2) by (auto simp: ready_def)
    then show ?thesis using so p by (auto simp: small_order_def root_max_def pt_above_def prio_def not_less)
  qed
  obtain t where t: "scheduler sy c tsc s = resume sy c p t" "kcore True t" "held c t"
    "cur t = (cur s)(c := Some p)" "p_state (procs s ! p) = RUNNABLE" "p_state (procs t ! p) = RUNNING"
    "p_kont (procs t ! p) = p_kont (procs s ! p)" "p_ctxswt (procs t ! p) = p_ctxswt (procs s ! p) + 1"
    "cr3 (cpus t c) = v2p (p_pgdir (procs s ! p))"
    using scheduler_picks [OF k _ assms(4) pos p, of c sy tsc] assms(3) unfolding cur_def by metis
  have cp: "cproc (cpus t c) = Some p" using t(4) by (simp add: cur_def fun_eq_iff)
  have ex: "p_kont (procs s ! p) \<noteq> AtExit" using kcore_running(4) [OF t(2), of c p] t(4,7) by simp
  have ret: "\<exists>s'. resume sy c p t = Inr (None, s') \<and> cproc (cpus s' c) = Some p \<and> kinv True s'"
    if "\<And>v. p_kont (procs s ! p) \<noteq> AtWait v"
  proof -
    have ct: "cur t c = Some p" and nv: "\<And>v. p_kont (procs t ! p) \<noteq> AtWait v"
      using t(4,7) that by simp_all
    obtain s' where "resume sy c p t = Inr (None, s')" "cur s' = cur t" "kinv True s'"
      using resume_returns [OF t(2,3) ct nv, of sy] by blast
    then show ?thesis using t(4) by (auto simp: cur_def dest: fun_cong [of _ _ c])
  qed
  have "case p_kont (procs s ! p) of AtWait _ \<Rightarrow> True
      | _ \<Rightarrow> \<exists>s'. resume sy c p t = Inr (None, s') \<and> cproc (cpus s' c) = Some p \<and> kinv True s'"
    using ret ex by (cases "p_kont (procs s ! p)") simp_all
  then show ?thesis using p t best cp by blast
qed

theorem scheduler_highest_priority_witness:
  "\<exists>p t. queue demo_ready ! 0 = Some p \<and> p_state (procs demo_ready ! p) = RUNNABLE \<and>
     scheduler demo_syms 0 0 demo_ready = resume demo_syms 0 p t \<and> cproc (cpus t 0) = Some p"
proof -
  have "cproc (cpus demo_ready 0) = None" "frozen demo_ready = 0" "(0::nat) < NPROC"
    "p_state (procs demo_ready ! 0) = RUNNABLE"
    by (simp_all add: demo_ready_def boot_kern_def boot_cpu_def NPROC_def demo_proc_def)
  from scheduler_highest_priority [OF kinv_demo_ready kr_start this, of demo_syms 0]
  show ?thesis by blast
qed

text \<open>Eight ready processes and the order in which they enter (\<open>Some\<close>) and leave (\<open>None\<close>).\<close>

definition six_prios :: "uint list" where
  "six_prios = [1, 1, 2, 2, 2, 2, 1, 1]"

definition six_start :: kern where
  "six_start = (boot_kern demo_mem 4096)\<lparr>procs := map (\<lambda>pr. demo_proc RUNNABLE pr pr) six_prios, itr_q := - 1\<rparr>"

fun run_queue :: "nat option list \<Rightarrow> kern \<Rightarrow> kern res" where
  "run_queue [] s = Inr s"
| "run_queue (None # ops) s = bindE (dequeue s) (run_queue ops)"
| "run_queue (Some p # ops) s = bindE (enqueue p s) (run_queue ops)"

definition six_ops :: "nat option list" where
  "six_ops = [Some 0, Some 1, Some 2, Some 3, Some 4, None, Some 5, Some 6, None, Some 7, None]"

text \<open>With a sixth process in the queue the guarantee is lost.  In the following sequence of insertions
  and removals, as \<open>enqueue\<close> and the scheduler's \<open>dequeue\<close> perform them on a queue of their own (the table
  around it is not one that a run of the kernel has produced), the process at the head
  of the queue has priority 1 while a queued process has priority 2: \<open>increasekey\<close> climbs by
  \<open>PARENT(x) = x/2\<close>, which is not the inverse of \<open>LEFT\<close> and \<open>RIGHT\<close> that \<open>heapify\<close> descends by.\<close>

lemma six_ready_not_highest:
  "case run_queue six_ops six_start of
     Inl e \<Rightarrow> False
   | Inr s \<Rightarrow> qlen s = 5 \<and> prio (procs s) (queue s ! 0) = 1 \<and>
             (\<exists>q \<in> set (take (qlen s) (queue s)). prio (procs s) q = 2)"
  by code_simp

section \<open>Preemption thresholds\<close>

text \<open>C22: Preemption by threshold: \<open>yield\<close> always returns, and the running process loses the
  processor if and only if the priority of the process at the head of the queue exceeds its own
  threshold; then it is RUNNABLE and in the queue and the processor is idle, otherwise it keeps
  running, no process has changed and \<open>interrupt\<close> is cleared.\<close>

theorem yield_threshold:
  assumes "kinv b s" and "cproc (cpus s c) = Some me"
  shows "\<exists>q s'. queue s ! 0 = Some q \<and> yield c s = Inr s' \<and> kinv (b \<and> qlen s' \<le> 5) s' \<and>
    (if p_P (procs s ! q) > p_O (procs s ! me)
     then p_state (procs s' ! me) = RUNNABLE \<and> cproc (cpus s' c) = None \<and> qlen s' = Suc (qlen s)
     else procs s' = procs s \<and> cproc (cpus s' c) = Some me \<and> queue s' = queue s \<and> interrupt s' = 0)"
proof -
  have cu: "cur s c = Some me" using assms(2) by (simp add: cur_def)
  obtain q where q: "queue s ! 0 = Some q" using assms(1) head_queue by (auto simp: kinv_def)
  show ?thesis
  proof (cases "p_P (procs s ! q) > p_O (procs s ! me)")
    case True
    then obtain s' where "yield c s = Inr s'" "kinv (b \<and> qlen s' \<le> 5) s'" "cur s' = (cur s)(c := None)"
      "p_state (procs s' ! me) = RUNNABLE" "qlen s' = Suc (qlen s)"
      using yield_preempted [OF assms(1) cu q] by metis
    then show ?thesis using q True by (auto simp: cur_def dest: fun_cong [of _ _ c])
  next
    case False
    let ?t = "lock_off c ((lock_on c s)\<lparr>interrupt := 0\<rparr>)"
    have "yield c s = Inr ?t" "kinv b ?t"
      using yield_continues [OF assms(1) cu q] False by simp_all
    moreover have "cur ?t = cur s" by simp
    then have "cproc (cpus ?t c) = Some me" using assms(2) by (simp add: cur_def fun_eq_iff)
    moreover have "kinv (b \<and> qlen ?t \<le> 5) ?t" using \<open>kinv b ?t\<close> by (rule kinv_and)
    ultimately show ?thesis
      using q False by (intro exI [of _ q] exI [of _ ?t]) simp
  qed
qed

theorem yield_threshold_witness:
  "\<exists>s'. yield 0 (demo_pair RUNNABLE 7 None) = Inr s' \<and> p_state (procs s' ! 0) = RUNNABLE \<and>
     cproc (cpus s' 0) = None"
proof -
  have "kinv True (demo_pair RUNNABLE 7 None)" by (rule kinv_demo_pair) simp
  moreover have "cproc (cpus (demo_pair RUNNABLE 7 None) 0) = Some 0" by (simp add: demo_pair_def)
  ultimately show ?thesis
    using yield_threshold [of True "demo_pair RUNNABLE 7 None" 0 0]
    by (auto simp: demo_proc_def)
qed

section \<open>Sleep and wakeup\<close>

text \<open>One call of \<open>sleep\<close> followed by one of \<open>wakeup\<close>: the process has released the lock it held and given
  up the processor, and a later \<open>wakeup\<close> on its channel that completes makes it RUNNABLE and puts it in the queue.
  The theory \<open>Wakeup\<close> treats the two calls interleaved.\<close>

lemma sleep_then_wakeup:
  assumes "kinv b s" and "cproc (cpus s c) = Some me" and "\<not> locked lk"
  shows "\<exists>t. sleep_call c ch lk s = Inr (OtherLock (lk\<lparr>lcpu := None, locked := False\<rparr>), t) \<and>
    p_state (procs t ! me) = SLEEPING \<and> cproc (cpus t c) = None \<and> kinv b t \<and>
    (\<forall>d tsc u. wakeup d tsc ch t = Inr u \<longrightarrow>
       p_state (procs u ! me) = RUNNABLE \<and> Some me \<in> set (take (qlen u) (queue u)) \<and> interrupt u = 1)"
proof -
  have cu: "cur s c = Some me" using assms(2) by (simp add: cur_def)
  obtain t where t: "sleep_call c ch lk s = Inr (OtherLock (lk\<lparr>lcpu := None, locked := False\<rparr>), t)"
    "kinv b t" "cur t = (cur s)(c := None)" "p_state (procs t ! me) = SLEEPING" "p_chan (procs t ! me) = ch"
    using sleep_call_ok [OF assms(1) cu assms(3), of ch] by metis
  have me: "me < NPROC" using kcore_running(1) [of b s c me] assms(1) cu by (simp add: kinv_def)
  have "p_state (procs u ! me) = RUNNABLE \<and> Some me \<in> set (take (qlen u) (queue u)) \<and> interrupt u = 1"
    if w: "wakeup d tsc ch t = Inr u" for d tsc u
  proof -
    obtain v where v: "wakeup1 tsc ch (lock_on d t) = Inr v" "u = lock_off d v" "kcore (b \<and> qlen v \<le> 5) v"
      using wakeup_eq [OF t(2) w] by metis
    have k: "kcore b (lock_on d t)" using t(2) by (simp add: kinv_def)
    have wk: "woken (lock_on d t) ch me"
      using wakeup1_wakes [OF v(1) me] t(4,5) by simp
    then have st: "p_state (procs v ! me) = RUNNABLE"
      using wakeup1_ok(4) [OF k v(1) me] by simp
    moreover have "Some me \<in> set (take (qlen v) (queue v))"
      using v(3) st me by (auto simp: kcore_def pinv_def rq_inv_def ready_def)
    moreover have "interrupt v = 1" using wakeup1_interrupt [OF v(1) me wk] .
    ultimately show ?thesis using v(2) by simp
  qed
  then show ?thesis using t by (auto simp: cur_def dest: fun_cong [of _ _ c])
qed

text \<open>C25: What \<open>wakeup1\<close> does, exactly: it changes a process if and only if the process is
  SLEEPING and the words its channel and the given channel point to are equal, and such a process
  becomes RUNNABLE with its arrival time set and its channel cleared.\<close>

theorem wakeup1_exact:
  assumes "kinv b s" and "wakeup c tsc ch s = Inr s'" and "i < NPROC"
  shows "procs s' ! i =
    (if p_state (procs s ! i) = SLEEPING \<and> chan_word s (p_chan (procs s ! i)) = chan_word s ch
     then (procs s ! i)\<lparr>p_state := RUNNABLE, p_chan := None, p_arrtime := tick (tsc i),
                         p_firstsch := 0, p_ctxswt := 0\<rparr>
     else procs s ! i)"
proof -
  obtain v where v: "wakeup1 tsc ch (lock_on c s) = Inr v" "s' = lock_off c v"
    using wakeup_eq [OF assms(1,2)] by metis
  have k: "kcore b (lock_on c s)" using assms(1) by (simp add: kinv_def)
  have cw: "chan_word (lock_on c s) x = chan_word s x" for x by (rule chan_word_cong) simp_all
  have "woken (lock_on c s) ch i \<longleftrightarrow>
      p_state (procs s ! i) = SLEEPING \<and> chan_word s (p_chan (procs s ! i)) = chan_word s ch"
    using wakeup_scan_words [of tsc ch "[0..<NPROC]" "lock_on c s" v i] v(1) assms(3)
    by (auto simp: woken_def cw wakeup1_def)
  then show ?thesis
    using wakeup1_ok(4) [OF k v(1) assms(3)] v(2) by (simp add: wake_proc_def)
qed

lemma demo_pair_wakeup:
  "\<exists>s'. wakeup 0 (\<lambda>_. 0) (Some (ChAddr 16)) (demo_pair SLEEPING 7 (Some (ChAddr 8))) = Inr s'"
proof -
  have "case wakeup 0 (\<lambda>_. 0) (Some (ChAddr 16)) (demo_pair SLEEPING 7 (Some (ChAddr 8))) of Inl _ \<Rightarrow> False | Inr _ \<Rightarrow> True"
    by code_simp
  then show ?thesis by (auto split: sum.splits)
qed

theorem wakeup1_exact_witness:
  "\<exists>s'. wakeup 0 (\<lambda>_. 0) (Some (ChAddr 16)) (demo_pair SLEEPING 7 (Some (ChAddr 8))) = Inr s' \<and>
     p_state (procs s' ! 1) = RUNNABLE"
proof -
  let ?s = "demo_pair SLEEPING 7 (Some (ChAddr 8))"
  have k: "kinv True ?s" by (rule kinv_demo_pair) simp
  obtain s' where s': "wakeup 0 (\<lambda>_. 0) (Some (ChAddr 16)) ?s = Inr s'" using demo_pair_wakeup by blast
  have "chan_word ?s (Some (ChAddr 8)) = chan_word ?s (Some (ChAddr 16))"
    by (simp add: chan_word_def demo_mem_def read32_def)
  then show ?thesis
    using wakeup1_exact [OF k s', of 1] s' by (simp add: NPROC_def demo_proc_def)
qed

text \<open>The test compares what the channels point to, not the channels: a process sleeping on
  address 8 is woken by a wakeup on address 16 when both words are zero.\<close>

theorem wakeup_other_channel:
  "let s = demo_pair SLEEPING 7 (Some (ChAddr 8)) in
   p_state (procs s ! 1) = SLEEPING \<and> p_chan (procs s ! 1) = Some (ChAddr 8) \<and>
   (case wakeup 0 (\<lambda>_. 0) (Some (ChAddr 16)) s of Inl _ \<Rightarrow> False | Inr s' \<Rightarrow> p_state (procs s' ! 1) = RUNNABLE)"
  by code_simp

section \<open>Batch creation of processes\<close>

text \<open>C28: Batch creation: after \<open>freeze(1)\<close> a fork that succeeds leaves its child WAITING and outside
  the queue, and \<open>freeze(0)\<close> always completes, makes every WAITING process RUNNABLE, changes no
  other process, and keeps the invariant.\<close>

theorem batch_creation:
  assumes "kinv b s"
  shows "(\<exists>t. freeze c True s = Inr t \<and> procs t = procs s \<and>
     (case fork sy c tsc d cc pr th t of
        Inl _ \<Rightarrow> True
      | Inr (pid, u) \<Rightarrow> qlen u = qlen s \<and> kinv (b \<and> qlen u \<le> 5) u \<and>
          (pid = - 1 \<or> (\<exists>np < NPROC. p_state (procs s ! np) = UNUSED \<and> p_state (procs u ! np) = WAITING \<and>
                          p_pid (procs u ! np) = pid)))) \<and>
    (\<exists>v. freeze c False s = Inr v \<and> kinv (b \<and> qlen v \<le> 5) v \<and>
       (\<forall>i < NPROC. procs v ! i = (if p_state (procs s ! i) = WAITING
          then (procs s ! i)\<lparr>p_state := RUNNABLE\<rparr> else procs s ! i)))"
proof (rule conjI)
  let ?t = "s\<lparr>frozen := 1\<rparr>"
  have t: "kinv b ?t" using assms by (simp add: kinv_def)
  have "case fork sy c tsc d cc pr th ?t of
        Inl _ \<Rightarrow> True
      | Inr (pid, u) \<Rightarrow> qlen u = qlen s \<and> kinv (b \<and> qlen u \<le> 5) u \<and>
          (pid = - 1 \<or> (\<exists>np < NPROC. p_state (procs s ! np) = UNUSED \<and> p_state (procs u ! np) = WAITING \<and>
                          p_pid (procs u ! np) = pid))"
  proof (cases "fork sy c tsc d cc pr th ?t")
    case (Inr x)
    obtain pid u where x: "x = (pid, u)" by (cases x)
    have k: "kinv (b \<and> qlen u \<le> 5) u" using kinv_fork [OF t] Inr x by simp
    from fork_child [OF t Inr [unfolded x]] show ?thesis
    proof
      assume "kinv b u \<and> pid = - 1 \<and> qlen u = qlen ?t"
      then show ?thesis using Inr x k by simp
    next
      assume "\<exists>np w. np < NPROC \<and> p_state (procs ?t ! np) = UNUSED \<and> kinv b w \<and> cur w = cur ?t \<and>
       qlen w = qlen ?t \<and> frozen w = frozen ?t \<and> p_state (procs w ! np) = EMBRYO \<and>
       p_pgdir (procs w ! np) \<noteq> 0 \<and> p_kont (procs w ! np) = AtForkret \<and>
       p_parent (procs w ! np) = cur ?t c \<and> pid = nextpid ?t \<and> p_pid (procs w ! np) = pid \<and>
       (\<forall>i. i \<noteq> np \<longrightarrow> procs w ! i = procs ?t ! i) \<and> fork_admit c np tsc d cc pr th w = Inr u"
      then obtain np w where w: "np < NPROC" "p_state (procs s ! np) = UNUSED" "kinv b w" "qlen w = qlen s"
        "frozen w = 1" "p_state (procs w ! np) = EMBRYO" "p_pgdir (procs w ! np) \<noteq> 0"
        "p_kont (procs w ! np) = AtForkret" "p_pid (procs w ! np) = pid" "fork_admit c np tsc d cc pr th w = Inr u"
        by auto
      have "p_state (procs u ! np) = WAITING" "qlen u = qlen s" "p_pid (procs u ! np) = pid"
        using fork_admit_ok [OF w(3,1,6,7), of c tsc d cc pr th] fork_admit_pid [OF w(10) w(3,1)] w by auto
      then show ?thesis using Inr x k w by auto
    qed
  qed simp
  then show "\<exists>t. freeze c True s = Inr t \<and> procs t = procs s \<and>
     (case fork sy c tsc d cc pr th t of
        Inl _ \<Rightarrow> True
      | Inr (pid, u) \<Rightarrow> qlen u = qlen s \<and> kinv (b \<and> qlen u \<le> 5) u \<and>
          (pid = - 1 \<or> (\<exists>np < NPROC. p_state (procs s ! np) = UNUSED \<and> p_state (procs u ! np) = WAITING \<and>
                          p_pid (procs u ! np) = pid)))"
    by (intro exI [of _ ?t]) (simp add: freeze_def)
  obtain v where "freeze c False s = Inr v" "kinv (b \<and> qlen v \<le> 5) v"
    "\<And>i. i < NPROC \<Longrightarrow> procs v ! i = (if \<not> False \<and> p_state (procs s ! i) = WAITING
        then (procs s ! i)\<lparr>p_state := RUNNABLE\<rparr> else procs s ! i)"
    using freeze_ok [OF assms, of c False] by metis
  then show "\<exists>v. freeze c False s = Inr v \<and> kinv (b \<and> qlen v \<le> 5) v \<and>
       (\<forall>i < NPROC. procs v ! i = (if p_state (procs s ! i) = WAITING
          then (procs s ! i)\<lparr>p_state := RUNNABLE\<rparr> else procs s ! i))"
    by auto
qed

theorem batch_creation_witness:
  "\<exists>v. freeze 0 False (demo_pair WAITING 7 None) = Inr v \<and> p_state (procs v ! 1) = RUNNABLE"
proof -
  have "kinv True (demo_pair WAITING 7 None)" by (rule kinv_demo_pair) simp
  from batch_creation [OF this, of 0 demo_syms 0 0 0 0 0]
  obtain v where "freeze 0 False (demo_pair WAITING 7 None) = Inr v"
    "\<forall>i < NPROC. procs v ! i = (if p_state (procs (demo_pair WAITING 7 None) ! i) = WAITING
       then (procs (demo_pair WAITING 7 None) ! i)\<lparr>p_state := RUNNABLE\<rparr> else procs (demo_pair WAITING 7 None) ! i)"
    by blast
  then show ?thesis by (auto simp: NPROC_def demo_proc_def)
qed

text \<open>C39: While creation is frozen the scheduler of an idle processor faults as soon as a process is
  ready: its test \<open>p->P > proc->O\<close> reads through \<open>proc\<close>, which is null in the scheduler.\<close>

theorem frozen_scheduler_faults:
  assumes "kinv b s" and "cproc (cpus s c) = None" and "frozen s \<noteq> 0" and "0 < qlen s"
  shows "scheduler sy c tsc s = Inl NullDeref"
proof -
  have q: "quiet (upd_cpu c sti s)" using assms(1) by (simp add: kinv_def quiet_sti)
  obtain p where "queue s ! 0 = Some p" using assms(1) head_queue by (auto simp: kinv_def)
  moreover have "cproc (cpus (lock_on c (upd_cpu c sti s)) c) = None"
    using assms(2) by (simp add: lock_on_def sti_def)
  ultimately show ?thesis
    using assms(3,4) qlen_nonempty [of s] by (simp add: scheduler_def acquire_ptable_quiet q Let_def)
qed

theorem frozen_scheduler_faults_witness:
  "\<exists>s. freeze 1 True (demo_pair RUNNABLE 7 None) = Inr s \<and> scheduler demo_syms 1 0 s = Inl NullDeref"
proof -
  let ?s = "(demo_pair RUNNABLE 7 None)\<lparr>frozen := 1\<rparr>"
  have "kinv True ?s" using kinv_demo_pair [of RUNNABLE 7 None] by (simp add: kinv_def)
  moreover have "cproc (cpus ?s 1) = None" "frozen ?s \<noteq> 0" "0 < qlen ?s"
    by (simp_all add: demo_pair_def boot_cpu_def qlen_def)
  ultimately show ?thesis
    using frozen_scheduler_faults [of True ?s 1 demo_syms 0] by (auto simp: freeze_def)
qed

text \<open>A processor that enters the scheduler before \<open>userinit\<close> has run faults: \<open>itr_q\<close> is still 0,
  which says that the queue holds one process, and \<open>queue[0]\<close> is null.\<close>

theorem scheduler_before_userinit:
  "scheduler sy c tsc (boot_kern k pgdir) = Inl NullDeref"
proof -
  have "quiet (upd_cpu c sti (boot_kern k pgdir))" by (simp add: quiet_sti)
  then show ?thesis
    by (simp add: scheduler_def acquire_ptable_quiet) (simp add: boot_kern_def NPROC_def)
qed

section \<open>Exit and wait\<close>





text \<open>C27: Wait has three outcomes, and they are told apart as the code means them to be: it returns
  the pid of a ZOMBIE child, whose slot is then UNUSED with no pid and no parent; it returns \<open>-1\<close>
  when no child is a ZOMBIE and there is no child or the caller has been killed, and changes no
  process; otherwise the caller is asleep on its own address and the processor is free.\<close>

theorem wait_outcomes:
  assumes "kinv b s" and "cproc (cpus s c) = Some me" and "wait sy c s = Inr (r, s')"
  shows "kinv b s' \<and>
    ((\<exists>i < NPROC. p_parent (procs s ! i) = Some me \<and> p_state (procs s ! i) = ZOMBIE \<and>
        r = Some (p_pid (procs s ! i)) \<and> p_state (procs s' ! i) = UNUSED \<and> p_pid (procs s' ! i) = 0 \<and>
        p_parent (procs s' ! i) = None \<and> (\<forall>j. j \<noteq> i \<longrightarrow> procs s' ! j = procs s ! j)) \<or>
     (\<forall>i < NPROC. p_parent (procs s ! i) = Some me \<longrightarrow> p_state (procs s ! i) \<noteq> ZOMBIE) \<and>
     (if (\<forall>i < NPROC. p_parent (procs s ! i) \<noteq> Some me) \<or> p_killed (procs s ! me)
      then r = Some (- 1) \<and> procs s' = procs s
      else r = None \<and> p_state (procs s' ! me) = SLEEPING \<and> p_chan (procs s' ! me) = Some (ChProc me) \<and>
           cproc (cpus s' c) = None))"
proof -
  let ?l = "lock_on c s"
  have "cur s c = Some me" using assms(2) by (simp add: cur_def)
  then have l: "kcore b ?l" "held c ?l" "cur ?l c = Some me"
    using assms(1) by (simp_all add: kinv_def held_lock_on)
  have len: "length (procs s) = NPROC" using kcore_length [OF l(1)] by simp
  have wl: "wait_loop sy c me ?l = Inr (r, s')"
    using assms l(3) by (auto simp: wait_def kinv_def acquire_ptable_quiet cur_def)
  obtain hk q t where t: "wait_scan sy me [0..<NPROC] False ?l = Inr (hk, q, t)"
    using wl by (auto simp: wait_loop_def)
  have sub: "set [0..<NPROC] \<subseteq> {..<NPROC}" by auto
  note ws = wait_scan_ok [OF l(1) sub t] and wr = wait_scan_result [OF t]
  have h: "held c t" "cur t c = Some me" using l(2,3) ws by (simp_all add: held_def cur_def)
  have kt: "kcore b t" using ws by simp
  have k: "kinv b s'" by (rule kinv_wait_loop [OF l wl])
  show ?thesis
  proof (cases q)
    case (Some pid)
    then obtain i where i: "i < NPROC" "p_parent (procs s ! i) = Some me" "p_state (procs s ! i) = ZOMBIE"
      "pid = p_pid (procs s ! i)" "reap sy i ?l = Inr t"
      using wr by auto
    have t': "procs t = (procs s)[i := (procs s ! i)\<lparr>p_kstack := 0, p_state := UNUSED, p_pid := 0,
        p_parent := None, p_name := '''', p_killed := False\<rparr>]"
      using i(5) by (auto simp: reap_def bindE_eq_Inr_iff)
    have "r = Some pid" "s' = lock_off c t"
      using wl t Some h by (auto simp: wait_loop_def release_ptable_held)
    then show ?thesis using k i t' len by (intro conjI disjI1 exI [of _ i]) auto
  next
    case None
    then have tl: "t = ?l" and nz: "\<forall>i < NPROC. p_parent (procs s ! i) = Some me \<longrightarrow> p_state (procs s ! i) \<noteq> ZOMBIE"
      and hk: "hk \<longleftrightarrow> (\<exists>i < NPROC. p_parent (procs s ! i) = Some me)"
      using wr by auto
    show ?thesis
    proof (cases "\<not> hk \<or> p_killed (procs s ! me)")
      case True
      then have "r = Some (- 1)" "s' = lock_off c ?l"
        using wl t None h tl by (auto simp: wait_loop_def release_ptable_held)
      then show ?thesis using k nz True hk by auto
    next
      case False
      then obtain la where "sleep c (Some (ChProc me)) PtableLock ?l = Inr (la, s')" and r: "r = None"
        using wl t None tl by (auto simp: wait_loop_def bindE_eq_Inr_iff)
      then have so: "sleep_on c me (Some (ChProc me)) AtWait ?l = Inr s'"
        using l(3) by (auto simp: sleep_def cur_def bindE_eq_Inr_iff)
      obtain v where v: "sleep_on c me (Some (ChProc me)) AtWait ?l = Inr v" "cur v = (cur ?l)(c := None)"
        "p_state (procs v ! me) = SLEEPING" "p_chan (procs v ! me) = Some (ChProc me)"
        using sleep_on_ok [OF l, of AtWait "Some (ChProc me)"] by (metis kont.distinct(19))
      then have "v = s'" using so by simp
      then show ?thesis
        using k nz False hk r v(2-4) by (auto simp: cur_def dest: fun_cong [of _ _ c])
    qed
  qed
qed

theorem wait_outcomes_witness:
  "\<exists>s'. wait demo_syms 0 (demo_pair SLEEPING 7 (Some (ChAddr 8))) = Inr (None, s') \<and> p_state (procs s' ! 0) = SLEEPING"
proof -
  let ?s = "demo_pair SLEEPING 7 (Some (ChAddr 8))"
  have "case wait demo_syms 0 ?s of Inl _ \<Rightarrow> False | Inr _ \<Rightarrow> True" by code_simp
  then obtain r s' where s': "wait demo_syms 0 ?s = Inr (r, s')" by (auto split: sum.splits)
  have k: "kinv True ?s" by (rule kinv_demo_pair) simp
  have "cproc (cpus ?s 0) = Some 0" by (simp add: demo_pair_def)
  note w = wait_outcomes [OF k this s']
  have p: "procs ?s ! i = (if i = 0 then demo_proc RUNNING 1 1 else if i = 1 then
      (demo_proc SLEEPING 7 7)\<lparr>p_chan := Some (ChAddr 8), p_parent := Some 0, p_pid := 2\<rparr> else zero_proc)" if "i < NPROC" for i
    using that by (simp add: demo_pair_def nth_list_update NPROC_def)
  have nz: "\<not> (\<exists>i < NPROC. p_parent (procs ?s ! i) = Some 0 \<and> p_state (procs ?s ! i) = ZOMBIE)"
    by (auto simp: p demo_proc_def zero_proc_def)
  have kid: "\<not> (\<forall>i < NPROC. p_parent (procs ?s ! i) \<noteq> Some 0)"
    by (auto simp: NPROC_def intro: exI [of _ 1])
  have nk: "\<not> p_killed (procs ?s ! 0)" by (simp add: demo_proc_def zero_proc_def)
  from w nz kid nk have "r = None \<and> p_state (procs s' ! 0) = SLEEPING" by (auto split: if_splits)
  with s' show ?thesis by auto
qed

section \<open>Kill and statistics\<close>

text \<open>Killing pid 0 poisons a free slot: when the first slot without a pid is also the next free
  slot, \<open>kill(0)\<close> reports success, and the next process that \<open>allocproc\<close> creates starts out
  killed, because nothing resets the mark of an UNUSED slot.\<close>

theorem kill_zero_marks_next_process:
  assumes "kinv b s" and "first_idx (\<lambda>p. p_pid p = 0) (procs s) = Some i"
    and "first_idx (\<lambda>p. p_state p = UNUSED) (procs s) = Some i" and "fst (kalloc (km s)) \<noteq> 0"
  shows "\<exists>t u. kill c 0 s = Inr (True, t) \<and> allocproc sy d t = Inr (Some i, u) \<and> p_killed (procs u ! i)"
proof -
  have i: "i < length (procs s)" "p_state (procs s ! i) = UNUSED" using assms(3) by (auto simp: first_idx_Some_iff)
  have q: "quiet s" using assms(1) by (simp add: kinv_def)
  let ?k = "upd_proc i (\<lambda>p. p\<lparr>p_killed := True\<rparr>) (lock_on c s)"
  let ?t = "lock_off c ?k"
  have hk: "held c ?k" using held_lock_on [OF q] by simp
  have kl: "kill c 0 s = Inr (True, ?t)"
    using assms(2) i hk by (simp add: kill_def acquire_ptable_quiet [OF q] Let_def release_ptable_held)
  have qt: "quiet ?t" using quiet_lock_off [OF hk] .
  have f: "first_idx (\<lambda>p. p_state p = UNUSED) (procs ?t) = Some i"
    using assms(3) i by (auto simp: first_idx_Some_iff nth_list_update)
  let ?e = "(upd_proc i (\<lambda>p. p\<lparr>p_state := EMBRYO, p_pid := nextpid s\<rparr>) (lock_on d ?t))\<lparr>nextpid := nextpid s + 1\<rparr>"
  have he: "held d ?e" using held_lock_on [OF qt] by simp
  obtain kst k where ka: "kalloc (km s) = (kst, k)" by (cases "kalloc (km s)")
  then have "\<exists>u. allocproc sy d ?t = Inr (Some i, u) \<and> p_killed (procs u ! i)"
    using f he assms(4) i by (simp add: allocproc_def acquire_ptable_quiet [OF qt] Let_def release_ptable_held)
  then show ?thesis using kl by blast
qed

text \<open>A kernel with one free page.\<close>

definition demo_kill :: kern where
  "demo_kill = (demo_pair RUNNABLE 7 None)\<lparr>km := demo_mem\<lparr>freelist := 0x80200000\<rparr>\<rparr>"

theorem kill_zero_marks_next_process_witness:
  "\<exists>t u. kill 0 0 demo_kill = Inr (True, t) \<and> allocproc demo_syms 0 t = Inr (Some 2, u) \<and> p_killed (procs u ! 2)"
proof -
  have "kinv True demo_kill" using kinv_demo_pair [of RUNNABLE 7 None] by (simp add: demo_kill_def kinv_def)
  moreover have "first_idx (\<lambda>p. p_pid p = 0) (procs demo_kill) = Some 2" by code_simp
  moreover have "first_idx (\<lambda>p. p_state p = UNUSED) (procs demo_kill) = Some 2" by code_simp
  moreover have "fst (kalloc (km demo_kill)) \<noteq> 0" by (simp add: demo_kill_def kalloc_def)
  ultimately show ?thesis using kill_zero_marks_next_process by blast
qed

text \<open>The table of job statistics is never overrun and never lost: \<open>getData\<close> keeps \<open>itr_s\<close> at
  \<open>TAM\<close> or below, adds one entry for the process while there is room, restarts its measurements,
  and leaves the table alone when it is full.\<close>

theorem getData_bounded:
  assumes "itr_s s \<le> TAM" and "i < length (procs s)"
  shows "itr_s (getData t1 t2 i s) \<le> TAM \<and>
    (if itr_s s = TAM then getData t1 t2 i s = s
     else itr_s (getData t1 t2 i s) = itr_s s + 1 \<and>
       (\<forall>j. j \<noteq> unat (itr_s s) \<longrightarrow> statistics (getData t1 t2 i s) j = statistics s j) \<and>
       (let st = statistics (getData t1 t2 i s) (unat (itr_s s))
        in s_pid st = p_pid (procs s ! i) \<and> s_arrtime st = p_arrtime (procs s ! i) \<and>
           s_finish st = tick t2 \<and> s_D st = p_D (procs s ! i) \<and> s_ctxswt st = p_ctxswt (procs s ! i)) \<and>
       p_arrtime (procs (getData t1 t2 i s) ! i) = tick t1 \<and> p_ctxswt (procs (getData t1 t2 i s) ! i) = 0)"
proof (cases "itr_s s = TAM")
  case True
  then show ?thesis by (simp add: getData_def TAM_def)
next
  case False
  then have lt: "itr_s s < TAM" using assms(1) by simp
  then have "\<not> itr_s s > TAM - 1" "itr_s s + 1 \<le> TAM"
    by (simp_all add: TAM_def not_less word_less_nat_alt word_le_nat_alt unat_plus_if')
  then show ?thesis
    using False assms(2) by (simp add: getData_def Let_def upd_proc_def)
qed

theorem getData_bounded_witness:
  "itr_s (getData 0 (2 ^ 24) 0 demo_ready) = 1 \<and> s_finish (statistics (getData 0 (2 ^ 24) 0 demo_ready) 0) = 2"
proof -
  have "itr_s demo_ready \<le> TAM" "0 < length (procs demo_ready)" "itr_s demo_ready = 0"
    by (simp_all add: demo_ready_def boot_kern_def NPROC_def)
  moreover have "itr_s demo_ready \<noteq> TAM" by (simp add: \<open>itr_s demo_ready = 0\<close> TAM_def)
  moreover have "tick (2 ^ 24) = 2" by (simp add: tick_def)
  ultimately show ?thesis
    using getData_bounded [of demo_ready 0 0 "2 ^ 24"] by (simp add: Let_def)
qed

end
