(* ===== verification/Wakeup.thy ===== *)
theory Wakeup
  imports SchedProps
begin

text \<open>
  The protocol of \<open>sleep\<close> and \<open>wakeup\<close> (\<open>src/proc.c\<close>) at the grain of single lock operations, with
  several processors interleaved.  A component of the kernel guards a condition by a lock \<open>lk\<close>: whoever waits
  for it runs \<open>acquire(lk); while(!cond) sleep(chan, lk); ...; release(lk)\<close>, and whoever makes it true runs
  \<open>acquire(lk); cond = 1; wakeup(chan); ...; release(lk)\<close>, as \<open>src/pipe.c\<close>, \<open>src/log.c\<close>, \<open>src/ide.c\<close>
  and \<open>src/console.c\<close> do.  Between any two operations of one processor the others may take any number of
  steps: of this protocol, or any other operation of the process table.
\<close>

section \<open>The code of sleep and wakeup as sequences of operations\<close>

datatype lockop = AcqPtable | RelPtable | RelLk | Park | Scan

text \<open>\<open>sleep(chan, lk)\<close> with a lock other than \<open>ptable.lock\<close>: \<open>acquire(&ptable.lock)\<close>, \<open>release(lk)\<close>, and
  the statements from \<open>proc->chan = chan\<close> to \<open>sched()\<close>, which gives the processor to the scheduler and with it
  \<open>ptable.lock\<close>, released there.\<close>

definition sleep_code :: "lockop list" where
  "sleep_code = [AcqPtable, RelLk, Park]"

definition wakeup_code :: "lockop list" where
  "wakeup_code = [AcqPtable, Scan, RelPtable]"

fun op_step :: "nat \<Rightarrow> (nat \<Rightarrow> ull) \<Rightarrow> chan \<Rightarrow> lockop \<Rightarrow> spinlock \<times> kern \<Rightarrow> (spinlock \<times> kern) res" where
  "op_step c tsc ch AcqPtable (lk, s) = bindE (acquire_ptable c s) (\<lambda>s. Inr (lk, s))"
| "op_step c tsc ch RelPtable (lk, s) = bindE (release_ptable c s) (\<lambda>s. Inr (lk, s))"
| "op_step c tsc ch RelLk (lk, s) = release_other c lk s"
| "op_step c tsc ch Park (lk, s) =
     (case cproc (cpus s c) of
        None \<Rightarrow> Inl NullDeref
      | Some me \<Rightarrow> bindE (sleep_on c me (Some ch) AtSleep s) (\<lambda>s. Inr (lk, s)))"
| "op_step c tsc ch Scan (lk, s) = bindE (wakeup1 tsc (Some ch) s) (\<lambda>s. Inr (lk, s))"

fun op_run :: "nat \<Rightarrow> (nat \<Rightarrow> ull) \<Rightarrow> chan \<Rightarrow> lockop list \<Rightarrow> spinlock \<times> kern \<Rightarrow> (spinlock \<times> kern) res" where
  "op_run c tsc ch [] x = Inr x"
| "op_run c tsc ch (p # ps) x = bindE (op_step c tsc ch p x) (op_run c tsc ch ps)"

text \<open>Run without interruption the sequences are the operations \<open>sleep\<close> and \<open>wakeup\<close> of the process table.\<close>

lemma acquire_cproc: "acquire c (k, lk) = Inr (k', lk') \<Longrightarrow> cproc k' = cproc k"
  by (auto simp: acquire_def Let_def pushcli_def cli_def split: if_splits)

lemma popcli_cproc: "popcli k = Inr k' \<Longrightarrow> cproc k' = cproc k"
  by (auto simp: popcli_def sti_def Let_def split: if_splits)

lemma release_cproc: "release c (k, lk) = Inr (k', lk') \<Longrightarrow> cproc k' = cproc k"
  by (auto simp: release_def Let_def bindE_eq_Inr_iff popcli_cproc split: if_splits)

lemma sleep_runs_code:
  assumes "cproc (cpus s c) = Some me"
  shows "sleep c (Some ch) (OtherLock lk) s = bindE (op_run c tsc ch sleep_code (lk, s)) (\<lambda>(lk, s). Inr (OtherLock lk, s))"
proof (cases "acquire_ptable c s")
  case a: (Inr t)
  then have t: "cproc (cpus t c) = Some me" using assms by (auto simp: acquire_ptable_def bindE_eq_Inr_iff dest: acquire_cproc)
  show ?thesis
  proof (cases "release_other c lk t")
    case r: (Inr x)
    obtain lk' u where x: "x = (lk', u)" by (cases x)
    have "cproc (cpus u c) = Some me" using r t x by (auto simp: release_other_def bindE_eq_Inr_iff dest: release_cproc)
    then show ?thesis using assms a r x by (cases "sleep_on c me (Some ch) AtSleep u") (simp_all add: sleep_def sleep_code_def)
  qed (simp add: assms a sleep_def sleep_code_def)
qed (simp add: assms sleep_def sleep_code_def)

lemma wakeup_runs_code:
  "wakeup c tsc (Some ch) s = bindE (op_run c tsc ch wakeup_code (lk, s)) (\<lambda>(lk, s). Inr s)"
proof (cases "acquire_ptable c s")
  case a: (Inr t)
  show ?thesis
  proof (cases "wakeup1 tsc (Some ch) t")
    case (Inr u)
    then show ?thesis using a by (cases "release_ptable c u") (simp_all add: wakeup_def wakeup_code_def)
  qed (simp add: a wakeup_def wakeup_code_def)
qed (simp add: wakeup_def wakeup_code_def)

section \<open>The interleaved system\<close>

text \<open>Where a processor is: outside, in the section between \<open>acquire(lk)\<close> and \<open>release(lk)\<close>, or with the
  given operations still to do in a call of \<open>sleep\<close> or of \<open>wakeup\<close> from that section.\<close>

datatype place = Outside | Locked | InSleep "lockop list" | InWakeup "lockop list"

record wsys =
  ker :: kern
  condlk :: spinlock
  cond :: bool
  at :: "nat \<Rightarrow> place"

text \<open>A call that is over leaves its processor outside (\<open>sleep\<close>: the process is off the processor; when it runs again
  it acquires \<open>lk\<close> as any other) or back in the section (\<open>wakeup\<close>).\<close>

definition in_sleep :: "lockop list \<Rightarrow> place" where
  "in_sleep ps = (if ps = [] then Outside else InSleep ps)"

definition in_wakeup :: "lockop list \<Rightarrow> place" where
  "in_wakeup ps = (if ps = [] then Locked else InWakeup ps)"

datatype wevent = Lock | Wait | Signal | Consume | Unlock | Next

text \<open>What processor \<open>c\<close> does next; \<open>None\<close> if it cannot, as when it spins on a lock.\<close>

definition take_op :: "uint \<Rightarrow> (nat \<Rightarrow> ull) \<Rightarrow> nat \<Rightarrow> lockop \<Rightarrow> place \<Rightarrow> wsys \<Rightarrow> wsys option" where
  "take_op a tsc c p l w =
     (case op_step c tsc (ChAddr a) p (condlk w, ker w) of
        Inl _ \<Rightarrow> None
      | Inr (lk, s) \<Rightarrow> Some (w\<lparr>ker := s, condlk := lk, at := (at w)(c := l)\<rparr>))"

fun wexec :: "uint \<Rightarrow> (nat \<Rightarrow> ull) \<Rightarrow> nat \<Rightarrow> wevent \<Rightarrow> wsys \<Rightarrow> wsys option" where
  "wexec a tsc c Lock w =
     (if at w c = Outside
      then (case acquire c (cpus (ker w) c, condlk w) of
              Inl _ \<Rightarrow> None
            | Inr (k, lk) \<Rightarrow> Some (w\<lparr>ker := (ker w)\<lparr>cpus := (cpus (ker w))(c := k)\<rparr>, condlk := lk, at := (at w)(c := Locked)\<rparr>))
      else None)"
| "wexec a tsc c Wait w =
     (if at w c = Locked \<and> \<not> cond w then Some (w\<lparr>at := (at w)(c := InSleep sleep_code)\<rparr>) else None)"
| "wexec a tsc c Signal w =
     (if at w c = Locked then Some (w\<lparr>cond := True, at := (at w)(c := InWakeup wakeup_code)\<rparr>) else None)"
| "wexec a tsc c Consume w =
     (if at w c = Locked then Some (w\<lparr>cond := False\<rparr>) else None)"
| "wexec a tsc c Unlock w =
     (if at w c = Locked then take_op a tsc c RelLk Outside w else None)"
| "wexec a tsc c Next w =
     (case at w c of
        InSleep (p # ps) \<Rightarrow> take_op a tsc c p (in_sleep ps) w
      | InWakeup (p # ps) \<Rightarrow> take_op a tsc c p (in_wakeup ps) w
      | _ \<Rightarrow> None)"

text \<open>The other operations of the process table; sleeping on the channel \<open>a\<close> itself is left to the protocol.\<close>

inductive kernel_op :: "ksyms \<Rightarrow> uint \<Rightarrow> nat \<Rightarrow> kern \<Rightarrow> kern \<Rightarrow> bool" for sy a c where
  ko_sched: "scheduler sy c tsc s = Inr (r, s') \<Longrightarrow> kernel_op sy a c s s'"
| ko_yield: "yield c s = Inr s' \<Longrightarrow> kernel_op sy a c s s'"
| ko_sleep: "ch \<noteq> Some (ChAddr a) \<Longrightarrow> sleep_call c ch lk s = Inr (la, s') \<Longrightarrow> kernel_op sy a c s s'"
| ko_wakeup: "wakeup c tscs ch s = Inr s' \<Longrightarrow> kernel_op sy a c s s'"
| ko_fork: "fork sy c tsc d cc pr th s = Inr (pid, s') \<Longrightarrow> kernel_op sy a c s s'"
| ko_exit: "exit_proc c tscs tscs' s = Inr s' \<Longrightarrow> kernel_op sy a c s s'"
| ko_wait: "wait sy c s = Inr (w, s') \<Longrightarrow> kernel_op sy a c s s'"
| ko_kill: "kill c pid s = Inr (ok, s') \<Longrightarrow> kernel_op sy a c s s'"
| ko_freeze: "freeze c f s = Inr s' \<Longrightarrow> kernel_op sy a c s s'"
| ko_growproc: "growproc sy c n s = Inr (ok, s') \<Longrightarrow> kernel_op sy a c s s'"
| ko_print: "print c t1 t2 fl s = Inr (rows, m, s') \<Longrightarrow> kernel_op sy a c s s'"

definition on_chan :: "uint \<Rightarrow> proc \<Rightarrow> bool" where
  "on_chan a p \<longleftrightarrow> p_state p = SLEEPING \<and> p_chan p = Some (ChAddr a)"

inductive wreach :: "ksyms \<Rightarrow> uint \<Rightarrow> wsys \<Rightarrow> bool" for sy a where
  wr_start: "length (procs (ker w)) = NPROC \<Longrightarrow> \<forall>i < NPROC. \<not> on_chan a (procs (ker w) ! i) \<Longrightarrow> \<forall>c. at w c = Outside \<Longrightarrow> wreach sy a w"
| wr_event: "wreach sy a w \<Longrightarrow> wexec a tsc c e w = Some w' \<Longrightarrow> wreach sy a w'"
| wr_kernel: "wreach sy a w \<Longrightarrow> at w c = Outside \<Longrightarrow> kernel_op sy a c (ker w) s' \<Longrightarrow> wreach sy a (w\<lparr>ker := s'\<rparr>)"

section \<open>What the operations do to sleepers and to the lock of the table\<close>

text \<open>\<open>calm\<close>: nobody new sleeps on the channel.\<close>

definition calm :: "uint \<Rightarrow> kern \<Rightarrow> kern \<Rightarrow> bool" where
  "calm a s s' \<longleftrightarrow> length (procs s') = length (procs s) \<and> (\<forall>i. on_chan a (procs s' ! i) \<longrightarrow> on_chan a (procs s ! i))"

lemma calm_same: "procs s' = procs s \<Longrightarrow> calm a s s'"
  by (simp add: calm_def)

lemma calm_trans: "calm a s t \<Longrightarrow> calm a t u \<Longrightarrow> calm a s u"
  by (simp add: calm_def)

lemma calm_upd:
  assumes "procs t = procs s" and "\<And>p. on_chan a (f p) \<Longrightarrow> on_chan a p"
  shows "calm a s (upd_proc i f t)"
proof -
  have "procs (upd_proc i f t) ! j = (if j = i \<and> i < length (procs s) then f (procs s ! i) else procs s ! j)" for j
    using assms(1) by (cases "i < length (procs s)") (simp_all add: upd_proc_def nth_list_update list_update_beyond)
  then show ?thesis using assms by (simp add: calm_def upd_proc_def)
qed

text \<open>Operations that leave the processes alone, and updates of a process that do not put it to sleep.\<close>

lemma same_procs:
  "acquire_ptable c s = Inr s' \<Longrightarrow> procs s' = procs s"
  "release_ptable c s = Inr s' \<Longrightarrow> procs s' = procs s"
  "release_other c lk s = Inr (lk', s') \<Longrightarrow> procs s' = procs s"
  "switchuvm c p s = Inr s' \<Longrightarrow> procs s' = procs s"
  "enqueue i s = Inr s' \<Longrightarrow> procs s' = procs s"
  "dequeue s = Inr s' \<Longrightarrow> procs s' = procs s"
  by (auto simp: acquire_ptable_def release_ptable_def release_other_def switchuvm_def enqueue_def dequeue_def
      bindE_eq_Inr_iff Let_def split: if_splits option.splits)

lemma procs_same [simp]:
  "procs (upd_cpu c f s) = procs s" "procs (switchkvm c s) = procs s"
  by (simp_all add: upd_cpu_def switchkvm_def)

lemma on_chan_upd [simp]:
  "\<not> on_chan a (p\<lparr>p_chan := None\<rparr>)"
  "st \<noteq> SLEEPING \<Longrightarrow> \<not> on_chan a (p\<lparr>p_state := st\<rparr>)"
  by (simp_all add: on_chan_def)

lemma calm_scheduler_back: "scheduler_back c s = Inr s' \<Longrightarrow> calm a s s'"
  by (auto simp: scheduler_back_def dest!: same_procs intro: calm_same)

lemma calm_sched_switch: "sched_switch c k s = Inr s' \<Longrightarrow> calm a s s'"
proof -
  assume "sched_switch c k s = Inr s'"
  then obtain t where t: "sched c k s = Inr t" "scheduler_back c t = Inr s'" by (auto simp: sched_switch_def bindE_eq_Inr_iff)
  have "calm a s t" using t(1) by (auto simp: sched_def on_chan_def split: if_splits option.splits intro!: calm_upd)
  then show ?thesis using calm_trans calm_scheduler_back [OF t(2)] by blast
qed

lemma calm_sleep_on:
  assumes "sleep_on c me ch k s = Inr s'" and "ch \<noteq> Some (ChAddr a)"
  shows "calm a s s'"
proof -
  have "calm a s (upd_proc me (\<lambda>p. p\<lparr>p_chan := ch, p_state := SLEEPING\<rparr>) s)" using assms(2) by (intro calm_upd) (auto simp: on_chan_def)
  then show ?thesis using assms(1) calm_trans calm_sched_switch unfolding sleep_on_def by blast
qed

lemma calm_wakeup_scan: "wakeup_scan tsc ch is s = Inr s' \<Longrightarrow> calm a s s'"
proof (induction "is" arbitrary: s)
  case (Cons i "is")
  show ?case
  proof (cases "wakeup_scan tsc ch is s = Inr s'")
    case False
    let ?u = "upd_proc i (\<lambda>p. p\<lparr>p_state := RUNNABLE, p_chan := None, p_arrtime := tick (tsc i), p_firstsch := 0, p_ctxswt := 0\<rparr>) s"
    obtain t where t: "enqueue i ?u = Inr t" "wakeup_scan tsc ch is (t\<lparr>interrupt := 1\<rparr>) = Inr s'"
      using Cons.prems False by (auto simp: bindE_eq_Inr_iff split: if_splits)
    have "calm a s ?u" by (rule calm_upd) (simp_all add: on_chan_def)
    moreover have "calm a ?u (t\<lparr>interrupt := 1\<rparr>)" using same_procs(5) [OF t(1)] by (intro calm_same) simp
    ultimately show ?thesis using Cons.IH [OF t(2)] calm_trans by blast
  qed (rule Cons.IH)
qed (simp add: calm_def)

lemma calm_wakeup1: "wakeup1 tsc ch s = Inr s' \<Longrightarrow> calm a s s'"
  unfolding wakeup1_def by (rule calm_wakeup_scan)

lemma calm_reap: "reap sy i s = Inr s' \<Longrightarrow> calm a s s'"
  by (auto simp: reap_def bindE_eq_Inr_iff on_chan_def intro!: calm_upd)

lemma calm_wait_scan: "wait_scan sy me is hk s = Inr (hk', r, s') \<Longrightarrow> calm a s s'"
proof (induction "is" arbitrary: hk s)
  case (Cons i "is")
  then show ?case by (auto simp: bindE_eq_Inr_iff calm_reap split: if_splits)
qed (simp add: calm_def)

lemma calm_wait_loop:
  assumes "wait_loop sy c me s = Inr (r, s')"
  shows "calm a s s'"
proof -
  obtain hk q t where t: "wait_scan sy me [0..<NPROC] False s = Inr (hk, q, t)" using assms by (auto simp: wait_loop_def bindE_eq_Inr_iff)
  have "calm a t s'" using assms t
    by (auto simp: wait_loop_def bindE_eq_Inr_iff sleep_def dest!: same_procs intro: calm_same calm_sleep_on split: option.splits if_splits)
  then show ?thesis using calm_wait_scan [OF t] calm_trans by blast
qed

lemma calm_reparent_scan: "reparent_scan tsc me is s = Inr s' \<Longrightarrow> calm a s s'"
proof (induction "is" arbitrary: s)
  case (Cons i "is")
  let ?u = "upd_proc i (\<lambda>p. p\<lparr>p_parent := initproc s\<rparr>) s"
  have u: "calm a s ?u" by (rule calm_upd) (simp_all add: on_chan_def)
  show ?case
  proof (cases "p_parent (procs s ! i) = Some me")
    case True
    then consider "reparent_scan tsc me is ?u = Inr s'" | t where "wakeup1 (tsc i) (map_option ChProc (initproc ?u)) ?u = Inr t" "reparent_scan tsc me is t = Inr s'"
      using Cons.prems by (auto simp: Let_def bindE_eq_Inr_iff split: if_splits)
    then show ?thesis by cases (use u Cons.IH calm_trans calm_wakeup1 in blast)+
  qed (use Cons in simp)
qed (simp add: calm_def)

lemma calm_resume:
  assumes "resume sy c me s = Inr (r, s')"
  shows "calm a s s'"
proof -
  let ?f = "\<lambda>b. upd_cpu c (\<lambda>k. k\<lparr>intena := b\<rparr>) s" and ?n = "upd_proc me (\<lambda>p. p\<lparr>p_chan := None\<rparr>)"
  have n: "calm a s (?n (?f b))" for b by (rule calm_upd) simp_all
  show ?thesis
  proof (cases "p_kont (procs s ! me)")
    case (AtSleep b)
    then obtain t where "release_ptable c (?n (?f b)) = Inr t" "s' = t" using assms by (auto simp: resume_def bindE_eq_Inr_iff)
    then have "calm a (?n (?f b)) s'" by (auto dest!: same_procs intro: calm_same)
    then show ?thesis using n calm_trans by blast
  next
    case (AtWait b)
    then have "wait_loop sy c me (?n (?f b)) = Inr (r, s')" using assms by (simp add: resume_def)
    then show ?thesis using calm_wait_loop n calm_trans by blast
  qed (use assms in \<open>auto simp: resume_def bindE_eq_Inr_iff dest!: same_procs intro: calm_same\<close>)
qed

lemma calm_dispatch:
  assumes "dispatch c tsc p s = Inr s'"
  shows "calm a s s'"
proof -
  obtain t u where "dequeue s = Inr t" "switchuvm c p (upd_cpu c (\<lambda>k. k\<lparr>cproc := Some p\<rparr>) t) = Inr u" "s' = upd_proc p (start_run tsc) u"
    using assms by (auto simp: dispatch_def bindE_eq_Inr_iff)
  then show ?thesis by (auto dest!: same_procs simp: start_run_def on_chan_def intro!: calm_upd)
qed

lemma calm_scheduler:
  assumes "scheduler sy c tsc s = Inr (r, s')"
  shows "calm a s s'"
proof -
  obtain t where t: "acquire_ptable c (upd_cpu c sti s) = Inr t" using assms by (auto simp: scheduler_def bindE_eq_Inr_iff)
  then have st: "procs t = procs s" by (auto dest!: same_procs)
  let ?u = "\<lambda>p. upd_proc p (\<lambda>q. q\<lparr>p_ctxswt := p_ctxswt q + 1\<rparr>) t"
  have u: "calm a s (?u p)" for p using st by (intro calm_upd) (simp_all add: on_chan_def)
  consider "release_ptable c t = Inr s'" | p where "release_ptable c (?u p) = Inr s'" | p v where "dispatch c tsc p (?u p) = Inr v" "resume sy c p v = Inr (r, s')"
    using assms t by (auto simp: scheduler_def bindE_eq_Inr_iff Let_def split: if_splits option.splits)
  then show ?thesis
  proof cases
    case 1
    then show ?thesis using st by (auto dest!: same_procs intro: calm_same)
  next
    case (2 p)
    then have "calm a (?u p) s'" by (auto dest!: same_procs intro: calm_same)
    then show ?thesis using u calm_trans by blast
  next
    case (3 p v)
    then show ?thesis using calm_trans [OF calm_trans [OF u calm_dispatch] calm_resume] by blast
  qed
qed

lemma calm_yield:
  assumes "yield c s = Inr s'"
  shows "calm a s s'"
proof -
  obtain t where t: "acquire_ptable c s = Inr t" using assms by (auto simp: yield_def bindE_eq_Inr_iff)
  then have st: "procs t = procs s" by (auto dest!: same_procs)
  let ?u = "\<lambda>me. upd_proc me (\<lambda>p. p\<lparr>p_state := RUNNABLE\<rparr>) t"
  consider "release_ptable c (t\<lparr>interrupt := 0\<rparr>) = Inr s'" | me v where "enqueue me (?u me) = Inr v" "sched_switch c AtYield v = Inr s'"
    using assms t by (auto simp: yield_def bindE_eq_Inr_iff split: if_splits option.splits)
  then show ?thesis
  proof cases
    case (2 me v)
    have "calm a s (?u me)" using st by (intro calm_upd) simp_all
    moreover have "calm a (?u me) v" using 2(1) by (auto dest!: same_procs intro: calm_same)
    ultimately show ?thesis using calm_sched_switch [OF 2(2)] calm_trans by blast
  qed (use st in \<open>auto dest!: same_procs intro: calm_same\<close>)
qed

lemma calm_sleep_call:
  assumes "sleep_call c ch lk s = Inr (la, s')" and "ch \<noteq> Some (ChAddr a)"
  shows "calm a s s'"
proof -
  obtain k lk' me t l u where "acquire_ptable c (s\<lparr>cpus := (cpus s)(c := k)\<rparr>) = Inr t" "release_other c lk' t = Inr (l, u)" "sleep_on c me ch AtSleep u = Inr s'"
    using assms(1) by (auto simp: sleep_call_def sleep_def bindE_eq_Inr_iff split: option.splits)
  moreover from this have "calm a s u" by (auto dest!: same_procs intro: calm_same)
  ultimately show ?thesis using calm_sleep_on assms(2) calm_trans by blast
qed

lemma calm_wakeup:
  assumes "wakeup c tsc ch s = Inr s'"
  shows "calm a s s'"
proof -
  obtain t u where "acquire_ptable c s = Inr t" "wakeup1 tsc ch t = Inr u" "release_ptable c u = Inr s'" using assms by (auto simp: wakeup_def bindE_eq_Inr_iff)
  then have "calm a s t" "calm a t u" "calm a u s'" by (auto dest!: same_procs intro: calm_same calm_wakeup1)
  then show ?thesis using calm_trans by blast
qed

lemma calm_exit:
  assumes "exit_proc c tsc tsc' s = Inr s'"
  shows "calm a s s'"
proof -
  obtain me t u v ch where t: "acquire_ptable c s = Inr t" "wakeup1 tsc ch t = Inr u" "reparent_scan tsc' me [0..<NPROC] u = Inr v"
      "sched_switch c (\<lambda>_. AtExit) (upd_proc me (\<lambda>p. p\<lparr>p_state := ZOMBIE\<rparr>) v) = Inr s'"
    using assms by (auto simp: exit_proc_def bindE_eq_Inr_iff split: option.splits if_splits)
  have st: "calm a s t" using t(1) by (auto dest!: same_procs intro: calm_same)
  have z: "calm a v (upd_proc me (\<lambda>p. p\<lparr>p_state := ZOMBIE\<rparr>) v)" by (rule calm_upd) simp_all
  show ?thesis by (rule calm_trans [OF calm_trans [OF st calm_wakeup1 [OF t(2)]] calm_trans [OF calm_reparent_scan [OF t(3)] calm_trans [OF z calm_sched_switch [OF t(4)]]]])
qed

lemma calm_wait:
  assumes "wait sy c s = Inr (r, s')"
  shows "calm a s s'"
proof -
  obtain t me where "acquire_ptable c s = Inr t" "wait_loop sy c me t = Inr (r, s')" using assms by (auto simp: wait_def bindE_eq_Inr_iff split: option.splits)
  then have "calm a s t" "calm a t s'" by (auto dest!: same_procs intro: calm_same calm_wait_loop)
  then show ?thesis using calm_trans by blast
qed

lemma calm_kill:
  assumes "kill c pid s = Inr (ok, s')"
  shows "calm a s s'"
proof -
  obtain t where t: "acquire_ptable c s = Inr t" using assms by (auto simp: kill_def bindE_eq_Inr_iff)
  then have st: "procs t = procs s" by (auto dest!: same_procs)
  let ?k = "\<lambda>i. upd_proc i (\<lambda>p. p\<lparr>p_killed := True\<rparr>) t" and ?r = "\<lambda>i. upd_proc i (\<lambda>p. p\<lparr>p_state := RUNNABLE\<rparr>)"
  have k: "calm a s (?k i)" for i using st by (intro calm_upd) (simp_all add: on_chan_def)
  consider "release_ptable c t = Inr s'" | i where "release_ptable c (?k i) = Inr s'" | i v where "enqueue i (?r i (?k i)) = Inr v" "release_ptable c v = Inr s'"
    using assms t by (auto simp: kill_def bindE_eq_Inr_iff Let_def split: if_splits option.splits)
  then show ?thesis
  proof cases
    case (2 i)
    then have "calm a (?k i) s'" by (auto dest!: same_procs intro: calm_same)
    then show ?thesis using k calm_trans by blast
  next
    case (3 i v)
    have "calm a (?k i) (?r i (?k i))" by (rule calm_upd) simp_all
    moreover have "calm a (?r i (?k i)) s'" using 3 by (auto dest!: same_procs intro: calm_same)
    ultimately show ?thesis using k calm_trans by blast
  qed (use st in \<open>auto dest!: same_procs intro: calm_same\<close>)
qed

lemma calm_unfreeze_scan: "unfreeze_scan is s = Inr s' \<Longrightarrow> calm a s s'"
proof (induction "is" arbitrary: s)
  case (Cons i "is")
  let ?u = "upd_proc i (\<lambda>p. p\<lparr>p_state := RUNNABLE\<rparr>) s"
  show ?case
  proof (cases "p_state (procs s ! i) = WAITING")
    case True
    then obtain t where t: "enqueue i ?u = Inr t" "unfreeze_scan is t = Inr s'" using Cons.prems by (auto simp: bindE_eq_Inr_iff)
    have "calm a s ?u" by (rule calm_upd) simp_all
    moreover have "calm a ?u t" using t(1) by (auto dest!: same_procs intro: calm_same)
    ultimately show ?thesis using Cons.IH [OF t(2)] calm_trans by blast
  qed (use Cons in simp)
qed (simp add: calm_def)

lemma calm_freeze:
  assumes "freeze c f s = Inr s'"
  shows "calm a s s'"
proof (cases f)
  case False
  then obtain t u where "acquire_ptable c (s\<lparr>frozen := 0\<rparr>) = Inr t" "unfreeze_scan [0..<NPROC] t = Inr u" "release_ptable c u = Inr s'"
    using assms by (auto simp: freeze_def bindE_eq_Inr_iff)
  then have "calm a s t" "calm a t u" "calm a u s'" by (auto dest!: same_procs intro: calm_same calm_unfreeze_scan)
  then show ?thesis using calm_trans by blast
qed (use assms in \<open>auto simp: freeze_def intro: calm_same\<close>)

lemma calm_into: "calm a s t \<Longrightarrow> procs u = procs t \<Longrightarrow> calm a s u"
  by (simp add: calm_def)

lemma calm_fields [simp]:
  "calm a s (t\<lparr>km := k\<rparr>) = calm a s t" "calm a s (t\<lparr>ftable := ft\<rparr>) = calm a s t" "calm a s (t\<lparr>icache := ic\<rparr>) = calm a s t"
  "calm a s (t\<lparr>interrupt := i\<rparr>) = calm a s t" "calm a s (t\<lparr>nextpid := n\<rparr>) = calm a s t"
  by (simp_all add: calm_def)

lemma calm_then: "calm a s t \<Longrightarrow> (\<And>p. on_chan a (f p) \<Longrightarrow> on_chan a p) \<Longrightarrow> calm a s (upd_proc i f t)"
  using calm_trans calm_upd by blast

lemma calm_growproc:
  assumes "growproc sy c n s = Inr (ok, s')"
  shows "calm a s s'"
proof -
  have "calm a s (upd_proc me (\<lambda>p. p\<lparr>p_sz := sz\<rparr>) (s\<lparr>km := k\<rparr>))" for me sz k by (rule calm_upd) (simp_all add: on_chan_def)
  then have sw: "calm a s t" if "switchuvm c me (upd_proc me (\<lambda>p. p\<lparr>p_sz := sz\<rparr>) (s\<lparr>km := k\<rparr>)) = Inr t" for me sz k t
    using calm_into same_procs(4) [OF that] by blast
  show ?thesis using assms sw [of _ _ "km s"]
    by (auto simp: growproc_def bindE_eq_Inr_iff Let_def split: option.splits if_splits intro: calm_same sw)
qed

lemma calm_print: "print c t1 t2 fl s = Inr (rows, m, s') \<Longrightarrow> calm a s s'"
  by (auto simp: print_def getData_def Let_def on_chan_def split: option.splits if_splits intro: calm_same intro!: calm_upd)

lemma calm_allocproc:
  assumes "allocproc sy c s = Inr (r, s')"
  shows "calm a s s'"
proof -
  obtain t where t: "acquire_ptable c s = Inr t" using assms by (auto simp: allocproc_def bindE_eq_Inr_iff)
  then have st: "procs t = procs s" by (auto dest!: same_procs)
  show ?thesis
  proof (cases "first_idx (\<lambda>p. p_state p = UNUSED) (procs t)")
    case None
    then have "release_ptable c t = Inr s'" using assms t by (auto simp: allocproc_def bindE_eq_Inr_iff)
    then show ?thesis using st by (auto dest!: same_procs intro: calm_same)
  next
    case (Some j)
    let ?d = "upd_proc j (\<lambda>p. p\<lparr>p_state := EMBRYO, p_pid := nextpid t\<rparr>) t"
    let ?e = "?d\<lparr>nextpid := nextpid ?d + 1\<rparr>"
    obtain u where u: "release_ptable c ?e = Inr u" using assms t Some by (auto simp: allocproc_def bindE_eq_Inr_iff Let_def)
    obtain ks k where k: "kalloc (km u) = (ks, k)" by fastforce
    have "calm a s ?d" using st by (intro calm_upd) (simp_all add: on_chan_def)
    then have "calm a s u" using same_procs(2) [OF u] by (auto intro: calm_into)
    then have v: "calm a s (upd_proc j (\<lambda>p. p\<lparr>p_kstack := ks\<rparr>) (u\<lparr>km := k\<rparr>))" (is "calm a s ?v")
      by (intro calm_then) (simp_all add: on_chan_def)
    have "s' = upd_proc j (\<lambda>p. p\<lparr>p_state := UNUSED\<rparr>) ?v \<or> (\<exists>k i tf ctx. s' = upd_proc j (\<lambda>p. p\<lparr>p_tf := tf, p_context := ctx, p_kont := AtForkret,
        p_D := 0, p_C := 0, p_ctxswt := 0, p_arrtime := 0, p_firstsch := 0, p_P := 0, p_O := 0\<rparr>) (?v\<lparr>km := k, interrupt := i\<rparr>))"
      using assms t Some u k by (auto simp: allocproc_def bindE_eq_Inr_iff Let_def split: if_splits)
    then show ?thesis using v by (auto simp: on_chan_def intro!: calm_then)
  qed
qed

lemma calm_fork_admit:
  assumes "fork_admit c np tsc d cc pr th s = Inr s'"
  shows "calm a s s'"
proof -
  obtain t where t: "acquire_ptable c s = Inr t" using assms by (auto simp: fork_admit_def bindE_eq_Inr_iff)
  then have st: "procs t = procs s" by (auto dest!: same_procs)
  let ?u = "upd_proc np (\<lambda>p. p\<lparr>p_state := RUNNABLE, p_D := d, p_C := cc, p_P := pr, p_O := th, p_ctxswt := 0\<rparr>) t"
  have u: "calm a s ?u" using st by (intro calm_upd) (simp_all add: on_chan_def)
  consider "release_ptable c (upd_proc np (\<lambda>p. p\<lparr>p_state := WAITING\<rparr>) ?u) = Inr s'" | v where "enqueue np (upd_proc np (\<lambda>p. p\<lparr>p_arrtime := tick tsc\<rparr>) ?u) = Inr v" "release_ptable c v = Inr s'"
    using assms t by (auto simp: fork_admit_def bindE_eq_Inr_iff Let_def split: if_splits)
  then show ?thesis
  proof cases
    case 1
    have "calm a s (upd_proc np (\<lambda>p. p\<lparr>p_state := WAITING\<rparr>) ?u)" by (intro calm_then u) simp
    then show ?thesis using same_procs(2) [OF 1] calm_into by blast
  next
    case 2
    have "calm a s (upd_proc np (\<lambda>p. p\<lparr>p_arrtime := tick tsc\<rparr>) ?u)" by (intro calm_then u) (simp add: on_chan_def)
    then have "calm a s v" using same_procs(5) [OF 2(1)] by (rule calm_into)
    then show ?thesis using same_procs(2) [OF 2(2)] by (rule calm_into)
  qed
qed

lemma calm_fork:
  assumes "fork sy c tsc d cc pr th s = Inr (pid, s')"
  shows "calm a s s'"
proof -
  obtain me r t where t: "cproc (cpus s c) = Some me" "allocproc sy c s = Inr (r, t)" using assms by (auto simp: fork_def bindE_eq_Inr_iff split: option.splits)
  note st = calm_allocproc [OF t(2)]
  show ?thesis
  proof (cases r)
    case None
    then show ?thesis using assms t st by (simp add: fork_def)
  next
    case (Some np)
    let ?g = "\<lambda>d' k. upd_proc np (\<lambda>p. p\<lparr>p_pgdir := d'\<rparr>) (t\<lparr>km := k\<rparr>)"
    obtain d' k where k: "copyuvm (sym_end sy) (sym_data sy) (km t) (p_pgdir (procs t ! me)) (p_sz (procs t ! me)) = Inr (d', k)"
      using assms t Some by (auto simp: fork_def bindE_eq_Inr_iff)
    have g: "calm a s (?g d' k)" using st by (intro calm_then) (simp_all add: on_chan_def)
    show ?thesis
    proof (cases "d' = 0")
      case True
      then obtain k' where "s' = upd_proc np (\<lambda>p. p\<lparr>p_kstack := 0, p_state := UNUSED\<rparr>) ((?g d' k)\<lparr>km := k'\<rparr>)"
        using assms t Some k by (auto simp: fork_def bindE_eq_Inr_iff Let_def)
      moreover have "calm a s ((?g d' k)\<lparr>km := k'\<rparr>)" using g by simp
      ultimately show ?thesis by (simp only:) (rule calm_then, simp_all add: on_chan_def)
    next
      case False
      let ?h = "\<lambda>sz. upd_proc np (\<lambda>p. p\<lparr>p_sz := sz, p_parent := Some me\<rparr>) (?g d' k)"
      have h: "calm a s (?h sz)" for sz using g by (rule calm_then) (simp add: on_chan_def)
      obtain sz k' fs ft ic ip nm where "fork_admit c np tsc d cc pr th
          (upd_proc np (\<lambda>p. p\<lparr>p_ofile := fs, p_cwd := Some ip, p_name := nm\<rparr>) ((?h sz)\<lparr>km := k', ftable := ft, icache := ic\<rparr>)) = Inr s'"
        using assms t Some k False by (auto simp: fork_def bindE_eq_Inr_iff Let_def split: option.splits)
      moreover have "calm a s (upd_proc np (\<lambda>p. p\<lparr>p_ofile := fs, p_cwd := Some ip, p_name := nm\<rparr>) ((?h sz)\<lparr>km := k', ftable := ft, icache := ic\<rparr>))"
        by (rule calm_then) (use h [of sz] in \<open>simp_all add: on_chan_def\<close>)
      ultimately show ?thesis using calm_fork_admit calm_trans by blast
    qed
  qed
qed

lemma calm_kernel_op: "kernel_op sy a c s s' \<Longrightarrow> calm a s s'"
  by (induction rule: kernel_op.induct)
     (blast intro: calm_scheduler calm_yield calm_sleep_call calm_wakeup calm_fork calm_exit calm_wait calm_kill calm_freeze calm_growproc calm_print)+

text \<open>An operation either leaves \<open>ptable.lock\<close> alone or found it free.\<close>

lemma acquire_ptable_free: "acquire_ptable c s = Inr s' \<Longrightarrow> \<not> locked (plock s) \<and> holding c (plock s')"
  by (auto simp: acquire_ptable_def bindE_eq_Inr_iff acquire_Inr_iff holding_def)

lemma kernel_op_plock: "kernel_op sy a c s s' \<Longrightarrow> \<not> locked (plock s) \<or> plock s' = plock s"
proof (induction rule: kernel_op.induct)
  case (ko_sched tsc s r s')
  then obtain t where "acquire_ptable c (upd_cpu c sti s) = Inr t" by (auto simp: scheduler_def bindE_eq_Inr_iff)
  then show ?case by (auto dest!: acquire_ptable_free simp: upd_cpu_def)
next
  case (ko_sleep ch lk s la s')
  then obtain k t where "acquire_ptable c (s\<lparr>cpus := (cpus s)(c := k)\<rparr>) = Inr t" by (auto simp: sleep_call_def sleep_def bindE_eq_Inr_iff split: option.splits)
  then show ?case by (auto dest!: acquire_ptable_free)
next
  case (ko_fork tsc d cc pr th s pid s')
  then obtain t where "acquire_ptable c s = Inr t" by (auto simp: fork_def allocproc_def bindE_eq_Inr_iff split: option.splits)
  then show ?case by (auto dest!: acquire_ptable_free)
next
  case (ko_exit tscs tscs' s s')
  then obtain t where "acquire_ptable c s = Inr t" by (auto simp: exit_proc_def bindE_eq_Inr_iff split: option.splits if_splits)
  then show ?case by (auto dest!: acquire_ptable_free)
next
  case (ko_freeze f s s')
  then show ?case by (cases f) (auto simp: freeze_def bindE_eq_Inr_iff dest!: acquire_ptable_free)
next
  case (ko_growproc n s ok s')
  have "plock t = plock u" if "switchuvm c me u = Inr t" for me t u
    using that by (auto simp: switchuvm_def bindE_eq_Inr_iff Let_def split: option.splits if_splits)
  with ko_growproc show ?case by (auto simp: growproc_def bindE_eq_Inr_iff Let_def upd_proc_def split: option.splits if_splits)
next
  case (ko_print t1 t2 fl s rows m s')
  then show ?case by (auto simp: print_def getData_def Let_def upd_proc_def split: option.splits if_splits)
qed (auto simp: yield_def wakeup_def wait_def kill_def bindE_eq_Inr_iff dest!: acquire_ptable_free)

text \<open>A scan of the table that completes leaves nobody asleep on its channel.\<close>

lemma wakeup_scan_all:
  assumes "wakeup_scan tsc (Some (ChAddr a)) is s = Inr s'" and "i \<in> set is" and "i < length (procs s)" and "on_chan a (procs s ! i)"
  shows "p_state (procs s' ! i) = RUNNABLE"
  using assms
proof (induction "is" arbitrary: s)
  case (Cons j "is")
  have runs: "p_state (procs t ! i) = RUNNABLE \<Longrightarrow> wakeup_scan tsc ch js t = Inr s' \<Longrightarrow> p_state (procs s' ! i) = RUNNABLE" for js t ch
  proof (induction js arbitrary: t)
    case (Cons j js)
    let ?u = "upd_proc j (\<lambda>p. p\<lparr>p_state := RUNNABLE, p_chan := None, p_arrtime := tick (tsc j), p_firstsch := 0, p_ctxswt := 0\<rparr>) t"
    have "p_state (procs ?u ! i) = RUNNABLE" using Cons.prems(1) by (cases "j < length (procs t)") (auto simp: upd_proc_def nth_list_update list_update_beyond)
    then have u: "p_state (procs (v\<lparr>interrupt := 1\<rparr>) ! i) = RUNNABLE" if "enqueue j ?u = Inr v" for v using same_procs(5) [OF that] by simp
    show ?case
    proof (cases "wakeup_scan tsc ch js t = Inr s'")
      case False
      then obtain v where "enqueue j ?u = Inr v" "wakeup_scan tsc ch js (v\<lparr>interrupt := 1\<rparr>) = Inr s'"
        using Cons.prems(2) by (auto simp: bindE_eq_Inr_iff split: if_splits)
      then show ?thesis using Cons.IH u by blast
    qed (use Cons in blast)
  qed simp
  let ?u = "\<lambda>j. upd_proc j (\<lambda>p. p\<lparr>p_state := RUNNABLE, p_chan := None, p_arrtime := tick (tsc j), p_firstsch := 0, p_ctxswt := 0\<rparr>) s"
  show ?case
  proof (cases "j = i")
    case True
    then obtain t where t: "enqueue i (?u i) = Inr t" "wakeup_scan tsc (Some (ChAddr a)) is (t\<lparr>interrupt := 1\<rparr>) = Inr s'"
      using Cons.prems by (auto simp: on_chan_def bindE_eq_Inr_iff)
    then have "p_state (procs (t\<lparr>interrupt := 1\<rparr>) ! i) = RUNNABLE" using Cons.prems(3) by (auto dest!: same_procs simp: upd_proc_def)
    then show ?thesis using runs t(2) by blast
  next
    case False
    then have i: "i \<in> set is" using Cons.prems(2) by simp
    show ?thesis
    proof (cases "wakeup_scan tsc (Some (ChAddr a)) is s = Inr s'")
      case False
      then obtain t where t: "enqueue j (?u j) = Inr t" "wakeup_scan tsc (Some (ChAddr a)) is (t\<lparr>interrupt := 1\<rparr>) = Inr s'"
        using Cons.prems(1) by (auto simp: bindE_eq_Inr_iff split: if_splits)
      have "procs (t\<lparr>interrupt := 1\<rparr>) ! i = procs s ! i" "length (procs (t\<lparr>interrupt := 1\<rparr>)) = length (procs s)"
        using same_procs(5) [OF t(1)] \<open>j \<noteq> i\<close> by (simp_all add: upd_proc_def)
      then show ?thesis using Cons.IH [OF t(2) i] Cons.prems(3,4) by simp
    qed (use Cons.IH i Cons.prems in blast)
  qed
qed simp

section \<open>No wakeup is lost\<close>

text \<open>Somebody has made the condition true and is about to enter \<open>wakeup\<close>, or holds \<open>ptable.lock\<close> in it and is
  about to scan the table.\<close>

definition signalled :: "wsys \<Rightarrow> bool" where
  "signalled w \<longleftrightarrow> (\<exists>d. at w d = InWakeup [AcqPtable, Scan, RelPtable])"

definition scanning :: "wsys \<Rightarrow> bool" where
  "scanning w \<longleftrightarrow> (\<exists>d. at w d = InWakeup [Scan, RelPtable])"

text \<open>What holds at each place of the code: the locks the processor has, and that a process on its way to
  sleep sleeps for a reason, or somebody who cannot have scanned the table yet is about to wake it.\<close>

fun place_ok :: "wsys \<Rightarrow> nat \<Rightarrow> place \<Rightarrow> bool" where
  "place_ok w c Outside \<longleftrightarrow> True"
| "place_ok w c Locked \<longleftrightarrow> holding c (condlk w)"
| "place_ok w c (InSleep ps) \<longleftrightarrow>
     ps = [AcqPtable, RelLk, Park] \<and> holding c (condlk w) \<and> \<not> cond w \<or>
     ps = [RelLk, Park] \<and> holding c (condlk w) \<and> holding c (plock (ker w)) \<and> \<not> cond w \<or>
     ps = [Park] \<and> holding c (plock (ker w)) \<and> (cond w \<longrightarrow> signalled w)"
| "place_ok w c (InWakeup ps) \<longleftrightarrow> holding c (condlk w) \<and>
     (ps = [AcqPtable, Scan, RelPtable] \<or> (ps = [Scan, RelPtable] \<or> ps = [RelPtable]) \<and> holding c (plock (ker w)))"

definition waiters :: "uint \<Rightarrow> wsys \<Rightarrow> bool" where
  "waiters a w \<longleftrightarrow> (\<exists>i < NPROC. on_chan a (procs (ker w) ! i))"

definition winv :: "uint \<Rightarrow> wsys \<Rightarrow> bool" where
  "winv a w \<longleftrightarrow> length (procs (ker w)) = NPROC \<and> (\<forall>c. place_ok w c (at w c)) \<and>
     (cond w \<and> waiters a w \<longrightarrow> signalled w \<or> scanning w)"

lemma holding_unique: "holding c lk \<Longrightarrow> holding d lk \<Longrightarrow> d = c"
  by (simp add: holding_def)

text \<open>A step of processor \<open>c\<close> keeps what holds at the others.\<close>

lemma place_ok_frame:
  assumes "place_ok w d l" and "condlk w' = condlk w \<or> \<not> holding d (condlk w)"
    and "plock (ker w') = plock (ker w) \<or> \<not> holding d (plock (ker w))"
    and "cond w' = cond w \<or> \<not> holding d (condlk w) \<and> signalled w' \<or> \<not> cond w'"
    and "holding d (plock (ker w)) \<Longrightarrow> signalled w \<Longrightarrow> signalled w'"
  shows "place_ok w' d l"
proof (cases l)
  case (InSleep ps)
  then show ?thesis using assms by auto
qed (use assms in auto)

lemma winvI:
  assumes "winv a w" and "length (procs (ker w')) = NPROC" and "place_ok w' c (at w' c)"
    and "\<And>d. d \<noteq> c \<Longrightarrow> at w' d = at w d"
    and "\<And>d. d \<noteq> c \<Longrightarrow> condlk w' = condlk w \<or> \<not> holding d (condlk w)"
    and "\<And>d. d \<noteq> c \<Longrightarrow> plock (ker w') = plock (ker w) \<or> \<not> holding d (plock (ker w))"
    and "\<And>d. d \<noteq> c \<Longrightarrow> cond w' = cond w \<or> \<not> holding d (condlk w) \<and> signalled w' \<or> \<not> cond w'"
    and "\<And>d. d \<noteq> c \<Longrightarrow> holding d (plock (ker w)) \<Longrightarrow> signalled w \<Longrightarrow> signalled w'"
    and "cond w' \<Longrightarrow> waiters a w' \<Longrightarrow> signalled w' \<or> scanning w'"
  shows "winv a w'"
proof -
  have "place_ok w' d (at w' d)" for d
  proof (cases "d = c")
    case False
    then have "place_ok w d (at w' d)" using assms(1,4) by (simp add: winv_def)
    then show ?thesis using assms(5-8) [OF False] by (rule place_ok_frame)
  qed (use assms(3) in simp)
  then show ?thesis using assms(2,9) by (simp add: winv_def)
qed

text \<open>What each operation of the two sequences does.\<close>

lemma op_AcqPtable:
  assumes "op_step c tsc ch AcqPtable (lk, s) = Inr (lk', s')"
  shows "lk' = lk" and "procs s' = procs s" and "\<not> locked (plock s)" and "holding c (plock s')"
proof -
  have "acquire_ptable c s = Inr s'" "lk' = lk" using assms by (auto simp: bindE_eq_Inr_iff)
  then show "lk' = lk" "procs s' = procs s" "\<not> locked (plock s)" "holding c (plock s')" using acquire_ptable_free same_procs(1) by blast+
qed

lemma op_RelPtable:
  assumes "op_step c tsc ch RelPtable (lk, s) = Inr (lk', s')"
  shows "lk' = lk" and "procs s' = procs s" and "holding c (plock s)"
  using assms by (auto simp: bindE_eq_Inr_iff release_ptable_def release_def split: if_splits)

lemma op_RelLk:
  assumes "op_step c tsc ch RelLk (lk, s) = Inr (lk', s')"
  shows "plock s' = plock s" and "procs s' = procs s" and "holding c lk"
  using assms by (auto simp: bindE_eq_Inr_iff release_other_def release_def split: if_splits)

lemma op_Park:
  assumes "op_step c tsc (ChAddr a) Park (lk, s) = Inr (lk', s')"
  shows "lk' = lk" and "length (procs s') = length (procs s)"
proof -
  obtain me where me: "sleep_on c me (Some (ChAddr a)) AtSleep s = Inr s'" "lk' = lk" using assms by (auto simp: bindE_eq_Inr_iff split: option.splits)
  then show "lk' = lk" by simp
  have "calm (a + 1) s s'" by (rule calm_sleep_on [OF me(1)]) simp
  then show "length (procs s') = length (procs s)" by (simp add: calm_def)
qed

lemma wakeup_scan_plock: "wakeup_scan tsc ch is s = Inr s' \<Longrightarrow> plock s' = plock s"
proof (induction "is" arbitrary: s)
  case (Cons i "is")
  show ?case
  proof (cases "wakeup_scan tsc ch is s = Inr s'")
    case False
    then obtain t where t: "enqueue i (upd_proc i (\<lambda>p. p\<lparr>p_state := RUNNABLE, p_chan := None, p_arrtime := tick (tsc i), p_firstsch := 0, p_ctxswt := 0\<rparr>) s) = Inr t"
        "wakeup_scan tsc ch is (t\<lparr>interrupt := 1\<rparr>) = Inr s'"
      using Cons.prems by (auto simp: bindE_eq_Inr_iff split: if_splits)
    have "plock t = plock s" using t(1) by (auto simp: enqueue_def upd_proc_def Let_def split: if_splits)
    then show ?thesis using Cons.IH [OF t(2)] by simp
  qed (rule Cons.IH)
qed simp

lemma op_Scan:
  assumes "op_step c tsc (ChAddr a) Scan (lk, s) = Inr (lk', s')" and "length (procs s) = NPROC"
  shows "lk' = lk" and "plock s' = plock s" and "length (procs s') = NPROC"
    and "i < NPROC \<Longrightarrow> on_chan a (procs s ! i) \<Longrightarrow> p_state (procs s' ! i) = RUNNABLE"
    and "i < NPROC \<Longrightarrow> \<not> on_chan a (procs s' ! i)"
proof -
  have s': "wakeup_scan tsc (Some (ChAddr a)) [0..<NPROC] s = Inr s'" and "lk' = lk" using assms(1) by (auto simp: wakeup1_def bindE_eq_Inr_iff)
  then show "lk' = lk" by simp
  show "plock s' = plock s" by (rule wakeup_scan_plock [OF s'])
  have calm: "calm a s s'" by (rule calm_wakeup_scan [OF s'])
  then show "length (procs s') = NPROC" using assms(2) by (simp add: calm_def)
  have run: "i < NPROC \<Longrightarrow> on_chan a (procs s ! i) \<Longrightarrow> p_state (procs s' ! i) = RUNNABLE" for i
    using wakeup_scan_all [OF s', of i] assms(2) by simp
  then show "i < NPROC \<Longrightarrow> on_chan a (procs s ! i) \<Longrightarrow> p_state (procs s' ! i) = RUNNABLE" .
  show "\<not> on_chan a (procs s' ! i)" if "i < NPROC"
  proof
    assume on: "on_chan a (procs s' ! i)"
    then have "on_chan a (procs s ! i)" using calm by (simp add: calm_def)
    with run [OF that] on show False by (simp add: on_chan_def)
  qed
qed

lemma take_op_Some:
  "take_op a tsc c p l w = Some w' \<longleftrightarrow>
     (\<exists>lk s. op_step c tsc (ChAddr a) p (condlk w, ker w) = Inr (lk, s) \<and> w' = w\<lparr>ker := s, condlk := lk, at := (at w)(c := l)\<rparr>)"
  by (auto simp: take_op_def split: sum.splits)

lemma signalled_upd:
  "at w c \<noteq> InWakeup [AcqPtable, Scan, RelPtable] \<Longrightarrow> signalled w \<Longrightarrow> at w' = (at w)(c := l) \<Longrightarrow> signalled w'"
  "at w c \<noteq> InWakeup [Scan, RelPtable] \<Longrightarrow> scanning w \<Longrightarrow> at w' = (at w)(c := l) \<Longrightarrow> scanning w'"
  unfolding signalled_def scanning_def by (metis fun_upd_apply)+

text \<open>The steps of a call of \<open>sleep\<close>.\<close>

lemma winv_sleep:
  assumes inv: "winv a w" and at: "at w c = InSleep (p # ps)" and w': "take_op a tsc c p (in_sleep ps) w = Some w'"
  shows "winv a w'"
proof -
  have ok: "place_ok w c (InSleep (p # ps))" and len: "length (procs (ker w)) = NPROC"
    and wait: "cond w \<Longrightarrow> waiters a w \<Longrightarrow> signalled w \<or> scanning w" using inv at unfolding winv_def by metis+
  obtain lk s where s: "op_step c tsc (ChAddr a) p (condlk w, ker w) = Inr (lk, s)" "w' = w\<lparr>ker := s, condlk := lk, at := (at w)(c := in_sleep ps)\<rparr>"
    using w' by (auto simp: take_op_Some)
  have at': "at w' = (at w)(c := in_sleep ps)" and same: "cond w' = cond w" using s(2) by simp_all
  have keep: "signalled w \<Longrightarrow> signalled w'" "scanning w \<Longrightarrow> scanning w'" using signalled_upd [OF _ _ at'] at by auto
  consider "p = AcqPtable" "ps = [RelLk, Park]" | "p = RelLk" "ps = [Park]" | "p = Park" "ps = []" using ok by auto
  then show ?thesis
  proof cases
    case 1
    note o = op_AcqPtable [OF s(1) [unfolded 1]]
    show ?thesis
    proof (rule winvI [OF inv, of w' c])
      show "place_ok w' c (at w' c)" using ok 1 o s(2) by (simp add: in_sleep_def)
      show "cond w' \<Longrightarrow> waiters a w' \<Longrightarrow> signalled w' \<or> scanning w'" using wait keep o(2) s(2) by (auto simp: waiters_def)
    qed (use o s(2) len keep in \<open>auto simp: holding_def\<close>)
  next
    case 2
    note o = op_RelLk [OF s(1) [unfolded 2]]
    show ?thesis
    proof (rule winvI [OF inv, of w' c])
      show "place_ok w' c (at w' c)" using ok 2 o s(2) by (simp add: in_sleep_def)
      show "cond w' \<Longrightarrow> waiters a w' \<Longrightarrow> signalled w' \<or> scanning w'" using wait keep o(2) s(2) by (auto simp: waiters_def)
    qed (use o s(2) len keep in \<open>auto simp: holding_def\<close>)
  next
    case 3
    note o = op_Park [OF s(1) [unfolded 3]]
    have h: "holding c (plock (ker w))" "cond w \<Longrightarrow> signalled w" using ok 3 by auto
    show ?thesis
    proof (rule winvI [OF inv, of w' c])
      show "place_ok w' c (at w' c)" using 3 s(2) by (simp add: in_sleep_def)
    qed (use o s(2) len keep h in \<open>auto simp: holding_def\<close>)
  qed
qed

text \<open>The steps of a call of \<open>wakeup\<close>.\<close>

lemma winv_wakeup:
  assumes inv: "winv a w" and at: "at w c = InWakeup (p # ps)" and w': "take_op a tsc c p (in_wakeup ps) w = Some w'"
  shows "winv a w'"
proof -
  have ok: "place_ok w c (InWakeup (p # ps))" and len: "length (procs (ker w)) = NPROC"
    and wait: "cond w \<Longrightarrow> waiters a w \<Longrightarrow> signalled w \<or> scanning w" using inv at unfolding winv_def by metis+
  obtain lk s where s: "op_step c tsc (ChAddr a) p (condlk w, ker w) = Inr (lk, s)" "w' = w\<lparr>ker := s, condlk := lk, at := (at w)(c := in_wakeup ps)\<rparr>"
    using w' by (auto simp: take_op_Some)
  have at': "at w' = (at w)(c := in_wakeup ps)" and same: "cond w' = cond w" using s(2) by simp_all
  consider "p = AcqPtable" "ps = [Scan, RelPtable]" | "p = Scan" "ps = [RelPtable]" | "p = RelPtable" "ps = []" using ok by auto
  then show ?thesis
  proof cases
    case 1
    note o = op_AcqPtable [OF s(1) [unfolded 1]]
    have "scanning w'" using at' 1 by (auto simp: scanning_def in_wakeup_def)
    then show ?thesis
      by (intro winvI [OF inv, of w' c]) (use ok 1 o s(2) len in \<open>auto simp: holding_def in_wakeup_def\<close>)
  next
    case 2
    note o = op_Scan [OF s(1) [unfolded 2] len]
    have "\<not> waiters a w'" using o(5) s(2) by (simp add: waiters_def)
    moreover have "signalled w \<Longrightarrow> signalled w'" using signalled_upd(1) [OF _ _ at'] at 2 by auto
    ultimately show ?thesis
      by (intro winvI [OF inv, of w' c]) (use ok 2 o(1-3) s(2) in \<open>auto simp: in_wakeup_def\<close>)
  next
    case 3
    note o = op_RelPtable [OF s(1) [unfolded 3]]
    have keep: "signalled w \<Longrightarrow> signalled w'" "scanning w \<Longrightarrow> scanning w'" using signalled_upd [OF _ _ at'] at 3 by auto
    show ?thesis
      by (intro winvI [OF inv, of w' c]) (use ok 3 o s(2) len wait keep in \<open>auto simp: in_wakeup_def holding_def waiters_def\<close>)
  qed
qed

lemma winv_event:
  assumes inv: "winv a w" and w': "wexec a tsc c e w = Some w'"
  shows "winv a w'"
proof (cases e)
  case Lock
  then obtain k lk where a: "at w c = Outside" "acquire c (cpus (ker w) c, condlk w) = Inr (k, lk)"
      and s: "w' = w\<lparr>ker := (ker w)\<lparr>cpus := (cpus (ker w))(c := k)\<rparr>, condlk := lk, at := (at w)(c := Locked)\<rparr>"
    using w' by (auto split: if_splits sum.splits)
  have lk: "\<not> locked (condlk w)" "holding c lk" using a(2) by (auto simp: acquire_Inr_iff holding_def)
  have at': "at w' = (at w)(c := Locked)" using s by simp
  have keep: "signalled w \<Longrightarrow> signalled w'" "scanning w \<Longrightarrow> scanning w'" using signalled_upd [OF _ _ at'] a(1) by auto
  show ?thesis
    by (rule winvI [OF inv, of w' c]) (use inv lk s keep in \<open>auto simp: winv_def waiters_def holding_def\<close>)
next
  case Wait
  then have a: "at w c = Locked" "\<not> cond w" and s: "w' = w\<lparr>at := (at w)(c := InSleep sleep_code)\<rparr>" using w' by (auto split: if_splits)
  have at': "at w' = (at w)(c := InSleep sleep_code)" using s by simp
  have keep: "signalled w \<Longrightarrow> signalled w'" using signalled_upd(1) [OF _ _ at'] a(1) by auto
  have ok: "holding c (condlk w)" using inv a(1) unfolding winv_def by (metis place_ok.simps(2))
  show ?thesis
    by (rule winvI [OF inv, of w' c]) (use inv ok a s keep in \<open>auto simp: winv_def sleep_code_def\<close>)
next
  case Signal
  then have a: "at w c = Locked" and s: "w' = w\<lparr>cond := True, at := (at w)(c := InWakeup wakeup_code)\<rparr>" using w' by (auto split: if_splits)
  have sig: "signalled w'" using s by (auto simp: signalled_def wakeup_code_def)
  have ok: "holding c (condlk w)" using inv a(1) unfolding winv_def by (metis place_ok.simps(2))
  show ?thesis
    by (rule winvI [OF inv, of w' c]) (use inv ok s sig in \<open>auto simp: winv_def wakeup_code_def holding_def\<close>)
next
  case Consume
  then have a: "at w c = Locked" and s: "w' = w\<lparr>cond := False\<rparr>" using w' by (auto split: if_splits)
  have ok: "holding c (condlk w)" using inv a(1) unfolding winv_def by (metis place_ok.simps(2))
  show ?thesis
    by (rule winvI [OF inv, of w' c]) (use inv a ok s in \<open>auto simp: winv_def signalled_def\<close>)
next
  case Unlock
  then obtain lk s where a: "at w c = Locked" and s: "op_step c tsc (ChAddr a) RelLk (condlk w, ker w) = Inr (lk, s)" "w' = w\<lparr>ker := s, condlk := lk, at := (at w)(c := Outside)\<rparr>"
    using w' by (auto simp: take_op_Some simp del: op_step.simps split: if_splits)
  note o = op_RelLk [OF s(1)]
  have at': "at w' = (at w)(c := Outside)" using s by simp
  have keep: "signalled w \<Longrightarrow> signalled w'" "scanning w \<Longrightarrow> scanning w'" using signalled_upd [OF _ _ at'] a(1) by auto
  show ?thesis
    by (rule winvI [OF inv, of w' c]) (use inv o s(2) keep in \<open>auto simp: winv_def waiters_def holding_def\<close>)
next
  case Next
  then consider p ps where "at w c = InSleep (p # ps)" "take_op a tsc c p (in_sleep ps) w = Some w'"
    | p ps where "at w c = InWakeup (p # ps)" "take_op a tsc c p (in_wakeup ps) w = Some w'"
    using w' by (auto split: place.splits list.splits)
  then show ?thesis by cases (use winv_sleep winv_wakeup inv in blast)+
qed

lemma winv_kernel:
  assumes inv: "winv a w" and "at w c = Outside" and op: "kernel_op sy a c (ker w) s'"
  shows "winv a (w\<lparr>ker := s'\<rparr>)"
proof (rule winvI [OF inv, of _ c])
  have calm: "calm a (ker w) s'" by (rule calm_kernel_op [OF op])
  then show "length (procs (ker (w\<lparr>ker := s'\<rparr>))) = NPROC" using inv by (simp add: calm_def winv_def)
  show "plock (ker (w\<lparr>ker := s'\<rparr>)) = plock (ker w) \<or> \<not> holding d (plock (ker w))" for d
    using kernel_op_plock [OF op] by (auto simp: holding_def)
  show "signalled (w\<lparr>ker := s'\<rparr>) \<or> scanning (w\<lparr>ker := s'\<rparr>)" if "cond (w\<lparr>ker := s'\<rparr>)" "waiters a (w\<lparr>ker := s'\<rparr>)"
    using inv that calm by (auto simp: winv_def waiters_def calm_def signalled_def scanning_def)
qed (use assms(2) in \<open>auto simp: signalled_def\<close>)

lemma wreach_winv: "wreach sy a w \<Longrightarrow> winv a w"
proof (induction rule: wreach.induct)
  case (wr_start w)
  then show ?case by (auto simp: winv_def waiters_def)
qed (blast intro: winv_event winv_kernel)+

text \<open>C23: No wakeup is lost.  Whatever the interleaving of processors that wait for a condition, make it true, or use
  the process table otherwise: (1) if the condition is true and a process sleeps on its channel, some processor is in
  \<open>wakeup\<close> on that channel and has not scanned the table yet; (2) the scan, when it completes, makes
  every process that sleeps on the channel RUNNABLE; (3) so whenever the lock of the condition is free and
  the condition holds, nobody sleeps on the channel.\<close>

theorem no_lost_wakeup:
  assumes "wreach sy a w"
  shows "(cond w \<and> i < NPROC \<and> p_state (procs (ker w) ! i) = SLEEPING \<and> p_chan (procs (ker w) ! i) = Some (ChAddr a) \<longrightarrow>
      (\<exists>d. at w d = InWakeup [AcqPtable, Scan, RelPtable] \<or> at w d = InWakeup [Scan, RelPtable])) \<and>
    (op_step d tsc (ChAddr a) Scan (condlk w, ker w) = Inr (lk, s') \<longrightarrow>
      i < NPROC \<and> p_state (procs (ker w) ! i) = SLEEPING \<and> p_chan (procs (ker w) ! i) = Some (ChAddr a) \<longrightarrow>
      p_state (procs s' ! i) = RUNNABLE) \<and>
    (cond w \<and> \<not> locked (condlk w) \<longrightarrow>
      \<not> (i < NPROC \<and> p_state (procs (ker w) ! i) = SLEEPING \<and> p_chan (procs (ker w) ! i) = Some (ChAddr a)))"
proof -
  have inv: "winv a w" by (rule wreach_winv [OF assms])
  have one: "\<exists>d. at w d = InWakeup [AcqPtable, Scan, RelPtable] \<or> at w d = InWakeup [Scan, RelPtable]"
    if "cond w" "i < NPROC" "on_chan a (procs (ker w) ! i)" for i
    using inv that unfolding winv_def waiters_def signalled_def scanning_def by metis
  have lock: "locked (condlk w)" if "at w d = InWakeup ps" for d ps
  proof -
    have "place_ok w d (InWakeup ps)" using inv that unfolding winv_def by metis
    then show ?thesis by (simp add: holding_def)
  qed
  have "length (procs (ker w)) = NPROC" using inv by (simp add: winv_def)
  then show ?thesis using one lock op_Scan(4) unfolding on_chan_def by (metis (no_types, lifting))
qed

text \<open>Processor 0 runs a process that waits; between its \<open>release(lk)\<close> and its going to sleep processor 1
  makes the condition true.\<close>

fun wrun :: "uint \<Rightarrow> (nat \<times> wevent) list \<Rightarrow> wsys \<Rightarrow> wsys option" where
  "wrun a [] w = Some w"
| "wrun a ((c, e) # es) w = (case wexec a (\<lambda>_. 0) c e w of None \<Rightarrow> None | Some w \<Rightarrow> wrun a es w)"

lemma wreach_wrun: "wreach sy a w \<Longrightarrow> wrun a es w = Some w' \<Longrightarrow> wreach sy a w'"
proof (induction es arbitrary: w)
  case (Cons x es)
  obtain c e where "x = (c, e)" by (cases x)
  then obtain v where "wexec a (\<lambda>_. 0) c e w = Some v" "wrun a es v = Some w'" using Cons.prems(2) by (auto split: option.splits)
  then show ?case using Cons.IH wr_event [OF Cons.prems(1)] by blast
qed simp

definition demo_wsys :: wsys where
  "demo_wsys = \<lparr>ker = demo_pair WAITING 7 None, condlk = initlock ''cond'', cond = False, at = (\<lambda>_. Outside)\<rparr>"

definition demo_race :: "(nat \<times> wevent) list" where
  "demo_race = [(0, Lock), (0, Wait), (0, Next), (0, Next), (1, Lock), (1, Signal), (0, Next)]"

lemma demo_race_sleeps:
  "case wrun 8 demo_race demo_wsys of None \<Rightarrow> False
   | Some w \<Rightarrow> cond w \<and> on_chan 8 (procs (ker w) ! 0) \<and> at w 1 = InWakeup wakeup_code \<and>
       (case wrun 8 [(1, Next)] w of None \<Rightarrow> False
        | Some v \<Rightarrow> (case op_step 1 (\<lambda>_. 0) (ChAddr 8) Scan (condlk v, ker v) of Inl _ \<Rightarrow> False | Inr _ \<Rightarrow> on_chan 8 (procs (ker v) ! 0)))"
  by code_simp

theorem no_lost_wakeup_witness:
  "\<exists>w v lk s'. wreach demo_syms 8 w \<and> cond w \<and> p_state (procs (ker w) ! 0) = SLEEPING \<and> (\<exists>d. at w d = InWakeup [AcqPtable, Scan, RelPtable] \<or> at w d = InWakeup [Scan, RelPtable]) \<and>
     wreach demo_syms 8 v \<and> op_step 1 (\<lambda>_. 0) (ChAddr 8) Scan (condlk v, ker v) = Inr (lk, s') \<and> p_state (procs s' ! 0) = RUNNABLE"
proof -
  obtain w v lk s' where w: "wrun 8 demo_race demo_wsys = Some w" "cond w" "on_chan 8 (procs (ker w) ! 0)"
      and v: "wrun 8 [(1, Next)] w = Some v" "op_step 1 (\<lambda>_. 0) (ChAddr 8) Scan (condlk v, ker v) = Inr (lk, s')" "on_chan 8 (procs (ker v) ! 0)"
    using demo_race_sleeps by (auto simp del: wrun.simps op_step.simps split: option.splits sum.splits)
  have n: "0 < NPROC" by (simp add: NPROC_def)
  have "wreach demo_syms 8 demo_wsys"
    by (rule wr_start) (auto simp: demo_wsys_def demo_pair_def on_chan_def nth_list_update demo_proc_def zero_proc_def NPROC_def)
  then have r: "wreach demo_syms 8 w" "wreach demo_syms 8 v" using wreach_wrun w(1) v(1) by blast+
  show ?thesis
    using no_lost_wakeup [OF r(1), of 0] no_lost_wakeup [OF r(2), of 0 1 "\<lambda>_. 0" lk s'] w(2,3) v(2,3) n r unfolding on_chan_def by blast
qed

end
