(* ===== verification/Bio.thy ===== *)
theory Bio
  imports Prelude
begin

text \<open>
  The buffer cache (\<open>src/buf.h\<close>, \<open>src/bio.c\<close>) over the memory disk of \<open>src/memide.c\<close>.  Buffers
  are referred to by their index in \<open>bcache.buf\<close>; the doubly linked list through \<open>prev\<close> and
  \<open>next\<close> is the list \<open>lru\<close> of indices, most recently used first.  A block is its 512 bytes.
  \<open>dwrites\<close> records every write to the disk in order, so that a crash can be placed between any
  two of them; nothing reads it.
\<close>

section \<open>State (src/buf.h, src/fs.h)\<close>

type_synonym block = "uchar list"

definition BSIZE :: nat where "BSIZE = 512"
definition NBUF :: nat where "NBUF = 30"
definition FSSIZE :: uint where "FSSIZE = 1000"

record buf =
  b_busy :: bool
  b_valid :: bool
  b_dirty :: bool
  b_dev :: uint
  b_blockno :: uint
  b_data :: block

record dev =
  bufs :: "buf list"
  lru :: "nat list"
  disk :: "uint \<Rightarrow> block"
  disksize :: uint
  dwrites :: "(uint \<times> block) list"

definition upd_buf :: "nat \<Rightarrow> (buf \<Rightarrow> buf) \<Rightarrow> 'a dev_scheme \<Rightarrow> 'a dev_scheme" where
  "upd_buf i f s = s\<lparr>bufs := (bufs s)[i := f (bufs s ! i)]\<rparr>"

section \<open>Operations\<close>

definition zero_buf :: buf where
  "zero_buf = \<lparr>b_busy = False, b_valid = False, b_dirty = False, b_dev = 0, b_blockno = 0,
               b_data = replicate BSIZE 0\<rparr>"

text \<open>\<open>binit\<close> puts each buffer in turn at the head of the list.\<close>

definition binit :: "'a dev_scheme \<Rightarrow> 'a dev_scheme" where
  "binit s = s\<lparr>bufs := map (\<lambda>b. b\<lparr>b_dev := - 1\<rparr>) (bufs s), lru := rev [0..<length (bufs s)]\<rparr>"

text \<open>The memory disk.\<close>

definition iderw :: "nat \<Rightarrow> 'a dev_scheme \<Rightarrow> 'a dev_scheme res" where
  "iderw i s =
     (let b = bufs s ! i
      in if \<not> b_busy b then Inl (Panic ''iderw: buf not busy'')
         else if b_valid b \<and> \<not> b_dirty b then Inl (Panic ''iderw: nothing to do'')
         else if b_dev b \<noteq> 1 then Inl (Panic ''iderw: request not for disk 1'')
         else if b_blockno b \<ge> disksize s then Inl (Panic ''iderw: block out of range'')
         else if b_dirty b
         then Inr ((upd_buf i (\<lambda>b. b\<lparr>b_dirty := False, b_valid := True\<rparr>) s)
                     \<lparr>disk := (disk s)(b_blockno b := b_data b), dwrites := dwrites s @ [(b_blockno b, b_data b)]\<rparr>)
         else Inr (upd_buf i (\<lambda>b'. b'\<lparr>b_data := disk s (b_blockno b), b_valid := True\<rparr>) s))"

text \<open>The first entry of a list of buffer indices that passes a test.\<close>

fun scan :: "(buf \<Rightarrow> bool) \<Rightarrow> buf list \<Rightarrow> nat list \<Rightarrow> nat option" where
  "scan P bs [] = None"
| "scan P bs (i # is) = (if P (bs ! i) then Some i else scan P bs is)"

definition bget :: "uint \<Rightarrow> uint \<Rightarrow> 'a dev_scheme \<Rightarrow> (nat \<times> 'a dev_scheme) res" where
  "bget d n s =
     (case scan (\<lambda>b. b_dev b = d \<and> b_blockno b = n) (bufs s) (lru s) of
        Some i \<Rightarrow>
          if \<not> b_busy (bufs s ! i) then Inr (i, upd_buf i (\<lambda>b. b\<lparr>b_busy := True\<rparr>) s) else Inl Asleep
      | None \<Rightarrow>
         (case scan (\<lambda>b. \<not> b_busy b \<and> \<not> b_dirty b) (bufs s) (rev (lru s)) of
            Some i \<Rightarrow> Inr (i, upd_buf i (\<lambda>b. b\<lparr>b_dev := d, b_blockno := n, b_busy := True,
                                                 b_valid := False, b_dirty := False\<rparr>) s)
          | None \<Rightarrow> Inl (Panic ''bget: no buffers'')))"

definition bread :: "uint \<Rightarrow> uint \<Rightarrow> 'a dev_scheme \<Rightarrow> (nat \<times> 'a dev_scheme) res" where
  "bread d n s =
     bindE (bget d n s) (\<lambda>(i, s).
       if \<not> b_valid (bufs s ! i) then bindE (iderw i s) (\<lambda>s. Inr (i, s)) else Inr (i, s))"

definition bwrite :: "nat \<Rightarrow> 'a dev_scheme \<Rightarrow> 'a dev_scheme res" where
  "bwrite i s =
     (if \<not> b_busy (bufs s ! i) then Inl (Panic ''bwrite'')
      else iderw i (upd_buf i (\<lambda>b. b\<lparr>b_dirty := True\<rparr>) s))"

definition brelse :: "nat \<Rightarrow> 'a dev_scheme \<Rightarrow> 'a dev_scheme res" where
  "brelse i s =
     (if \<not> b_busy (bufs s ! i) then Inl (Panic ''brelse'')
      else Inr (upd_buf i (\<lambda>b. b\<lparr>b_busy := False\<rparr>) (s\<lparr>lru := i # remove1 i (lru s)\<rparr>)))"

section \<open>Invariant and abstraction\<close>

text \<open>No two buffers of the disk hold the same block, and a valid clean buffer agrees with the
  disk.\<close>

definition buf_ok :: "'a dev_scheme \<Rightarrow> buf \<Rightarrow> bool" where
  "buf_ok s b \<longleftrightarrow>
     (b_valid b \<and> b_dev b = 1 \<and> \<not> b_dirty b \<longrightarrow> b_data b = disk s (b_blockno b)) \<and>
     (b_busy b \<longrightarrow> b_dev b = 1) \<and> (b_dirty b \<longrightarrow> b_valid b \<and> b_dev b = 1) \<and> (b_valid b \<longrightarrow> b_dev b = 1 \<and> b_blockno b < disksize s)"

definition cache_inv :: "'a dev_scheme \<Rightarrow> bool" where
  "cache_inv s \<longleftrightarrow>
     distinct (lru s) \<and> set (lru s) = {..<length (bufs s)} \<and>
     (\<forall>i < length (bufs s). \<forall>j < length (bufs s).
        b_dev (bufs s ! i) = 1 \<and> b_dev (bufs s ! j) = 1 \<and>
        b_blockno (bufs s ! i) = b_blockno (bufs s ! j) \<longrightarrow> i = j) \<and>
     (\<forall>i < length (bufs s). buf_ok s (bufs s ! i))"

text \<open>The buffer of a block, and the contents of the block as the kernel sees it.\<close>

definition holds :: "'a dev_scheme \<Rightarrow> nat \<Rightarrow> uint \<Rightarrow> bool" where
  "holds s i n \<longleftrightarrow> i < length (bufs s) \<and> b_dev (bufs s ! i) = 1 \<and> b_blockno (bufs s ! i) = n"

definition cached :: "'a dev_scheme \<Rightarrow> uint \<Rightarrow> nat option" where
  "cached s n = scan (\<lambda>b. b_dev b = 1 \<and> b_blockno b = n \<and> b_valid b) (bufs s) (lru s)"

definition content :: "'a dev_scheme \<Rightarrow> uint \<Rightarrow> block" where
  "content s n = (case cached s n of Some i \<Rightarrow> b_data (bufs s ! i) | None \<Rightarrow> disk s n)"

lemma scan_SomeD: "scan P bs is = Some i \<Longrightarrow> i \<in> set is \<and> P (bs ! i)"
  by (induction "is") (auto split: if_splits)

lemma scan_None_iff: "scan P bs is = None \<longleftrightarrow> (\<forall>i \<in> set is. \<not> P (bs ! i))"
  by (induction "is") auto

lemma scan_ex: "i \<in> set is \<Longrightarrow> P (bs ! i) \<Longrightarrow> \<exists>j. scan P bs is = Some j"
  using scan_None_iff [of P bs "is"] by (cases "scan P bs is") auto

lemma cache_inv_unique: "cache_inv s \<Longrightarrow> holds s i n \<Longrightarrow> holds s j n \<Longrightarrow> i = j"
  by (auto simp: cache_inv_def holds_def)

lemma cache_inv_buf: "cache_inv s \<Longrightarrow> i < length (bufs s) \<Longrightarrow> buf_ok s (bufs s ! i)"
  by (simp add: cache_inv_def)

lemma content_valid:
  assumes "cache_inv s" and "holds s i n" and "b_valid (bufs s ! i)"
  shows "content s n = b_data (bufs s ! i)"
proof -
  have "i \<in> set (lru s)" using assms(1,2) by (auto simp: cache_inv_def holds_def)
  then obtain j where j: "cached s n = Some j"
    using scan_ex [of i "lru s" "\<lambda>b. b_dev b = 1 \<and> b_blockno b = n \<and> b_valid b" "bufs s"] assms(2,3)
    by (auto simp: cached_def holds_def)
  then have "holds s j n"
    using scan_SomeD [of _ "bufs s" "lru s" j] assms(1) by (auto simp: cached_def cache_inv_def holds_def)
  then have "j = i" using cache_inv_unique assms by blast
  then show ?thesis using j by (simp add: content_def)
qed

lemma content_absent:
  assumes "cache_inv s" and "\<And>i. holds s i n \<Longrightarrow> \<not> b_valid (bufs s ! i)"
  shows "content s n = disk s n"
proof -
  have "cached s n = None"
    unfolding cached_def scan_None_iff using assms by (auto simp: cache_inv_def holds_def)
  then show ?thesis by (simp add: content_def)
qed

text \<open>Blocks whose buffer is in use, and blocks whose buffer is newer than the disk.\<close>

definition busyb :: "'a dev_scheme \<Rightarrow> uint set" where
  "busyb s = {n. \<exists>i. holds s i n \<and> b_busy (bufs s ! i)}"

definition dirtyb :: "'a dev_scheme \<Rightarrow> uint set" where
  "dirtyb s = {n. \<exists>i. holds s i n \<and> b_dirty (bufs s ! i)}"

lemma content_clean:
  assumes "cache_inv s" and "n \<notin> dirtyb s"
  shows "content s n = disk s n"
proof (cases "\<exists>i. holds s i n \<and> b_valid (bufs s ! i)")
  case True
  then obtain i where i: "holds s i n" "b_valid (bufs s ! i)" by blast
  then have "\<not> b_dirty (bufs s ! i)" using assms(2) by (auto simp: dirtyb_def)
  then have "b_data (bufs s ! i) = disk s n"
    using i cache_inv_buf [OF assms(1), of i] by (auto simp: holds_def buf_ok_def)
  then show ?thesis using content_valid [OF assms(1) i] by simp
next
  case False
  then show ?thesis using content_absent [OF assms(1)] by blast
qed

text \<open>Buffers that \<open>bget\<close> may recycle.\<close>

definition avail :: "'a dev_scheme \<Rightarrow> nat set" where
  "avail s = {i. i < length (bufs s) \<and> \<not> b_busy (bufs s ! i) \<and> \<not> b_dirty (bufs s ! i)}"

text \<open>The state after one buffer has changed.  \<open>buf_upd\<close> gathers what has to be checked for the
  invariant to survive.\<close>

lemma cache_inv_upd_buf:
  assumes "cache_inv s" and "i < length (bufs s)" and "buf_ok s b"
    and "b_dev b = 1 \<Longrightarrow> \<forall>j. holds s j (b_blockno b) \<longrightarrow> j = i"
  shows "cache_inv (s\<lparr>bufs := (bufs s)[i := b]\<rparr>)"
proof -
  have "buf_ok (s\<lparr>bufs := (bufs s)[i := b]\<rparr>) b' = buf_ok s b'" for b' by (simp add: buf_ok_def)
  then show ?thesis
    using assms unfolding cache_inv_def
    by (auto simp: nth_list_update holds_def)
qed

section \<open>Reading and releasing\<close>

lemma holds_scan:
  assumes "cache_inv s"
  shows "(case scan (\<lambda>b. b_dev b = 1 \<and> b_blockno b = n) (bufs s) (lru s) of
            Some i \<Rightarrow> holds s i n | None \<Rightarrow> \<forall>i. \<not> holds s i n)"
proof (cases "scan (\<lambda>b. b_dev b = 1 \<and> b_blockno b = n) (bufs s) (lru s)")
  case None
  then have "\<forall>i \<in> set (lru s). \<not> (b_dev (bufs s ! i) = 1 \<and> b_blockno (bufs s ! i) = n)"
    by (simp add: scan_None_iff)
  then show ?thesis unfolding None using assms by (auto simp: cache_inv_def holds_def)
next
  case (Some i)
  then show ?thesis
    using scan_SomeD [OF Some] assms by (simp add: cache_inv_def holds_def)
qed

lemma avail_scan:
  assumes "cache_inv s"
  shows "(case scan (\<lambda>b. \<not> b_busy b \<and> \<not> b_dirty b) (bufs s) (rev (lru s)) of
            Some i \<Rightarrow> i \<in> avail s | None \<Rightarrow> avail s = {})"
proof (cases "scan (\<lambda>b. \<not> b_busy b \<and> \<not> b_dirty b) (bufs s) (rev (lru s))")
  case None
  then have "\<forall>i \<in> set (lru s). \<not> (\<not> b_busy (bufs s ! i) \<and> \<not> b_dirty (bufs s ! i))"
    by (simp add: scan_None_iff)
  then show ?thesis unfolding None using assms by (auto simp: cache_inv_def avail_def)
next
  case (Some i)
  then show ?thesis
    using scan_SomeD [OF Some] assms by (simp add: cache_inv_def avail_def)
qed

lemma content_dirty:
  assumes "cache_inv s" and "holds s i n" and "b_dirty (bufs s ! i)"
  shows "content s n = b_data (bufs s ! i)"
  using assms cache_inv_buf [OF assms(1), of i] content_valid [OF assms(1,2)]
  by (auto simp: buf_ok_def holds_def)

text \<open>The contents of the blocks depend on the disk and on the dirty buffers only.\<close>

lemma content_cong:
  assumes "cache_inv s" and "cache_inv s'" and "dirtyb s' = dirtyb s"
    and "\<And>n. n \<notin> dirtyb s \<Longrightarrow> disk s' n = disk s n"
    and "\<And>i n. holds s i n \<Longrightarrow> b_dirty (bufs s ! i) \<Longrightarrow>
           holds s' i n \<and> b_dirty (bufs s' ! i) \<and> b_data (bufs s' ! i) = b_data (bufs s ! i)"
  shows "content s' = content s"
proof
  fix n
  show "content s' n = content s n"
  proof (cases "n \<in> dirtyb s")
    case True
    then obtain i where i: "holds s i n" "b_dirty (bufs s ! i)" by (auto simp: dirtyb_def)
    then show ?thesis
      using content_dirty [OF assms(1) i] content_dirty [OF assms(2), of i n] assms(5) [OF i] by simp
  next
    case False
    then show ?thesis
      using content_clean [OF assms(1) False] content_clean [OF assms(2), of n] assms(3,4) by simp
  qed
qed

definition loaded :: "'a dev_scheme \<Rightarrow> uint \<Rightarrow> buf" where
  "loaded s n = \<lparr>b_busy = True, b_valid = True, b_dirty = (n \<in> dirtyb s), b_dev = 1, b_blockno = n,
                 b_data = content s n\<rparr>"

lemma bread_eq:
  assumes inv: "cache_inv s" and n: "n < disksize s" and idle: "n \<notin> busyb s"
    and room: "(\<exists>i. holds s i n) \<or> avail s \<noteq> {}"
  obtains i where "bread 1 n s = Inr (i, s\<lparr>bufs := (bufs s)[i := loaded s n]\<rparr>)"
    and "i < length (bufs s)" and "\<not> b_busy (bufs s ! i)"
    and "holds s i n \<or> i \<in> avail s \<and> (\<forall>j. \<not> holds s j n)"
proof (cases "scan (\<lambda>b. b_dev b = 1 \<and> b_blockno b = n) (bufs s) (lru s)")
  case (Some i)
  then have h: "holds s i n" using holds_scan [OF inv, of n] by simp
  then have i: "i < length (bufs s)" "b_dev (bufs s ! i) = 1" "b_blockno (bufs s ! i) = n"
    by (simp_all add: holds_def)
  have nb: "\<not> b_busy (bufs s ! i)" using idle h by (auto simp: busyb_def)
  have d: "n \<in> dirtyb s \<longleftrightarrow> b_dirty (bufs s ! i)"
    unfolding dirtyb_def using h cache_inv_unique [OF inv h] by blast
  have ok: "buf_ok s (bufs s ! i)" using cache_inv_buf [OF inv i(1)] .
  have "bread 1 n s = Inr (i, s\<lparr>bufs := (bufs s)[i := loaded s n]\<rparr>)"
  proof (cases "b_valid (bufs s ! i)")
    case True
    have "(bufs s ! i)\<lparr>b_busy := True\<rparr> = loaded s n"
      using i d True content_valid [OF inv h True] by (cases "bufs s ! i") (simp add: loaded_def)
    then show ?thesis
      using Some nb i True by (simp add: bread_def bget_def upd_buf_def) (simp add: loaded_def)
  next
    case False
    then have nd: "\<not> b_dirty (bufs s ! i)" using ok by (auto simp: buf_ok_def)
    have "content s n = disk s n"
      using False content_absent [OF inv, of n] cache_inv_unique [OF inv h] by blast
    then have "(bufs s ! i)\<lparr>b_busy := True, b_data := disk s n, b_valid := True\<rparr> = loaded s n"
      using i d nd by (cases "bufs s ! i") (simp add: loaded_def)
    then show ?thesis
      using Some nb i False nd n by (simp add: bread_def bget_def upd_buf_def iderw_def Let_def)
  qed
  then show thesis using that [of i] i nb h by blast
next
  case None
  then have nh: "\<forall>j. \<not> holds s j n" using holds_scan [OF inv, of n] by simp
  then obtain i where sc: "scan (\<lambda>b. \<not> b_busy b \<and> \<not> b_dirty b) (bufs s) (rev (lru s)) = Some i"
    and av: "i \<in> avail s"
    using avail_scan [OF inv] room by (auto split: option.splits)
  then have i: "i < length (bufs s)" "\<not> b_busy (bufs s ! i)" by (simp_all add: avail_def)
  have "n \<notin> dirtyb s" using nh by (auto simp: dirtyb_def)
  moreover have "content s n = disk s n" using content_absent [OF inv] nh by blast
  ultimately have "(bufs s ! i)\<lparr>b_dev := 1, b_blockno := n, b_busy := True, b_valid := False, b_dirty := False,
      b_data := disk s n, b_valid := True\<rparr> = loaded s n"
    by (cases "bufs s ! i") (simp add: loaded_def)
  then have "bread 1 n s = Inr (i, s\<lparr>bufs := (bufs s)[i := loaded s n]\<rparr>)"
    using None sc i n by (simp add: bread_def bget_def upd_buf_def iderw_def Let_def)
  then show thesis using that [of i] i av nh by blast
qed

text \<open>What the cache looks like with the block loaded.\<close>

lemma loaded_state:
  assumes inv: "cache_inv s" and n: "n < disksize s" and i: "i < length (bufs s)" "\<not> b_busy (bufs s ! i)"
    and h: "holds s i n \<or> i \<in> avail s \<and> (\<forall>j. \<not> holds s j n)"
  defines "s' \<equiv> s\<lparr>bufs := (bufs s)[i := loaded s n]\<rparr>"
  shows "cache_inv s'" and "content s' = content s" and "dirtyb s' = dirtyb s"
    and "busyb s' = insert n (busyb s)" and "avail s' = avail s - {i}" and "holds s' i n"
proof -
  have hi: "holds s' j m \<longleftrightarrow> (if j = i then m = n else holds s j m)" for j m
    using i(1) by (auto simp: s'_def holds_def loaded_def nth_list_update)
  show "holds s' i n" using hi by simp
  have other: "bufs s' ! j = bufs s ! j" if "j \<noteq> i" for j using that by (simp add: s'_def)
  have self: "bufs s' ! i = loaded s n" using i(1) by (simp add: s'_def)
  have fresh: "\<not> b_dirty (bufs s ! i)" if "\<not> holds s i n" using h that by (auto simp: avail_def)
  have "buf_ok s (loaded s n)"
    using n content_clean [OF inv, of n] by (auto simp: buf_ok_def loaded_def)
  then show inv': "cache_inv s'"
    unfolding s'_def using inv i(1) h cache_inv_unique [OF inv]
    by (intro cache_inv_upd_buf) (auto simp: loaded_def)
  show db: "dirtyb s' = dirtyb s"
  proof (rule set_eqI)
    fix m
    have "m \<in> dirtyb s' \<longleftrightarrow> (m = n \<and> n \<in> dirtyb s) \<or> (\<exists>j. j \<noteq> i \<and> holds s j m \<and> b_dirty (bufs s ! j))"
      using hi self other by (auto simp: dirtyb_def [of s'] loaded_def)
    also have "\<dots> \<longleftrightarrow> m \<in> dirtyb s"
      using fresh h by (auto simp: dirtyb_def holds_def) metis+
    finally show "m \<in> dirtyb s' \<longleftrightarrow> m \<in> dirtyb s" .
  qed
  show "busyb s' = insert n (busyb s)"
  proof (rule set_eqI)
    fix m
    have "m \<in> busyb s' \<longleftrightarrow> m = n \<or> (\<exists>j. j \<noteq> i \<and> holds s j m \<and> b_busy (bufs s ! j))"
      using hi self other by (auto simp: busyb_def [of s'] loaded_def)
    also have "\<dots> \<longleftrightarrow> m \<in> insert n (busyb s)" using i(2) by (auto simp: busyb_def)
    finally show "m \<in> busyb s' \<longleftrightarrow> m \<in> insert n (busyb s)" .
  qed
  show "avail s' = avail s - {i}"
    unfolding avail_def s'_def using i(1) by (auto simp: nth_list_update loaded_def split: if_splits)
  show "content s' = content s"
  proof (rule content_cong [OF inv inv' db])
    fix j m assume j: "holds s j m" "b_dirty (bufs s ! j)"
    show "holds s' j m \<and> b_dirty (bufs s' ! j) \<and> b_data (bufs s' ! j) = b_data (bufs s ! j)"
    proof (cases "j = i")
      case True
      then have hin: "holds s i n" using fresh j(2) by blast
      then have "m = n" using j(1) True by (simp add: holds_def)
      then show ?thesis
        using True hi self hin j content_dirty [OF inv hin] by (auto simp: loaded_def dirtyb_def)
    qed (use hi other j in auto)
  qed (simp add: s'_def)
qed

section \<open>The contract of the cache\<close>

text \<open>What a client can see of the cache: the contents of the blocks, the disk, the blocks whose
  buffer is dirty or in use, the writes so far, and the client's own part of the state.\<close>

definition view where
  "view s = (content s, disk s, dirtyb s, busyb s, dwrites s, disksize s, dev.more s)"

definition held :: "'a dev_scheme \<Rightarrow> nat \<Rightarrow> uint \<Rightarrow> bool" where
  "held s i n \<longleftrightarrow> holds s i n \<and> b_busy (bufs s ! i) \<and> b_valid (bufs s ! i)"

lemma held_data: "cache_inv s \<Longrightarrow> held s i n \<Longrightarrow> b_data (bufs s ! i) = content s n"
  using content_valid [of s i n] by (simp add: held_def)

lemma held_busy: "held s i n \<Longrightarrow> n \<in> busyb s"
  by (auto simp: held_def busyb_def)

lemma held_blockno: "held s i n \<Longrightarrow> b_blockno (bufs s ! i) = n"
  by (simp add: held_def holds_def)

lemma held_dirty: "cache_inv s \<Longrightarrow> held s i n \<Longrightarrow> n \<in> dirtyb s \<longleftrightarrow> b_dirty (bufs s ! i)"
  unfolding dirtyb_def held_def using cache_inv_unique [of s i n] by blast

lemma held_unique: "cache_inv s \<Longrightarrow> held s i n \<Longrightarrow> holds s j n \<Longrightarrow> j = i"
  unfolding held_def using cache_inv_unique [of s i n j] by blast

lemma bread_ok:
  assumes "cache_inv s" and "n < disksize s" and "n \<notin> busyb s"
    and "n \<in> dirtyb s \<or> avail s \<noteq> {}"
  shows "\<exists>i s'. bread 1 n s = Inr (i, s') \<and> cache_inv s' \<and> held s' i n \<and>
           view s' = (content s, disk s, dirtyb s, insert n (busyb s), dwrites s, disksize s, dev.more s) \<and>
           avail s' = avail s - {i} \<and> (n \<in> dirtyb s \<longrightarrow> i \<notin> avail s) \<and>
           (\<forall>j m. held s j m \<longrightarrow> held s' j m)"
proof -
  have room: "(\<exists>i. holds s i n) \<or> avail s \<noteq> {}" using assms(4) by (auto simp: dirtyb_def)
  obtain i where r: "bread 1 n s = Inr (i, s\<lparr>bufs := (bufs s)[i := loaded s n]\<rparr>)"
    and i: "i < length (bufs s)" "\<not> b_busy (bufs s ! i)"
    and h: "holds s i n \<or> i \<in> avail s \<and> (\<forall>j. \<not> holds s j n)"
    by (rule bread_eq [OF assms(1-3) room])
  note st = loaded_state [OF assms(1,2) i h]
  have "\<forall>j m. held s j m \<longrightarrow> held (s\<lparr>bufs := (bufs s)[i := loaded s n]\<rparr>) j m"
    using i by (auto simp: held_def holds_def nth_list_update)
  moreover have "held (s\<lparr>bufs := (bufs s)[i := loaded s n]\<rparr>) i n"
    using st(6) i(1) by (simp add: held_def loaded_def)
  moreover have "n \<in> dirtyb s \<longrightarrow> i \<notin> avail s"
    using h cache_inv_unique [OF assms(1)] by (fastforce simp: dirtyb_def avail_def)
  ultimately show ?thesis using r st by (auto simp: view_def)
qed

text \<open>Storing into a buffer in use and writing it through, and storing into it and pinning it.\<close>

lemma held_update:
  assumes inv: "cache_inv s" and h: "held s i n"
    and s': "bufs s' = (bufs s)[i := (bufs s ! i)\<lparr>b_dirty := dd, b_data := d\<rparr>]" "lru s' = lru s"
      "disk s' = (if dd then disk s else (disk s)(n := d))" "disksize s' = disksize s"
  shows "cache_inv s'" and "content s' = (content s)(n := d)" and "busyb s' = busyb s"
    and "dirtyb s' = (if dd then insert n (dirtyb s) else dirtyb s - {n})"
    and "avail s' = avail s" and "held s' j m \<longleftrightarrow> held s j m"
proof -
  have i: "i < length (bufs s)" "b_busy (bufs s ! i)" "b_valid (bufs s ! i)" "b_dev (bufs s ! i) = 1"
    "b_blockno (bufs s ! i) = n"
    using h by (auto simp: held_def holds_def)
  have ok: "buf_ok s (bufs s ! i)" using cache_inv_buf [OF inv i(1)] .
  have hi: "holds s' j m \<longleftrightarrow> holds s j m" for j m
    using i by (auto simp: holds_def s' nth_list_update)
  have flags: "b_busy (bufs s' ! j) = b_busy (bufs s ! j)" "b_valid (bufs s' ! j) = b_valid (bufs s ! j)"
    "b_dirty (bufs s' ! j) = (if j = i then dd else b_dirty (bufs s ! j))" 
    "b_data (bufs s' ! j) = (if j = i then d else b_data (bufs s ! j))" for j
    using i(1) by (auto simp: s' nth_list_update)
  have un: "holds s j n \<longleftrightarrow> j = i" for j using held_unique [OF inv h] h by (auto simp: held_def)
  show "held s' j m \<longleftrightarrow> held s j m" by (simp add: held_def hi flags)
  show "busyb s' = busyb s" by (simp add: busyb_def hi flags)
  show "dirtyb s' = (if dd then insert n (dirtyb s) else dirtyb s - {n})"
  proof (rule set_eqI)
    fix m
    have "(holds s j m \<and> b_dirty (bufs s' ! j)) \<longleftrightarrow> (if m = n then j = i \<and> dd else holds s j m \<and> b_dirty (bufs s ! j))" for j
    proof (cases "m = n")
      case False
      then have "holds s j m \<Longrightarrow> j \<noteq> i" using un by (auto simp: holds_def)
      then show ?thesis using False flags by auto
    qed (use un flags in auto)
    then show "m \<in> dirtyb s' \<longleftrightarrow> m \<in> (if dd then insert n (dirtyb s) else dirtyb s - {n})"
      by (auto simp: dirtyb_def hi)
  qed
  show "avail s' = avail s" using i by (auto simp: avail_def s' nth_list_update)
  show inv': "cache_inv s'"
    unfolding cache_inv_def
  proof (intro conjI allI impI)
    show "distinct (lru s')" "set (lru s') = {..<length (bufs s')}"
      using inv by (simp_all add: cache_inv_def s')
    fix j assume j: "j < length (bufs s')"
    have j': "buf_ok s (bufs s ! j)" using inv j by (simp add: cache_inv_def s')
    show "buf_ok s' (bufs s' ! j)"
    proof (cases "j = i")
      case True
      then show ?thesis using ok i by (auto simp: buf_ok_def s')
    next
      case False
      then have "b_dev (bufs s ! j) = 1 \<longrightarrow> b_blockno (bufs s ! j) \<noteq> n"
        using un [of j] j by (auto simp: holds_def s')
      then show ?thesis using j' False by (auto simp: buf_ok_def s')
    qed
    fix k assume k: "k < length (bufs s')" and
      e: "b_dev (bufs s' ! j) = 1 \<and> b_dev (bufs s' ! k) = 1 \<and> b_blockno (bufs s' ! j) = b_blockno (bufs s' ! k)"
    have "holds s' j (b_blockno (bufs s' ! k))" "holds s' k (b_blockno (bufs s' ! k))"
      using e j k by (simp_all add: holds_def)
    then show "j = k" using hi cache_inv_unique [OF inv] by blast
  qed
  show "content s' = (content s)(n := d)"
  proof
    fix m
    show "content s' m = ((content s)(n := d)) m"
    proof (cases "\<exists>j. holds s j m \<and> b_valid (bufs s ! j)")
      case True
      then obtain j where j: "holds s j m" "b_valid (bufs s ! j)" by blast
      then have "content s' m = b_data (bufs s' ! j)" "content s m = b_data (bufs s ! j)"
        using content_valid [OF inv' _, of j m] content_valid [OF inv j] hi flags by simp_all
      then show ?thesis using un j(1) flags by (auto simp: holds_def i(5))
    next
      case False
      then have "content s' m = disk s' m" "content s m = disk s m" "m \<noteq> n"
        using content_absent [OF inv', of m] content_absent [OF inv, of m] hi flags un i(3) by metis+
      then show ?thesis by (simp add: s')
    qed
  qed
qed

lemma bwrite_ok:
  assumes "cache_inv s" and "held s i n"
  shows "\<exists>s'. bwrite i (upd_buf i (\<lambda>b. b\<lparr>b_data := d\<rparr>) s) = Inr s' \<and> cache_inv s' \<and>
           view s' = ((content s)(n := d), (disk s)(n := d), dirtyb s - {n}, busyb s, dwrites s @ [(n, d)],
                      disksize s, dev.more s) \<and>
           avail s' = avail s \<and> (\<forall>j m. held s' j m \<longleftrightarrow> held s j m)"
proof -
  let ?b = "(bufs s ! i)\<lparr>b_dirty := False, b_data := d\<rparr>"
  let ?s = "s\<lparr>bufs := (bufs s)[i := ?b], disk := (disk s)(n := d), dwrites := dwrites s @ [(n, d)]\<rparr>"
  have i: "i < length (bufs s)" "b_busy (bufs s ! i)" "b_valid (bufs s ! i)" "b_dev (bufs s ! i) = 1"
    "b_blockno (bufs s ! i) = n"
    using assms(2) by (auto simp: held_def holds_def)
  have "n < disksize s" using cache_inv_buf [OF assms(1) i(1)] i by (auto simp: buf_ok_def)
  then have "bwrite i (upd_buf i (\<lambda>b. b\<lparr>b_data := d\<rparr>) s) = Inr ?s"
    using i by (cases "bufs s ! i") (simp add: bwrite_def upd_buf_def iderw_def Let_def)
  moreover have "bufs ?s = (bufs s)[i := ?b]" "lru ?s = lru s"
      "disk ?s = (if False then disk s else (disk s)(n := d))" "disksize ?s = disksize s"
    by simp_all
  note held_update [OF assms this]
  ultimately show ?thesis by (auto simp: view_def)
qed

lemma dirty_ok:
  assumes "cache_inv s" and "held s i n"
    and s'_def: "s' = upd_buf i (\<lambda>b. b\<lparr>b_dirty := True\<rparr>) (upd_buf i (\<lambda>b. b\<lparr>b_data := d\<rparr>) s)"
  shows "cache_inv s' \<and>
           view s' = ((content s)(n := d), disk s, insert n (dirtyb s), busyb s, dwrites s, disksize s, dev.more s) \<and>
           avail s' = avail s \<and> (\<forall>j m. held s' j m \<longleftrightarrow> held s j m)"
proof -
  have i: "i < length (bufs s)" using assms(2) by (auto simp: held_def holds_def)
  then have "bufs s' = (bufs s)[i := (bufs s ! i)\<lparr>b_dirty := True, b_data := d\<rparr>]" "lru s' = lru s"
      "disk s' = (if True then disk s else (disk s)(n := d))" "disksize s' = disksize s"
    by (simp_all add: s'_def upd_buf_def) (cases "bufs s ! i", simp)
  note held_update [OF assms(1,2) this]
  then show ?thesis by (simp add: view_def) (simp add: s'_def upd_buf_def)
qed

lemma brelse_ok:
  assumes inv: "cache_inv s" and h: "held s i n"
  shows "\<exists>s'. brelse i s = Inr s' \<and> cache_inv s' \<and>
           view s' = (content s, disk s, dirtyb s, busyb s - {n}, dwrites s, disksize s, dev.more s) \<and>
           avail s' = avail s \<union> (if n \<in> dirtyb s then {} else {i}) \<and>
           (\<forall>j m. m \<noteq> n \<longrightarrow> held s j m \<longrightarrow> held s' j m)"
proof -
  have i: "i < length (bufs s)" "b_busy (bufs s ! i)" "b_valid (bufs s ! i)" "b_dev (bufs s ! i) = 1"
    "b_blockno (bufs s ! i) = n"
    using h by (auto simp: held_def holds_def)
  define s' where "s' = upd_buf i (\<lambda>b. b\<lparr>b_busy := False\<rparr>) (s\<lparr>lru := i # remove1 i (lru s)\<rparr>)"
  have r: "brelse i s = Inr s'" using i by (simp add: brelse_def s'_def)
  have hi: "holds s' j m \<longleftrightarrow> holds s j m" for j m
    using i by (auto simp: holds_def s'_def upd_buf_def nth_list_update)
  have flags: "b_busy (bufs s' ! j) = (j \<noteq> i \<and> b_busy (bufs s ! j))" "b_valid (bufs s' ! j) = b_valid (bufs s ! j)"
    "b_dirty (bufs s' ! j) = b_dirty (bufs s ! j)" "b_data (bufs s' ! j) = b_data (bufs s ! j)"
    "b_dev (bufs s' ! j) = b_dev (bufs s ! j)" "b_blockno (bufs s' ! j) = b_blockno (bufs s ! j)" for j
    using i(1) by (auto simp: s'_def upd_buf_def nth_list_update)
  have rest: "disk s' = disk s" "disksize s' = disksize s" "dwrites s' = dwrites s" "dev.more s' = dev.more s"
    "length (bufs s') = length (bufs s)"
    by (simp_all add: s'_def upd_buf_def)
  have un: "holds s j n \<longleftrightarrow> j = i" for j using held_unique [OF inv h] h by (auto simp: held_def)
  have db: "dirtyb s' = dirtyb s" by (simp add: dirtyb_def hi flags)
  have "i \<in> set (lru s)" "distinct (lru s)" using inv i(1) by (auto simp: cache_inv_def)
  then have "distinct (lru s')" "set (lru s') = set (lru s)"
    by (auto simp: s'_def upd_buf_def)
  then have inv': "cache_inv s'"
    using inv by (simp add: cache_inv_def rest flags buf_ok_def)
  have co: "content s' = content s"
    by (rule content_cong [OF inv inv' db]) (simp_all add: hi flags rest)
  have bz: "busyb s' = busyb s - {n}"
    using un by (auto simp: busyb_def hi flags) (auto simp: holds_def)
  have av: "avail s' = avail s \<union> (if n \<in> dirtyb s then {} else {i})"
    using i(1) held_dirty [OF inv h] by (auto simp: avail_def flags rest)
  have "\<forall>j m. m \<noteq> n \<longrightarrow> held s j m \<longrightarrow> held s' j m"
    using i(5) by (auto simp: held_def hi flags) (auto simp: holds_def)
  then show ?thesis using r inv' co db bz av by (simp add: view_def rest)
qed

text \<open>
  The contract as an interface: a block that is read is held with its contents, a held buffer
  can be overwritten through to the disk or pinned dirty, and releasing it changes nothing else.
  The sequences that the callers of \<open>bread\<close> run are proved once against it.
\<close>

locale block_cache =
  fixes ok :: "'s \<Rightarrow> bool" and hld :: "'s \<Rightarrow> nat \<Rightarrow> uint \<Rightarrow> bool" and data :: "'s \<Rightarrow> nat \<Rightarrow> block"
    and vw :: "'s \<Rightarrow> (uint \<Rightarrow> block) \<times> (uint \<Rightarrow> block) \<times> uint set \<times> uint set \<times> (uint \<times> block) list \<times> uint \<times> 'm"
    and free :: "'s \<Rightarrow> nat set"
    and rd :: "uint \<Rightarrow> 's \<Rightarrow> (nat \<times> 's) res" and wr :: "nat \<Rightarrow> block \<Rightarrow> 's \<Rightarrow> 's res"
    and pin :: "nat \<Rightarrow> block \<Rightarrow> 's \<Rightarrow> 's" and rel :: "nat \<Rightarrow> 's \<Rightarrow> 's res"
  assumes rd_ok: "ok s \<Longrightarrow> vw s = (c, d, D, B, w, z, m) \<Longrightarrow> n < z \<Longrightarrow> n \<notin> B \<Longrightarrow> n \<in> D \<or> free s \<noteq> {} \<Longrightarrow>
      \<exists>i s'. rd n s = Inr (i, s') \<and> ok s' \<and> hld s' i n \<and> vw s' = (c, d, D, insert n B, w, z, m) \<and>
        free s' = free s - {i} \<and> (n \<in> D \<longrightarrow> i \<notin> free s) \<and> (\<forall>j k. hld s j k \<longrightarrow> hld s' j k)"
    and wr_ok: "ok s \<Longrightarrow> vw s = (c, d, D, B, w, z, m) \<Longrightarrow> hld s i n \<Longrightarrow>
      \<exists>s'. wr i b s = Inr s' \<and> ok s' \<and> vw s' = (c(n := b), d(n := b), D - {n}, B, w @ [(n, b)], z, m) \<and>
        free s' = free s \<and> (\<forall>j k. hld s' j k \<longleftrightarrow> hld s j k)"
    and pin_ok: "ok s \<Longrightarrow> vw s = (c, d, D, B, w, z, m) \<Longrightarrow> hld s i n \<Longrightarrow>
      ok (pin i b s) \<and> vw (pin i b s) = (c(n := b), d, insert n D, B, w, z, m) \<and>
        free (pin i b s) = free s \<and> (\<forall>j k. hld (pin i b s) j k \<longleftrightarrow> hld s j k)"
    and rel_ok: "ok s \<Longrightarrow> vw s = (c, d, D, B, w, z, m) \<Longrightarrow> hld s i n \<Longrightarrow>
      \<exists>s'. rel i s = Inr s' \<and> ok s' \<and> vw s' = (c, d, D, B - {n}, w, z, m) \<and>
        free s' = free s \<union> (if n \<in> D then {} else {i}) \<and> (\<forall>j k. k \<noteq> n \<longrightarrow> hld s j k \<longrightarrow> hld s' j k)"
    and data_ok: "ok s \<Longrightarrow> vw s = (c, d, D, B, w, z, m) \<Longrightarrow> hld s i n \<Longrightarrow> data s i = c n"
begin

lemma read_release:
  assumes "ok s" and "vw s = (c, d, D, B, w, z, m)" and "n < z" and "n \<notin> B" and "n \<in> D \<or> free s \<noteq> {}"
  shows "\<exists>i s1 s2. rd n s = Inr (i, s1) \<and> data s1 i = c n \<and> rel i s1 = Inr s2 \<and> ok s2 \<and>
           vw s2 = (c, d, D, B, w, z, m) \<and> free s \<subseteq> free s2"
proof -
  obtain i s1 where 1: "rd n s = Inr (i, s1)" "ok s1" "hld s1 i n" "vw s1 = (c, d, D, insert n B, w, z, m)"
      "free s1 = free s - {i}" "n \<in> D \<longrightarrow> i \<notin> free s"
    using rd_ok [OF assms] by blast
  obtain s2 where 2: "rel i s1 = Inr s2" "ok s2" "vw s2 = (c, d, D, insert n B - {n}, w, z, m)"
      "free s2 = free s1 \<union> (if n \<in> D then {} else {i})"
    using rel_ok [OF 1(2,4,3)] by blast
  have "free s \<subseteq> free s2" using 1(5,6) 2(4) by auto
  moreover have "insert n B - {n} = B" using assms(4) by simp
  ultimately show ?thesis
    using 1(1) 2(1-3) data_ok [OF 1(2,4,3)] by (simp only:) blast
qed

text \<open>Read, overwrite, write through, release; and read, overwrite, pin, release.\<close>

lemma write_release:
  assumes "ok s" and "vw s = (c, d, D, B, w, z, m)" and "hld s i n"
  shows "\<exists>s1 s2. wr i b s = Inr s1 \<and> rel i s1 = Inr s2 \<and> ok s2 \<and>
           vw s2 = (c(n := b), d(n := b), D - {n}, B - {n}, w @ [(n, b)], z, m) \<and>
           free s2 = insert i (free s) \<and> (\<forall>j k. k \<noteq> n \<longrightarrow> hld s j k \<longrightarrow> hld s2 j k)"
proof -
  obtain s1 where 1: "wr i b s = Inr s1" "ok s1"
      "vw s1 = (c(n := b), d(n := b), D - {n}, B, w @ [(n, b)], z, m)" "free s1 = free s"
      "\<forall>j k. hld s1 j k \<longleftrightarrow> hld s j k"
    using wr_ok [OF assms] by blast
  have h: "hld s1 i n" using 1(5) assms(3) by blast
  obtain s2 where 2: "rel i s1 = Inr s2" "ok s2"
      "vw s2 = (c(n := b), d(n := b), D - {n}, B - {n}, w @ [(n, b)], z, m)"
      "free s2 = free s1 \<union> (if n \<in> D - {n} then {} else {i})" "\<forall>j k. k \<noteq> n \<longrightarrow> hld s1 j k \<longrightarrow> hld s2 j k"
    using rel_ok [OF 1(2,3) h] by blast
  then show ?thesis using 1 by auto
qed

lemma read_write_release:
  assumes "ok s" and "vw s = (c, d, D, B, w, z, m)" and "n < z" and "n \<notin> B" and "n \<in> D \<or> free s \<noteq> {}"
  shows "\<exists>i s1 s2 s3. rd n s = Inr (i, s1) \<and> data s1 i = c n \<and> wr i (f (c n)) s1 = Inr s2 \<and> rel i s2 = Inr s3 \<and>
           ok s3 \<and> vw s3 = (c(n := f (c n)), d(n := f (c n)), D - {n}, B, w @ [(n, f (c n))], z, m) \<and>
           free s \<subseteq> free s3"
proof -
  obtain i s1 where 1: "rd n s = Inr (i, s1)" "ok s1" "hld s1 i n" "vw s1 = (c, d, D, insert n B, w, z, m)"
      "free s1 = free s - {i}"
    using rd_ok [OF assms] by blast
  obtain s2 s3 where 2: "wr i (f (c n)) s1 = Inr s2" "rel i s2 = Inr s3" "ok s3"
      "vw s3 = (c(n := f (c n)), d(n := f (c n)), D - {n}, insert n B - {n}, w @ [(n, f (c n))], z, m)"
      "free s3 = insert i (free s1)"
    using write_release [OF 1(2,4,3), of "f (c n)"] by blast
  have "free s \<subseteq> free s3" using 1(5) 2(5) by auto
  moreover have "insert n B - {n} = B" using assms(4) by simp
  ultimately show ?thesis
    using 1(1) 2(1-4) data_ok [OF 1(2,4,3)] by (simp only:) blast
qed

lemma read_pin_release:
  assumes "ok s" and "vw s = (c, d, D, B, w, z, m)" and "n < z" and "n \<notin> B" and "n \<in> D \<or> free s \<noteq> {}"
  shows "\<exists>i s1 s2. rd n s = Inr (i, s1) \<and> data s1 i = c n \<and> rel i (pin i b s1) = Inr s2 \<and>
           ok s2 \<and> vw s2 = (c(n := b), d, insert n D, B, w, z, m) \<and> free s - {i} \<subseteq> free s2 \<and>
           (n \<in> D \<longrightarrow> free s \<subseteq> free s2)"
proof -
  obtain i s1 where 1: "rd n s = Inr (i, s1)" "ok s1" "hld s1 i n" "vw s1 = (c, d, D, insert n B, w, z, m)"
      "free s1 = free s - {i}" "n \<in> D \<longrightarrow> i \<notin> free s"
    using rd_ok [OF assms] by blast
  note p = pin_ok [OF 1(2,4,3), of b]
  then have h: "hld (pin i b s1) i n" using 1(3) by blast
  obtain s2 where 2: "rel i (pin i b s1) = Inr s2" "ok s2"
      "vw s2 = (c(n := b), d, insert n D, insert n B - {n}, w, z, m)"
      "free s2 = free (pin i b s1) \<union> (if n \<in> insert n D then {} else {i})"
    using rel_ok [of "pin i b s1", OF _ _ h] p by blast
  have "free s - {i} \<subseteq> free s2" "n \<in> D \<longrightarrow> free s \<subseteq> free s2" using 1(5,6) 2(4) p by auto
  moreover have "insert n B - {n} = B" using assms(4) by simp
  ultimately show ?thesis
    using 1(1) 2(1-3) data_ok [OF 1(2,4,3)] by (simp only:) blast
qed

text \<open>Copying one block over another, with the destination read second and with the destination
  read first.\<close>

lemma two_reads:
  assumes "ok s" and "vw s = (c, d, D, B, w, z, m)" and "a < z" and "a \<notin> B" and "b < z" and "b \<notin> B"
    and "a \<noteq> b" and "finite (free s)" and "free s \<noteq> {}" and "b \<in> D \<or> 2 \<le> card (free s)"
  shows "\<exists>i j s1 s2. rd a s = Inr (i, s1) \<and> rd b s1 = Inr (j, s2) \<and> ok s2 \<and> hld s2 i a \<and> hld s2 j b \<and>
           vw s2 = (c, d, D, insert b (insert a B), w, z, m) \<and> free s2 = free s - {i, j} \<and>
           (a \<in> D \<longrightarrow> i \<notin> free s) \<and> (b \<in> D \<longrightarrow> j \<notin> free s - {i})"
proof -
  obtain i s1 where 1: "rd a s = Inr (i, s1)" "ok s1" "hld s1 i a" "vw s1 = (c, d, D, insert a B, w, z, m)"
      "free s1 = free s - {i}" "a \<in> D \<longrightarrow> i \<notin> free s"
    using rd_ok [OF assms(1-4)] assms(9) by blast
  have "free s1 \<noteq> {}" if "2 \<le> card (free s)"
  proof
    assume "free s1 = {}"
    then have "card (free s) \<le> card {i}" using 1(5) by (intro card_mono) auto
    then show False using that by simp
  qed
  then have "b \<in> D \<or> free s1 \<noteq> {}" using assms(10) by blast
  moreover have "b \<notin> insert a B" using assms(6,7) by auto
  ultimately obtain j s2 where 2: "rd b s1 = Inr (j, s2)" "ok s2" "hld s2 j b"
      "vw s2 = (c, d, D, insert b (insert a B), w, z, m)" "free s2 = free s1 - {j}"
      "b \<in> D \<longrightarrow> j \<notin> free s1" "\<forall>j k. hld s1 j k \<longrightarrow> hld s2 j k"
    using rd_ok [OF 1(2,4) assms(5)] by blast
  have "free s2 = free s - {i, j}" using 1(5) 2(5) by blast
  moreover have "hld s2 i a" using 2(7) 1(3) by blast
  moreover have "b \<in> D \<longrightarrow> j \<notin> free s - {i}" using 2(6) 1(5) by simp
  ultimately show ?thesis using 1(1,6) 2(1-4)
    by (intro exI [of _ i] exI [of _ j] exI [of _ s1] exI [of _ s2] conjI)
qed

lemma copy_to_second:
  assumes "ok s" and "vw s = (c, d, D, B, w, z, m)" and "a < z" and "a \<notin> B" and "b < z" and "b \<notin> B"
    and "a \<noteq> b" and "finite (free s)" and "free s \<noteq> {}" and "b \<in> D \<or> 2 \<le> card (free s)"
  shows "\<exists>i j s1 s2 s3 s4 s5. rd a s = Inr (i, s1) \<and> rd b s1 = Inr (j, s2) \<and> data s2 i = c a \<and>
           wr j (c a) s2 = Inr s3 \<and> rel i s3 = Inr s4 \<and> rel j s4 = Inr s5 \<and> ok s5 \<and>
           vw s5 = (c(b := c a), d(b := c a), D - {b}, B, w @ [(b, c a)], z, m) \<and> free s \<subseteq> free s5"
proof -
  obtain i j s1 s2 where 1: "rd a s = Inr (i, s1)" "rd b s1 = Inr (j, s2)" "ok s2" "hld s2 i a" "hld s2 j b"
      "vw s2 = (c, d, D, insert b (insert a B), w, z, m)" "free s2 = free s - {i, j}"
      "a \<in> D \<longrightarrow> i \<notin> free s"
    using two_reads [OF assms] by blast
  obtain s3 where 2: "wr j (c a) s2 = Inr s3" "ok s3"
      "vw s3 = (c(b := c a), d(b := c a), D - {b}, insert b (insert a B), w @ [(b, c a)], z, m)"
      "free s3 = free s2" "\<forall>j k. hld s3 j k \<longleftrightarrow> hld s2 j k"
    using wr_ok [OF 1(3,6,5)] by blast
  have h3: "hld s3 i a" "hld s3 j b" using 2(5) 1(4,5) by simp_all
  obtain s4 where 3: "rel i s3 = Inr s4" "ok s4"
      "vw s4 = (c(b := c a), d(b := c a), D - {b}, insert b (insert a B) - {a}, w @ [(b, c a)], z, m)"
      "free s4 = free s3 \<union> (if a \<in> D - {b} then {} else {i})" "\<forall>j k. k \<noteq> a \<longrightarrow> hld s3 j k \<longrightarrow> hld s4 j k"
    using rel_ok [OF 2(2,3) h3(1)] by blast
  have h4: "hld s4 j b" using 3(5) h3(2) assms(7) by metis
  obtain s5 where 4: "rel j s4 = Inr s5" "ok s5"
      "vw s5 = (c(b := c a), d(b := c a), D - {b}, insert b (insert a B) - {a} - {b}, w @ [(b, c a)], z, m)"
      "free s5 = free s4 \<union> (if b \<in> D - {b} then {} else {j})"
    using rel_ok [OF 3(2,3) h4] by blast
  have "insert b (insert a B) - {a} - {b} = B" using assms(4,6) by auto
  then have "vw s5 = (c(b := c a), d(b := c a), D - {b}, B, w @ [(b, c a)], z, m)" using 4(3) by simp
  moreover have "free s \<subseteq> free s5" using 1(7,8) 2(4) 3(4) 4(4) by auto
  ultimately show ?thesis
    using 1(1,2) data_ok [OF 1(3,6,4)] 2(1) 3(1) 4(1,2)
    by (intro exI [of _ i] exI [of _ j] exI [of _ s1] exI [of _ s2] exI [of _ s3] exI [of _ s4] exI [of _ s5] conjI)
qed

lemma copy_to_first:
  assumes "ok s" and "vw s = (c, d, D, B, w, z, m)" and "a < z" and "a \<notin> B" and "b < z" and "b \<notin> B"
    and "a \<noteq> b" and "finite (free s)" and "free s \<noteq> {}" and "b \<in> D \<or> 2 \<le> card (free s)"
  shows "\<exists>i j s1 s2 s3 s4 s5. rd a s = Inr (i, s1) \<and> rd b s1 = Inr (j, s2) \<and> data s2 j = c b \<and>
           wr i (c b) s2 = Inr s3 \<and> rel j s3 = Inr s4 \<and> rel i s4 = Inr s5 \<and> ok s5 \<and>
           vw s5 = (c(a := c b), d(a := c b), D - {a}, B, w @ [(a, c b)], z, m) \<and> free s \<subseteq> free s5"
proof -
  obtain i j s1 s2 where 1: "rd a s = Inr (i, s1)" "rd b s1 = Inr (j, s2)" "ok s2" "hld s2 i a" "hld s2 j b"
      "vw s2 = (c, d, D, insert b (insert a B), w, z, m)" "free s2 = free s - {i, j}"
      "b \<in> D \<longrightarrow> j \<notin> free s - {i}"
    using two_reads [OF assms] by blast
  obtain s3 where 2: "wr i (c b) s2 = Inr s3" "ok s3"
      "vw s3 = (c(a := c b), d(a := c b), D - {a}, insert b (insert a B), w @ [(a, c b)], z, m)"
      "free s3 = free s2" "\<forall>j k. hld s3 j k \<longleftrightarrow> hld s2 j k"
    using wr_ok [OF 1(3,6,4)] by blast
  have h3: "hld s3 i a" "hld s3 j b" using 2(5) 1(4,5) by simp_all
  obtain s4 where 3: "rel j s3 = Inr s4" "ok s4"
      "vw s4 = (c(a := c b), d(a := c b), D - {a}, insert b (insert a B) - {b}, w @ [(a, c b)], z, m)"
      "free s4 = free s3 \<union> (if b \<in> D - {a} then {} else {j})" "\<forall>j k. k \<noteq> b \<longrightarrow> hld s3 j k \<longrightarrow> hld s4 j k"
    using rel_ok [OF 2(2,3) h3(2)] by blast
  have h4: "hld s4 i a" using 3(5) h3(1) assms(7) by metis
  obtain s5 where 4: "rel i s4 = Inr s5" "ok s5"
      "vw s5 = (c(a := c b), d(a := c b), D - {a}, insert b (insert a B) - {b} - {a}, w @ [(a, c b)], z, m)"
      "free s5 = free s4 \<union> (if a \<in> D - {a} then {} else {i})"
    using rel_ok [OF 3(2,3) h4] by blast
  have "insert b (insert a B) - {b} - {a} = B" using assms(4,6) by auto
  then have "vw s5 = (c(a := c b), d(a := c b), D - {a}, B, w @ [(a, c b)], z, m)" using 4(3) by simp
  moreover have "free s \<subseteq> free s5" using 1(7,8) 2(4) 3(4) 4(4) assms(7) by auto
  ultimately show ?thesis
    using 1(1,2) data_ok [OF 1(3,6,5)] 2(1) 3(1) 4(1,2)
    by (intro exI [of _ i] exI [of _ j] exI [of _ s1] exI [of _ s2] exI [of _ s3] exI [of _ s4] exI [of _ s5] conjI)
qed

end

interpretation bc: block_cache cache_inv held "\<lambda>s i. b_data (bufs s ! i)" view avail "bread 1"
  "\<lambda>i d s. bwrite i (upd_buf i (\<lambda>b. b\<lparr>b_data := d\<rparr>) s)"
  "\<lambda>i d s. upd_buf i (\<lambda>b. b\<lparr>b_dirty := True\<rparr>) (upd_buf i (\<lambda>b. b\<lparr>b_data := d\<rparr>) s)" brelse
proof (unfold_locales, goal_cases)
  case (1 s c d D B w z m n)
  then show ?case using bread_ok [of s n] by (simp add: view_def)
next
  case (2 s c d D B w z m i n b)
  then show ?case using bwrite_ok [of s i n b] by (simp add: view_def)
next
  case (3 s c d D B w z m i n b)
  then show ?case using dirty_ok [OF 3(1,3) refl, of b] by (simp add: view_def [of s])
next
  case (4 s c d D B w z m i n)
  then show ?case using brelse_ok [of s i n] by (simp add: view_def)
next
  case (5 s c d D B w z m i n)
  then show ?case using held_data [of s i n] by (simp add: view_def)
qed

text \<open>How many buffers can be recycled.\<close>

lemma finite_avail [simp]: "finite (avail s)"
  by (simp add: avail_def)

lemma avail_card:
  assumes inv: "cache_inv s" and fin: "finite (dirtyb s \<union> busyb s)"
  shows "length (bufs s) \<le> card (avail s) + card (dirtyb s \<union> busyb s)"
proof -
  let ?X = "{i. i < length (bufs s) \<and> (b_busy (bufs s ! i) \<or> b_dirty (bufs s ! i))}"
  have dev: "b_dev (bufs s ! i) = 1" if "i \<in> ?X" for i
    using that cache_inv_buf [OF inv, of i] by (auto simp: buf_ok_def)
  have "inj_on (\<lambda>i. b_blockno (bufs s ! i)) ?X"
    by (rule inj_onI, rule cache_inv_unique [OF inv]) (auto simp: holds_def dev)
  moreover have "(\<lambda>i. b_blockno (bufs s ! i)) ` ?X \<subseteq> dirtyb s \<union> busyb s"
  proof
    fix m assume "m \<in> (\<lambda>i. b_blockno (bufs s ! i)) ` ?X"
    then obtain i where i: "i \<in> ?X" "m = b_blockno (bufs s ! i)" by blast
    then have "holds s i m" using dev [OF i(1)] by (simp add: holds_def)
    then show "m \<in> dirtyb s \<union> busyb s" using i(1) by (auto simp: dirtyb_def busyb_def)
  qed
  ultimately have "card ?X \<le> card (dirtyb s \<union> busyb s)"
    by (rule card_inj_on_le [OF _ _ fin])
  moreover have "{..<length (bufs s)} = avail s \<union> ?X" by (auto simp: avail_def)
  then have "length (bufs s) \<le> card (avail s) + card ?X"
    using card_Un_le [of "avail s" ?X] card_lessThan [of "length (bufs s)"] by simp
  ultimately show ?thesis by linarith
qed

end
