(* ===== verification/Bytes.thy ===== *)
theory Bytes
  imports Kstring Bio
begin

text \<open>
  Little-endian fields in a byte list: how the kernel reads and writes C structures and arrays
  that live in the data of a disk block, and the superblock of \<open>src/fs.h\<close> as the instance that
  every layer above the cache uses.
\<close>

section \<open>Fields\<close>

definition get32 :: "block \<Rightarrow> nat \<Rightarrow> uint" where
  "get32 b k = ucast (b ! k) OR push_bit 8 (ucast (b ! (k + 1))) OR
     push_bit 16 (ucast (b ! (k + 2))) OR push_bit 24 (ucast (b ! (k + 3)))"

definition put32 :: "block \<Rightarrow> nat \<Rightarrow> uint \<Rightarrow> block" where
  "put32 b k v = b[k := byte_of v 0, k + 1 := byte_of v 1, k + 2 := byte_of v 2, k + 3 := byte_of v 3]"

definition get16 :: "block \<Rightarrow> nat \<Rightarrow> ushort" where
  "get16 b k = ucast (b ! k) OR push_bit 8 (ucast (b ! (k + 1)))"

definition put16 :: "block \<Rightarrow> nat \<Rightarrow> ushort \<Rightarrow> block" where
  "put16 b k v = b[k := ucast v, k + 1 := ucast (drop_bit 8 v)]"

lemma length_put32 [simp]: "length (put32 b k v) = length b"
  by (simp add: put32_def)

lemma length_put16 [simp]: "length (put16 b k v) = length b"
  by (simp add: put16_def)

lemma nth_put32_other: "j < k \<or> k + 4 \<le> j \<Longrightarrow> put32 b k v ! j = b ! j"
  by (auto simp: put32_def)

lemma nth_put16_other: "j < k \<or> k + 2 \<le> j \<Longrightarrow> put16 b k v ! j = b ! j"
  by (auto simp: put16_def)

lemma get32_put32 [simp]:
  assumes "k + 4 \<le> length b"
  shows "get32 (put32 b k v) k = v"
proof (rule bit_word_eqI)
  fix n assume n: "n < LENGTH(32)"
  then consider "n < 8" | "8 \<le> n \<and> n < 16" | "16 \<le> n \<and> n < 24" | "24 \<le> n \<and> n < 32" by force
  then show "bit (get32 (put32 b k v) k) n = bit v n"
    using assms by cases (auto simp: get32_def put32_def byte_of_def bit_simps)
qed

lemma get16_put16 [simp]:
  assumes "k + 2 \<le> length b"
  shows "get16 (put16 b k v) k = v"
proof (rule bit_word_eqI)
  fix n assume n: "n < LENGTH(16)"
  then consider "n < 8" | "8 \<le> n \<and> n < 16" by force
  then show "bit (get16 (put16 b k v) k) n = bit v n"
    using assms by cases (auto simp: get16_def put16_def bit_simps)
qed

lemma get32_put32_other: "j + 4 \<le> k \<or> k + 4 \<le> j \<Longrightarrow> get32 (put32 b k v) j = get32 b j"
  by (auto simp: get32_def nth_put32_other)

lemma get32_put16_other: "j + 4 \<le> k \<or> k + 2 \<le> j \<Longrightarrow> get32 (put16 b k v) j = get32 b j"
  by (auto simp: get32_def nth_put16_other)

lemma get16_put32_other: "j + 2 \<le> k \<or> k + 4 \<le> j \<Longrightarrow> get16 (put32 b k v) j = get16 b j"
  by (auto simp: get16_def nth_put32_other)

lemma get16_put16_other: "j + 2 \<le> k \<or> k + 2 \<le> j \<Longrightarrow> get16 (put16 b k v) j = get16 b j"
  by (auto simp: get16_def nth_put16_other)

lemmas field_other = get32_put32_other get32_put16_other get16_put32_other get16_put16_other

section \<open>The superblock (src/fs.h)\<close>

record superblock =
  sb_size :: uint
  sb_nblocks :: uint
  sb_ninodes :: uint
  sb_nlog :: uint
  sb_logstart :: uint
  sb_inodestart :: uint
  sb_bmapstart :: uint

definition dec_sb :: "block \<Rightarrow> superblock" where
  "dec_sb b = \<lparr>sb_size = get32 b 0, sb_nblocks = get32 b 4, sb_ninodes = get32 b 8, sb_nlog = get32 b 12,
               sb_logstart = get32 b 16, sb_inodestart = get32 b 20, sb_bmapstart = get32 b 24\<rparr>"

definition readsb :: "uint \<Rightarrow> 'a dev_scheme \<Rightarrow> (superblock \<times> 'a dev_scheme) res" where
  "readsb d s =
     bindE (bread d 1 s) (\<lambda>(i, s).
     let sb = dec_sb (b_data (bufs s ! i)) in
     bindE (brelse i s) (\<lambda>s. Inr (sb, s)))"

end
