(* ===== verification/Log.thy ===== *)
theory Log
  imports Bytes
begin

text \<open>
  The write-ahead log (\<open>src/log.c\<close>) on top of the buffer cache.  The in-memory log header is the
  count \<open>lh_n\<close> and the array \<open>lh_block\<close>; on disk they are 32-bit fields of the header block.  A
  caller that has to sleep in \<open>begin_op\<close> is the outcome \<open>Asleep\<close>; it runs \<open>begin_op\<close> again when
  woken.  The calls of \<open>wakeup\<close> are counted in \<open>l_wakeups\<close>.  \<open>log.lock\<close> makes each operation
  on the header atomic, which is how the definitions below treat them.
\<close>

section \<open>State\<close>

definition MAXOPBLOCKS :: nat where "MAXOPBLOCKS = 10"
definition LOGSIZE :: nat where "LOGSIZE = MAXOPBLOCKS * 3"

record logdev = dev +
  l_start :: uint
  l_size :: int
  l_outstanding :: int
  l_committing :: bool
  l_dev :: uint
  lh_n :: int
  lh_block :: "uint list"
  l_wakeups :: nat

section \<open>Operations\<close>

fun install_trans_loop :: "nat \<Rightarrow> nat \<Rightarrow> 'a logdev_scheme \<Rightarrow> 'a logdev_scheme res" where
  "install_trans_loop tail 0 s = Inr s"
| "install_trans_loop tail (Suc k) s =
     (if LOGSIZE \<le> tail then Inl OutOfBounds
      else bindE (bread (l_dev s) (l_start s + word_of_nat tail + 1) s) (\<lambda>(lbuf, s).
           bindE (bread (l_dev s) (lh_block s ! tail) s) (\<lambda>(dbuf, s).
           bindE (bwrite dbuf (upd_buf dbuf (\<lambda>b. b\<lparr>b_data := b_data (bufs s ! lbuf)\<rparr>) s)) (\<lambda>s.
           bindE (brelse lbuf s) (\<lambda>s.
           bindE (brelse dbuf s) (\<lambda>s.
           install_trans_loop (tail + 1) k s))))))"

definition install_trans :: "'a logdev_scheme \<Rightarrow> 'a logdev_scheme res" where
  "install_trans s = install_trans_loop 0 (nat (lh_n s)) s"

text \<open>Copying the block numbers between the header block and the array in memory; the array has
  \<open>LOGSIZE\<close> entries.\<close>

fun read_head_loop :: "block \<Rightarrow> nat \<Rightarrow> nat \<Rightarrow> uint list \<Rightarrow> uint list res" where
  "read_head_loop lh i 0 blk = Inr blk"
| "read_head_loop lh i (Suc k) blk =
     (if LOGSIZE \<le> i then Inl OutOfBounds
      else read_head_loop lh (i + 1) k (blk[i := get32 lh (4 + 4 * i)]))"

definition read_head :: "'a logdev_scheme \<Rightarrow> 'a logdev_scheme res" where
  "read_head s =
     bindE (bread (l_dev s) (l_start s) s) (\<lambda>(i, s).
     let lh = b_data (bufs s ! i); s = s\<lparr>lh_n := sint (get32 lh 0)\<rparr> in
     bindE (read_head_loop lh 0 (nat (lh_n s)) (lh_block s)) (\<lambda>blk.
     brelse i (s\<lparr>lh_block := blk\<rparr>)))"

fun write_head_loop :: "uint list \<Rightarrow> nat \<Rightarrow> nat \<Rightarrow> block \<Rightarrow> block res" where
  "write_head_loop blk i 0 hb = Inr hb"
| "write_head_loop blk i (Suc k) hb =
     (if LOGSIZE \<le> i then Inl OutOfBounds
      else write_head_loop blk (i + 1) k (put32 hb (4 + 4 * i) (blk ! i)))"

definition write_head :: "'a logdev_scheme \<Rightarrow> 'a logdev_scheme res" where
  "write_head s =
     bindE (bread (l_dev s) (l_start s) s) (\<lambda>(i, s).
     bindE (write_head_loop (lh_block s) 0 (nat (lh_n s))
              (put32 (b_data (bufs s ! i)) 0 (word_of_int (lh_n s)))) (\<lambda>hb.
     bindE (bwrite i (upd_buf i (\<lambda>b. b\<lparr>b_data := hb\<rparr>) s)) (\<lambda>s.
     brelse i s)))"

definition recover_from_log :: "'a logdev_scheme \<Rightarrow> 'a logdev_scheme res" where
  "recover_from_log s =
     bindE (read_head s) (\<lambda>s.
     bindE (install_trans s) (\<lambda>s.
     write_head (s\<lparr>lh_n := 0\<rparr>)))"

text \<open>\<open>sizeof(struct logheader)\<close> is four bytes for the count and four for each entry.\<close>

definition initlog :: "uint \<Rightarrow> 'a logdev_scheme \<Rightarrow> 'a logdev_scheme res" where
  "initlog d s =
     (if BSIZE \<le> 4 + 4 * LOGSIZE then Inl (Panic ''initlog: too big logheader'')
      else bindE (readsb d s) (\<lambda>(sb, s).
           recover_from_log (s\<lparr>l_start := sb_logstart sb, l_size := sint (sb_nlog sb), l_dev := d\<rparr>)))"

definition begin_op :: "'a logdev_scheme \<Rightarrow> 'a logdev_scheme res" where
  "begin_op s =
     (if l_committing s then Inl Asleep
      else if lh_n s + (l_outstanding s + 1) * int MAXOPBLOCKS > int LOGSIZE then Inl Asleep
      else Inr (s\<lparr>l_outstanding := l_outstanding s + 1\<rparr>))"

fun write_log_loop :: "nat \<Rightarrow> nat \<Rightarrow> 'a logdev_scheme \<Rightarrow> 'a logdev_scheme res" where
  "write_log_loop tail 0 s = Inr s"
| "write_log_loop tail (Suc k) s =
     (if LOGSIZE \<le> tail then Inl OutOfBounds
      else bindE (bread (l_dev s) (l_start s + word_of_nat tail + 1) s) (\<lambda>(to, s).
           bindE (bread (l_dev s) (lh_block s ! tail) s) (\<lambda>(from, s).
           bindE (bwrite to (upd_buf to (\<lambda>b. b\<lparr>b_data := b_data (bufs s ! from)\<rparr>) s)) (\<lambda>s.
           bindE (brelse from s) (\<lambda>s.
           bindE (brelse to s) (\<lambda>s.
           write_log_loop (tail + 1) k s))))))"

definition write_log :: "'a logdev_scheme \<Rightarrow> 'a logdev_scheme res" where
  "write_log s = write_log_loop 0 (nat (lh_n s)) s"

definition commit :: "'a logdev_scheme \<Rightarrow> 'a logdev_scheme res" where
  "commit s =
     (if lh_n s > 0
      then bindE (write_log s) (\<lambda>s.
           bindE (write_head s) (\<lambda>s.
           bindE (install_trans s) (\<lambda>s.
           write_head (s\<lparr>lh_n := 0\<rparr>))))
      else Inr s)"

definition end_op :: "'a logdev_scheme \<Rightarrow> 'a logdev_scheme res" where
  "end_op s =
     (let s = s\<lparr>l_outstanding := l_outstanding s - 1\<rparr> in
      if l_committing s then Inl (Panic ''log.committing'')
      else if l_outstanding s = 0
      then bindE (commit (s\<lparr>l_committing := True\<rparr>)) (\<lambda>s.
             Inr (s\<lparr>l_committing := False, l_wakeups := l_wakeups s + 1\<rparr>))
      else Inr (s\<lparr>l_wakeups := l_wakeups s + 1\<rparr>))"

text \<open>\<open>log_write\<close> looks for the block among the logged ones (absorption) and otherwise appends it.\<close>

definition log_slot :: "uint \<Rightarrow> 'a logdev_scheme \<Rightarrow> nat" where
  "log_slot n s =
     (case first_idx (\<lambda>x. x = n) (take (nat (lh_n s)) (lh_block s)) of Some j \<Rightarrow> j | None \<Rightarrow> nat (lh_n s))"

definition log_write :: "nat \<Rightarrow> 'a logdev_scheme \<Rightarrow> 'a logdev_scheme res" where
  "log_write b s =
     (if lh_n s \<ge> int LOGSIZE \<or> lh_n s \<ge> l_size s - 1 then Inl (Panic ''too big a transaction'')
      else if l_outstanding s < 1 then Inl (Panic ''log_write outside of trans'')
      else let n = b_blockno (bufs s ! b); i = log_slot n s in
           Inr (upd_buf b (\<lambda>b. b\<lparr>b_dirty := True\<rparr>)
                  (s\<lparr>lh_block := (lh_block s)[i := n], lh_n := (if int i = lh_n s then lh_n s + 1 else lh_n s)\<rparr>)))"

section \<open>Sequences of disk writes\<close>

definition apply_writes :: "(uint \<times> block) list \<Rightarrow> (uint \<Rightarrow> block) \<Rightarrow> (uint \<Rightarrow> block)" where
  "apply_writes W d = fold (\<lambda>(n, b) d. d(n := b)) W d"

lemma apply_writes_simps [simp]:
  "apply_writes [] d = d" "apply_writes ((n, b) # W) d = apply_writes W (d(n := b))"
  "apply_writes (W @ W') d = apply_writes W' (apply_writes W d)"
  by (simp_all add: apply_writes_def)

lemma apply_writes_other: "n \<notin> fst ` set W \<Longrightarrow> apply_writes W d n = d n"
  by (induction W arbitrary: d) auto

lemma apply_writes_cong: "d n = d' n \<Longrightarrow> apply_writes W d n = apply_writes W d' n"
proof (induction W arbitrary: d d')
  case (Cons p W)
  have "(d(fst p := snd p)) n = (d'(fst p := snd p)) n" using Cons(2) by simp
  then have "apply_writes W (d(fst p := snd p)) n = apply_writes W (d'(fst p := snd p)) n" by (rule Cons(1))
  then show ?case by (cases p) simp
qed simp

lemma apply_writes_idem: "fst ` set V \<subseteq> fst ` set W \<Longrightarrow> apply_writes W (apply_writes V d) = apply_writes W d"
proof (rule ext)
  fix n assume V: "fst ` set V \<subseteq> fst ` set W"
  show "apply_writes W (apply_writes V d) n = apply_writes W d n"
  proof (cases "n \<in> fst ` set W")
    case True
    have "apply_writes W d1 n = apply_writes W d2 n" if "n \<in> fst ` set W" for d1 d2
      using that
    proof (induction W arbitrary: d1 d2)
      case (Cons p W)
      then show ?case
        by (cases p, cases "n \<in> fst ` set W") (simp_all add: apply_writes_other)
    qed simp
    then show ?thesis using True by blast
  next
    case False
    then show ?thesis using V by (auto intro!: apply_writes_cong apply_writes_other)
  qed
qed

lemma apply_writes_nth:
  assumes "distinct xs" and "t < length xs"
  shows "apply_writes (map (\<lambda>t. (xs ! t, g t)) [0..<length xs]) d (xs ! t) = g t"
proof -
  have "apply_writes (map (\<lambda>t. (xs ! t, g t)) [a..<length xs]) d (xs ! t) = g t" if "a \<le> t" for a
    using that assms(2)
  proof (induction "t - a" arbitrary: a d)
    case 0
    then have a: "a = t" by simp
    have "[t..<length xs] = t # [Suc t..<length xs]" using 0 a by (simp add: upt_conv_Cons)
    moreover have "xs ! t \<notin> fst ` set (map (\<lambda>t. (xs ! t, g t)) [Suc t..<length xs])"
      using assms 0 by (auto simp: nth_eq_iff_index_eq)
    ultimately show ?case using a by (simp add: apply_writes_other)
  next
    case (Suc k)
    then have "[a..<length xs] = a # [Suc a..<length xs]" by (simp add: upt_conv_Cons)
    then show ?case using Suc(1) [of "Suc a"] Suc(2-4) by simp
  qed
  then show ?thesis by simp
qed

section \<open>The log on disk\<close>

definition lblk :: "uint \<Rightarrow> nat \<Rightarrow> uint" where
  "lblk st t = st + word_of_nat t + 1"

definition logreg :: "uint \<Rightarrow> nat \<Rightarrow> uint set" where
  "logreg st sz = {n. unat st \<le> unat n \<and> unat n < unat st + sz}"

definition is_header :: "block \<Rightarrow> uint list \<Rightarrow> bool" where
  "is_header hb xs \<longleftrightarrow> length hb = BSIZE \<and> get32 hb 0 = word_of_nat (length xs) \<and>
     (\<forall>t < length xs. get32 hb (4 + 4 * t) = xs ! t)"

lemma unat_lblk:
  assumes "unat st + t + 1 < unat (z :: uint)"
  shows "unat (lblk st t) = unat st + t + 1"
proof -
  have z: "unat z < 4294967296" by (rule unat_uint_less)
  have "lblk st t = word_of_nat (unat st + t + 1)" by (simp add: lblk_def)
  then show ?thesis using assms z by (simp only: unat_word_of_nat_uint)
qed

lemma write_head_loop_ok:
  assumes "i + k \<le> LOGSIZE" and "length hb = BSIZE"
  shows "\<exists>hb'. write_head_loop blk i k hb = Inr hb' \<and> length hb' = BSIZE \<and>
    (\<forall>j. j + 4 \<le> 4 + 4 * i \<longrightarrow> get32 hb' j = get32 hb j) \<and>
    (\<forall>t. i \<le> t \<and> t < i + k \<longrightarrow> get32 hb' (4 + 4 * t) = blk ! t)"
  using assms
proof (induction k arbitrary: i hb)
  case (Suc k)
  let ?hb = "put32 hb (4 + 4 * i) (blk ! i)"
  have "i < LOGSIZE" "LOGSIZE = 30" "BSIZE = 512" using Suc(2) by (auto simp: LOGSIZE_def MAXOPBLOCKS_def BSIZE_def)
  then have self: "get32 ?hb (4 + 4 * i) = blk ! i" using Suc(3) by (intro get32_put32) simp
  obtain hb' where r: "write_head_loop blk (i + 1) k ?hb = Inr hb'" "length hb' = BSIZE"
      "\<forall>j. j + 4 \<le> 4 + 4 * (i + 1) \<longrightarrow> get32 hb' j = get32 ?hb j"
      "\<forall>t. i + 1 \<le> t \<and> t < i + 1 + k \<longrightarrow> get32 hb' (4 + 4 * t) = blk ! t"
    using Suc(1) [of "i + 1" ?hb] Suc(2,3) by auto
  have "get32 hb' j = get32 hb j" if "j + 4 \<le> 4 + 4 * i" for j
    using r(3) that by (simp add: get32_put32_other)
  moreover have "get32 hb' (4 + 4 * t) = blk ! t" if "i \<le> t" "t < i + Suc k" for t
    using r(3,4) that self by (cases "t = i") auto
  ultimately show ?case using r(1,2) \<open>i < LOGSIZE\<close> by auto
qed auto

lemma read_head_loop_ok:
  assumes "i + k \<le> LOGSIZE" and "length blk = LOGSIZE"
  shows "\<exists>blk'. read_head_loop lh i k blk = Inr blk' \<and> length blk' = LOGSIZE \<and>
    (\<forall>t < i. blk' ! t = blk ! t) \<and> (\<forall>t. i \<le> t \<and> t < i + k \<longrightarrow> blk' ! t = get32 lh (4 + 4 * t))"
  using assms
proof (induction k arbitrary: i blk)
  case (Suc k)
  let ?blk = "blk[i := get32 lh (4 + 4 * i)]"
  obtain blk' where r: "read_head_loop lh (i + 1) k ?blk = Inr blk'" "length blk' = LOGSIZE"
      "\<forall>t < i + 1. blk' ! t = ?blk ! t" "\<forall>t. i + 1 \<le> t \<and> t < i + 1 + k \<longrightarrow> blk' ! t = get32 lh (4 + 4 * t)"
    using Suc(1) [of "i + 1" ?blk] Suc(2,3) by auto
  have "blk' ! t = get32 lh (4 + 4 * t)" if "i \<le> t" "t < i + Suc k" for t
    using r(3,4) that Suc(2,3) by (cases "t = i") auto
  then show ?case using r Suc(2) by auto
qed auto

section \<open>The operations on the cache\<close>

text \<open>The log's own fields are not touched by the cache, and the cache does not see them.\<close>

lemma log_fields:
  assumes "dev.more s' = dev.more s"
  shows "l_start s' = l_start s" "l_size s' = l_size s" "l_outstanding s' = l_outstanding s"
    "l_committing s' = l_committing s" "l_dev s' = l_dev s" "lh_n s' = lh_n s" "lh_block s' = lh_block s"
    "l_wakeups s' = l_wakeups s" "logdev.more s' = logdev.more s"
  using assms by (cases s; cases s'; simp)+

lemma cache_inv_cong:
  assumes "bufs s' = bufs s" and "lru s' = lru s" and "disk s' = disk s" and "disksize s' = disksize s"
  shows "cache_inv s' = cache_inv s" and "content s' = content s" and "dirtyb s' = dirtyb s"
    and "busyb s' = busyb s" and "avail s' = avail s" and "held s' = held s"
  using assms
  by (auto simp: cache_inv_def buf_ok_def content_def cached_def dirtyb_def busyb_def avail_def holds_def
      held_def fun_eq_iff cong: option.case_cong)

lemma log_frame [simp]:
  "cache_inv (s\<lparr>lh_n := x\<rparr>) = cache_inv s" "cache_inv (s\<lparr>lh_block := y\<rparr>) = cache_inv s"
  "content (s\<lparr>lh_n := x\<rparr>) = content s" "content (s\<lparr>lh_block := y\<rparr>) = content s"
  "dirtyb (s\<lparr>lh_n := x\<rparr>) = dirtyb s" "dirtyb (s\<lparr>lh_block := y\<rparr>) = dirtyb s"
  "busyb (s\<lparr>lh_n := x\<rparr>) = busyb s" "busyb (s\<lparr>lh_block := y\<rparr>) = busyb s"
  "avail (s\<lparr>lh_n := x\<rparr>) = avail s" "avail (s\<lparr>lh_block := y\<rparr>) = avail s"
  "held (s\<lparr>lh_n := x\<rparr>) = held s" "held (s\<lparr>lh_block := y\<rparr>) = held s"
  by (rule cache_inv_cong; simp)+

lemma view_eqD:
  assumes "view s = (c, d, D, B, w, z, m)"
  shows "content s = c" "disk s = d" "dirtyb s = D" "busyb s = B" "dwrites s = w" "disksize s = z" "dev.more s = m"
  using assms by (simp_all add: view_def)

lemma view_log:
  assumes "view s = (c, d, D, B, w, z, m)"
  shows "view (s\<lparr>lh_n := x\<rparr>) = (c, d, D, B, w, z, dev.more (s\<lparr>lh_n := x\<rparr>))"
    "view (s\<lparr>lh_block := y\<rparr>) = (c, d, D, B, w, z, dev.more (s\<lparr>lh_block := y\<rparr>))"
  using view_eqD [OF assms] by (simp_all add: view_def)

text \<open>Where the log lives on the disk.\<close>

definition log_geom :: "'a logdev_scheme \<Rightarrow> bool" where
  "log_geom s \<longleftrightarrow> l_dev s = 1 \<and> length (lh_block s) = LOGSIZE \<and>
     unat (l_start s) + nat (l_size s) \<le> unat (disksize s)"

lemma lblk_facts:
  assumes "unat st + sz \<le> unat (z :: uint)" and "t + 1 < sz"
  shows "lblk st t < z" "lblk st t \<in> logreg st sz" "lblk st t \<noteq> st"
    "t' + 1 < sz \<Longrightarrow> lblk st t = lblk st t' \<longleftrightarrow> t = t'"
proof -
  have u: "unat (lblk st t) = unat st + t + 1" if "t + 1 < sz" for t
    using assms that by (intro unat_lblk [of st t z]) simp
  note ut = u [OF assms(2)]
  show "lblk st t < z" using assms by (simp add: word_less_nat_alt ut)
  show "lblk st t \<in> logreg st sz" using assms(2) by (simp add: logreg_def ut)
  show "lblk st t \<noteq> st"
  proof
    assume "lblk st t = st"
    then have "unat (lblk st t) = unat st" by (rule arg_cong)
    then show False unfolding ut by simp
  qed
  assume t': "t' + 1 < sz"
  show "lblk st t = lblk st t' \<longleftrightarrow> t = t'"
  proof
    assume "lblk st t = lblk st t'"
    then have "unat (lblk st t) = unat (lblk st t')" by (rule arg_cong)
    then show "t = t'" unfolding ut u [OF t'] by simp
  qed simp
qed

lemma write_log_loop_ok:
  assumes "cache_inv s" and "view s = (c, d, D, {}, w, z, m)" and "avail s \<noteq> {}" and "l_dev s = 1"
    and "unat st + sz \<le> unat z" and "l_start s = st"
    and "tail + k \<le> LOGSIZE" and "tail + k < sz"
    and "\<forall>t < tail + k. lh_block s ! t \<in> D \<and> lh_block s ! t < z" and "D \<inter> logreg st sz = {}"
  shows "\<exists>s'. write_log_loop tail k s = Inr s' \<and> cache_inv s' \<and> avail s' \<noteq> {} \<and>
     (let W = map (\<lambda>t. (lblk st t, c (lh_block s ! t))) [tail..<tail + k]
      in view s' = (apply_writes W c, apply_writes W d, D, {}, w @ W, z, m))"
  using assms
proof (induction k arbitrary: tail s c d w)
  case (Suc k)
  define a where "a = lblk st tail"
  define b where "b = lh_block s ! tail"
  have t: "tail < LOGSIZE" "tail + 1 < sz" using Suc(8,9) by simp_all
  note lf = lblk_facts [OF Suc(6) t(2)]
  have b: "b \<in> D" "b < z" using Suc(10) by (auto simp: b_def)
  have ab: "a \<noteq> b" "a < z" "a \<notin> D" using lf(1,2) b(1) Suc(11) by (auto simp: a_def)
  obtain i j s1 s2 s3 s4 s5 where r: "bread 1 a s = Inr (i, s1)" "bread 1 b s1 = Inr (j, s2)"
      "b_data (bufs s2 ! j) = c b" "bwrite i (upd_buf i (\<lambda>b'. b'\<lparr>b_data := c b\<rparr>) s2) = Inr s3"
      "brelse j s3 = Inr s4" "brelse i s4 = Inr s5" "cache_inv s5"
      "view s5 = (c(a := c b), d(a := c b), D - {a}, {}, w @ [(a, c b)], z, m)" "avail s \<subseteq> avail s5"
    using bc.copy_to_first [OF Suc(2,3) ab(2) _ b(2) _ ab(1) finite_avail Suc(4)] b(1) by blast
  obtain i' s1' where "bread 1 a s = Inr (i', s1')" "view s1' = (c, d, D, insert a {}, w, z, m)"
    using bc.rd_ok [OF Suc(2,3) ab(2)] Suc(4) by blast
  then have m: "dev.more s1 = dev.more s" using r(1) view_eqD(7) [OF Suc(3)] view_eqD(7) by fastforce
  have m5: "dev.more s5 = dev.more s" using view_eqD [OF r(8)] view_eqD [OF Suc(3)] by simp
  have "l_dev s1 = 1" "lh_block s1 ! tail = b" using log_fields [OF m] Suc(5) by (simp_all add: b_def)
  then have step: "write_log_loop tail (Suc k) s = write_log_loop (tail + 1) k s5"
    using r t(1) Suc(5,7) by (simp add: a_def lblk_def b_def)
  let ?W = "map (\<lambda>t. (lblk st t, (c(a := c b)) (lh_block s5 ! t))) [tail + 1..<tail + 1 + k]"
  have Da: "D - {a} = D" using ab(3) by blast
  have av5: "avail s5 \<noteq> {}" using r(9) Suc(4) by blast
  have d5: "l_dev s5 = 1" and st5: "l_start s5 = st" using log_fields [OF m5] Suc(5,7) by simp_all
  have k5: "tail + 1 + k \<le> LOGSIZE" and k5': "tail + 1 + k < sz" using Suc(8,9) by simp_all
  have blk5: "\<forall>t < tail + 1 + k. lh_block s5 ! t \<in> D \<and> lh_block s5 ! t < z"
    using Suc(10) log_fields(7) [OF m5] by simp
  obtain s' where s': "write_log_loop (tail + 1) k s5 = Inr s'" "cache_inv s'" "avail s' \<noteq> {}"
      "view s' = (apply_writes ?W (c(a := c b)), apply_writes ?W (d(a := c b)), D, {}, (w @ [(a, c b)]) @ ?W, z, m)"
    using Suc(1) [OF r(7) r(8) [unfolded Da] av5 d5 Suc(6) st5 k5 k5' blk5 Suc(11)] unfolding Let_def by blast
  have W: "?W = map (\<lambda>t. (lblk st t, c (lh_block s ! t))) [tail + 1..<tail + 1 + k]"
    using Suc(10) ab(3) log_fields(7) [OF m5] by auto
  have "map (\<lambda>t. (lblk st t, c (lh_block s ! t))) [tail..<tail + Suc k] =
      (a, c b) # map (\<lambda>t. (lblk st t, c (lh_block s ! t))) [tail + 1..<tail + 1 + k]"
    by (simp add: upt_conv_Cons a_def b_def del: upt_Suc)
  then show ?case
    using step s'(1-3) s'(4) [unfolded W] by (simp only: Let_def apply_writes_simps append_assoc append.simps) blast
qed simp

lemma install_trans_loop_ok:
  assumes "cache_inv s" and "view s = (c, d, D, {}, w, z, m)" and "avail s \<noteq> {}" and "l_dev s = 1"
    and "unat st + sz \<le> unat z" and "l_start s = st"
    and "tail + k \<le> LOGSIZE" and "tail + k < sz" and "distinct (take (tail + k) (lh_block s))"
    and "length (lh_block s) = LOGSIZE"
    and "\<forall>t < tail + k. lh_block s ! t < z \<and> lh_block s ! t \<notin> logreg st sz"
    and "(\<forall>t. tail \<le> t \<and> t < tail + k \<longrightarrow> lh_block s ! t \<in> D) \<or> 2 \<le> card (avail s)"
  shows "\<exists>s'. install_trans_loop tail k s = Inr s' \<and> cache_inv s' \<and> avail s \<subseteq> avail s' \<and>
     (let W = map (\<lambda>t. (lh_block s ! t, c (lblk st t))) [tail..<tail + k]
      in view s' = (apply_writes W c, apply_writes W d, D - fst ` set W, {}, w @ W, z, m))"
  using assms
proof (induction k arbitrary: tail s c d w D)
  case (Suc k)
  define a where "a = lblk st tail"
  define b where "b = lh_block s ! tail"
  have t: "tail < LOGSIZE" "tail + 1 < sz" using Suc(8,9) by simp_all
  note lf = lblk_facts [OF Suc(6) t(2)]
  have b: "b < z" "b \<notin> logreg st sz" using Suc(12) by (auto simp: b_def)
  have ab: "a \<noteq> b" "a < z" using lf(1,2) b(2) by (auto simp: a_def)
  have "b \<in> D \<or> 2 \<le> card (avail s)" using Suc(13) by (auto simp: b_def)
  then obtain i j s1 s2 s3 s4 s5 where r: "bread 1 a s = Inr (i, s1)" "bread 1 b s1 = Inr (j, s2)"
      "b_data (bufs s2 ! i) = c a" "bwrite j (upd_buf j (\<lambda>b'. b'\<lparr>b_data := c a\<rparr>) s2) = Inr s3"
      "brelse i s3 = Inr s4" "brelse j s4 = Inr s5" "cache_inv s5"
      "view s5 = (c(b := c a), d(b := c a), D - {b}, {}, w @ [(b, c a)], z, m)" "avail s \<subseteq> avail s5"
    using bc.copy_to_second [OF Suc(2,3) ab(2) _ b(1) _ ab(1) finite_avail Suc(4)] by blast
  obtain i' s1' where "bread 1 a s = Inr (i', s1')" "view s1' = (c, d, D, insert a {}, w, z, m)"
    using bc.rd_ok [OF Suc(2,3) ab(2)] Suc(4) by blast
  then have m: "dev.more s1 = dev.more s" using r(1) view_eqD(7) [OF Suc(3)] view_eqD(7) by fastforce
  have m5: "dev.more s5 = dev.more s" using view_eqD [OF r(8)] view_eqD [OF Suc(3)] by simp
  have "l_dev s1 = 1" "lh_block s1 ! tail = b" using log_fields [OF m] Suc(5) by (simp_all add: b_def)
  then have step: "install_trans_loop tail (Suc k) s = install_trans_loop (tail + 1) k s5"
    using r t(1) Suc(5,7) by (simp add: a_def lblk_def b_def)
  have av5: "avail s5 \<noteq> {}" using r(9) Suc(4) by blast
  have d5: "l_dev s5 = 1" and st5: "l_start s5 = st" and b5: "lh_block s5 = lh_block s"
    using log_fields [OF m5] Suc(5,7) by simp_all
  have k5: "tail + 1 + k \<le> LOGSIZE" and k5': "tail + 1 + k < sz" using Suc(8,9) by simp_all
  have dis5: "distinct (take (tail + 1 + k) (lh_block s5))" "length (lh_block s5) = LOGSIZE"
    using Suc(10,11) b5 by simp_all
  have ne: "lh_block s ! t \<noteq> b" if "tail + 1 \<le> t" "t < tail + 1 + k" for t
  proof -
    have "take (tail + Suc k) (lh_block s) ! t \<noteq> take (tail + Suc k) (lh_block s) ! tail"
      using Suc(10,11) that k5 by (subst nth_eq_iff_index_eq) auto
    then show ?thesis using that by (simp add: b_def)
  qed
  have blk5: "\<forall>t < tail + 1 + k. lh_block s5 ! t < z \<and> lh_block s5 ! t \<notin> logreg st sz"
    using Suc(12) b5 by simp
  have rm5: "(\<forall>t. tail + 1 \<le> t \<and> t < tail + 1 + k \<longrightarrow> lh_block s5 ! t \<in> D - {b}) \<or> 2 \<le> card (avail s5)"
    using Suc(13) ne b5 card_mono [OF finite_avail r(9)] by auto
  let ?W = "map (\<lambda>t. (lh_block s5 ! t, (c(b := c a)) (lblk st t))) [tail + 1..<tail + 1 + k]"
  obtain s' where s': "install_trans_loop (tail + 1) k s5 = Inr s'" "cache_inv s'" "avail s5 \<subseteq> avail s'"
      "view s' = (apply_writes ?W (c(b := c a)), apply_writes ?W (d(b := c a)), D - {b} - fst ` set ?W, {},
                  (w @ [(b, c a)]) @ ?W, z, m)"
    using Suc(1) [OF r(7,8) av5 d5 Suc(6) st5 k5 k5' dis5 blk5 rm5] unfolding Let_def by blast
  have "lblk st t \<noteq> b" if "t < tail + 1 + k" for t
    using lblk_facts(2) [OF Suc(6), of t] b(2) that k5' by fastforce
  then have W: "?W = map (\<lambda>t. (lh_block s ! t, c (lblk st t))) [tail + 1..<tail + 1 + k]"
    using b5 by (auto simp del: upt_Suc)
  have W': "map (\<lambda>t. (lh_block s ! t, c (lblk st t))) [tail..<tail + Suc k] =
      (b, c a) # map (\<lambda>t. (lh_block s ! t, c (lblk st t))) [tail + 1..<tail + 1 + k]"
    by (simp add: upt_conv_Cons a_def b_def del: upt_Suc)
  have "avail s \<subseteq> avail s'" using s'(3) r(9) by blast
  moreover have "D - {b} - X = D - insert b X" for X by blast
  ultimately show ?case
    unfolding W' Let_def using step s'(1,2) s'(4) [unfolded W] by simp
qed simp

lemma write_head_ok:
  assumes "cache_inv s" and "view s = (c, d, D, {}, w, z, m)" and "avail s \<noteq> {}" and "l_dev s = 1"
    and "l_start s = st" and "st < z" and "lh_n s = int n" and "n \<le> LOGSIZE"
    and "length (lh_block s) = LOGSIZE" and "length (c st) = BSIZE"
  shows "\<exists>s' hb. write_head s = Inr s' \<and> cache_inv s' \<and> avail s \<subseteq> avail s' \<and>
     is_header hb (take n (lh_block s)) \<and>
     view s' = (c(st := hb), d(st := hb), D - {st}, {}, w @ [(st, hb)], z, m)"
proof -
  let ?hb0 = "put32 (c st) 0 (word_of_int (int n))"
  obtain hb where hb: "write_head_loop (lh_block s) 0 n ?hb0 = Inr hb" "length hb = BSIZE"
      "\<forall>j. j + 4 \<le> 4 \<longrightarrow> get32 hb j = get32 ?hb0 j" "\<forall>t < n. get32 hb (4 + 4 * t) = lh_block s ! t"
    using write_head_loop_ok [of 0 n ?hb0 "lh_block s"] assms(8,10) by auto
  have "get32 hb 0 = word_of_nat n" using hb(3) assms(10) by (simp add: BSIZE_def)
  then have hdr: "is_header hb (take n (lh_block s))" using hb(2,4) assms(8,9) by (simp add: is_header_def)
  obtain i s1 s2 s3 where r: "bread 1 st s = Inr (i, s1)" "b_data (bufs s1 ! i) = c st"
      "bwrite i (upd_buf i (\<lambda>b. b\<lparr>b_data := hb\<rparr>) s1) = Inr s2" "brelse i s2 = Inr s3" "cache_inv s3"
      "view s3 = (c(st := hb), d(st := hb), D - {st}, {}, w @ [(st, hb)], z, m)" "avail s \<subseteq> avail s3"
    using bc.read_write_release [OF assms(1,2,6), where f = "\<lambda>_. hb"] assms(3) by blast
  obtain i' s1' where "bread 1 st s = Inr (i', s1')" "view s1' = (c, d, D, insert st {}, w, z, m)"
    using bc.rd_ok [OF assms(1,2,6)] assms(3) by blast
  then have m: "dev.more s1 = dev.more s" using r(1) view_eqD(7) [OF assms(2)] view_eqD(7) by fastforce
  have "write_head s = Inr s3"
    using r hb(1) log_fields [OF m] assms(4,5,7) by (simp add: write_head_def)
  then show ?thesis using r hdr by blast
qed

lemma sint_small: "n \<le> LOGSIZE \<Longrightarrow> sint (word_of_nat n :: uint) = int n"
  by (simp add: LOGSIZE_def MAXOPBLOCKS_def signed_of_nat signed_take_bit_int_eq_self)

lemma read_head_ok:
  assumes "cache_inv s" and "view s = (c, d, D, {}, w, z, m)" and "avail s \<noteq> {}" and "l_dev s = 1"
    and "l_start s = st" and "st < z" and "length xs \<le> LOGSIZE" and "length (lh_block s) = LOGSIZE"
    and "is_header (c st) xs"
  shows "\<exists>s'. read_head s = Inr s' \<and> cache_inv s' \<and> avail s \<subseteq> avail s' \<and>
     view s' = (c, d, D, {}, w, z, dev.more s') \<and> lh_n s' = int (length xs) \<and>
     length (lh_block s') = LOGSIZE \<and> take (length xs) (lh_block s') = xs \<and>
     l_start s' = st \<and> l_dev s' = 1 \<and> l_size s' = l_size s \<and> l_outstanding s' = l_outstanding s \<and>
     l_committing s' = l_committing s \<and> logdev.more s' = logdev.more s"
proof -
  let ?n = "length xs"
  obtain i s1 where r: "bread 1 st s = Inr (i, s1)" "cache_inv s1" "held s1 i st"
      "view s1 = (c, d, D, insert st {}, w, z, m)" "avail s1 = avail s - {i}" "st \<in> D \<longrightarrow> i \<notin> avail s"
    using bc.rd_ok [OF assms(1,2,6)] assms(3) by blast
  have m: "dev.more s1 = dev.more s" using view_eqD(7) [OF assms(2)] view_eqD(7) [OF r(4)] by simp
  have data: "b_data (bufs s1 ! i) = c st" using bc.data_ok [OF r(2,4,3)] .
  have n: "sint (get32 (c st) 0) = int ?n" using assms(7,9) by (simp add: is_header_def sint_small)
  obtain blk where blk: "read_head_loop (c st) 0 ?n (lh_block s) = Inr blk" "length blk = LOGSIZE"
      "\<forall>t < ?n. blk ! t = get32 (c st) (4 + 4 * t)"
    using read_head_loop_ok [of 0 ?n "lh_block s" "c st"] assms(7,8) by auto
  then have xs: "take ?n blk = xs" using assms(7,9) by (intro nth_equalityI) (auto simp: is_header_def)
  let ?s2 = "s1\<lparr>lh_n := int ?n, lh_block := blk\<rparr>"
  have v2: "view ?s2 = (c, d, D, {st}, w, z, dev.more ?s2)" using view_eqD [OF r(4)] by (simp add: view_def)
  have h2: "cache_inv ?s2" "held ?s2 i st" using r(2,3) by simp_all
  obtain s3 where s3: "brelse i ?s2 = Inr s3" "cache_inv s3"
      "view s3 = (c, d, D, {st} - {st}, w, z, dev.more ?s2)" "avail s3 = avail ?s2 \<union> (if st \<in> D then {} else {i})"
    using bc.rel_ok [OF h2(1) v2 h2(2)] by blast
  have m3: "dev.more s3 = dev.more ?s2" using view_eqD(7) [OF s3(3)] .
  have "read_head s = Inr s3"
    using r(1) data n blk(1) s3(1) log_fields [OF m] assms(4,5) by (simp add: read_head_def)
  moreover have "avail s \<subseteq> avail s3" using s3(4) r(5,6) by auto
  ultimately show ?thesis
    using s3(2,3) log_fields [OF m3] log_fields [OF m] blk(2) xs assms(4,5) m3 by simp
qed

section \<open>What a disk with a log stands for\<close>

text \<open>The transaction that the header on disk describes, the writes that installing it performs,
  and the blocks of the disk once it is installed.\<close>

definition hdr_list :: "block \<Rightarrow> uint list" where
  "hdr_list hb = map (\<lambda>t. get32 hb (4 + 4 * t)) [0..<nat (sint (get32 hb 0))]"

definition install_writes :: "uint \<Rightarrow> (uint \<Rightarrow> block) \<Rightarrow> uint list \<Rightarrow> (uint \<times> block) list" where
  "install_writes st d xs = map (\<lambda>t. (xs ! t, d (lblk st t))) [0..<length xs]"

definition log_disk :: "uint \<Rightarrow> nat \<Rightarrow> uint \<Rightarrow> (uint \<Rightarrow> block) \<Rightarrow> uint list \<Rightarrow> bool" where
  "log_disk st sz z d xs \<longleftrightarrow> is_header (d st) xs \<and> length xs \<le> LOGSIZE \<and> length xs < sz \<and> distinct xs \<and>
     (\<forall>x \<in> set xs. x < z \<and> x \<notin> logreg st sz \<and> x \<noteq> 1)"

definition recovered :: "uint \<Rightarrow> (uint \<Rightarrow> block) \<Rightarrow> (uint \<Rightarrow> block)" where
  "recovered st d = apply_writes (install_writes st d (hdr_list (d st))) d"

text \<open>The disk stands for the file system contents \<open>f\<close> (outside the log) when its log is well
  formed and recovery would produce \<open>f\<close>.\<close>

definition represents :: "uint \<Rightarrow> nat \<Rightarrow> uint \<Rightarrow> (uint \<Rightarrow> block) \<Rightarrow> (uint \<Rightarrow> block) \<Rightarrow> bool" where
  "represents st sz z d f \<longleftrightarrow>
     log_disk st sz z d (hdr_list (d st)) \<and> (\<forall>b. b \<notin> logreg st sz \<longrightarrow> recovered st d b = f b)"

lemma is_header_hdr_list: "is_header hb xs \<Longrightarrow> length xs \<le> LOGSIZE \<Longrightarrow> hdr_list hb = xs"
  by (intro nth_equalityI) (auto simp: is_header_def hdr_list_def sint_small)

lemma representsI:
  assumes "log_disk st sz z d xs"
    and "\<And>b. b \<notin> logreg st sz \<Longrightarrow> apply_writes (install_writes st d xs) d b = f b"
  shows "represents st sz z d f"
proof -
  have "hdr_list (d st) = xs" using assms(1) by (simp add: log_disk_def is_header_hdr_list)
  then show ?thesis using assms by (simp add: represents_def recovered_def)
qed

lemma represents_cong:
  "represents st sz z d f \<Longrightarrow> (\<And>b. b \<notin> logreg st sz \<Longrightarrow> f b = g b) \<Longrightarrow> represents st sz z d g"
  by (auto simp: represents_def)

lemma fst_install_writes: "fst ` set (install_writes st d xs) = set xs"
proof -
  have "map fst (install_writes st d xs) = xs" by (simp add: install_writes_def comp_def map_nth)
  then show ?thesis by (metis set_map)
qed

lemma st_in_logreg: "0 < sz \<Longrightarrow> st \<in> logreg st sz"
  by (simp add: logreg_def)

lemma install_writes_cong:
  "(\<And>t. t < length xs \<Longrightarrow> d' (lblk st t) = d (lblk st t)) \<Longrightarrow> install_writes st d' xs = install_writes st d xs"
  by (simp add: install_writes_def)

text \<open>Recovery can be interrupted after any of its writes.\<close>

lemma recovery_crash:
  assumes ld: "log_disk st sz z d xs" and sz: "unat st + sz \<le> unat z" and hb: "is_header hb []"
  shows "represents st sz z (apply_writes (take j (install_writes st d xs @ [(st, hb)])) d)
           (apply_writes (install_writes st d xs) d)"
proof (cases "j \<le> length xs")
  case True
  let ?W = "install_writes st d xs" let ?d = "apply_writes (take j ?W) d"
  have off: "?d b = d b" if "b \<in> logreg st sz" for b
    using that ld fst_install_writes [of st d xs] set_take_subset [of j ?W]
    by (intro apply_writes_other) (auto simp: log_disk_def)
  have lb: "lblk st t \<in> logreg st sz" if "t < length xs" for t
    using that ld sz by (intro lblk_facts(2)) (auto simp: log_disk_def)
  have st: "?d st = d st" using ld by (intro off st_in_logreg) (auto simp: log_disk_def)
  then have "log_disk st sz z ?d xs" using ld by (simp add: log_disk_def)
  moreover have "apply_writes (install_writes st ?d xs) ?d = apply_writes ?W d"
  proof -
    have "install_writes st ?d xs = ?W" using off lb by (intro install_writes_cong) simp
    moreover have "fst ` set (take j ?W) \<subseteq> fst ` set ?W" using set_take_subset by fastforce
    ultimately show ?thesis by (simp add: apply_writes_idem)
  qed
  moreover have "take j (?W @ [(st, hb)]) = take j ?W" using True by (simp add: install_writes_def)
  ultimately show ?thesis using representsI [of st sz z ?d xs] by simp
next
  case False
  let ?W = "install_writes st d xs" let ?d = "(apply_writes ?W d)(st := hb)"
  have "take j (?W @ [(st, hb)]) = ?W @ [(st, hb)]" using False by (simp add: install_writes_def)
  then have e: "apply_writes (take j (?W @ [(st, hb)])) d = ?d" by simp
  have "0 < sz" using ld by (simp add: log_disk_def)
  moreover from this have "log_disk st sz z ?d []" using ld hb by (simp add: log_disk_def)
  ultimately show ?thesis
    unfolding e using st_in_logreg [of sz st] by (intro representsI [of _ _ _ _ "[]"]) (auto simp: install_writes_def)
qed

lemma apply_log_writes:
  assumes geom: "unat st + sz \<le> unat (z :: uint)" and "n < sz" and "t < n"
  shows "apply_writes (map (\<lambda>t. (lblk st t, g t)) [0..<n]) d (lblk st t) = g t"
proof -
  let ?ys = "map (lblk st) [0..<n]"
  have "distinct ?ys" using lblk_facts(4) [OF geom] assms(2) by (auto simp: distinct_map inj_on_def)
  then have "apply_writes (map (\<lambda>t. (?ys ! t, g t)) [0..<length ?ys]) d (?ys ! t) = g t"
    using assms(3) by (intro apply_writes_nth) simp_all
  moreover have "map (\<lambda>t. (?ys ! t, g t)) [0..<length ?ys] = map (\<lambda>t. (lblk st t, g t)) [0..<n]"
    by (rule map_cong) simp_all
  ultimately show ?thesis using assms(3) by (simp only: nth_map length_upt) simp
qed

text \<open>The writes of a commit can be interrupted anywhere: up to the header write the disk stands
  for the old contents, from then on for the new ones.\<close>

lemma commit_crash:
  assumes geom: "unat st + sz \<le> unat z" and xs: "length xs \<le> LOGSIZE" "length xs < sz" "distinct xs"
      "\<forall>x \<in> set xs. x < z \<and> x \<notin> logreg st sz \<and> x \<noteq> 1"
    and hd: "is_header (d st) []" "is_header hb xs" "is_header hb0 []"
    and clean: "\<And>b. b \<notin> set xs \<Longrightarrow> b \<notin> logreg st sz \<Longrightarrow> c b = d b"
  defines "W1 \<equiv> map (\<lambda>t. (lblk st t, c (xs ! t))) [0..<length xs]"
    and "W3 \<equiv> map (\<lambda>t. (xs ! t, c (xs ! t))) [0..<length xs]"
  shows "represents st sz z (apply_writes (take k (W1 @ [(st, hb)] @ W3 @ [(st, hb0)])) d)
           (if k \<le> length xs then d else c)"
proof -
  have lb: "lblk st t \<in> logreg st sz" "lblk st t \<noteq> st" if "t < length xs" for t
    using that xs(2) geom lblk_facts(2,3) [OF geom, of t] by simp_all
  have len: "length W1 = length xs" by (simp add: W1_def)
  have keys: "fst ` set W1 \<subseteq> logreg st sz - {st}" using lb by (auto simp: W1_def)
  show ?thesis
  proof (cases "k \<le> length xs")
    case True
    let ?d = "apply_writes (take k W1) d"
    have keys': "fst ` set (take k W1) \<subseteq> logreg st sz - {st}" using keys set_take_subset by fastforce
    have "?d st = d st" using keys' by (intro apply_writes_other) auto
    then have "log_disk st sz z ?d []" using hd(1) xs(2) by (simp add: log_disk_def)
    moreover have "?d b = d b" if "b \<notin> logreg st sz" for b using keys' that by (intro apply_writes_other) auto
    moreover have "take k (W1 @ [(st, hb)] @ W3 @ [(st, hb0)]) = take k W1" using True len by simp
    ultimately show ?thesis using True by (simp add: representsI install_writes_def)
  next
    case False
    let ?d = "(apply_writes W1 d)(st := hb)" let ?j = "k - length xs - 1"
    have dl: "?d (lblk st t) = c (xs ! t)" if "t < length xs" for t
      using apply_log_writes [OF geom xs(2) that] lb(2) [OF that] by (simp add: W1_def)
    then have W3: "install_writes st ?d xs = W3" by (simp add: install_writes_def W3_def)
    have ld: "log_disk st sz z ?d xs" using xs hd(2) by (simp add: log_disk_def)
    have "k - length W1 = Suc ?j" using False len by simp
    then have "take k (W1 @ [(st, hb)] @ W3 @ [(st, hb0)]) = W1 @ (st, hb) # take ?j (W3 @ [(st, hb0)])"
      using False len by (simp only: take_append) simp
    moreover have "apply_writes W3 ?d b = c b" if b: "b \<notin> logreg st sz" for b
    proof (cases "b \<in> set xs")
      case True
      then obtain t where "t < length xs" "b = xs ! t" by (auto simp: in_set_conv_nth)
      then show ?thesis using apply_writes_nth [OF xs(3), of t "\<lambda>t. c (xs ! t)" ?d] by (simp add: W3_def)
    next
      case False
      then have "apply_writes W3 ?d b = ?d b" by (intro apply_writes_other) (auto simp: W3_def)
      moreover have "b \<noteq> st" using b st_in_logreg [of sz st] xs(2) by auto
      moreover have "apply_writes W1 d b = d b" using keys b by (intro apply_writes_other) auto
      ultimately show ?thesis using clean [OF False b] by simp
    qed
    ultimately show ?thesis
      using represents_cong [OF recovery_crash [OF ld geom hd(3), of ?j, unfolded W3]] False by simp
  qed
qed

section \<open>Recovery\<close>

lemma recover_from_log_ok:
  assumes "cache_inv r" and "view r = (d, d, {}, {}, w, z, m)" and "2 \<le> card (avail r)"
    and "l_dev r = 1" and "l_start r = st" and "unat st + sz \<le> unat z" and "length (lh_block r) = LOGSIZE"
    and ld: "log_disk st sz z d xs"
  shows "\<exists>r' hb. recover_from_log r = Inr r' \<and> cache_inv r' \<and> is_header hb [] \<and>
     (let V = install_writes st d xs @ [(st, hb)]
      in view r' = (apply_writes V d, apply_writes V d, {}, {}, w @ V, z, dev.more r')) \<and>
     lh_n r' = 0 \<and> l_start r' = st \<and> l_dev r' = 1 \<and> l_size r' = l_size r \<and> length (lh_block r') = LOGSIZE \<and>
     l_outstanding r' = l_outstanding r \<and> l_committing r' = l_committing r \<and> logdev.more r' = logdev.more r"
proof -
  let ?n = "length xs"
  have av: "avail r \<noteq> {}" using assms(3) by auto
  have stz: "st < z" using assms(6) ld by (auto simp: log_disk_def word_less_nat_alt)
  have xs: "is_header (d st) xs" "?n \<le> LOGSIZE" "?n < sz" "distinct xs" using ld by (simp_all add: log_disk_def)
  obtain r1 where r1: "read_head r = Inr r1" "cache_inv r1" "avail r \<subseteq> avail r1"
      "view r1 = (d, d, {}, {}, w, z, dev.more r1)" "lh_n r1 = int ?n" "length (lh_block r1) = LOGSIZE"
      "take ?n (lh_block r1) = xs" "l_start r1 = st" "l_dev r1 = 1" "l_size r1 = l_size r"
      "l_outstanding r1 = l_outstanding r" "l_committing r1 = l_committing r" "logdev.more r1 = logdev.more r"
    using read_head_ok [OF assms(1,2) av assms(4,5) stz xs(2) assms(7) xs(1)] by blast
  have nth: "lh_block r1 ! t = xs ! t" if "t < ?n" for t using r1(7) that by (metis nth_take)
  have blk: "\<forall>t < 0 + ?n. lh_block r1 ! t < z \<and> lh_block r1 ! t \<notin> logreg st sz"
    using ld nth by (simp add: log_disk_def)
  have av1: "avail r1 \<noteq> {}" "2 \<le> card (avail r1)"
    using av r1(3) assms(3) card_mono [OF finite_avail r1(3)] by auto
  obtain r2 where r2: "install_trans_loop 0 ?n r1 = Inr r2" "cache_inv r2" "avail r1 \<subseteq> avail r2"
      "let W = map (\<lambda>t. (lh_block r1 ! t, d (lblk st t))) [0..<0 + ?n]
       in view r2 = (apply_writes W d, apply_writes W d, {} - fst ` set W, {}, w @ W, z, dev.more r1)"
    using install_trans_loop_ok [OF r1(2,4) av1(1) r1(9) assms(6) r1(8), of 0 ?n] xs r1(6,7) blk av1(2) by auto
  have W: "map (\<lambda>t. (lh_block r1 ! t, d (lblk st t))) [0..<0 + ?n] = install_writes st d xs"
    using nth by (simp add: install_writes_def)
  let ?d = "apply_writes (install_writes st d xs) d"
  have v2: "view r2 = (?d, ?d, {}, {}, w @ install_writes st d xs, z, dev.more r1)"
    using r2(4) unfolding W by (simp add: Let_def)
  note f2 = log_fields [OF view_eqD(7) [OF v2]]
  let ?r = "r2\<lparr>lh_n := 0\<rparr>"
  have v3: "view ?r = (?d, ?d, {}, {}, w @ install_writes st d xs, z, dev.more ?r)"
    using view_log(1) [OF v2] .
  have dst: "?d st = d st"
    using ld st_in_logreg [of sz st] by (intro apply_writes_other) (auto simp: fst_install_writes log_disk_def)
  obtain r3 hb where r3: "write_head ?r = Inr r3" "cache_inv r3" "is_header hb (take 0 (lh_block ?r))"
      "view r3 = (?d(st := hb), ?d(st := hb), {} - {st}, {}, (w @ install_writes st d xs) @ [(st, hb)], z, dev.more ?r)"
    using write_head_ok [OF _ v3, of st 0] r2(2,3) av1(1) f2 r1(6,8,9) stz dst xs(1)
    by (auto simp: is_header_def)
  have "recover_from_log r = Inr r3"
    using r1(1,5) r2(1) r3(1) by (simp add: recover_from_log_def install_trans_def)
  then show ?thesis
    using r3 log_fields [OF view_eqD(7) [OF r3(4)]] f2 r1(6,8-13) view_eqD(7) [OF r3(4)]
    by (intro exI [of _ r3] exI [of _ hb]) (simp add: Let_def)
qed

text \<open>The state of the kernel's cache and log right after a boot.\<close>

definition fresh_log :: "(uint \<Rightarrow> block) \<Rightarrow> uint \<Rightarrow> 'a \<Rightarrow> 'a logdev_scheme" where
  "fresh_log d z m = binit \<lparr>bufs = replicate NBUF zero_buf, lru = [], disk = d, disksize = z, dwrites = [],
     l_start = 0, l_size = 0, l_outstanding = 0, l_committing = False, l_dev = 0, lh_n = 0,
     lh_block = replicate LOGSIZE 0, l_wakeups = 0, \<dots> = m\<rparr>"

lemma fresh_log_facts:
  shows "cache_inv (fresh_log d z m)" and "view (fresh_log d z m) = (d, d, {}, {}, [], z, dev.more (fresh_log d z m))"
    and "avail (fresh_log d z m) = {..<30}" and "lh_block (fresh_log d z m) = replicate LOGSIZE 0"
    and "l_outstanding (fresh_log d z m) = 0" and "\<not> l_committing (fresh_log d z m)"
    and "logdev.more (fresh_log d z m) = m"
proof -
  let ?s = "fresh_log d z m"
  have b: "bufs ?s = replicate 30 (zero_buf\<lparr>b_dev := - 1\<rparr>)" "lru ?s = rev [0..<30]"
    by (simp_all only: fresh_log_def binit_def NBUF_def dev.simps dev.select_convs dev.update_convs length_replicate map_replicate)
  have nth: "bufs ?s ! i = zero_buf\<lparr>b_dev := - 1\<rparr>" if "i < 30" for i using that by (simp add: b(1))
  have nh: "\<not> holds ?s i n" for i n using nth [of i] by (auto simp: holds_def b(1))
  show inv: "cache_inv ?s"
    unfolding cache_inv_def
    by (auto simp: b(2) nth buf_ok_def zero_buf_def) (simp_all add: b(1) zero_buf_def)
  have "content ?s = d" using content_absent [OF inv] nh by (auto simp: fresh_log_def binit_def)
  moreover have "dirtyb ?s = {}" "busyb ?s = {}" using nh by (auto simp: dirtyb_def busyb_def)
  ultimately show "view ?s = (d, d, {}, {}, [], z, dev.more ?s)"
    unfolding view_def by (simp add: fresh_log_def binit_def)
  show "avail ?s = {..<30}" unfolding avail_def using nth by (auto simp: b(1) zero_buf_def)
qed (simp_all add: fresh_log_def binit_def)

section \<open>Invariant of the log\<close>

text \<open>The table of buffers keeps its size.\<close>

lemma upd_buf_len [simp]: "length (bufs (upd_buf i f s)) = length (bufs s)"
  by (simp add: upd_buf_def)

lemma bget_len: "bget d n s = Inr (i, s') \<Longrightarrow> length (bufs s') = length (bufs s)"
  by (auto simp: bget_def split: option.splits if_splits)

lemma iderw_len: "iderw i s = Inr s' \<Longrightarrow> length (bufs s') = length (bufs s)"
  by (auto simp: iderw_def Let_def split: if_splits)

lemma bread_len: "bread d n s = Inr (i, s') \<Longrightarrow> length (bufs s') = length (bufs s)"
  by (auto simp: bread_def bindE_eq_Inr_iff split: if_splits dest!: bget_len iderw_len)

lemma bwrite_len: "bwrite i s = Inr s' \<Longrightarrow> length (bufs s') = length (bufs s)"
  by (auto simp: bwrite_def split: if_splits dest!: iderw_len)

lemma brelse_len: "brelse i s = Inr s' \<Longrightarrow> length (bufs s') = length (bufs s)"
  by (auto simp: brelse_def split: if_splits)

lemmas io_len = bread_len bwrite_len brelse_len

lemma install_trans_loop_len: "install_trans_loop t k s = Inr s' \<Longrightarrow> length (bufs s') = length (bufs s)"
  by (induction t k s rule: install_trans_loop.induct)
    (auto simp: bindE_eq_Inr_iff split: if_splits dest!: io_len)

lemma write_log_loop_len: "write_log_loop t k s = Inr s' \<Longrightarrow> length (bufs s') = length (bufs s)"
  by (induction t k s rule: write_log_loop.induct)
    (auto simp: bindE_eq_Inr_iff split: if_splits dest!: io_len)

lemma write_head_len: "write_head s = Inr s' \<Longrightarrow> length (bufs s') = length (bufs s)"
  by (auto simp: write_head_def bindE_eq_Inr_iff dest!: io_len)

lemma read_head_len: "read_head s = Inr s' \<Longrightarrow> length (bufs s') = length (bufs s)"
  by (auto simp: read_head_def bindE_eq_Inr_iff Let_def dest!: io_len)

lemma recover_from_log_len: "recover_from_log s = Inr s' \<Longrightarrow> length (bufs s') = length (bufs s)"
  by (auto simp: recover_from_log_def install_trans_def bindE_eq_Inr_iff
      dest!: read_head_len install_trans_loop_len write_head_len)

abbreviation region :: "'a logdev_scheme \<Rightarrow> uint set" where
  "region s \<equiv> logreg (l_start s) (nat (l_size s))"

abbreviation logged :: "'a logdev_scheme \<Rightarrow> uint list" where
  "logged s \<equiv> take (nat (lh_n s)) (lh_block s)"

text \<open>The log lies on the disk clear of the superblock that describes it, its header on disk is
  empty, the logged blocks are distinct, and they are the blocks that are dirty in the cache.\<close>

definition log_place :: "'a logdev_scheme \<Rightarrow> bool" where
  "log_place s \<longleftrightarrow> length (bufs s) = NBUF \<and> l_dev s = 1 \<and> length (lh_block s) = LOGSIZE \<and>
     1 < l_size s \<and> l_size s \<le> int LOGSIZE \<and> unat (l_start s) + nat (l_size s) \<le> unat (disksize s) \<and>
     1 < disksize s \<and> 1 \<notin> region s \<and>
     sb_logstart (dec_sb (disk s 1)) = l_start s \<and> sint (sb_nlog (dec_sb (disk s 1))) = l_size s"

definition log_inv :: "'a logdev_scheme \<Rightarrow> bool" where
  "log_inv s \<longleftrightarrow> cache_inv s \<and> log_place s \<and> 0 \<le> lh_n s \<and> lh_n s < l_size s \<and>
     distinct (logged s) \<and> dirtyb s = set (logged s) \<and>
     (\<forall>x \<in> set (logged s). x < disksize s \<and> x \<notin> region s \<and> x \<noteq> 1) \<and> is_header (disk s (l_start s)) []"

lemma log_inv_avail:
  assumes "log_inv s" and "busyb s = {}"
  shows "30 - nat (lh_n s) \<le> card (avail s)" and "avail s \<noteq> {}"
proof -
  have n: "length (logged s) = nat (lh_n s)" "nat (lh_n s) < 30" "length (bufs s) = 30"
    using assms(1) by (auto simp: log_inv_def log_place_def LOGSIZE_def MAXOPBLOCKS_def NBUF_def)
  have "card (dirtyb s) = nat (lh_n s)" using assms(1) n(1) by (simp add: log_inv_def distinct_card)
  moreover have "finite (dirtyb s)" using assms(1) by (simp add: log_inv_def)
  ultimately show c: "30 - nat (lh_n s) \<le> card (avail s)"
    using avail_card [of s] assms n(3) by (simp add: log_inv_def)
  then show "avail s \<noteq> {}" using n(2) by auto
qed

lemma log_inv_nat:
  assumes "log_inv s"
  shows "nat (lh_n s) \<le> LOGSIZE" "nat (lh_n s) < nat (l_size s)" "length (logged s) = nat (lh_n s)"
    "lh_n s = int (nat (lh_n s))" "l_start s < disksize s" "l_start s \<in> region s"
proof -
  have h: "0 \<le> lh_n s" "lh_n s < l_size s" "l_size s \<le> int LOGSIZE" "length (lh_block s) = LOGSIZE"
      "unat (l_start s) + nat (l_size s) \<le> unat (disksize s)"
    using assms by (simp_all add: log_inv_def log_place_def)
  then show "nat (lh_n s) \<le> LOGSIZE" "nat (lh_n s) < nat (l_size s)" "lh_n s = int (nat (lh_n s))" by linarith+
  then show "length (logged s) = nat (lh_n s)" using h(4) by simp
  have "0 < nat (l_size s)" using h(1,2) by linarith
  then show "l_start s < disksize s" "l_start s \<in> region s"
    using h(5) by (simp_all add: word_less_nat_alt logreg_def)
qed

section \<open>Commit\<close>

lemma commit_ok:
  assumes inv: "log_inv s" and idle: "busyb s = {}" and n: "0 < lh_n s"
  shows "\<exists>s' hb hb0. commit s = Inr s' \<and> cache_inv s' \<and> length (bufs s') = NBUF \<and>
     is_header hb (logged s) \<and> is_header hb0 [] \<and>
     (let c = content s; xs = logged s; st = l_start s;
          W = map (\<lambda>t. (lblk st t, c (xs ! t))) [0..<length xs] @ [(st, hb)] @
              map (\<lambda>t. (xs ! t, c (xs ! t))) [0..<length xs] @ [(st, hb0)]
      in view s' = (apply_writes W c, apply_writes W (disk s), {}, {}, dwrites s @ W, disksize s,
                    dev.more (s\<lparr>lh_n := 0\<rparr>)))"
proof -
  let ?n = "nat (lh_n s)" and ?st = "l_start s" and ?sz = "nat (l_size s)" and ?xs = "logged s"
  let ?c = "content s" and ?d = "disk s" and ?z = "disksize s"
  have h: "cache_inv s" "log_place s" "distinct ?xs" "dirtyb s = set ?xs" "is_header (?d ?st) []"
      "\<forall>x \<in> set ?xs. x < ?z \<and> x \<notin> region s \<and> x \<noteq> 1"
    using inv by (simp_all add: log_inv_def)
  have pl: "length (bufs s) = NBUF" "l_dev s = 1" "length (lh_block s) = LOGSIZE" "unat ?st + ?sz \<le> unat ?z"
    using h(2) by (simp_all add: log_place_def)
  note nn = log_inv_nat [OF inv]
  have v: "view s = (?c, ?d, set ?xs, {}, dwrites s, ?z, dev.more s)" using h(4) idle by (simp add: view_def)
  have mem: "?xs ! t \<in> set ?xs" if "t < ?n" for t
    by (rule nth_mem) (use that nn(3) in simp)
  then have mem': "lh_block s ! t \<in> set ?xs" if "t < ?n" for t using that by simp
  have cst: "?c ?st = ?d ?st" using content_clean [OF h(1), of ?st] h(4,6) nn(6) by blast
  have blk: "\<forall>t < 0 + ?n. lh_block s ! t \<in> set ?xs \<and> lh_block s ! t < ?z"
    using h(6) mem' by auto
  have dis: "set ?xs \<inter> region s = {}" using h(6) by blast
  define W1 where "W1 = map (\<lambda>t. (lblk ?st t, ?c (?xs ! t))) [0..<?n]"
  have eW1: "map (\<lambda>t. (lblk ?st t, ?c (lh_block s ! t))) [0..<0 + ?n] = W1"
    by (auto simp: W1_def)
  obtain s1 where s1: "write_log_loop 0 ?n s = Inr s1" "cache_inv s1" "avail s1 \<noteq> {}"
      "view s1 = (apply_writes W1 ?c, apply_writes W1 ?d, set ?xs, {}, dwrites s @ W1, ?z, dev.more s)"
    using write_log_loop_ok [OF h(1) v log_inv_avail(2) [OF inv idle] pl(2,4) refl _ _ blk dis] nn(1,2)
    unfolding eW1 Let_def by auto
  note f1 = log_fields [OF view_eqD(7) [OF s1(4)]]
  have lb: "lblk ?st t \<in> region s" "lblk ?st t \<noteq> ?st" if "t < ?n" for t
    using lblk_facts(2,3) [OF pl(4), of t] less_le_trans [of "t + 1" "?n + 1" ?sz] that nn(2) by linarith+
  have "?st \<notin> lblk ?st ` {..<?n}" using lb(2) by (metis imageE lessThan_iff)
  then have st1: "apply_writes W1 ?c ?st = ?c ?st"
    by (intro apply_writes_other) (simp add: W1_def image_image lessThan_atLeast0)
  obtain s2 hb where s2: "write_head s1 = Inr s2" "cache_inv s2" "avail s1 \<subseteq> avail s2" "is_header hb ?xs"
      "view s2 = ((apply_writes W1 ?c)(?st := hb), (apply_writes W1 ?d)(?st := hb), set ?xs - {?st}, {},
                  (dwrites s @ W1) @ [(?st, hb)], ?z, dev.more s)"
    using write_head_ok [OF s1(2,4,3), of ?st ?n] f1 pl(2,3) nn(1,4,5) st1 cst h(5) by (auto simp: is_header_def)
  have D2: "set ?xs - {?st} = set ?xs" using dis nn(6) by blast
  note v2 = s2(5) [unfolded D2]
  note f2 = log_fields [OF view_eqD(7) [OF v2]]
  let ?c2 = "(apply_writes W1 ?c)(?st := hb)" and ?d2 = "(apply_writes W1 ?d)(?st := hb)"
  define W3 where "W3 = map (\<lambda>t. (?xs ! t, ?c (?xs ! t))) [0..<?n]"
  have c2: "?c2 (lblk ?st t) = ?c (?xs ! t)" if "t < ?n" for t
    using apply_log_writes [OF pl(4) nn(2) that] lb(2) [OF that] by (simp add: W1_def)
  have eW3: "map (\<lambda>t. (lh_block s2 ! t, ?c2 (lblk ?st t))) [0..<0 + ?n] = W3"
    using c2 f2(7) by (simp add: W3_def)
  have av2: "avail s2 \<noteq> {}" using s1(3) s2(3) by blast
  have blk2: "\<forall>t < 0 + ?n. lh_block s2 ! t < ?z \<and> lh_block s2 ! t \<notin> region s"
    unfolding f2(7) using h(6) mem' by simp
  have "(\<forall>t. 0 \<le> t \<and> t < 0 + ?n \<longrightarrow> lh_block s2 ! t \<in> set ?xs)" unfolding f2(7) using mem' by simp
  moreover have fW3: "fst ` set W3 = set ?xs"
  proof -
    have "map fst W3 = map ((!) ?xs) [0..<length ?xs]" by (simp only: nn(3)) (simp add: W3_def)
    then have "map fst W3 = ?xs" by (simp only: map_nth)
    then have "set (map fst W3) = set ?xs" by (rule arg_cong)
    then show ?thesis by simp
  qed
  ultimately obtain s3 where s3: "install_trans_loop 0 ?n s2 = Inr s3" "cache_inv s3" "avail s2 \<subseteq> avail s3"
      "view s3 = (apply_writes W3 ?c2, apply_writes W3 ?d2, {}, {}, ((dwrites s @ W1) @ [(?st, hb)]) @ W3, ?z, dev.more s)"
    using install_trans_loop_ok [OF s2(2) v2 av2 _ pl(4) f2(1) _ _ _ _ blk2] nn(1,2) f2(5,7) pl(2,3) h(3)
    unfolding eW3 Let_def by auto
  note f3 = log_fields [OF view_eqD(7) [OF s3(4)]]
  let ?s = "s3\<lparr>lh_n := 0\<rparr>"
  have m: "dev.more ?s = dev.more (s\<lparr>lh_n := 0\<rparr>)"
    using view_eqD(7) [OF s3(4)] by (cases s; cases s3; simp)
  have "?st \<notin> fst ` set W3" unfolding fW3 using dis nn(6) by blast
  then have "length (apply_writes W3 ?c2 ?st) = BSIZE"
    using s2(4) by (simp add: apply_writes_other is_header_def)
  then obtain s4 hb0 where s4: "write_head ?s = Inr s4" "cache_inv s4" "is_header hb0 (take 0 (lh_block ?s))"
      "view s4 = ((apply_writes W3 ?c2)(?st := hb0), (apply_writes W3 ?d2)(?st := hb0), {} - {?st}, {},
         (((dwrites s @ W1) @ [(?st, hb)]) @ W3) @ [(?st, hb0)], ?z, dev.more ?s)"
    using write_head_ok [OF _ view_log(1) [OF s3(4)], of 0 ?st 0] s3(2,3) av2 f3 pl(2,3) nn(5) by auto
  have "commit s = Inr s4"
    using n s1(1) s2(1) s3(1) s4(1) f2(6) by (simp add: commit_def write_log_def install_trans_def)
  moreover have "length (bufs s4) = NBUF"
    using write_head_len [OF s4(1)] install_trans_loop_len [OF s3(1)] write_head_len [OF s2(1)]
      write_log_loop_len [OF s1(1)] pl(1) by simp
  ultimately show ?thesis
    using s2(4) s4(2-4) m unfolding Let_def nn(3) W1_def [symmetric] W3_def [symmetric]
    by (intro exI [of _ s4] exI [of _ hb] exI [of _ hb0]) simp
qed

section \<open>Booting on any disk that stands for something\<close>

text \<open>The superblock on the disk says where the log is.\<close>

definition sb_places :: "uint \<Rightarrow> nat \<Rightarrow> uint \<Rightarrow> (uint \<Rightarrow> block) \<Rightarrow> bool" where
  "sb_places st sz z d \<longleftrightarrow> 1 < sz \<and> sz \<le> LOGSIZE \<and> unat st + sz \<le> unat z \<and> 1 < z \<and> 1 \<notin> logreg st sz \<and>
     sb_logstart (dec_sb (d 1)) = st \<and> sint (sb_nlog (dec_sb (d 1))) = int sz"

lemma initlog_ok:
  assumes sb: "sb_places st sz z d" and rep: "represents st sz z d f"
  shows "\<exists>r. initlog 1 (fresh_log d z m) = Inr r \<and> log_inv r \<and> busyb r = {} \<and> lh_n r = 0 \<and>
     l_start r = st \<and> l_size r = int sz \<and> disksize r = z \<and> l_outstanding r = 0 \<and> \<not> l_committing r \<and>
     logdev.more r = m \<and>
     (\<forall>b. b \<notin> logreg st sz \<longrightarrow> content r b = f b \<and> disk r b = f b) \<and>
     disk r = apply_writes (dwrites r) d \<and>
     (\<forall>j. represents st sz z (apply_writes (take j (dwrites r)) d) f \<and>
          sb_places st sz z (apply_writes (take j (dwrites r)) d))"
proof -
  let ?s = "fresh_log d z m" and ?xs = "hdr_list (d st)"
  note fl = fresh_log_facts [of d z m]
  have sbp: "1 < sz" "sz \<le> LOGSIZE" "unat st + sz \<le> unat z" "1 < z" "1 \<notin> logreg st sz"
      "sb_logstart (dec_sb (d 1)) = st" "sint (sb_nlog (dec_sb (d 1))) = int sz"
    using sb by (simp_all add: sb_places_def)
  have ld: "log_disk st sz z d ?xs" using rep by (simp add: represents_def)
  have av: "card (avail ?s) = 30" "avail ?s \<noteq> {}"
    by (simp add: fl(3)) (use fl(3) in \<open>metis card.empty card_lessThan zero_neq_numeral\<close>)
  obtain i s1 s2 where r: "bread 1 1 ?s = Inr (i, s1)" "b_data (bufs s1 ! i) = d 1" "brelse i s1 = Inr s2"
      "cache_inv s2" "view s2 = (d, d, {}, {}, [], z, dev.more ?s)" "avail ?s \<subseteq> avail s2"
    using bc.read_release [OF fl(1,2) sbp(4)] av(2) by blast
  let ?r = "s2\<lparr>l_start := st, l_size := int sz, l_dev := 1\<rparr>"
  note f2 = log_fields [OF view_eqD(7) [OF r(5)]]
  have cg: "cache_inv ?r = cache_inv s2" "content ?r = content s2" "dirtyb ?r = dirtyb s2"
      "busyb ?r = busyb s2" "avail ?r = avail s2"
    by (rule cache_inv_cong; simp)+
  have vr: "view ?r = (d, d, {}, {}, [], z, dev.more ?r)"
    using view_eqD [OF r(5)] cg by (simp add: view_def)
  have "2 \<le> card (avail ?r)" using card_mono [OF finite_avail r(6)] av(1) cg(5) by simp
  then obtain r' hb where r': "recover_from_log ?r = Inr r'" "cache_inv r'" "is_header hb []"
      "let V = install_writes st d ?xs @ [(st, hb)]
       in view r' = (apply_writes V d, apply_writes V d, {}, {}, [] @ V, z, dev.more r')"
      "lh_n r' = 0" "l_start r' = st" "l_dev r' = 1" "l_size r' = int sz" "length (lh_block r') = LOGSIZE"
      "l_outstanding r' = 0" "\<not> l_committing r'" "logdev.more r' = m"
    using recover_from_log_ok [OF _ vr _ _ _ sbp(3) _ ld] r(4) cg(1) f2 fl(4-7) by auto
  let ?V = "install_writes st d ?xs @ [(st, hb)]"
  have V: "view r' = (apply_writes ?V d, apply_writes ?V d, {}, {}, ?V, z, dev.more r')"
    using r'(4) by (simp only: Let_def append_Nil)
  note vr' = view_eqD [OF V]
  have init: "initlog 1 ?s = Inr r'"
    using r(1-3) r'(1) sbp(6,7) by (simp add: initlog_def readsb_def BSIZE_def LOGSIZE_def MAXOPBLOCKS_def)
  have one: "apply_writes (take j ?V) d 1 = d 1" for j
  proof (rule apply_writes_other)
    have "1 \<noteq> st" using sbp(1,5) st_in_logreg [of sz st] by auto
    then have "1 \<notin> fst ` set ?V"
      using ld fst_install_writes [of st d ?xs] by (auto simp: log_disk_def simp del: One_nat_def)
    then show "1 \<notin> fst ` set (take j ?V)" using set_take_subset by fastforce
  qed
  have len: "length (bufs r') = NBUF"
    using recover_from_log_len [OF r'(1)] brelse_len [OF r(3)] bread_len [OF r(1)]
    by (simp add: fresh_log_def binit_def)
  have d1: "disk r' 1 = d 1" using one [of "length ?V"] vr'(2) by simp
  have "disk r' st = hb" using vr'(2) by simp
  then have inv: "log_inv r'"
    using r'(2,3,5-9) vr'(3,6) len sbp d1 by (simp add: log_inv_def log_place_def)
  have off: "apply_writes ?V d b = f b" if "b \<notin> logreg st sz" for b
    using that rep st_in_logreg [of sz st] sbp(1) by (auto simp: represents_def recovered_def)
  have "represents st sz z (apply_writes (take j ?V) d) f" for j
    by (rule represents_cong [OF recovery_crash [OF ld sbp(3) r'(3)]])
      (use rep in \<open>simp add: represents_def recovered_def\<close>)
  moreover have "sb_places st sz z (apply_writes (take j ?V) d)" for j
    using sb unfolding sb_places_def one .
  ultimately show ?thesis
    using init inv r'(5,6,8,10-12) vr'(1,2,4,5,6) off by (intro exI [of _ r']) (simp add: off)
qed

text \<open>A machine that keeps crashing: each boot runs recovery and is cut off after some of its
  writes.\<close>

fun crashes :: "uint \<Rightarrow> nat list \<Rightarrow> (uint \<Rightarrow> block) \<Rightarrow> (uint \<Rightarrow> block)" where
  "crashes z [] d = d"
| "crashes z (j # js) d =
     (case initlog 1 (fresh_log d z ()) of
        Inr r \<Rightarrow> crashes z js (apply_writes (take j (dwrites r)) d)
      | Inl e \<Rightarrow> d)"

lemma crashes_ok:
  assumes "sb_places st sz z d" and "represents st sz z d f"
  shows "sb_places st sz z (crashes z js d) \<and> represents st sz z (crashes z js d) f"
  using assms
proof (induction js arbitrary: d)
  case (Cons j js)
  obtain r where r: "initlog 1 (fresh_log d z ()) = Inr r"
      "represents st sz z (apply_writes (take j (dwrites r)) d) f"
      "sb_places st sz z (apply_writes (take j (dwrites r)) d)"
    using initlog_ok [OF Cons(2,3), of "()"] by blast
  show ?case using Cons(1) [OF r(3,2)] r(1) by simp
qed simp

lemma log_inv_sb_places: "log_inv s \<Longrightarrow> sb_places (l_start s) (nat (l_size s)) (disksize s) (disk s)"
  by (simp add: log_inv_def log_place_def sb_places_def nat_le_iff)

lemma log_inv_clean: "log_inv s \<Longrightarrow> b \<notin> set (logged s) \<Longrightarrow> content s b = disk s b"
  using content_clean [of s b] by (simp add: log_inv_def)

lemma commit_inv:
  assumes inv: "log_inv s" and idle: "busyb s = {}" and n: "0 < lh_n s"
  shows "\<exists>s' W. commit s = Inr s' \<and> log_inv s' \<and> busyb s' = {} \<and> dirtyb s' = {} \<and>
     dev.more s' = dev.more (s\<lparr>lh_n := 0\<rparr>) \<and> disksize s' = disksize s \<and>
     dwrites s' = dwrites s @ W \<and> disk s' = apply_writes W (disk s) \<and>
     (\<forall>b. b \<notin> region s \<longrightarrow> content s' b = content s b \<and> disk s' b = content s b) \<and>
     (\<forall>k. represents (l_start s) (nat (l_size s)) (disksize s) (apply_writes (take k W) (disk s))
            (if k \<le> nat (lh_n s) then disk s else content s)) \<and>
     (\<forall>k. sb_places (l_start s) (nat (l_size s)) (disksize s) (apply_writes (take k W) (disk s)))"
proof -
  let ?st = "l_start s" and ?sz = "nat (l_size s)" and ?xs = "logged s" and ?z = "disksize s"
  let ?c = "content s" and ?d = "disk s"
  note nn = log_inv_nat [OF inv]
  have h: "distinct ?xs" "is_header (?d ?st) []" "\<forall>x \<in> set ?xs. x < ?z \<and> x \<notin> region s \<and> x \<noteq> 1"
      "unat ?st + ?sz \<le> unat ?z" "log_place s" "1 \<notin> region s"
    using inv by (simp_all add: log_inv_def log_place_def)
  define W1 where "W1 = map (\<lambda>t. (lblk ?st t, ?c (?xs ! t))) [0..<length ?xs]"
  define W3 where "W3 = map (\<lambda>t. (?xs ! t, ?c (?xs ! t))) [0..<length ?xs]"
  obtain s' hb hb0 where s': "commit s = Inr s'" "cache_inv s'" "length (bufs s') = NBUF"
      "is_header hb ?xs" "is_header hb0 []"
      "view s' = (apply_writes (W1 @ [(?st, hb)] @ W3 @ [(?st, hb0)]) ?c,
                  apply_writes (W1 @ [(?st, hb)] @ W3 @ [(?st, hb0)]) ?d, {}, {},
                  dwrites s @ W1 @ [(?st, hb)] @ W3 @ [(?st, hb0)], ?z, dev.more (s\<lparr>lh_n := 0\<rparr>))"
    using commit_ok [OF inv idle n] unfolding Let_def W1_def W3_def by blast
  let ?W = "W1 @ [(?st, hb)] @ W3 @ [(?st, hb0)]"
  note v = view_eqD [OF s'(6)]
  have "represents ?st ?sz ?z (apply_writes (take k ?W) ?d) (if k \<le> length ?xs then ?d else ?c)" for k
    unfolding W1_def W3_def
    by (rule commit_crash) (use h(1-4) s'(4,5) nn(1-3) log_inv_clean [OF inv] in auto)
  then have rep: "represents ?st ?sz ?z (apply_writes (take k ?W) ?d) (if k \<le> nat (lh_n s) then ?d else ?c)" for k
    by (simp only: nn(3))
  have keys: "fst ` set ?W \<subseteq> region s \<union> set ?xs"
  proof -
    have "lblk ?st t \<in> region s" if "t < length ?xs" for t
      using that nn(2,3) by (intro lblk_facts(2) [OF h(4)]) linarith
    then have "fst ` set W1 \<subseteq> region s" by (auto simp: W1_def)
    moreover have "fst ` set W3 \<subseteq> set ?xs" by (auto simp: W3_def simp del: nth_take intro: nth_mem)
    ultimately show ?thesis using nn(6) by auto
  qed
  have one: "apply_writes (take k ?W) ?d 1 = ?d 1" for k
  proof (rule apply_writes_other)
    have "1 \<notin> fst ` set ?W" using keys h(3,6) by blast
    then show "1 \<notin> fst ` set (take k ?W)" using set_take_subset by fastforce
  qed
  have hd': "disk s' ?st = hb0" using v(2) by simp
  then have "represents ?st ?sz ?z (disk s') ?c"
    using rep [of "length ?W"] v(2) nn(3) by (simp add: W1_def)
  moreover have "hdr_list (disk s' ?st) = []" using hd' s'(5) by (simp add: is_header_hdr_list)
  ultimately have off: "disk s' b = ?c b" if "b \<notin> region s" for b
    using that by (simp add: represents_def recovered_def install_writes_def)
  have ms: "lh_n s' = 0" "l_start s' = ?st" "l_size s' = l_size s" "l_dev s' = l_dev s" "lh_block s' = lh_block s"
    using log_fields [OF v(7)] by simp_all
  have inv': "log_inv s'"
    using s'(2,3,5) h(5) v(3,6) ms hd' one [of "length ?W"] v(2) by (simp add: log_inv_def log_place_def)
  moreover have "content s' b = disk s' b" for b using content_clean [OF s'(2), of b] v(3) by simp
  moreover have "sb_places ?st ?sz ?z (apply_writes (take k ?W) ?d)" for k
    using log_inv_sb_places [OF inv] unfolding sb_places_def one .
  ultimately show ?thesis
    using s'(1) v off rep by (intro exI [of _ s'] exI [of _ ?W]) simp
qed

section \<open>Logged updates\<close>

text \<open>\<open>log_write\<close> on the header: the block is absorbed when it is already logged and appended
  otherwise.\<close>

definition log_add :: "uint \<Rightarrow> 'a logdev_scheme \<Rightarrow> 'a logdev_scheme" where
  "log_add n s = s\<lparr>lh_block := (lh_block s)[log_slot n s := n],
     lh_n := (if int (log_slot n s) = lh_n s then lh_n s + 1 else lh_n s)\<rparr>"

lemma log_add_logged:
  assumes "0 \<le> lh_n s" and "nat (lh_n s) < length (lh_block s)"
  shows "n \<in> set (logged s) \<Longrightarrow> log_add n s = s"
    and "n \<notin> set (logged s) \<Longrightarrow>
           lh_n (log_add n s) = lh_n s + 1 \<and> logged (log_add n s) = logged s @ [n]"
proof -
  assume "n \<in> set (logged s)"
  then obtain j where j: "first_idx (\<lambda>x. x = n) (logged s) = Some j"
    by (cases "first_idx (\<lambda>x. x = n) (logged s)") (auto simp: first_idx_None_iff)
  then have "j < nat (lh_n s)" "lh_block s ! j = n" by (auto simp: first_idx_Some_iff)
  then have "log_slot n s = j" "(lh_block s)[j := n] = lh_block s" "int j \<noteq> lh_n s"
    using j assms by (auto simp: log_slot_def)
  then show "log_add n s = s" by (simp add: log_add_def)
next
  assume "n \<notin> set (logged s)"
  then have "first_idx (\<lambda>x. x = n) (logged s) = None" by (auto simp: first_idx_None_iff)
  then have "log_slot n s = nat (lh_n s)" by (simp add: log_slot_def)
  moreover have "nat (lh_n s + 1) = Suc (nat (lh_n s))" using assms(1) by simp
  ultimately show "lh_n (log_add n s) = lh_n s + 1 \<and> logged (log_add n s) = logged s @ [n]"
    using assms by (simp add: log_add_def take_Suc_conv_app_nth)
qed

lemma log_add_frame [simp]:
  "cache_inv (log_add n s) = cache_inv s" "content (log_add n s) = content s" "dirtyb (log_add n s) = dirtyb s"
  "busyb (log_add n s) = busyb s" "avail (log_add n s) = avail s" "held (log_add n s) = held s"
  "disk (log_add n s) = disk s" "disksize (log_add n s) = disksize s" "dwrites (log_add n s) = dwrites s"
  "bufs (log_add n s) = bufs s" "l_start (log_add n s) = l_start s" "l_size (log_add n s) = l_size s"
  "l_dev (log_add n s) = l_dev s" "l_outstanding (log_add n s) = l_outstanding s"
  "l_committing (log_add n s) = l_committing s" "length (lh_block (log_add n s)) = length (lh_block s)"
  "l_wakeups (log_add n s) = l_wakeups s" "logdev.more (log_add n s) = logdev.more s"
  by (simp_all add: log_add_def)

text \<open>Read a block, change it, log it, release it: the pattern of every update in \<open>src/fs.c\<close>.\<close>

lemma log_update:
  assumes inv: "log_inv s" and idle: "busyb s = {}" and n: "n < disksize s" "n \<notin> region s" "n \<noteq> 1"
    and room: "lh_n s < l_size s - 1" and out: "1 \<le> l_outstanding s"
  shows "\<exists>i s1 s2 s3. bread 1 n s = Inr (i, s1) \<and> b_data (bufs s1 ! i) = content s n \<and>
     log_write i (upd_buf i (\<lambda>b. b\<lparr>b_data := d\<rparr>) s1) = Inr s2 \<and> brelse i s2 = Inr s3 \<and>
     log_inv s3 \<and> busyb s3 = {} \<and> content s3 = (content s)(n := d) \<and> disk s3 = disk s \<and> dwrites s3 = dwrites s \<and>
     disksize s3 = disksize s \<and> dev.more s3 = dev.more (log_add n s) \<and> dev.more s1 = dev.more s"
proof -
  have h: "cache_inv s" "log_place s" "0 \<le> lh_n s" "distinct (logged s)" "dirtyb s = set (logged s)"
      "is_header (disk s (l_start s)) []" "\<forall>x \<in> set (logged s). x < disksize s \<and> x \<notin> region s \<and> x \<noteq> 1"
    using inv by (simp_all add: log_inv_def)
  have "lh_n s < int (length (lh_block s))" using room h(2) by (auto simp: log_place_def)
  then have len: "nat (lh_n s) < length (lh_block s)" using h(3) by linarith
  have v: "view s = (content s, disk s, dirtyb s, {}, dwrites s, disksize s, dev.more s)"
    using idle by (simp add: view_def)
  obtain i s1 where r: "bread 1 n s = Inr (i, s1)" "cache_inv s1" "held s1 i n"
      "view s1 = (content s, disk s, dirtyb s, insert n {}, dwrites s, disksize s, dev.more s)"
    using bc.rd_ok [OF h(1) v n(1)] log_inv_avail(2) [OF inv idle] by blast
  have m1: "dev.more s1 = dev.more s" using view_eqD(7) [OF r(4)] .
  note f1 = log_fields [OF m1]
  let ?p = "upd_buf i (\<lambda>b. b\<lparr>b_dirty := True\<rparr>) (upd_buf i (\<lambda>b. b\<lparr>b_data := d\<rparr>) s1)"
  have p: "cache_inv ?p" "held ?p i n"
      "view ?p = ((content s)(n := d), disk s, insert n (dirtyb s), {n}, dwrites s, disksize s, dev.more s)"
    using bc.pin_ok [OF r(2,4,3), of d] r(3) by simp_all
  note vp = view_eqD [OF p(3)]
  have sl: "log_slot n s' = log_slot n s" if "lh_n s' = lh_n s" "lh_block s' = lh_block s" for s'
    unfolding log_slot_def that ..
  have bn: "b_blockno (bufs (upd_buf i (\<lambda>b. b\<lparr>b_data := d\<rparr>) s1) ! i) = n"
    using r(3) by (simp add: held_def holds_def upd_buf_def)
  have lw: "log_write i (upd_buf i (\<lambda>b. b\<lparr>b_data := d\<rparr>) s1) = Inr (log_add n ?p)"
    using room out f1 h(2) bn sl [of "upd_buf i (\<lambda>b. b\<lparr>b_data := d\<rparr>) s1"] sl [of ?p]
    by (simp add: log_write_def log_add_def log_place_def upd_buf_def Let_def)
  let ?q = "log_add n ?p"
  have vq: "view ?q = ((content s)(n := d), disk s, insert n (dirtyb s), {n}, dwrites s, disksize s, dev.more ?q)"
    using vp by (simp add: view_def)
  obtain s3 where s3: "brelse i ?q = Inr s3" "cache_inv s3"
      "view s3 = ((content s)(n := d), disk s, insert n (dirtyb s), {n} - {n}, dwrites s, disksize s, dev.more ?q)"
    using bc.rel_ok [of ?q, OF _ vq, of i n] p(1,2) by auto
  note v3 = view_eqD [OF s3(3)]
  have mq: "dev.more ?q = dev.more (log_add n s)"
    using vp(7) sl [of ?p] log_fields [OF vp(7)] by (cases s; cases ?p) (auto simp: log_add_def)
  have f3: "lh_n s3 = lh_n (log_add n s)" "lh_block s3 = lh_block (log_add n s)" "l_size s3 = l_size s"
      "l_start s3 = l_start s" "l_dev s3 = l_dev s"
    using log_fields [of s3 "log_add n s"] v3(7) mq by simp_all
  have "length (bufs s3) = NBUF"
    using brelse_len [OF s3(1)] bread_len [OF r(1)] h(2) by (simp add: log_place_def)
  then have pl: "log_place s3" using h(2) f3 v3(2,6) by (simp add: log_place_def)
  have "log_inv s3"
  proof (cases "n \<in> set (logged s)")
    case True
    then have "log_add n s = s" using log_add_logged(1) [OF h(3) len] by blast
    then show ?thesis
      using s3(2) pl h True f3 v3(2,3,6) room by (simp add: log_inv_def insert_absorb)
  next
    case False
    note la = log_add_logged(2) [OF h(3) len False]
    have "logged s3 = logged s @ [n]" using la unfolding f3(1,2) by (rule conjunct2)
    moreover have "lh_n s3 = lh_n s + 1" using la f3(1) by simp
    ultimately have "set (logged s3) = insert n (set (logged s))" "distinct (logged s3)" "lh_n s3 = lh_n s + 1"
      using False h(4) by (simp_all only: set_append distinct_append) simp_all
    then show ?thesis using s3(2) pl h n v3(2,3,6) f3 room by (simp add: log_inv_def)
  qed
  then show ?thesis
    using r(1) lw s3(1) v3 mq m1 bc.data_ok [OF r(2,4,3)]
    by (intro exI [of _ i] exI [of _ s1] exI [of _ ?q] exI [of _ s3]) simp
qed

section \<open>Operations\<close>

lemma begin_op_reserves:
  assumes "begin_op s = Inr s'"
  shows "s' = s\<lparr>l_outstanding := l_outstanding s + 1\<rparr>" and "\<not> l_committing s"
    and "lh_n s' + l_outstanding s' * 10 \<le> 30"
  using assms by (auto simp: begin_op_def LOGSIZE_def MAXOPBLOCKS_def split: if_splits)

lemma op_frame:
  fixes s :: "'a logdev_scheme"
  assumes "s' = s\<lparr>l_outstanding := x, l_committing := y, l_wakeups := w\<rparr>"
  shows "log_inv s' = log_inv s" "busyb s' = busyb s" "content s' = content s" "dirtyb s' = dirtyb s"
proof -
  have cg: "cache_inv s' = cache_inv s" "content s' = content s" "dirtyb s' = dirtyb s" "busyb s' = busyb s"
    unfolding assms by (rule cache_inv_cong; simp)+
  then show "busyb s' = busyb s" "content s' = content s" "dirtyb s' = dirtyb s" by simp_all
  show "log_inv s' = log_inv s" using cg assms by (simp add: log_inv_def log_place_def)
qed

lemma begin_op_inv:
  assumes "begin_op s = Inr s'"
  shows "log_inv s' = log_inv s" "busyb s' = busyb s" "content s' = content s" "dirtyb s' = dirtyb s"
  using op_frame [where s = s and s' = s' and x = "l_outstanding s + 1" and y = "l_committing s" and w = "l_wakeups s"]
    begin_op_reserves(1) [OF assms]
  by simp_all

text \<open>The end of an operation: the last one commits, the others only leave.\<close>

lemma end_op_ok:
  assumes inv: "log_inv s" and idle: "busyb s = {}" and out: "1 \<le> l_outstanding s" and nc: "\<not> l_committing s"
  shows "\<exists>s'. end_op s = Inr s' \<and> log_inv s' \<and> busyb s' = {} \<and> l_outstanding s' = l_outstanding s - 1 \<and>
     \<not> l_committing s' \<and> l_wakeups s' = l_wakeups s + 1 \<and> l_start s' = l_start s \<and> l_size s' = l_size s \<and>
     disksize s' = disksize s \<and> logdev.more s' = logdev.more s \<and>
     (\<forall>b. b \<notin> region s \<longrightarrow> content s' b = content s b) \<and>
     (if l_outstanding s = 1
      then lh_n s' = 0 \<and> dirtyb s' = {} \<and> (\<forall>b. b \<notin> region s \<longrightarrow> disk s' b = content s b)
      else lh_n s' = lh_n s \<and> disk s' = disk s \<and> dwrites s' = dwrites s)"
proof (cases "l_outstanding s = 1")
  case False
  let ?s = "s\<lparr>l_outstanding := l_outstanding s - 1, l_committing := False, l_wakeups := l_wakeups s + 1\<rparr>"
  have "s\<lparr>l_outstanding := l_outstanding s - 1, l_wakeups := l_wakeups s + 1\<rparr> = ?s" using nc by (cases s) simp
  then have "end_op s = Inr ?s" using False out nc by (simp add: end_op_def)
  then show ?thesis using op_frame [OF refl [of ?s]] inv idle False by (intro exI [of _ ?s]) simp
next
  case True
  let ?s = "s\<lparr>l_outstanding := 0, l_committing := True\<rparr>"
  have "?s = s\<lparr>l_outstanding := 0, l_committing := True, l_wakeups := l_wakeups s\<rparr>" by simp
  note fr = op_frame [OF this]
  have i1: "log_inv ?s" "busyb ?s = {}" using fr inv idle by simp_all
  have "\<exists>s'. commit ?s = Inr s' \<and> log_inv s' \<and> busyb s' = {} \<and> dirtyb s' = {} \<and>
      dev.more s' = dev.more (?s\<lparr>lh_n := 0\<rparr>) \<and> disksize s' = disksize s \<and>
      (\<forall>b. b \<notin> region s \<longrightarrow> content s' b = content s b \<and> disk s' b = content s b)"
  proof (cases "0 < lh_n s")
    case True
    then have "0 < lh_n ?s" by simp
    then obtain s' where "commit ?s = Inr s'" "log_inv s'" "busyb s' = {}" "dirtyb s' = {}"
        "dev.more s' = dev.more (?s\<lparr>lh_n := 0\<rparr>)" "disksize s' = disksize ?s"
        "\<forall>b. b \<notin> region ?s \<longrightarrow> content s' b = content ?s b \<and> disk s' b = content ?s b"
      using commit_inv [OF i1] by blast
    then show ?thesis using fr(3) by (intro exI [of _ s']) simp
  next
    case False
    then have z: "lh_n s = 0" using inv by (simp add: log_inv_def)
    then have e: "?s\<lparr>lh_n := 0\<rparr> = ?s" by (cases s) simp
    show ?thesis unfolding e
      using z fr inv idle log_inv_clean [OF i1(1)] log_inv_clean [OF inv]
      by (intro exI [of _ ?s]) (simp add: commit_def log_inv_def)
  qed
  then obtain s' where s': "commit ?s = Inr s'" "log_inv s'" "busyb s' = {}" "dirtyb s' = {}"
      "dev.more s' = dev.more (?s\<lparr>lh_n := 0\<rparr>)" "disksize s' = disksize s"
      "\<forall>b. b \<notin> region s \<longrightarrow> content s' b = content s b \<and> disk s' b = content s b"
    by blast
  note f = log_fields [OF s'(5)]
  let ?t = "s'\<lparr>l_outstanding := 0, l_committing := False, l_wakeups := l_wakeups s + 1\<rparr>"
  have "end_op s = Inr (s'\<lparr>l_committing := False, l_wakeups := l_wakeups s' + 1\<rparr>)"
    using True nc s'(1) by (simp add: end_op_def)
  also have "s'\<lparr>l_committing := False, l_wakeups := l_wakeups s' + 1\<rparr> = ?t" using f by (cases s') simp
  finally show ?thesis
    using op_frame [OF refl [of ?t]] s' f True by (intro exI [of _ ?t]) simp
qed

end
