(* ===== verification/Fs.thy ===== *)
theory Fs
  imports Log File
begin

text \<open>
  The file system (\<open>src/fs.c\<close>): block allocation, inodes, file contents, directories and path
  names, on top of the log and the buffer cache.  A cached inode is its index in \<open>icache\<close>; a
  null pointer is \<open>None\<close>.  A caller that finds an inode locked is the outcome \<open>Asleep\<close>.
  Buffers of the caller are lists of bytes.  The functions in the device table \<open>devsw\<close> are
  arguments of the operations that call them.
\<close>

section \<open>State and layout (src/fs.h, src/stat.h)\<close>

record fsdev = logdev +
  fsb :: superblock
  icache :: "inode list"
  iwoken :: "nat list"

definition NDIRECT :: nat where "NDIRECT = 12"
definition NINDIRECT :: nat where "NINDIRECT = BSIZE div 4"
definition MAXFILE :: nat where "MAXFILE = NDIRECT + NINDIRECT"
definition IPB :: nat where "IPB = BSIZE div 64"
definition BPB :: nat where "BPB = BSIZE * 8"
definition DIRSIZ :: nat where "DIRSIZ = 14"
definition NDEV :: nat where "NDEV = 10"

definition T_DIR :: ushort where "T_DIR = 1"
definition T_FILE :: ushort where "T_FILE = 2"
definition T_DEV :: ushort where "T_DEV = 3"

definition IBLOCK :: "uint \<Rightarrow> superblock \<Rightarrow> uint" where
  "IBLOCK i sb = i div word_of_nat IPB + sb_inodestart sb"

definition BBLOCK :: "uint \<Rightarrow> superblock \<Rightarrow> uint" where
  "BBLOCK b sb = b div word_of_nat BPB + sb_bmapstart sb"

definition upd_inode :: "nat \<Rightarrow> (inode \<Rightarrow> inode) \<Rightarrow> 'a fsdev_scheme \<Rightarrow> 'a fsdev_scheme" where
  "upd_inode i f s = s\<lparr>icache := (icache s)[i := f (icache s ! i)]\<rparr>"

section \<open>Blocks\<close>

definition iinit :: "uint \<Rightarrow> 'a fsdev_scheme \<Rightarrow> 'a fsdev_scheme res" where
  "iinit d s = bindE (readsb d s) (\<lambda>(sb, s). Inr (s\<lparr>fsb := sb\<rparr>))"

definition bzero :: "uint \<Rightarrow> uint \<Rightarrow> 'a logdev_scheme \<Rightarrow> 'a logdev_scheme res" where
  "bzero d bno s =
     bindE (bread d bno s) (\<lambda>(bp, s).
     bindE (log_write bp (upd_buf bp (\<lambda>b. b\<lparr>b_data := replicate BSIZE 0\<rparr>) s)) (\<lambda>s.
     brelse bp s))"

text \<open>The bit of a block in a block of the free map.\<close>

definition bmask :: "nat \<Rightarrow> uchar" where
  "bmask bi = push_bit (bi mod 8) 1"

definition bit_clear :: "block \<Rightarrow> nat \<Rightarrow> bool" where
  "bit_clear data bi \<longleftrightarrow> data ! (bi div 8) AND bmask bi = 0"

definition set_bit_at :: "block \<Rightarrow> nat \<Rightarrow> block" where
  "set_bit_at data bi = data[bi div 8 := data ! (bi div 8) OR bmask bi]"

definition clear_bit_at :: "block \<Rightarrow> nat \<Rightarrow> block" where
  "clear_bit_at data bi = data[bi div 8 := data ! (bi div 8) AND NOT (bmask bi)]"

text \<open>The inner loop of \<open>balloc\<close>: the first free bit of a map block that belongs to the disk.  The block
  numbers \<open>b\<close> and \<open>b + bi\<close> of the code are \<open>int\<close>s compared with the unsigned \<open>sb.size\<close>; they are natural numbers here, as no
  disk has \<open>2^31\<close> blocks.\<close>

fun balloc_scan :: "block \<Rightarrow> nat \<Rightarrow> nat \<Rightarrow> nat \<Rightarrow> nat \<Rightarrow> nat option" where
  "balloc_scan data b sz bi 0 = None"
| "balloc_scan data b sz bi (Suc k) =
     (if b + bi < sz then if bit_clear data bi then Some bi else balloc_scan data b sz (bi + 1) k
      else None)"

function balloc_loop :: "uint \<Rightarrow> nat \<Rightarrow> nat \<Rightarrow> 'a fsdev_scheme \<Rightarrow> (uint \<times> 'a fsdev_scheme) res" where
  "balloc_loop d sz b s =
     (if b < sz
      then bindE (bread d (BBLOCK (word_of_nat b) (fsb s)) s) (\<lambda>(bp, s).
           case balloc_scan (b_data (bufs s ! bp)) b sz 0 BPB of
             Some bi \<Rightarrow>
               bindE (log_write bp (upd_buf bp (\<lambda>x. x\<lparr>b_data := set_bit_at (b_data x) bi\<rparr>) s)) (\<lambda>s.
               bindE (brelse bp s) (\<lambda>s.
               bindE (bzero d (word_of_nat (b + bi)) s) (\<lambda>s.
               Inr (word_of_nat (b + bi), s))))
           | None \<Rightarrow> bindE (brelse bp s) (\<lambda>s. balloc_loop d sz (b + BPB) s))
      else Inl (Panic ''balloc: out of blocks''))"
  by pat_completeness auto
termination
  by (relation "measure (\<lambda>(d, sz, b, s). sz - b)") (auto simp: BPB_def BSIZE_def)

definition balloc :: "uint \<Rightarrow> 'a fsdev_scheme \<Rightarrow> (uint \<times> 'a fsdev_scheme) res" where
  "balloc d s = balloc_loop d (unat (sb_size (fsb s))) 0 s"

definition bfree :: "uint \<Rightarrow> uint \<Rightarrow> 'a fsdev_scheme \<Rightarrow> 'a fsdev_scheme res" where
  "bfree d b s =
     bindE (readsb d s) (\<lambda>(sb, s).
     let s = s\<lparr>fsb := sb\<rparr> in
     bindE (bread d (BBLOCK b (fsb s)) s) (\<lambda>(bp, s).
     let bi = unat b mod BPB in
     if bit_clear (b_data (bufs s ! bp)) bi then Inl (Panic ''freeing free block'')
     else bindE (log_write bp (upd_buf bp (\<lambda>x. x\<lparr>b_data := clear_bit_at (b_data x) bi\<rparr>) s)) (\<lambda>s.
          brelse bp s)))"

section \<open>Inodes\<close>

text \<open>\<open>struct dinode\<close>: 64 bytes, eight of them in a block.\<close>

fun put_words :: "block \<Rightarrow> nat \<Rightarrow> uint list \<Rightarrow> block" where
  "put_words b k [] = b"
| "put_words b k (w # ws) = put_words (put32 b k w) (k + 4) ws"

definition get_words :: "block \<Rightarrow> nat \<Rightarrow> nat \<Rightarrow> uint list" where
  "get_words b k n = map (\<lambda>j. get32 b (k + 4 * j)) [0..<n]"

definition put_dinode :: "inode \<Rightarrow> nat \<Rightarrow> block \<Rightarrow> block" where
  "put_dinode ip k b =
     put_words (put32 (put16 (put16 (put16 (put16 b (64 * k) (i_type ip)) (64 * k + 2) (i_major ip))
       (64 * k + 4) (i_minor ip)) (64 * k + 6) (i_nlink ip)) (64 * k + 8) (i_size ip)) (64 * k + 12) (i_addrs ip)"

definition get_dinode :: "block \<Rightarrow> nat \<Rightarrow> inode \<Rightarrow> inode" where
  "get_dinode b k ip =
     ip\<lparr>i_type := get16 b (64 * k), i_major := get16 b (64 * k + 2), i_minor := get16 b (64 * k + 4),
        i_nlink := get16 b (64 * k + 6), i_size := get32 b (64 * k + 8),
        i_addrs := get_words b (64 * k + 12) (NDIRECT + 1)\<rparr>"

definition fs_iget :: "uint \<Rightarrow> uint \<Rightarrow> 'a fsdev_scheme \<Rightarrow> (nat \<times> 'a fsdev_scheme) res" where
  "fs_iget d inum s = bindE (iget (icache s) d inum) (\<lambda>(i, ic). Inr (i, s\<lparr>icache := ic\<rparr>))"

definition fs_idup :: "nat \<Rightarrow> 'a fsdev_scheme \<Rightarrow> 'a fsdev_scheme" where
  "fs_idup i s = s\<lparr>icache := idup (icache s) i\<rparr>"

definition inode_slot :: "uint \<Rightarrow> nat" where
  "inode_slot inum = unat inum mod IPB"

fun ialloc_loop :: "uint \<Rightarrow> ushort \<Rightarrow> nat \<Rightarrow> nat \<Rightarrow> 'a fsdev_scheme \<Rightarrow> (nat \<times> 'a fsdev_scheme) res" where
  "ialloc_loop d type inum 0 s = Inl (Panic ''ialloc: no inodes'')"
| "ialloc_loop d type inum (Suc k) s =
     bindE (bread d (IBLOCK (word_of_nat inum) (fsb s)) s) (\<lambda>(bp, s).
     let off = 64 * inode_slot (word_of_nat inum) in
     if get16 (b_data (bufs s ! bp)) off = 0
     then bindE (log_write bp (upd_buf bp (\<lambda>b. b\<lparr>b_data :=
              put16 (take off (b_data b) @ replicate 64 0 @ drop (off + 64) (b_data b)) off type\<rparr>) s)) (\<lambda>s.
          bindE (brelse bp s) (\<lambda>s. fs_iget d (word_of_nat inum) s))
     else bindE (brelse bp s) (\<lambda>s. ialloc_loop d type (inum + 1) k s))"

definition ialloc :: "uint \<Rightarrow> ushort \<Rightarrow> 'a fsdev_scheme \<Rightarrow> (nat \<times> 'a fsdev_scheme) res" where
  "ialloc d type s = ialloc_loop d type 1 (unat (sb_ninodes (fsb s)) - 1) s"

definition iupdate :: "nat \<Rightarrow> 'a fsdev_scheme \<Rightarrow> 'a fsdev_scheme res" where
  "iupdate i s =
     (let ip = icache s ! i in
      bindE (bread (i_dev ip) (IBLOCK (i_inum ip) (fsb s)) s) (\<lambda>(bp, s).
      bindE (log_write bp (upd_buf bp (\<lambda>b. b\<lparr>b_data := put_dinode ip (inode_slot (i_inum ip)) (b_data b)\<rparr>) s)) (\<lambda>s.
      brelse bp s)))"

definition ilock :: "nat option \<Rightarrow> 'a fsdev_scheme \<Rightarrow> 'a fsdev_scheme res" where
  "ilock p s =
     (case p of None \<Rightarrow> Inl (Panic ''ilock'') | Some i \<Rightarrow>
      if i_ref (icache s ! i) < 1 then Inl (Panic ''ilock'')
      else if i_busy (icache s ! i) then Inl Asleep
      else let s = upd_inode i (\<lambda>ip. ip\<lparr>i_busy := True\<rparr>) s; ip = icache s ! i in
           if \<not> i_valid ip
           then bindE (bread (i_dev ip) (IBLOCK (i_inum ip) (fsb s)) s) (\<lambda>(bp, s).
                let s = upd_inode i (get_dinode (b_data (bufs s ! bp)) (inode_slot (i_inum ip))) s in
                bindE (brelse bp s) (\<lambda>s.
                let s = upd_inode i (\<lambda>ip. ip\<lparr>i_valid := True\<rparr>) s in
                if i_type (icache s ! i) = 0 then Inl (Panic ''ilock: no type'') else Inr s))
           else Inr s)"

definition iunlock :: "nat option \<Rightarrow> 'a fsdev_scheme \<Rightarrow> 'a fsdev_scheme res" where
  "iunlock p s =
     (case p of None \<Rightarrow> Inl (Panic ''iunlock'') | Some i \<Rightarrow>
      if \<not> i_busy (icache s ! i) \<or> i_ref (icache s ! i) < 1 then Inl (Panic ''iunlock'')
      else Inr ((upd_inode i (\<lambda>ip. ip\<lparr>i_busy := False\<rparr>) s)\<lparr>iwoken := i # iwoken s\<rparr>))"

section \<open>Inode content\<close>

text \<open>\<open>bmap\<close> keeps the indirect block in use while it allocates.\<close>

definition bmap_slot :: "nat \<Rightarrow> nat \<Rightarrow> 'a fsdev_scheme \<Rightarrow> (uint \<times> 'a fsdev_scheme) res" where
  "bmap_slot i k s =
     (let addr = i_addrs (icache s ! i) ! k in
      if addr = 0
      then bindE (balloc (i_dev (icache s ! i)) s) (\<lambda>(addr, s).
           Inr (addr, upd_inode i (\<lambda>ip. ip\<lparr>i_addrs := (i_addrs ip)[k := addr]\<rparr>) s))
      else Inr (addr, s))"

definition bmap :: "nat \<Rightarrow> uint \<Rightarrow> 'a fsdev_scheme \<Rightarrow> (uint \<times> 'a fsdev_scheme) res" where
  "bmap i bn s =
     (if unat bn < NDIRECT then bmap_slot i (unat bn) s
      else let bn = unat bn - NDIRECT in
      if bn < NINDIRECT
      then bindE (bmap_slot i NDIRECT s) (\<lambda>(addr, s).
           bindE (bread (i_dev (icache s ! i)) addr s) (\<lambda>(bp, s).
           let addr = get32 (b_data (bufs s ! bp)) (4 * bn) in
           if addr = 0
           then bindE (balloc (i_dev (icache s ! i)) s) (\<lambda>(addr, s).
                bindE (log_write bp (upd_buf bp (\<lambda>b. b\<lparr>b_data := put32 (b_data b) (4 * bn) addr\<rparr>) s)) (\<lambda>s.
                bindE (brelse bp s) (\<lambda>s. Inr (addr, s))))
           else bindE (brelse bp s) (\<lambda>s. Inr (addr, s))))
      else Inl (Panic ''bmap: out of range''))"

fun itrunc_direct :: "nat \<Rightarrow> nat \<Rightarrow> nat \<Rightarrow> 'a fsdev_scheme \<Rightarrow> 'a fsdev_scheme res" where
  "itrunc_direct i k 0 s = Inr s"
| "itrunc_direct i k (Suc c) s =
     (let addr = i_addrs (icache s ! i) ! k in
      if addr \<noteq> 0
      then bindE (bfree (i_dev (icache s ! i)) addr s) (\<lambda>s.
           itrunc_direct i (k + 1) c (upd_inode i (\<lambda>ip. ip\<lparr>i_addrs := (i_addrs ip)[k := 0]\<rparr>) s))
      else itrunc_direct i (k + 1) c s)"

fun itrunc_indirect :: "nat \<Rightarrow> nat \<Rightarrow> nat \<Rightarrow> nat \<Rightarrow> 'a fsdev_scheme \<Rightarrow> 'a fsdev_scheme res" where
  "itrunc_indirect i bp j 0 s = Inr s"
| "itrunc_indirect i bp j (Suc c) s =
     (let a = get32 (b_data (bufs s ! bp)) (4 * j) in
      if a \<noteq> 0 then bindE (bfree (i_dev (icache s ! i)) a s) (\<lambda>s. itrunc_indirect i bp (j + 1) c s)
      else itrunc_indirect i bp (j + 1) c s)"

definition itrunc :: "nat \<Rightarrow> 'a fsdev_scheme \<Rightarrow> 'a fsdev_scheme res" where
  "itrunc i s =
     bindE (itrunc_direct i 0 NDIRECT s) (\<lambda>s.
     bindE (let addr = i_addrs (icache s ! i) ! NDIRECT in
            if addr \<noteq> 0
            then bindE (bread (i_dev (icache s ! i)) addr s) (\<lambda>(bp, s).
                 bindE (itrunc_indirect i bp 0 NINDIRECT s) (\<lambda>s.
                 bindE (brelse bp s) (\<lambda>s.
                 bindE (bfree (i_dev (icache s ! i)) (i_addrs (icache s ! i) ! NDIRECT) s) (\<lambda>s.
                 Inr (upd_inode i (\<lambda>ip. ip\<lparr>i_addrs := (i_addrs ip)[NDIRECT := 0]\<rparr>) s)))))
            else Inr s) (\<lambda>s.
     iupdate i (upd_inode i (\<lambda>ip. ip\<lparr>i_size := 0\<rparr>) s)))"

definition iput :: "nat \<Rightarrow> 'a fsdev_scheme \<Rightarrow> 'a fsdev_scheme res" where
  "iput i s =
     (let ip = icache s ! i in
      bindE (if i_ref ip = 1 \<and> i_valid ip \<and> i_nlink ip = 0
             then if i_busy ip then Inl (Panic ''iput busy'')
                  else bindE (itrunc i (upd_inode i (\<lambda>ip. ip\<lparr>i_busy := True\<rparr>) s)) (\<lambda>s.
                       bindE (iupdate i (upd_inode i (\<lambda>ip. ip\<lparr>i_type := 0\<rparr>) s)) (\<lambda>s.
                       Inr ((upd_inode i (\<lambda>ip. ip\<lparr>i_busy := False, i_valid := False\<rparr>) s)
                              \<lparr>iwoken := i # iwoken s\<rparr>)))
             else Inr s) (\<lambda>s.
      Inr (upd_inode i (\<lambda>ip. ip\<lparr>i_ref := i_ref ip - 1\<rparr>) s)))"

definition iunlockput :: "nat \<Rightarrow> 'a fsdev_scheme \<Rightarrow> 'a fsdev_scheme res" where
  "iunlockput i s = bindE (iunlock (Some i) s) (\<lambda>s. iput i s)"

record stat =
  st_type :: ushort
  st_dev :: uint
  st_ino :: uint
  st_nlink :: ushort
  st_size :: uint

definition stati :: "inode \<Rightarrow> stat" where
  "stati ip = \<lparr>st_type = i_type ip, st_dev = i_dev ip, st_ino = i_inum ip, st_nlink = i_nlink ip, st_size = i_size ip\<rparr>"

text \<open>An entry of the device table: takes the device's inode and a request, returns the result of
  the call.  A missing entry is a null function pointer.\<close>

type_synonym 's devread = "nat \<Rightarrow> (nat \<Rightarrow> uint \<Rightarrow> 's \<Rightarrow> (int \<times> uchar list \<times> 's) res) option"
type_synonym 's devwrite = "nat \<Rightarrow> (nat \<Rightarrow> uchar list \<Rightarrow> uint \<Rightarrow> 's \<Rightarrow> (int \<times> 's) res) option"

text \<open>The copy loops; \<open>n\<close> is what is left of the request.\<close>

definition chunk :: "uint \<Rightarrow> nat \<Rightarrow> nat" where
  "chunk off n = min n (BSIZE - unat off mod BSIZE)"

lemma chunk_pos: "0 < n \<Longrightarrow> 0 < chunk off n"
  by (simp add: chunk_def BSIZE_def)

function readi_loop :: "nat \<Rightarrow> uint \<Rightarrow> nat \<Rightarrow> uchar list \<Rightarrow> 'a fsdev_scheme \<Rightarrow> (uchar list \<times> 'a fsdev_scheme) res" where
  "readi_loop i off n dst s =
     (if n = 0 then Inr (dst, s)
      else bindE (bmap i (off div word_of_nat BSIZE) s) (\<lambda>(addr, s).
           bindE (bread (i_dev (icache s ! i)) addr s) (\<lambda>(bp, s).
           let m = chunk off n;
               dst = dst @ take m (drop (unat off mod BSIZE) (b_data (bufs s ! bp))) in
           bindE (brelse bp s) (\<lambda>s.
           readi_loop i (off + word_of_nat m) (n - m) dst s))))"
  by pat_completeness auto
termination
  by (relation "measure (\<lambda>(i, off, n, dst, s). n)") (auto simp: chunk_pos)

definition readi ::
  "('a fsdev_scheme) devread \<Rightarrow> nat \<Rightarrow> uint \<Rightarrow> uint \<Rightarrow> 'a fsdev_scheme \<Rightarrow> (int \<times> uchar list \<times> 'a fsdev_scheme) res" where
  "readi dr i off n s =
     (let ip = icache s ! i in
      if i_type ip = T_DEV
      then if sint (i_major ip) < 0 \<or> sint (i_major ip) \<ge> int NDEV then Inr (-1, [], s)
           else (case dr (unat (i_major ip)) of None \<Rightarrow> Inr (-1, [], s) | Some f \<Rightarrow> f i n s)
      else if off > i_size ip \<or> off + n < off then Inr (-1, [], s)
      else let n = (if off + n > i_size ip then i_size ip - off else n) in
           bindE (readi_loop i off (unat n) [] s) (\<lambda>(dst, s). Inr (sint n, dst, s)))"

function writei_loop :: "nat \<Rightarrow> uint \<Rightarrow> nat \<Rightarrow> uchar list \<Rightarrow> 'a fsdev_scheme \<Rightarrow> (uint \<times> 'a fsdev_scheme) res" where
  "writei_loop i off n src s =
     (if n = 0 then Inr (off, s)
      else bindE (bmap i (off div word_of_nat BSIZE) s) (\<lambda>(addr, s).
           bindE (bread (i_dev (icache s ! i)) addr s) (\<lambda>(bp, s).
           let m = chunk off n; at = unat off mod BSIZE in
           bindE (log_write bp (upd_buf bp (\<lambda>b. b\<lparr>b_data :=
                    take at (b_data b) @ take m src @ drop (at + m) (b_data b)\<rparr>) s)) (\<lambda>s.
           bindE (brelse bp s) (\<lambda>s.
           writei_loop i (off + word_of_nat m) (n - m) (drop m src) s)))))"
  by pat_completeness auto
termination
  by (relation "measure (\<lambda>(i, off, n, src, s). n)") (auto simp: chunk_pos)

definition writei ::
  "('a fsdev_scheme) devwrite \<Rightarrow> nat \<Rightarrow> uchar list \<Rightarrow> uint \<Rightarrow> uint \<Rightarrow> 'a fsdev_scheme \<Rightarrow> (int \<times> 'a fsdev_scheme) res" where
  "writei dw i src off n s =
     (let ip = icache s ! i in
      if i_type ip = T_DEV
      then if sint (i_major ip) < 0 \<or> sint (i_major ip) \<ge> int NDEV then Inr (-1, s)
           else (case dw (unat (i_major ip)) of None \<Rightarrow> Inr (-1, s) | Some f \<Rightarrow> f i src n s)
      else if off > i_size ip \<or> off + n < off then Inr (-1, s)
      else if off + n > word_of_nat (MAXFILE * BSIZE) then Inr (-1, s)
      else bindE (writei_loop i off (unat n) src s) (\<lambda>(off, s).
           bindE (if n > 0 \<and> off > i_size (icache s ! i)
                  then iupdate i (upd_inode i (\<lambda>ip. ip\<lparr>i_size := off\<rparr>) s) else Inr s) (\<lambda>s.
           Inr (sint n, s))))"

section \<open>Directories\<close>

text \<open>\<open>strncmp\<close> and \<open>strncpy\<close> on byte lists: the end of a list stands for its NUL.\<close>

fun strncmp_list :: "uchar list \<Rightarrow> uchar list \<Rightarrow> nat \<Rightarrow> int" where
  "strncmp_list p q 0 = 0"
| "strncmp_list p q (Suc n) =
     (let x = (case p of [] \<Rightarrow> 0 | c # _ \<Rightarrow> c); y = (case q of [] \<Rightarrow> 0 | c # _ \<Rightarrow> c) in
      if x \<noteq> 0 \<and> x = y then strncmp_list (tl p) (tl q) n else uint x - uint y)"

definition namecmp :: "uchar list \<Rightarrow> uchar list \<Rightarrow> int" where
  "namecmp s t = strncmp_list s t DIRSIZ"

fun strncpy_list :: "uchar list \<Rightarrow> nat \<Rightarrow> uchar list" where
  "strncpy_list t 0 = []"
| "strncpy_list t (Suc n) =
     (case t of [] \<Rightarrow> replicate (Suc n) 0
      | c # t' \<Rightarrow> if c = 0 then replicate (Suc n) 0 else c # strncpy_list t' n)"

definition de_inum :: "uchar list \<Rightarrow> ushort" where "de_inum de = get16 de 0"
definition de_name :: "uchar list \<Rightarrow> uchar list" where "de_name de = drop 2 de"

definition mk_dirent :: "ushort \<Rightarrow> uchar list \<Rightarrow> uchar list" where
  "mk_dirent inum name = put16 (replicate 2 0) 0 inum @ strncpy_list name DIRSIZ"

function dirlookup_loop ::
  "('a fsdev_scheme) devread \<Rightarrow> nat \<Rightarrow> uchar list \<Rightarrow> nat \<Rightarrow> nat \<Rightarrow> 'a fsdev_scheme \<Rightarrow>
     ((uint \<times> uint) option \<times> 'a fsdev_scheme) res" where
  "dirlookup_loop dr dp name sz off s =
     (if off < sz
      then bindE (readi dr dp (word_of_nat off) 16 s) (\<lambda>(r, de, s).
           if r \<noteq> 16 then Inl (Panic ''dirlink read'')
           else if de_inum de = 0 then dirlookup_loop dr dp name sz (off + 16) s
           else if namecmp name (de_name de) = 0 then Inr (Some (ucast (de_inum de), word_of_nat off), s)
           else dirlookup_loop dr dp name sz (off + 16) s)
      else Inr (None, s))"
  by pat_completeness auto
termination
  by (relation "measure (\<lambda>(dr, dp, name, sz, off, s). sz - off)") auto

text \<open>The result is the inode and, for callers that pass \<open>poff\<close>, the offset of the entry.\<close>

definition dirlookup ::
  "('a fsdev_scheme) devread \<Rightarrow> nat \<Rightarrow> uchar list \<Rightarrow> 'a fsdev_scheme \<Rightarrow> ((nat \<times> uint) option \<times> 'a fsdev_scheme) res" where
  "dirlookup dr dp name s =
     (if i_type (icache s ! dp) \<noteq> T_DIR then Inl (Panic ''dirlookup not DIR'')
      else bindE (dirlookup_loop dr dp name (unat (i_size (icache s ! dp))) 0 s) (\<lambda>(r, s).
           case r of None \<Rightarrow> Inr (None, s)
           | Some (inum, off) \<Rightarrow>
               bindE (fs_iget (i_dev (icache s ! dp)) inum s) (\<lambda>(ip, s). Inr (Some (ip, off), s))))"

function dirlink_scan ::
  "('a fsdev_scheme) devread \<Rightarrow> nat \<Rightarrow> nat \<Rightarrow> nat \<Rightarrow> 'a fsdev_scheme \<Rightarrow> (nat \<times> 'a fsdev_scheme) res" where
  "dirlink_scan dr dp sz off s =
     (if off < sz
      then bindE (readi dr dp (word_of_nat off) 16 s) (\<lambda>(r, de, s).
           if r \<noteq> 16 then Inl (Panic ''dirlink read'')
           else if de_inum de = 0 then Inr (off, s) else dirlink_scan dr dp sz (off + 16) s)
      else Inr (off, s))"
  by pat_completeness auto
termination
  by (relation "measure (\<lambda>(dr, dp, sz, off, s). sz - off)") auto

definition dirlink ::
  "('a fsdev_scheme) devread \<Rightarrow> ('a fsdev_scheme) devwrite \<Rightarrow> nat \<Rightarrow> uchar list \<Rightarrow> uint \<Rightarrow> 'a fsdev_scheme \<Rightarrow>
     (int \<times> 'a fsdev_scheme) res" where
  "dirlink dr dw dp name inum s =
     bindE (dirlookup dr dp name s) (\<lambda>(r, s).
     case r of
       Some (ip, _) \<Rightarrow> bindE (iput ip s) (\<lambda>s. Inr (-1, s))
     | None \<Rightarrow>
         bindE (dirlink_scan dr dp (unat (i_size (icache s ! dp))) 0 s) (\<lambda>(off, s).
         bindE (writei dw dp (mk_dirent (ucast inum) name) (word_of_nat off) 16 s) (\<lambda>(r, s).
         if r \<noteq> 16 then Inl (Panic ''dirlink'') else Inr (0, s))))"

section \<open>Paths\<close>

definition SLASH :: uchar where "SLASH = 47"

text \<open>A path is the list of its characters up to the NUL; \<open>name\<close> is the caller's buffer of
  \<open>DIRSIZ\<close> bytes, which a short element leaves unchanged behind its NUL.\<close>

definition skipelem :: "uchar list \<Rightarrow> uchar list \<Rightarrow> (uchar list \<times> uchar list) option" where
  "skipelem path name =
     (let path = dropWhile (\<lambda>c. c = SLASH) path in
      if path = [] then None
      else let elem = takeWhile (\<lambda>c. c \<noteq> SLASH) path; rest = dropWhile (\<lambda>c. c \<noteq> SLASH) path;
               name = (if length elem \<ge> DIRSIZ then take DIRSIZ elem
                       else elem @ [0] @ drop (length elem + 1) name)
           in Some (dropWhile (\<lambda>c. c = SLASH) rest, name))"

lemma skipelem_shorter: "skipelem path name = Some (rest, name') \<Longrightarrow> length rest < length path"
proof -
  assume a: "skipelem path name = Some (rest, name')"
  let ?p = "dropWhile (\<lambda>c. c = SLASH) path" let ?r = "dropWhile (\<lambda>c. c \<noteq> SLASH) ?p"
  from a have p: "?p \<noteq> []" and r: "rest = dropWhile (\<lambda>c. c = SLASH) ?r"
    by (auto simp: skipelem_def Let_def split: if_splits)
  obtain c p' where cp: "?p = c # p'" using p by (cases ?p) auto
  then have "c \<noteq> SLASH" by (simp add: dropWhile_eq_Cons_conv)
  then have r': "?r = dropWhile (\<lambda>c. c \<noteq> SLASH) p'" using cp by simp
  have "length rest \<le> length ?r" unfolding r by (rule length_dropWhile_le)
  also have "\<dots> \<le> length p'" unfolding r' by (rule length_dropWhile_le)
  finally have "length rest \<le> length p'" .
  moreover have "length ?p \<le> length path" by (rule length_dropWhile_le)
  ultimately show ?thesis using cp by simp
qed

function namex_loop ::
  "('a fsdev_scheme) devread \<Rightarrow> bool \<Rightarrow> nat \<Rightarrow> uchar list \<Rightarrow> uchar list \<Rightarrow> 'a fsdev_scheme \<Rightarrow>
     (nat option \<times> uchar list \<times> 'a fsdev_scheme) res" where
  "namex_loop dr par ip path name s =
     (case skipelem path name of
        None \<Rightarrow> if par then bindE (iput ip s) (\<lambda>s. Inr (None, name, s)) else Inr (Some ip, name, s)
      | Some (path, name) \<Rightarrow>
          bindE (ilock (Some ip) s) (\<lambda>s.
          if i_type (icache s ! ip) \<noteq> T_DIR then bindE (iunlockput ip s) (\<lambda>s. Inr (None, name, s))
          else if par \<and> path = [] then bindE (iunlock (Some ip) s) (\<lambda>s. Inr (Some ip, name, s))
          else bindE (dirlookup dr ip name s) (\<lambda>(r, s).
               case r of
                 None \<Rightarrow> bindE (iunlockput ip s) (\<lambda>s. Inr (None, name, s))
               | Some (next, _) \<Rightarrow> bindE (iunlockput ip s) (\<lambda>s. namex_loop dr par next path name s))))"
  by pat_completeness auto
termination
  by (relation "measure (\<lambda>(dr, par, ip, path, name, s). length path)") (auto intro: skipelem_shorter)

definition namex ::
  "('a fsdev_scheme) devread \<Rightarrow> nat \<Rightarrow> uchar list \<Rightarrow> bool \<Rightarrow> uchar list \<Rightarrow> 'a fsdev_scheme \<Rightarrow>
     (nat option \<times> uchar list \<times> 'a fsdev_scheme) res" where
  "namex dr cwd path par name s =
     bindE (if path \<noteq> [] \<and> hd path = SLASH then fs_iget 1 1 s else Inr (cwd, fs_idup cwd s)) (\<lambda>(ip, s).
     namex_loop dr par ip path name s)"

definition namei ::
  "('a fsdev_scheme) devread \<Rightarrow> nat \<Rightarrow> uchar list \<Rightarrow> 'a fsdev_scheme \<Rightarrow> (nat option \<times> 'a fsdev_scheme) res" where
  "namei dr cwd path s =
     bindE (namex dr cwd path False (replicate DIRSIZ 0) s) (\<lambda>(r, name, s). Inr (r, s))"

definition nameiparent ::
  "('a fsdev_scheme) devread \<Rightarrow> nat \<Rightarrow> uchar list \<Rightarrow> uchar list \<Rightarrow> 'a fsdev_scheme \<Rightarrow>
     (nat option \<times> uchar list \<times> 'a fsdev_scheme) res" where
  "nameiparent dr cwd path name s = namex dr cwd path True name s"

end
