(* ===== verification/FsFile.thy ===== *)
theory FsFile
  imports Fs
begin

text \<open>
  The contents of files: \<open>bmap\<close>, \<open>readi\<close> and \<open>writei\<close> of \<open>src/fs.c\<close> against the file as a
  sequence of bytes.
\<close>

declare balloc_loop.simps [simp del] readi_loop.simps [simp del] writei_loop.simps [simp del]
  dirlookup_loop.simps [simp del] dirlink_scan.simps [simp del] namex_loop.simps [simp del]

section \<open>Reading a block\<close>

text \<open>States that differ only in how the cache is arranged.\<close>

definition same :: "'a logdev_scheme \<Rightarrow> 'a logdev_scheme \<Rightarrow> bool" where
  "same s s' \<longleftrightarrow> log_inv s' \<and> view s' = view s"

lemma fs_fields:
  assumes "dev.more s' = dev.more s"
  shows "fsb s' = fsb s" "icache s' = icache s" "iwoken s' = iwoken s" "fsdev.more s' = fsdev.more s"
  using assms by (cases s; cases s'; simp)+

lemma view_sameD:
  assumes "view s' = view s"
  shows "content s' = content s" "disk s' = disk s" "dirtyb s' = dirtyb s" "busyb s' = busyb s"
    "dwrites s' = dwrites s" "disksize s' = disksize s" "dev.more s' = dev.more s"
  using assms by (simp_all add: view_def)

lemma log_inv_view:
  assumes "log_inv s" and "view s' = view s" and "cache_inv s'" and "length (bufs s') = length (bufs s)"
  shows "same s s'"
  using assms view_sameD [OF assms(2)] log_fields [OF view_sameD(7) [OF assms(2)]]
  by (simp add: same_def log_inv_def log_place_def)

lemma same_refl [simp]: "log_inv s \<Longrightarrow> same s s"
  by (simp add: same_def)

lemma same_trans: "same s s' \<Longrightarrow> same s' s'' \<Longrightarrow> same s s''"
  by (simp add: same_def)

lemma sameD:
  assumes "same s s'"
  shows "log_inv s'" "content s' = content s" "busyb s' = busyb s" "disksize s' = disksize s"
    "dev.more s' = dev.more s" "disk s' = disk s" "dwrites s' = dwrites s"
  using assms view_sameD [of s' s] by (simp_all add: same_def)

lemma read_same:
  assumes inv: "log_inv s" and idle: "busyb s = {}" and n: "n < disksize s"
  shows "\<exists>i s1 s2. bread 1 n s = Inr (i, s1) \<and> b_data (bufs s1 ! i) = content s n \<and>
     dev.more s1 = dev.more s \<and> brelse i s1 = Inr s2 \<and> same s s2"
proof -
  have c: "cache_inv s" using inv by (simp add: log_inv_def)
  have v: "view s = (content s, disk s, dirtyb s, {}, dwrites s, disksize s, dev.more s)"
    using idle by (simp add: view_def)
  have av: "n \<in> dirtyb s \<or> avail s \<noteq> {}" using log_inv_avail(2) [OF inv idle] by blast
  obtain i s1 s2 where r: "bread 1 n s = Inr (i, s1)" "b_data (bufs s1 ! i) = content s n"
      "brelse i s1 = Inr s2" "cache_inv s2"
      "view s2 = (content s, disk s, dirtyb s, {}, dwrites s, disksize s, dev.more s)"
    using bc.read_release [OF c v n _ av] by blast
  obtain i' s1' where "bread 1 n s = Inr (i', s1')"
      "view s1' = (content s, disk s, dirtyb s, {n}, dwrites s, disksize s, dev.more s)"
    using bc.rd_ok [OF c v n _ av] by blast
  then have "dev.more s1 = dev.more s" using r(1) by (simp add: view_def)
  moreover have "same s s2"
    using inv v r(4,5) brelse_len [OF r(3)] bread_len [OF r(1)] by (intro log_inv_view) simp_all
  ultimately show ?thesis using r by blast
qed

section \<open>The blocks of a file\<close>

text \<open>The disk block of the \<open>bn\<close>-th block of a file.\<close>

definition baddr :: "'a fsdev_scheme \<Rightarrow> nat \<Rightarrow> nat \<Rightarrow> uint" where
  "baddr s i bn =
     (let ip = icache s ! i in
      if bn < NDIRECT then i_addrs ip ! bn
      else get32 (content s (i_addrs ip ! NDIRECT)) (4 * (bn - NDIRECT)))"

text \<open>The first \<open>nb\<close> blocks of the file are allocated, in distinct data blocks of the disk.\<close>

definition file_ok :: "'a fsdev_scheme \<Rightarrow> nat \<Rightarrow> nat \<Rightarrow> bool" where
  "file_ok s i nb \<longleftrightarrow>
     i < length (icache s) \<and> i_dev (icache s ! i) = 1 \<and> nb \<le> MAXFILE \<and> length (i_addrs (icache s ! i)) = NDIRECT + 1 \<and>
     (\<forall>bn < nb. baddr s i bn \<noteq> 0 \<and> baddr s i bn < disksize s \<and> baddr s i bn \<notin> region s \<and> baddr s i bn \<noteq> 1 \<and>
        length (content s (baddr s i bn)) = BSIZE) \<and>
     inj_on (baddr s i) {..<nb} \<and>
     (NDIRECT < nb \<longrightarrow> (let a = i_addrs (icache s ! i) ! NDIRECT in a \<noteq> 0 \<and> a < disksize s \<and> a \<notin> baddr s i ` {..<nb}))"

lemma baddr_cong:
  assumes "icache s' = icache s" and "content s' = content s"
  shows "baddr s' = baddr s"
  unfolding baddr_def assms ..

lemma baddr_same: "same s s' \<Longrightarrow> baddr s' = baddr s"
  by (rule baddr_cong [OF fs_fields(2) [OF sameD(5)] sameD(2)])

lemma file_ok_same:
  assumes "same s s'"
  shows "file_ok s' i nb = file_ok s i nb"
  using sameD [OF assms] baddr_same [OF assms] fs_fields [OF sameD(5) [OF assms]]
    log_fields [OF sameD(5) [OF assms]]
  by (simp add: file_ok_def)

lemma bmap_ok:
  assumes inv: "log_inv s" and idle: "busyb s = {}" and f: "file_ok s i nb" and bn: "unat bn < nb"
  shows "\<exists>s'. bmap i bn s = Inr (baddr s i (unat bn), s') \<and> same s s'"
proof (cases "unat bn < NDIRECT")
  case True
  then have "baddr s i (unat bn) = i_addrs (icache s ! i) ! unat bn" by (simp add: baddr_def)
  moreover have "baddr s i (unat bn) \<noteq> 0" using f bn by (simp add: file_ok_def)
  ultimately show ?thesis using True inv by (simp add: bmap_def bmap_slot_def)
next
  case False
  let ?a = "i_addrs (icache s ! i) ! NDIRECT" and ?k = "unat bn - NDIRECT"
  have nb: "NDIRECT < nb" "nb \<le> MAXFILE" using False bn f by (auto simp: file_ok_def)
  then have a: "?a \<noteq> 0" "?a < disksize s" using f by (auto simp: file_ok_def Let_def)
  have dev: "i_dev (icache s ! i) = 1" using f by (simp add: file_ok_def)
  have addr: "baddr s i (unat bn) = get32 (content s ?a) (4 * ?k)" using False by (simp add: baddr_def)
  have "?k < NINDIRECT" using bn nb False by (simp add: MAXFILE_def)
  moreover obtain bp s1 s2 where "bread 1 ?a s = Inr (bp, s1)" "b_data (bufs s1 ! bp) = content s ?a"
      "dev.more s1 = dev.more s" "brelse bp s1 = Inr s2" "same s s2"
    using read_same [OF inv idle a(2)] by blast
  moreover have "baddr s i (unat bn) \<noteq> 0" using f bn by (simp add: file_ok_def)
  ultimately show ?thesis
    using False a(1) dev addr by (simp add: bmap_def bmap_slot_def Let_def)
qed

text \<open>The bytes of the file.\<close>

definition fbyte :: "'a fsdev_scheme \<Rightarrow> nat \<Rightarrow> nat \<Rightarrow> uchar" where
  "fbyte s i k = content s (baddr s i (k div BSIZE)) ! (k mod BSIZE)"

lemma fbyte_same: "same s s' \<Longrightarrow> fbyte s' i = fbyte s i"
  using sameD(2) [of s s'] baddr_same [of s s'] by (intro ext) (simp add: fbyte_def)

lemma div_BSIZE: "unat (off div word_of_nat BSIZE) = unat (off :: uint) div BSIZE"
  by (simp add: BSIZE_def unat_div_distrib)

text \<open>One chunk lies in one block.\<close>

lemma div_mod_add:
  fixes a b k :: nat
  assumes "a mod b + k < b"
  shows "(a + k) div b = a div b \<and> (a + k) mod b = a mod b + k"
proof -
  have e: "a + k = (a mod b + k) + (a div b) * b" using div_mult_mod_eq [of a b] by linarith
  have b: "b \<noteq> 0" using assms by auto
  show ?thesis
    unfolding e div_mult_self1 [OF b] mod_mult_self1 div_less [OF assms] mod_less [OF assms] by simp
qed

lemma chunk_bytes:
  assumes "length (content s (baddr s i (unat off div BSIZE))) = BSIZE"
  shows "take (chunk off n) (drop (unat off mod BSIZE) (content s (baddr s i (unat off div BSIZE)))) =
         map (fbyte s i) [unat off..<unat off + chunk off n]"
proof (rule nth_equalityI)
  have le: "unat off mod BSIZE + chunk off n \<le> BSIZE"
    by (simp add: chunk_def BSIZE_def)
  then show "length (take (chunk off n) (drop (unat off mod BSIZE) (content s (baddr s i (unat off div BSIZE))))) =
      length (map (fbyte s i) [unat off..<unat off + chunk off n])"
    using assms by simp
  fix k assume "k < length (take (chunk off n) (drop (unat off mod BSIZE) (content s (baddr s i (unat off div BSIZE)))))"
  then have k: "k < chunk off n" "unat off mod BSIZE + k < BSIZE" using assms le by simp_all
  have "(unat off + k) div BSIZE = unat off div BSIZE" "(unat off + k) mod BSIZE = unat off mod BSIZE + k"
    using div_mod_add [OF k(2)] by simp_all
  then show "take (chunk off n) (drop (unat off mod BSIZE) (content s (baddr s i (unat off div BSIZE)))) ! k =
      map (fbyte s i) [unat off..<unat off + chunk off n] ! k"
    using k assms by (simp add: fbyte_def)
qed

section \<open>Reading\<close>

lemma off_chunk:
  assumes "unat (off :: uint) + n \<le> MAXFILE * BSIZE" and "0 < n"
  shows "unat (off + word_of_nat (chunk off n)) = unat off + chunk off n" and "chunk off n \<le> n"
proof -
  show le: "chunk off n \<le> n" by (simp add: chunk_def)
  have "MAXFILE * BSIZE = 71680" by (simp add: MAXFILE_def NDIRECT_def NINDIRECT_def BSIZE_def)
  then have b: "unat off + chunk off n < 4294967296" using assms(1) le by linarith
  have "off + word_of_nat (chunk off n) = word_of_nat (unat off + chunk off n)" by simp
  then show "unat (off + word_of_nat (chunk off n)) = unat off + chunk off n"
    using b by (simp only: unat_word_of_nat_uint)
qed

lemma block_in_file:
  assumes "off + n \<le> nb * BSIZE" and "0 < n"
  shows "off div BSIZE < nb"
proof -
  have "off < nb * BSIZE" using assms by linarith
  then show ?thesis by (simp add: BSIZE_def less_mult_imp_div_less)
qed

lemma readi_loop_ok:
  assumes "log_inv s" and "busyb s = {}" and "file_ok s i nb" and "unat off + n \<le> nb * BSIZE"
  shows "\<exists>s'. readi_loop i off n dst s = Inr (dst @ map (fbyte s i) [unat off..<unat off + n], s') \<and> same s s'"
  using assms
proof (induction n arbitrary: off dst s rule: less_induct)
  case (less n)
  show ?case
  proof (cases "n = 0")
    case True
    then show ?thesis using less(2) by (subst readi_loop.simps) simp
  next
    case False
    let ?m = "chunk off n" and ?bn = "off div word_of_nat BSIZE" and ?a = "baddr s i (unat off div BSIZE)"
    have bn: "unat off div BSIZE < nb" using block_in_file [OF less(5)] False by simp
    have fo: "i_dev (icache s ! i) = 1" "?a < disksize s" "length (content s ?a) = BSIZE" "nb \<le> MAXFILE"
      using less(4) bn by (auto simp: file_ok_def)
    obtain s1 where s1: "bmap i ?bn s = Inr (?a, s1)" "same s s1"
      using bmap_ok [OF less(2-4), of ?bn] bn by (auto simp: div_BSIZE)
    note d1 = sameD [OF s1(2)]
    have "?a < disksize s1" "busyb s1 = {}" using fo(2) d1(3,4) less(3) by simp_all
    then obtain bp s2 s3 where s3: "bread 1 ?a s1 = Inr (bp, s2)" "b_data (bufs s2 ! bp) = content s ?a"
        "dev.more s2 = dev.more s1" "brelse bp s2 = Inr s3" "same s1 s3"
      using read_same [OF d1(1)] d1(2) by metis
    have same3: "same s s3" using same_trans [OF s1(2) s3(5)] .
    note d3 = sameD [OF same3]
    have bound: "unat off + n \<le> MAXFILE * BSIZE" using less(5) fo(4) by (meson le_trans mult_le_mono1)
    note oc = off_chunk [OF bound] 
    have lt: "n - ?m < n" using False chunk_pos [of n off] by simp
    have le: "unat (off + word_of_nat ?m) + (n - ?m) \<le> nb * BSIZE" using oc False less(5) by simp
    have "busyb s3 = {}" "file_ok s3 i nb" using d3(3) less(3,4) file_ok_same [OF same3] by simp_all
    then obtain s' where s': "readi_loop i (off + word_of_nat ?m) (n - ?m) (dst @ map (fbyte s i) [unat off..<unat off + ?m]) s3 =
        Inr ((dst @ map (fbyte s i) [unat off..<unat off + ?m]) @
             map (fbyte s3 i) [unat (off + word_of_nat ?m)..<unat (off + word_of_nat ?m) + (n - ?m)], s')" "same s3 s'"
      using less(1) [OF lt d3(1) _ _ le] by blast
    have "[unat off..<unat off + n] = [unat off..<unat off + ?m] @ [unat off + ?m..<unat off + ?m + (n - ?m)]"
      using oc(2) False upt_add_eq_append [of "unat off" "unat off + ?m" "n - ?m"] by simp
    then have "(dst @ map (fbyte s i) [unat off..<unat off + ?m]) @
        map (fbyte s3 i) [unat (off + word_of_nat ?m)..<unat (off + word_of_nat ?m) + (n - ?m)] =
        dst @ map (fbyte s i) [unat off..<unat off + n]"
      using oc(1) False fbyte_same [OF same3] by simp
    moreover have "i_dev (icache s1 ! i) = 1" using fs_fields(2) [OF d1(5)] fo(1) by simp
    ultimately show ?thesis
      using False s1(1) s3(1,2,4) s' chunk_bytes [OF fo(3), of n] same_trans [OF same3 s'(2)]
      by (subst readi_loop.simps) (simp add: Let_def)
  qed
qed

lemma sint_nat: "k < 2147483648 \<Longrightarrow> sint (word_of_nat k :: uint) = int k"
  by (simp add: signed_of_nat signed_take_bit_int_eq_self)

text \<open>\<open>readi\<close> on a regular file or directory returns the requested bytes, cut at the end of the
  file.\<close>

lemma readi_ok:
  assumes inv: "log_inv s" "busyb s = {}" and f: "file_ok s i nb" and sz: "unat (i_size (icache s ! i)) \<le> nb * BSIZE"
    and ty: "i_type (icache s ! i) \<noteq> T_DEV" and off: "off \<le> i_size (icache s ! i)" "off \<le> off + n"
  defines "e \<equiv> min (unat off + unat n) (unat (i_size (icache s ! i)))"
  shows "\<exists>s'. readi dr i off n s = Inr (int (e - unat off), map (fbyte s i) [unat off..<e], s') \<and> same s s'"
proof -
  let ?z = "i_size (icache s ! i)"
  define n' where "n' = (if off + n > ?z then ?z - off else n)"
  have sum: "unat (off + n) = unat off + unat n"
    using off(2) by (simp add: unat_plus_simple)
  have n': "unat off + unat n' = e"
    using off(1) sum by (auto simp: n'_def e_def word_le_nat_alt word_less_nat_alt unat_sub)
  have bound: "unat off + unat n' \<le> nb * BSIZE" using n' sz by (simp add: e_def)
  have "nb * BSIZE \<le> MAXFILE * BSIZE" using f by (simp add: file_ok_def)
  then have "unat n' \<le> MAXFILE * BSIZE" using bound by linarith
  then have "unat n' < 2147483648" by (simp add: MAXFILE_def NDIRECT_def NINDIRECT_def BSIZE_def)
  then have si: "sint n' = int (e - unat off)"
  proof -
    have e: "e - unat off = unat n'" using n' by simp
    show ?thesis unfolding e using sint_nat [OF \<open>unat n' < 2147483648\<close>] by simp
  qed
  obtain s' where "readi_loop i off (unat n') [] s = Inr ([] @ map (fbyte s i) [unat off..<unat off + unat n'], s')"
      "same s s'"
    using readi_loop_ok [OF inv f bound] by blast
  moreover have "\<not> ?z < off" "\<not> off + n < off" using off by (simp_all add: not_less)
  ultimately show ?thesis
    using ty n' si by (simp add: readi_def Let_def n'_def [symmetric])
qed

section \<open>Writing\<close>

text \<open>The number of blocks that a write touches.\<close>

definition chunks :: "nat \<Rightarrow> nat \<Rightarrow> nat" where
  "chunks a n = (if n = 0 then 0 else (a + n - 1) div BSIZE - a div BSIZE + 1)"

lemma chunks_step:
  fixes a n :: nat
  assumes "0 < n"
  defines "m \<equiv> min n (BSIZE - a mod BSIZE)"
  shows "chunks a n = Suc (chunks (a + m) (n - m))"
proof (cases "m = n")
  case True
  then have "a mod BSIZE + (n - 1) < BSIZE" using assms by (simp add: m_def BSIZE_def min_def split: if_splits)
  then have "(a + (n - 1)) div BSIZE = a div BSIZE" using div_mod_add by blast
  moreover have "a + (n - 1) = a + n - 1" using assms(1) by simp
  ultimately show ?thesis using True assms(1) by (simp add: chunks_def)
next
  case False
  then have m: "m = BSIZE - a mod BSIZE" "m < n" by (auto simp: m_def min_def split: if_splits)
  have "a + m = (a div BSIZE + 1) * BSIZE"
  proof -
    have "a + (b - r) = (q + 1) * b" if "a = q * b + r" "r \<le> b" for q b r :: nat
      using that by (simp add: algebra_simps)
    from this [of "a div BSIZE" BSIZE "a mod BSIZE"] show ?thesis by (simp add: m(1) BSIZE_def)
  qed
  then have d: "(a + m) div BSIZE = a div BSIZE + 1" by (simp add: BSIZE_def)
  have "(a + m) div BSIZE \<le> (a + n - 1) div BSIZE" using m(2) by (intro div_le_mono) simp
  then show ?thesis using d m(2) by (simp add: chunks_def)
qed

lemma baddr_write:
  assumes f: "file_ok s i nb" and bn: "bn < nb" and c: "content s' = (content s)(baddr s i bn := d)"
    and ic: "icache s' = icache s" and k: "k < nb"
  shows "baddr s' i k = baddr s i k"
proof (cases "k < NDIRECT")
  case False
  then have "i_addrs (icache s ! i) ! NDIRECT \<noteq> baddr s i bn"
    using f bn k by (auto simp: file_ok_def Let_def)
  then show ?thesis unfolding baddr_def ic c Let_def by simp
qed (simp add: baddr_def ic)

lemma file_ok_write:
  assumes f: "file_ok s i nb" and bn: "bn < nb" and c: "content s' = (content s)(baddr s i bn := d)"
    and ic: "icache s' = icache s" and len: "length d = BSIZE" and z: "disksize s' = disksize s" "region s' = region s"
  shows "file_ok s' i nb"
proof -
  note b = baddr_write [OF f bn c ic]
  have "baddr s' i ` {..<nb} = baddr s i ` {..<nb}" using b by (intro image_cong) auto
  moreover have "inj_on (baddr s' i) {..<nb} = inj_on (baddr s i) {..<nb}"
    using b by (intro inj_on_cong) auto
  moreover have "length (content s' (baddr s' i k)) = BSIZE" if "k < nb" for k
    using that f b c len by (auto simp: file_ok_def)
  ultimately show ?thesis
    using f b ic z by (simp add: file_ok_def)
qed

lemma fbyte_write:
  assumes f: "file_ok s i nb" and bn: "bn < nb" and c: "content s' = (content s)(baddr s i bn := d)"
    and ic: "icache s' = icache s" and k: "k < nb * BSIZE"
  shows "fbyte s' i k = (if k div BSIZE = bn then d ! (k mod BSIZE) else fbyte s i k)"
proof -
  have kb: "k div BSIZE < nb" using k by (simp add: BSIZE_def less_mult_imp_div_less)
  have "baddr s i (k div BSIZE) = baddr s i bn \<longleftrightarrow> k div BSIZE = bn"
    using f kb bn by (auto simp: file_ok_def inj_on_def)
  then show ?thesis using baddr_write [OF f bn c ic kb] c by (simp add: fbyte_def)
qed

text \<open>The block after one chunk is stored into it.\<close>

definition patch :: "block \<Rightarrow> nat \<Rightarrow> nat \<Rightarrow> uchar list \<Rightarrow> block" where
  "patch b p m src = take p b @ take m src @ drop (p + m) b"

lemma patch_facts:
  assumes "length b = BSIZE" and "p + m \<le> BSIZE" and "m \<le> length src"
  shows "length (patch b p m src) = BSIZE"
    and "j < BSIZE \<Longrightarrow> patch b p m src ! j = (if p \<le> j \<and> j < p + m then src ! (j - p) else b ! j)"
  using assms by (auto simp: patch_def nth_append min_def)

lemma chunk_fits: "unat off mod BSIZE + chunk off n \<le> BSIZE" "chunk off n \<le> n"
  by (simp_all add: chunk_def BSIZE_def)

lemma shift_cmp:
  fixes k q x r t :: nat
  assumes "q = x + r" and "k = x + t"
  shows "q \<le> k \<longleftrightarrow> r \<le> t" "k - q = t - r" "k < q + m \<longleftrightarrow> t < r + m"
  using assms by auto

text \<open>What a store of one chunk does to the bytes of the file.\<close>

lemma fbyte_patch:
  assumes f: "file_ok s i nb" and bn: "unat off div BSIZE < nb" and ic: "icache s' = icache s"
    and c: "content s' = (content s)(baddr s i (unat off div BSIZE) :=
              patch (content s (baddr s i (unat off div BSIZE))) (unat off mod BSIZE) (chunk off n) src)"
    and k: "k < nb * BSIZE" and len: "chunk off n \<le> length src"
  shows "fbyte s' i k = (if unat off \<le> k \<and> k < unat off + chunk off n then src ! (k - unat off) else fbyte s i k)"
proof -
  let ?o = "unat off" and ?m = "chunk off n" and ?b = "content s (baddr s i (unat off div BSIZE))"
  have lb: "length ?b = BSIZE" using f bn by (auto simp: file_ok_def)
  have kk: "k mod BSIZE < BSIZE" by (simp add: BSIZE_def)
  note pf = patch_facts(2) [OF lb chunk_fits(1) [of off n] len kk]
  have o: "?o = ?o div BSIZE * BSIZE + ?o mod BSIZE" and kd: "k = k div BSIZE * BSIZE + k mod BSIZE" by simp_all
  show ?thesis
  proof (cases "k div BSIZE = ?o div BSIZE")
    case True
    then have "?o \<le> k \<longleftrightarrow> ?o mod BSIZE \<le> k mod BSIZE" "k - ?o = k mod BSIZE - ?o mod BSIZE"
        "k < ?o + ?m \<longleftrightarrow> k mod BSIZE < ?o mod BSIZE + ?m"
      using shift_cmp [OF o kd [unfolded True]] by simp_all
    then show ?thesis using fbyte_write [OF f bn c ic k] True pf by (simp add: fbyte_def)
  next
    case False
    have "(?o + j) div BSIZE = ?o div BSIZE" if "j < ?m" for j
      using that chunk_fits(1) [of off n] by (intro div_mod_add [THEN conjunct1]) linarith
    then have "\<not> (?o \<le> k \<and> k < ?o + ?m)" using False by (metis add_diff_inverse_nat less_diff_conv2 linorder_not_less nat_add_left_cancel_less)
    then show ?thesis using fbyte_write [OF f bn c ic k] False by auto
  qed
qed

lemma log_add_n:
  assumes "log_inv s" and "lh_n s < l_size s - 1"
  shows "lh_n s \<le> lh_n (log_add n s)" "lh_n (log_add n s) \<le> lh_n s + 1"
  by (simp_all add: log_add_def)

text \<open>The loop of \<open>writei\<close> over blocks that are already allocated.\<close>

lemma writei_loop_ok:
  assumes "log_inv s" and "busyb s = {}" and "file_ok s i nb" and "unat off + n \<le> nb * BSIZE" and "length src = n"
    and "1 \<le> l_outstanding s" and "lh_n s + int (chunks (unat off) n) \<le> l_size s - 1"
  shows "\<exists>s'. writei_loop i off n src s = Inr (off + word_of_nat n, s') \<and> log_inv s' \<and> busyb s' = {} \<and>
     file_ok s' i nb \<and> disksize s' = disksize s \<and> disk s' = disk s \<and> dwrites s' = dwrites s \<and>
     icache s' = icache s \<and> fsb s' = fsb s \<and> l_start s' = l_start s \<and> l_size s' = l_size s \<and>
     l_outstanding s' = l_outstanding s \<and> lh_n s' \<le> lh_n s + int (chunks (unat off) n) \<and>
     (\<forall>k < nb * BSIZE. fbyte s' i k = (if unat off \<le> k \<and> k < unat off + n then src ! (k - unat off) else fbyte s i k)) \<and>
     (\<forall>b. b \<notin> baddr s i ` {..<nb} \<longrightarrow> content s' b = content s b)"
  using assms
proof (induction n arbitrary: off src s rule: less_induct)
  case (less n)
  show ?case
  proof (cases "n = 0")
    case True
    then show ?thesis using less(2-8) by (subst writei_loop.simps) (auto simp: chunks_def)
  next
    case False
    let ?m = "chunk off n" and ?bn = "off div word_of_nat BSIZE" and ?p = "unat off mod BSIZE"
    define a where "a = baddr s i (unat off div BSIZE)"
    have bn: "unat off div BSIZE < nb" using block_in_file [OF less(5)] False by simp
    have fo: "i_dev (icache s ! i) = 1" "a < disksize s" "a \<notin> region s" "a \<noteq> 1" "length (content s a) = BSIZE" "nb \<le> MAXFILE"
      using less(4) bn by (auto simp: file_ok_def a_def)
    obtain s1 where s1: "bmap i ?bn s = Inr (a, s1)" "same s s1"
      using bmap_ok [OF less(2-4), of ?bn] bn by (auto simp: div_BSIZE a_def)
    note d1 = sameD [OF s1(2)] and lf1 = log_fields [OF sameD(5) [OF s1(2)]] and ff1 = fs_fields [OF sameD(5) [OF s1(2)]]
    have st: "chunks (unat off) n = Suc (chunks (unat off + ?m) (n - ?m))"
      using chunks_step [of n "unat off"] False by (simp add: chunk_def)
    let ?d = "patch (content s a) ?p ?m src"
    obtain bp s2 s3 s4 where u: "bread 1 a s1 = Inr (bp, s2)" "b_data (bufs s2 ! bp) = content s1 a"
        "log_write bp (upd_buf bp (\<lambda>b. b\<lparr>b_data := ?d\<rparr>) s2) = Inr s3" "brelse bp s3 = Inr s4"
        "log_inv s4" "busyb s4 = {}" "content s4 = (content s1)(a := ?d)" "disk s4 = disk s1" "dwrites s4 = dwrites s1"
        "disksize s4 = disksize s1" "dev.more s4 = dev.more (log_add a s1)" "dev.more s2 = dev.more s1"
      using log_update [OF d1(1), of a ?d] d1(3,4) lf1 fo(2-4) less(3,7,8) st by auto
    note lf4 = log_fields [OF u(11)]
    have more4: "logdev.more s4 = logdev.more s" using lf4(9) lf1(9) by simp
    have ic4: "icache s4 = icache s" "fsb s4 = fsb s" using more4 by (cases s; cases s4; simp)+
    have c4: "content s4 = (content s)(baddr s i (unat off div BSIZE) := ?d)" using u(7) d1(2) by (simp add: a_def)
    have r4: "region s4 = region s" "disksize s4 = disksize s" using lf4 lf1 u(10) d1(4) by simp_all
    have len: "?m \<le> length src" using less(6) chunk_fits(2) by simp
    have f4: "file_ok s4 i nb"
      using file_ok_write [OF less(4) bn c4 ic4(1) _ r4(2,1)] patch_facts(1) [OF fo(5) chunk_fits(1) len] by simp
    have n4: "lh_n s4 \<le> lh_n s + 1" "l_size s4 = l_size s" "l_outstanding s4 = l_outstanding s" "l_start s4 = l_start s"
      using lf4 lf1 log_add_n(2) [OF d1(1), of a] less(8) st by simp_all
    have bound: "unat off + n \<le> MAXFILE * BSIZE" using less(5) fo(6) by (meson le_trans mult_le_mono1)
    note oc = off_chunk [OF bound]
    let ?off = "off + word_of_nat ?m"
    have o4: "unat ?off = unat off + ?m" using oc(1) False by simp
    have lt: "n - ?m < n" using False chunk_pos [of n off] by simp
    obtain s' where s': "writei_loop i ?off (n - ?m) (drop ?m src) s4 = Inr (?off + word_of_nat (n - ?m), s')"
        "log_inv s'" "busyb s' = {}" "file_ok s' i nb" "disksize s' = disksize s4" "disk s' = disk s4" "dwrites s' = dwrites s4"
        "icache s' = icache s4" "fsb s' = fsb s4" "l_start s' = l_start s4" "l_size s' = l_size s4"
        "l_outstanding s' = l_outstanding s4" "lh_n s' \<le> lh_n s4 + int (chunks (unat ?off) (n - ?m))"
        "\<forall>k < nb * BSIZE. fbyte s' i k = (if unat ?off \<le> k \<and> k < unat ?off + (n - ?m)
            then drop ?m src ! (k - unat ?off) else fbyte s4 i k)"
        "\<forall>b. b \<notin> baddr s4 i ` {..<nb} \<longrightarrow> content s' b = content s4 b"
      using less(1) [OF lt u(5,6) f4, of ?off "drop ?m src"] o4 less(5-8) n4 st chunk_fits(2) [of off n] by auto
    have e1: "?off + word_of_nat (n - ?m) = off + word_of_nat n"
      using chunk_fits(2) [of off n] by (simp add: of_nat_diff)
    have e2: "fbyte s' i k = (if unat off \<le> k \<and> k < unat off + n then src ! (k - unat off) else fbyte s i k)"
      if k: "k < nb * BSIZE" for k
      using s'(14) k fbyte_patch [OF less(4) bn ic4(1) c4 [unfolded a_def] k len] o4 chunk_fits(2) [of off n] less(6)
      by (auto simp: nth_drop)
    have "baddr s4 i ` {..<nb} = baddr s i ` {..<nb}"
      using baddr_write [OF less(4) bn c4 ic4(1)] by (intro image_cong) auto
    then have e3: "content s' b = content s b" if "b \<notin> baddr s i ` {..<nb}" for b
      using that s'(15) c4 bn by auto
    have step: "writei_loop i off n src s = writei_loop i ?off (n - ?m) (drop ?m src) s4"
    proof -
      have "upd_buf bp (\<lambda>b. b\<lparr>b_data := take ?p (b_data b) @ take ?m src @ drop (?p + ?m) (b_data b)\<rparr>) s2 =
          upd_buf bp (\<lambda>b. b\<lparr>b_data := ?d\<rparr>) s2"
        using u(2) d1(2) by (simp add: upd_buf_def patch_def)
      then show ?thesis
        using False s1(1) u(1,3,4) ff1(2) fo(1) by (subst writei_loop.simps) (simp add: Let_def)
    qed
    show ?thesis
      using step s'(1-13) e1 e2 e3 r4(2) u(8,9) d1(6,7) ic4 n4 st o4 by (intro exI [of _ s']) simp
  qed
qed

section \<open>Inodes on disk\<close>

abbreviation iblock :: "'a fsdev_scheme \<Rightarrow> nat \<Rightarrow> uint" where
  "iblock s i \<equiv> IBLOCK (i_inum (icache s ! i)) (fsb s)"

text \<open>A data block of the disk: inside it, and neither the superblock nor part of the log.\<close>

abbreviation plain_block :: "'a logdev_scheme \<Rightarrow> uint \<Rightarrow> bool" where
  "plain_block s b \<equiv> b < disksize s \<and> b \<notin> region s \<and> b \<noteq> 1"

lemma iupdate_ok:
  assumes inv: "log_inv s" and idle: "busyb s = {}" and dev: "i_dev (icache s ! i) = 1"
    and b: "plain_block s (iblock s i)" and room: "lh_n s < l_size s - 1" and out: "1 \<le> l_outstanding s"
  shows "\<exists>s'. iupdate i s = Inr s' \<and> log_inv s' \<and> busyb s' = {} \<and>
     content s' = (content s)(iblock s i :=
       put_dinode (icache s ! i) (inode_slot (i_inum (icache s ! i))) (content s (iblock s i))) \<and>
     disk s' = disk s \<and> dwrites s' = dwrites s \<and> disksize s' = disksize s \<and> dev.more s' = dev.more (log_add (iblock s i) s)"
proof -
  let ?ip = "icache s ! i" and ?a = "iblock s i"
  let ?d = "put_dinode ?ip (inode_slot (i_inum ?ip)) (content s ?a)"
  obtain bp s1 s2 s3 where u: "bread 1 ?a s = Inr (bp, s1)" "b_data (bufs s1 ! bp) = content s ?a"
      "log_write bp (upd_buf bp (\<lambda>b. b\<lparr>b_data := ?d\<rparr>) s1) = Inr s2" "brelse bp s2 = Inr s3"
      "log_inv s3" "busyb s3 = {}" "content s3 = (content s)(?a := ?d)" "disk s3 = disk s" "dwrites s3 = dwrites s"
      "disksize s3 = disksize s" "dev.more s3 = dev.more (log_add ?a s)"
    using log_update [OF inv idle, of ?a ?d] b room out by blast
  have "upd_buf bp (\<lambda>b. b\<lparr>b_data := put_dinode ?ip (inode_slot (i_inum ?ip)) (b_data b)\<rparr>) s1 =
      upd_buf bp (\<lambda>b. b\<lparr>b_data := ?d\<rparr>) s1"
    using u(2) by (simp add: upd_buf_def)
  then have "iupdate i s = Inr s3" using u(1,3,4) dev by (simp add: iupdate_def Let_def)
  then show ?thesis using u by blast
qed

text \<open>\<open>writei\<close> inside the allocated blocks of a file.\<close>

lemma upd_inode_frame [simp]:
  "log_inv (upd_inode i f s) = log_inv s" "content (upd_inode i f s) = content s" "busyb (upd_inode i f s) = busyb s"
  "disk (upd_inode i f s) = disk s" "disksize (upd_inode i f s) = disksize s" "dwrites (upd_inode i f s) = dwrites s"
  "l_start (upd_inode i f s) = l_start s" "l_size (upd_inode i f s) = l_size s" "lh_n (upd_inode i f s) = lh_n s"
  "lh_block (upd_inode i f s) = lh_block s"
  "l_outstanding (upd_inode i f s) = l_outstanding s" "fsb (upd_inode i f s) = fsb s"
  "icache (upd_inode i f s) = (icache s)[i := f (icache s ! i)]"
proof -
  let ?s = "upd_inode i f s"
  have e: "bufs ?s = bufs s" "lru ?s = lru s" "disk ?s = disk s" "disksize ?s = disksize s"
    by (simp_all add: upd_inode_def)
  note cg = cache_inv_cong [OF e]
  then show "content ?s = content s" "busyb ?s = busyb s" by simp_all
  show "log_inv ?s = log_inv s" using cg by (simp add: log_inv_def log_place_def) (simp add: upd_inode_def)
qed (simp_all add: upd_inode_def)

definition file_room :: "'a fsdev_scheme \<Rightarrow> nat \<Rightarrow> nat \<Rightarrow> nat \<Rightarrow> bool" where
  "file_room s i nb w \<longleftrightarrow> 1 \<le> l_outstanding s \<and> lh_n s + int w + 1 \<le> l_size s - 1 \<and>
     plain_block s (iblock s i) \<and> iblock s i \<notin> baddr s i ` {..<nb} \<and>
     (NDIRECT < nb \<longrightarrow> iblock s i \<noteq> i_addrs (icache s ! i) ! NDIRECT)"

lemma file_ok_other:
  assumes f: "file_ok s i nb" and ib: "b \<notin> baddr s i ` {..<nb}" "NDIRECT < nb \<longrightarrow> b \<noteq> i_addrs (icache s ! i) ! NDIRECT"
    and c: "content s' = (content s)(b := d)" and ia: "i_addrs (icache s' ! i) = i_addrs (icache s ! i)"
    and dv: "i_dev (icache s' ! i) = i_dev (icache s ! i)" "length (icache s') = length (icache s)"
    and z: "disksize s' = disksize s" "region s' = region s"
  shows "file_ok s' i nb" and "k < nb * BSIZE \<Longrightarrow> fbyte s' i k = fbyte s i k" and "baddr s' i ` {..<nb} = baddr s i ` {..<nb}"
proof -
  have e: "baddr s' i k = baddr s i k" if "k < nb" for k
  proof (cases "k < NDIRECT")
    case False
    then have "NDIRECT < nb \<or> k = NDIRECT" "NDIRECT < nb" using that by auto
    then show ?thesis unfolding baddr_def ia c Let_def using ib(2) by simp
  qed (simp add: baddr_def ia)
  show im: "baddr s' i ` {..<nb} = baddr s i ` {..<nb}" using e by (intro image_cong) auto
  have inj: "inj_on (baddr s' i) {..<nb} = inj_on (baddr s i) {..<nb}" using e by (intro inj_on_cong) auto
  have cc: "content s' (baddr s i k) = content s (baddr s i k)" if "k < nb" for k using that ib(1) c by auto
  show "file_ok s' i nb" using f ia dv z im inj e cc by (simp add: file_ok_def)
  show "fbyte s' i k = fbyte s i k" if "k < nb * BSIZE"
  proof -
    have "k div BSIZE < nb" using that by (simp add: BSIZE_def less_mult_imp_div_less)
    then show ?thesis by (simp add: fbyte_def e cc)
  qed
qed

lemma writei_ok:
  assumes inv: "log_inv s" "busyb s = {}" and f: "file_ok s i nb" and ty: "i_type (icache s ! i) \<noteq> T_DEV"
    and off: "off \<le> i_size (icache s ! i)" and len: "length src = n" and fit: "unat off + n \<le> nb * BSIZE"
    and room: "file_room s i nb (chunks (unat off) n)"
  shows "\<exists>s'. writei dw i src off (word_of_nat n) s = Inr (int n, s') \<and> log_inv s' \<and> busyb s' = {} \<and>
     file_ok s' i nb \<and> disk s' = disk s \<and> dwrites s' = dwrites s \<and> l_outstanding s' = l_outstanding s \<and>
     icache s' = (icache s)[i := (icache s ! i)\<lparr>i_size := max (i_size (icache s ! i)) (off + word_of_nat n)\<rparr>] \<and>
     (\<forall>k < nb * BSIZE. fbyte s' i k = (if unat off \<le> k \<and> k < unat off + n then src ! (k - unat off) else fbyte s i k)) \<and>
     (\<forall>b. b \<notin> baddr s i ` {..<nb} \<longrightarrow> b \<noteq> iblock s i \<longrightarrow> content s' b = content s b)"
proof -
  let ?w = "word_of_nat n :: uint" and ?z = "i_size (icache s ! i)"
  have rm: "1 \<le> l_outstanding s" "lh_n s + int (chunks (unat off) n) + 1 \<le> l_size s - 1" "plain_block s (iblock s i)"
      "iblock s i \<notin> baddr s i ` {..<nb}" "NDIRECT < nb \<longrightarrow> iblock s i \<noteq> i_addrs (icache s ! i) ! NDIRECT"
    using room by (simp_all add: file_room_def)
  have il: "i < length (icache s)" using f by (simp add: file_ok_def)
  have "nb * BSIZE \<le> MAXFILE * BSIZE" using f by (simp add: file_ok_def)
  moreover have mf: "MAXFILE * BSIZE = 71680" by (simp add: MAXFILE_def NDIRECT_def NINDIRECT_def BSIZE_def)
  ultimately have b: "unat off + n \<le> 71680" using fit by linarith
  then have un: "unat ?w = n" by (simp add: unat_word_of_nat_uint)
  have "off + ?w = word_of_nat (unat off + n)" by simp
  then have uo: "unat (off + ?w) = unat off + n" using b by (simp only: unat_word_of_nat_uint)
  have g: "\<not> ?z < off" "\<not> off + ?w < off" "\<not> word_of_nat (MAXFILE * BSIZE) < off + ?w"
    using off b uo mf by (simp_all add: not_less word_le_nat_alt)
  have "lh_n s + int (chunks (unat off) n) \<le> l_size s - 1" using rm(2) by linarith
  from writei_loop_ok [OF inv f fit len rm(1) this]
  obtain s1 where s1: "writei_loop i off n src s = Inr (off + ?w, s1)" "log_inv s1" "busyb s1 = {}"
     "file_ok s1 i nb" "disksize s1 = disksize s" "disk s1 = disk s" "dwrites s1 = dwrites s"
     "icache s1 = icache s" "fsb s1 = fsb s" "l_start s1 = l_start s" "l_size s1 = l_size s"
     "l_outstanding s1 = l_outstanding s" "lh_n s1 \<le> lh_n s + int (chunks (unat off) n)"
     "\<forall>k < nb * BSIZE. fbyte s1 i k = (if unat off \<le> k \<and> k < unat off + n then src ! (k - unat off) else fbyte s i k)"
     "\<forall>b. b \<notin> baddr s i ` {..<nb} \<longrightarrow> content s1 b = content s b"
    by blast
  have sn: "sint ?w = int n" using b sint_nat [of n] by simp
  have br: "writei dw i src off ?w s = bindE (if ?w > 0 \<and> off + ?w > ?z
      then iupdate i (upd_inode i (\<lambda>ip. ip\<lparr>i_size := off + ?w\<rparr>) s1) else Inr s1) (\<lambda>s. Inr (int n, s))"
    using ty g s1(1,8) un sn by (simp add: writei_def Let_def)
  show ?thesis
  proof (cases "off + ?w > ?z")
    case False
    then have "max ?z (off + ?w) = ?z" by simp
    then have "icache s1 = (icache s)[i := (icache s ! i)\<lparr>i_size := max ?z (off + ?w)\<rparr>]" using s1(8) by simp
    then show ?thesis using br False s1 by (intro exI [of _ s1]) simp
  next
    case True
    then have "n \<noteq> 0" using off uo by (auto simp: word_less_nat_alt word_le_nat_alt)
    then have pos: "0 < ?w" using un by (simp add: word_less_nat_alt)
    let ?s2 = "upd_inode i (\<lambda>ip. ip\<lparr>i_size := off + ?w\<rparr>) s1"
    have ip2: "icache ?s2 = (icache s)[i := (icache s ! i)\<lparr>i_size := off + ?w\<rparr>]" using s1(8) by simp
    have ib: "iblock ?s2 i = iblock s i" using ip2 il s1(9) by simp
    have reg: "region ?s2 = region s" using s1(10,11) by simp
    have "i_dev (icache ?s2 ! i) = 1" using f ip2 il by (simp add: file_ok_def)
    then obtain s3 where s3: "iupdate i ?s2 = Inr s3" "log_inv s3" "busyb s3 = {}"
        "content s3 = (content ?s2)(iblock ?s2 i := put_dinode (icache ?s2 ! i) (inode_slot (i_inum (icache ?s2 ! i)))
           (content ?s2 (iblock ?s2 i)))"
        "disk s3 = disk ?s2" "dwrites s3 = dwrites ?s2" "disksize s3 = disksize ?s2"
        "dev.more s3 = dev.more (log_add (iblock ?s2 i) ?s2)"
      using iupdate_ok [of ?s2 i] s1(2,3,5,9-13) rm(1-3) ib reg by (simp only: upd_inode_frame) auto
    have more3: "logdev.more s3 = logdev.more ?s2" using log_fields(9) [OF s3(8)] by simp
    have ic3: "icache s3 = icache ?s2" using more3 by (cases ?s2; cases s3; simp)
    have lf3: "l_start s3 = l_start s" "l_size s3 = l_size s" "l_outstanding s3 = l_outstanding s"
      using log_fields [OF s3(8)] s1(10-12) by simp_all
    have ba: "baddr s1 i ` {..<nb} = baddr s i ` {..<nb}"
      using s1(15) rm(4) f s1(4) by (intro image_cong) (auto simp: baddr_def s1(8) file_ok_def Let_def)
    have h: "iblock s i \<notin> baddr s1 i ` {..<nb}" "NDIRECT < nb \<longrightarrow> iblock s i \<noteq> i_addrs (icache s1 ! i) ! NDIRECT"
      using ba rm(4,5) s1(8) by simp_all
    have c3: "content s3 = (content s1)(iblock s i := put_dinode (icache ?s2 ! i) (inode_slot (i_inum (icache ?s2 ! i)))
           (content s1 (iblock s i)))"
      using s3(4) ib by simp
    have same: "i_addrs (icache s3 ! i) = i_addrs (icache s1 ! i)" "i_dev (icache s3 ! i) = i_dev (icache s1 ! i)"
        "length (icache s3) = length (icache s1)" "disksize s3 = disksize s1" "region s3 = region s1"
      using ic3 ip2 il s1(8,10,11) s3(7) lf3 by simp_all
    note fo = file_ok_other [OF s1(4) h c3 same]
    have mx: "max ?z (off + ?w) = off + ?w" using True by simp
    have "writei dw i src off ?w s = Inr (int n, s3)" using br True pos s3(1) by simp
    then show ?thesis
      using s3(2,3,5,6) fo(1,2) s1(6,7,14,15) lf3(3) ic3 ip2 c3 mx by (intro exI [of _ s3]) simp
  qed
qed

end
