(* ===== verification/Ring.thy ===== *)
theory Ring
  imports Prelude
begin

text \<open>
  Ring buffers addressed by 32-bit counters that wrap.  When the size of the ring divides the range of
  the counters, a slot is found by its distance from any counter value, wrapped or not; the pipes and
  the console input share these facts.
\<close>

lemma ring_slot:
  assumes "N dvd 2 ^ 32"
  shows "unat ((x :: uint) + word_of_nat k) mod N = (unat x + k) mod N"
proof -
  have "x + word_of_nat k = word_of_nat (unat x + k)" by simp
  then have "unat (x + word_of_nat k) = (unat x + k) mod 2 ^ 32" by (simp only: unat_of_nat) simp
  then show ?thesis using assms by (simp only: mod_mod_cancel)
qed

lemma ring_slots_distinct:
  fixes j k x :: nat
  assumes "j < N" and "k < N" and "(x + j) mod N = (x + k) mod N"
  shows "j = k"
proof -
  have "\<not> a < b" if "b < N" "(x + a) mod N = (x + b) mod N" for a b
  proof
    assume "a < b"
    then have "N dvd (x + b) - (x + a)" using that(2) by (subst mod_eq_dvd_iff_nat [symmetric]) simp_all
    then show False using \<open>a < b\<close> that(1) dvd_imp_le [of N "b - a"] by simp
  qed
  then show ?thesis using assms by (metis linorder_neqE_nat)
qed

text \<open>The \<open>n\<close> elements from the counter value \<open>r\<close> on.\<close>

definition ring_list :: "nat \<Rightarrow> 'a list \<Rightarrow> uint \<Rightarrow> nat \<Rightarrow> 'a list" where
  "ring_list N buf r n = map (\<lambda>k. buf ! (unat (r + word_of_nat k) mod N)) [0..<n]"

lemma length_ring_list [simp]: "length (ring_list N buf r n) = n"
  by (simp add: ring_list_def)

lemma ring_list_0 [simp]: "ring_list N buf r 0 = []"
  by (simp add: ring_list_def)

lemma ring_list_add: "ring_list N buf r (m + n) = ring_list N buf r m @ ring_list N buf (r + word_of_nat m) n"
proof -
  have "map (\<lambda>k. f (m + k)) [0..<n] = map f [m..<m + n]" for f :: "nat \<Rightarrow> 'a"
    by (intro nth_equalityI) simp_all
  from this [of "\<lambda>k. buf ! (unat (r + word_of_nat k) mod N)"] show ?thesis
    by (simp add: ring_list_def upt_add_eq_append [of 0 m n] add.assoc)
qed

lemma ring_list_Suc: "ring_list N buf r (Suc n) = buf ! (unat r mod N) # ring_list N buf (r + 1) n"
  using ring_list_add [of N buf r 1 n] by (simp add: ring_list_def)

lemma ring_list_snoc: "ring_list N buf r (Suc n) = ring_list N buf r n @ [buf ! (unat (r + word_of_nat n) mod N)]"
  by (simp add: ring_list_def)

lemma ring_list_take: "m \<le> n \<Longrightarrow> take m (ring_list N buf r n) = ring_list N buf r m"
  by (simp add: ring_list_def take_map)

lemma ring_list_put:
  assumes "N dvd 2 ^ 32" and "length buf = N" and "n < N"
  shows "ring_list N (buf[unat (r + word_of_nat n) mod N := c]) r (Suc n) = ring_list N buf r n @ [c]"
proof -
  have "(unat r + n) mod N \<noteq> (unat r + k) mod N" if "k < n" for k
    using ring_slots_distinct [of n N k "unat r"] that assms(3) by auto
  moreover have "(unat r + n) mod N < length buf" using assms(2,3) by simp
  ultimately show ?thesis unfolding ring_list_snoc
    by (auto simp: ring_list_def ring_slot [OF assms(1)])
qed

end
