(* ===== verification/Pipe.thy ===== *)
theory Pipe
  imports Ring
begin

text \<open>
  Pipes (\<open>src/pipe.c\<close>): the ring buffer with its two 32-bit counters, which wrap.  \<open>pipewrite\<close> and
  \<open>piperead\<close> give up the lock when they sleep, so each is modelled as what one stretch under the
  lock does: it ends by returning or by going to sleep, with what is left of the request.  The
  wake-ups are recorded in order.
\<close>

section \<open>State\<close>

definition PIPESIZE :: nat where "PIPESIZE = 512"

datatype pchan = NREAD | NWRITE

record pipe =
  p_data :: "uchar list"
  p_nread :: uint
  p_nwrite :: uint
  p_readopen :: bool
  p_writeopen :: bool
  p_wakeups :: "pchan list"

definition p_wake :: "pchan \<Rightarrow> pipe \<Rightarrow> pipe" where
  "p_wake c p = p\<lparr>p_wakeups := c # p_wakeups p\<rparr>"

section \<open>Operations\<close>

text \<open>The fields that \<open>pipealloc\<close> sets in the fresh page; the rest of the page is what \<open>kalloc\<close>
  left there.\<close>

definition pipe_init :: "uchar list \<Rightarrow> pipe" where
  "pipe_init junk = \<lparr>p_data = junk, p_nread = 0, p_nwrite = 0, p_readopen = True, p_writeopen = True, p_wakeups = []\<rparr>"

text \<open>\<open>pipeclose\<close>, up to freeing the page: the second component says whether both ends are closed.\<close>

definition pipe_shut :: "bool \<Rightarrow> pipe \<Rightarrow> pipe \<times> bool" where
  "pipe_shut writable p =
     (let p = (if writable then p_wake NREAD (p\<lparr>p_writeopen := False\<rparr>) else p_wake NWRITE (p\<lparr>p_readopen := False\<rparr>))
      in (p, \<not> p_readopen p \<and> \<not> p_writeopen p))"

datatype pres = Returned int "uchar list" | Failed | Sleeping "uchar list"

definition p_put :: "uchar \<Rightarrow> pipe \<Rightarrow> pipe" where
  "p_put c p = p\<lparr>p_data := (p_data p)[unat (p_nwrite p) mod PIPESIZE := c], p_nwrite := p_nwrite p + 1\<rparr>"

text \<open>\<open>n\<close> is the whole request, \<open>src\<close> what is still to be written.\<close>

fun pipewrite :: "bool \<Rightarrow> int \<Rightarrow> uchar list \<Rightarrow> pipe \<Rightarrow> pres \<times> pipe" where
  "pipewrite killed n [] p = (Returned n [], p_wake NREAD p)"
| "pipewrite killed n (c # cs) p =
     (if p_nwrite p = p_nread p + word_of_nat PIPESIZE
      then if \<not> p_readopen p \<or> killed then (Failed, p) else (Sleeping (c # cs), p_wake NREAD p)
      else pipewrite killed n cs (p_put c p))"

fun piperead_copy :: "nat \<Rightarrow> uchar list \<Rightarrow> pipe \<Rightarrow> uchar list \<times> pipe" where
  "piperead_copy 0 acc p = (acc, p)"
| "piperead_copy (Suc n) acc p =
     (if p_nread p = p_nwrite p then (acc, p)
      else piperead_copy n (acc @ [p_data p ! (unat (p_nread p) mod PIPESIZE)]) (p\<lparr>p_nread := p_nread p + 1\<rparr>))"

definition piperead :: "bool \<Rightarrow> int \<Rightarrow> pipe \<Rightarrow> pres \<times> pipe" where
  "piperead killed n p =
     (if p_nread p = p_nwrite p \<and> p_writeopen p then if killed then (Failed, p) else (Sleeping [], p)
      else let (bs, p) = piperead_copy (nat n) [] p in (Returned (int (length bs)) bs, p_wake NWRITE p))"

section \<open>The bytes in the pipe\<close>

definition fill :: "pipe \<Rightarrow> nat" where
  "fill p = unat (p_nwrite p - p_nread p)"

definition pipe_inv :: "pipe \<Rightarrow> bool" where
  "pipe_inv p \<longleftrightarrow> length (p_data p) = PIPESIZE \<and> fill p \<le> PIPESIZE"

definition buffered :: "pipe \<Rightarrow> uchar list" where
  "buffered p = map (\<lambda>k. p_data p ! (unat (p_nread p + word_of_nat k) mod PIPESIZE)) [0..<fill p]"

lemma length_buffered [simp]: "length (buffered p) = fill p"
  by (simp add: buffered_def)

lemma full_iff: "p_nwrite p = p_nread p + word_of_nat PIPESIZE \<longleftrightarrow> fill p = PIPESIZE"
proof -
  have "p_nwrite p = p_nread p + word_of_nat PIPESIZE \<longleftrightarrow> p_nwrite p - p_nread p = word_of_nat PIPESIZE"
    by (auto simp: algebra_simps)
  also have "\<dots> \<longleftrightarrow> unat (p_nwrite p - p_nread p) = unat (word_of_nat PIPESIZE :: uint)"
    by (simp only: word_eq_iff_unsigned)
  finally show ?thesis by (simp add: fill_def PIPESIZE_def)
qed

lemma empty_iff: "p_nread p = p_nwrite p \<longleftrightarrow> fill p = 0"
  by (auto simp: fill_def unat_eq_zero)

text \<open>The size of the ring divides the range of the counters, so a slot is found by its distance
  from any counter value, wrapped or not.\<close>

lemma slot_add: "unat ((x :: uint) + word_of_nat k) mod PIPESIZE = (unat x + k) mod PIPESIZE"
  by (rule ring_slot) (simp add: PIPESIZE_def)

lemma slot_nwrite: "unat (p_nwrite p) mod PIPESIZE = (unat (p_nread p) + fill p) mod PIPESIZE"
  using slot_add [of "p_nread p" "fill p"] by (simp add: fill_def)

lemma buffered_put:
  assumes "pipe_inv p" and "fill p < PIPESIZE"
  shows "buffered (p_put c p) = buffered p @ [c]" and "fill (p_put c p) = Suc (fill p)" and "pipe_inv (p_put c p)"
proof -
  have e: "p_nwrite p + 1 - p_nread p = (p_nwrite p - p_nread p) + 1" by simp
  have "unat ((p_nwrite p - p_nread p) + 1) = unat (p_nwrite p - p_nread p) + 1"
    using assms(2) unat_add_word_of_nat [of "p_nwrite p - p_nread p" 1] by (simp add: fill_def PIPESIZE_def)
  then show f: "fill (p_put c p) = Suc (fill p)" by (simp add: fill_def p_put_def e)
  have len: "length (p_data p) = PIPESIZE" using assms(1) by (simp add: pipe_inv_def)
  then show "pipe_inv (p_put c p)" using f assms(2) by (simp add: pipe_inv_def p_put_def)
  let ?at = "unat (p_nwrite p) mod PIPESIZE"
  have at: "?at < length (p_data p)" using len by (simp add: PIPESIZE_def)
  have "(p_data p)[?at := c] ! (unat (p_nread p + word_of_nat k) mod PIPESIZE) =
      p_data p ! (unat (p_nread p + word_of_nat k) mod PIPESIZE)" if "k < fill p" for k
  proof -
    have "(unat (p_nread p) + fill p) mod PIPESIZE \<noteq> (unat (p_nread p) + k) mod PIPESIZE"
      using that ring_slots_distinct [of "fill p" PIPESIZE k "unat (p_nread p)"] assms(2) by auto
    then show ?thesis by (simp add: slot_add slot_nwrite)
  qed
  moreover have "(p_data p)[?at := c] ! (unat (p_nread p + word_of_nat (fill p)) mod PIPESIZE) = c"
    using at by (simp add: slot_add slot_nwrite)
  ultimately show "buffered (p_put c p) = buffered p @ [c]"
    unfolding buffered_def f by (simp add: p_put_def)
qed

lemma buffered_get:
  assumes "pipe_inv p" and "0 < fill p"
  defines "p' \<equiv> p\<lparr>p_nread := p_nread p + 1\<rparr>"
  shows "buffered p = p_data p ! (unat (p_nread p) mod PIPESIZE) # buffered p'" and "fill p = Suc (fill p')" and "pipe_inv p'"
proof -
  have e: "p_nwrite p - (p_nread p + 1) = (p_nwrite p - p_nread p) - 1" by simp
  have "p_nwrite p - p_nread p \<noteq> 0" using assms(2) by (auto simp: fill_def)
  then have "unat ((p_nwrite p - p_nread p) - 1) = unat (p_nwrite p - p_nread p) - 1" by (rule unat_minus_one_uint)
  then show f: "fill p = Suc (fill p')" using assms(2) by (simp add: fill_def p'_def e)
  show "pipe_inv p'" using assms(1) f by (simp add: pipe_inv_def p'_def)
  have "[0..<fill p] = 0 # map Suc [0..<fill p']" by (simp add: f upt_conv_Cons map_Suc_upt del: upt_Suc)
  then show "buffered p = p_data p ! (unat (p_nread p) mod PIPESIZE) # buffered p'"
    by (simp add: buffered_def comp_def p'_def add.assoc add.commute add.left_commute)
qed

lemma wake_frame [simp]: "buffered (p_wake c p) = buffered p" "fill (p_wake c p) = fill p" "pipe_inv (p_wake c p) = pipe_inv p"
  "p_readopen (p_wake c p) = p_readopen p" "p_writeopen (p_wake c p) = p_writeopen p"
  by (simp_all add: buffered_def fill_def pipe_inv_def p_wake_def)

section \<open>One stretch of pipewrite and piperead\<close>

text \<open>\<open>pipewrite\<close> stores as much as fits and sleeps only on a full pipe.\<close>

lemma pipewrite_ok:
  assumes "pipe_inv p" and "pipewrite killed n src p = (r, p')"
  shows "pipe_inv p' \<and> p_readopen p' = p_readopen p \<and> p_writeopen p' = p_writeopen p \<and>
     (let m = min (length src) (PIPESIZE - fill p) in
      buffered p' = buffered p @ take m src \<and>
      r = (if m = length src then Returned n [] else if \<not> p_readopen p \<or> killed then Failed else Sleeping (drop m src)) \<and>
      (if r = Failed then p_wakeups p' = p_wakeups p else p_wakeups p' = NREAD # p_wakeups p))"
  using assms
proof (induction killed n src p rule: pipewrite.induct)
  case (1 killed n p)
  then show ?case by (auto simp: p_wake_def pipe_inv_def buffered_def fill_def)
next
  case (2 killed n c cs p)
  show ?case
  proof (cases "fill p = PIPESIZE")
    case True
    then show ?thesis
      using 2(2,3) by (auto simp: full_iff Let_def p_wake_def pipe_inv_def buffered_def fill_def split: if_splits)
  next
    case False
    then have lt: "fill p < PIPESIZE" using 2(2) by (simp add: pipe_inv_def)
    note bp = buffered_put [OF 2(2) lt, of c]
    have "pipewrite killed n cs (p_put c p) = (r, p')" using 2(3) False by (simp add: full_iff)
    note IH = 2(1) [OF _ bp(3) this]
    have fr: "p_readopen (p_put c p) = p_readopen p" "p_writeopen (p_put c p) = p_writeopen p" "p_wakeups (p_put c p) = p_wakeups p"
      by (simp_all add: p_put_def)
    have m: "min (length (c # cs)) (PIPESIZE - fill p) = Suc (min (length cs) (PIPESIZE - fill (p_put c p)))"
    proof -
      have "PIPESIZE - fill p = Suc (PIPESIZE - fill (p_put c p))" using lt bp(2) by (simp add: Suc_diff_Suc)
      then show ?thesis by simp
    qed
    show ?thesis using IH False unfolding m Let_def by (simp add: full_iff fr bp)
  qed
qed

lemma piperead_copy_ok:
  assumes "pipe_inv p" and "piperead_copy n acc p = (bs, p')"
  shows "pipe_inv p' \<and> bs = acc @ take n (buffered p) \<and> buffered p' = drop n (buffered p) \<and>
     p_readopen p' = p_readopen p \<and> p_writeopen p' = p_writeopen p \<and> p_wakeups p' = p_wakeups p"
  using assms
proof (induction n acc p rule: piperead_copy.induct)
  case (2 n acc p)
  show ?case
  proof (cases "fill p = 0")
    case True
    then have "buffered p = []" by (simp add: buffered_def)
    then show ?thesis using 2(2,3) True by (simp add: empty_iff)
  next
    case False
    then have pos: "0 < fill p" by simp
    note bg = buffered_get [OF 2(2) pos]
    have "piperead_copy n (acc @ [p_data p ! (unat (p_nread p) mod PIPESIZE)]) (p\<lparr>p_nread := p_nread p + 1\<rparr>) = (bs, p')"
      using 2(3) False by (simp add: empty_iff)
    from 2(1) [OF _ bg(3) this] False show ?thesis by (simp add: empty_iff bg(1))
  qed
qed simp

text \<open>\<open>piperead\<close> takes what is there, up to the request, and sleeps only on an empty pipe with a
  writer.\<close>

lemma piperead_ok:
  assumes "pipe_inv p" and "piperead killed n p = (r, p')"
  shows "pipe_inv p' \<and> p_readopen p' = p_readopen p \<and> p_writeopen p' = p_writeopen p \<and>
     (if buffered p = [] \<and> p_writeopen p then r = (if killed then Failed else Sleeping []) \<and> p' = p
      else r = Returned (int (length (take (nat n) (buffered p)))) (take (nat n) (buffered p)) \<and>
           buffered p' = drop (nat n) (buffered p) \<and> p_wakeups p' = NWRITE # p_wakeups p)"
proof (cases "p_nread p = p_nwrite p \<and> p_writeopen p")
  case True
  then have "buffered p = []" by (simp add: buffered_def empty_iff)
  then show ?thesis using True assms by (auto simp: piperead_def split: if_splits)
next
  case False
  then have ne: "\<not> (buffered p = [] \<and> p_writeopen p)" by (auto simp: buffered_def empty_iff)
  obtain bs q where q: "piperead_copy (nat n) [] p = (bs, q)" by (cases "piperead_copy (nat n) [] p")
  have "r = Returned (int (length bs)) bs" "p' = p_wake NWRITE q"
    using assms(2) False q by (auto simp: piperead_def)
  then show ?thesis using piperead_copy_ok [OF assms(1) q] ne by (simp add: p_wake_def) (auto simp: pipe_inv_def buffered_def fill_def)
qed

section \<open>The pipe as a stream\<close>

text \<open>Any number of readers and writers, each stretch under the lock being one step.  Every call of
  \<open>pipewrite\<close> has a number; a call that has slept goes on with what is left of its request, at any time
  after that.  \<open>sent\<close> holds the bytes accepted from the callers, each with the number of its call: all that
  was left when the call returns, what is missing from the rest when it sleeps, and what was stored when
  it fails.  \<open>got\<close> holds the results of the calls of \<open>piperead\<close>.\<close>

datatype wcall = Blocked "uchar list" "uchar list" | Done "uchar list" int | Broken "uchar list"

record psys =
  the_pipe :: pipe
  calls :: "nat \<Rightarrow> wcall option"
  sent :: "(nat \<times> uchar) list"
  got :: "(int \<times> uchar list) list"

definition accepted :: "uchar list \<Rightarrow> pres \<Rightarrow> pipe \<Rightarrow> pipe \<Rightarrow> uchar list" where
  "accepted src r p p' = (case r of
     Returned k bs \<Rightarrow> src | Sleeping rest \<Rightarrow> take (length src - length rest) src | Failed \<Rightarrow> take (fill p' - fill p) src)"

definition call_after :: "uchar list \<Rightarrow> pres \<Rightarrow> wcall" where
  "call_after whole r = (case r of Returned k bs \<Rightarrow> Done whole k | Sleeping rest \<Rightarrow> Blocked whole rest | Failed \<Rightarrow> Broken whole)"

definition write_part :: "nat \<Rightarrow> uchar list \<Rightarrow> uchar list \<Rightarrow> bool \<Rightarrow> psys \<Rightarrow> psys" where
  "write_part w whole src killed s =
     (case pipewrite killed (int (length whole)) src (the_pipe s) of (r, p') \<Rightarrow>
      s\<lparr>the_pipe := p', calls := (calls s)(w \<mapsto> call_after whole r),
        sent := sent s @ map (Pair w) (accepted src r (the_pipe s) p')\<rparr>)"

definition read_part :: "int \<Rightarrow> bool \<Rightarrow> psys \<Rightarrow> psys" where
  "read_part n killed s =
     (case piperead killed n (the_pipe s) of (r, p') \<Rightarrow>
      s\<lparr>the_pipe := p', got := got s @ (case r of Returned k bs \<Rightarrow> [(k, bs)] | _ \<Rightarrow> [])\<rparr>)"

inductive pipe_step :: "psys \<Rightarrow> psys \<Rightarrow> bool" where
  p_write: "calls s w = None \<Longrightarrow> pipe_step s (write_part w src src killed s)"
| p_resume: "calls s w = Some (Blocked whole rest) \<Longrightarrow> pipe_step s (write_part w whole rest killed s)"
| p_read: "pipe_step s (read_part n killed s)"
| p_close: "pipe_step s (s\<lparr>the_pipe := fst (pipe_shut writable (the_pipe s))\<rparr>)"

definition new_pipe :: "uchar list \<Rightarrow> psys" where
  "new_pipe junk = \<lparr>the_pipe = pipe_init junk, calls = (\<lambda>_. None), sent = [], got = []\<rparr>"

text \<open>What a call has put into the stream.\<close>

definition by_call :: "nat \<Rightarrow> psys \<Rightarrow> uchar list" where
  "by_call w s = map snd (filter (\<lambda>x. fst x = w) (sent s))"

definition call_ok :: "psys \<Rightarrow> nat \<Rightarrow> bool" where
  "call_ok s w \<longleftrightarrow> (case calls s w of
     None \<Rightarrow> by_call w s = []
   | Some (Blocked whole rest) \<Rightarrow> by_call w s @ rest = whole
   | Some (Done whole k) \<Rightarrow> by_call w s = whole \<and> k = int (length whole)
   | Some (Broken whole) \<Rightarrow> \<exists>rest. rest \<noteq> [] \<and> by_call w s @ rest = whole)"

definition stream_inv :: "psys \<Rightarrow> bool" where
  "stream_inv s \<longleftrightarrow> pipe_inv (the_pipe s) \<and> concat (map snd (got s)) @ buffered (the_pipe s) = map snd (sent s) \<and>
     (\<forall>(k, bs) \<in> set (got s). k = int (length bs)) \<and> (\<forall>w. call_ok s w)"

lemma call_ok_same:
  assumes "calls s' w = calls s w" and "by_call w s' = by_call w s"
  shows "call_ok s' w = call_ok s w"
  unfolding call_ok_def assms ..

lemma by_call_write:
  "by_call v (write_part w whole src killed s) =
     by_call v s @ (if v = w then case pipewrite killed (int (length whole)) src (the_pipe s) of (r, p') \<Rightarrow> accepted src r (the_pipe s) p' else [])"
proof -
  have "filter (\<lambda>x. fst x = v) (map (Pair w) xs) = (if v = w then map (Pair w) xs else [])" for xs :: "uchar list"
    by (induction xs) auto
  then show ?thesis by (simp add: by_call_def write_part_def comp_def split: prod.splits)
qed

lemma write_part_ok:
  assumes inv: "stream_inv s" and pre: "by_call w s @ src = whole"
  shows "stream_inv (write_part w whole src killed s)"
proof -
  let ?p = "the_pipe s" let ?s = "write_part w whole src killed s"
  obtain r p' where w: "pipewrite killed (int (length whole)) src ?p = (r, p')" by fastforce
  let ?m = "min (length src) (PIPESIZE - fill ?p)"
  have pi: "pipe_inv ?p" using inv by (simp add: stream_inv_def)
  have o: "pipe_inv p'" "buffered p' = buffered ?p @ take ?m src"
    "r = (if ?m = length src then Returned (int (length whole)) [] else if \<not> p_readopen ?p \<or> killed then Failed else Sleeping (drop ?m src))"
    using pipewrite_ok [OF pi w] by (simp_all add: Let_def)
  have "length (buffered p') = length (buffered ?p) + ?m" using o(2) by simp
  then have f: "fill p' - fill ?p = ?m" by simp
  have acc: "accepted src r ?p p' = take ?m src" using o(3) f by (auto simp: accepted_def)
  have "call_ok ?s v" for v
  proof (cases "v = w")
    case True
    have bc: "by_call w ?s = by_call w s @ take ?m src" by (simp add: by_call_write w acc)
    have ca: "calls ?s w = Some (call_after whole r)" by (simp add: write_part_def w)
    have sp: "by_call w ?s @ drop ?m src = whole" using bc pre by simp
    show ?thesis
    proof (cases "?m = length src")
      case m: True
      then show ?thesis unfolding True call_ok_def ca bc using pre o(3) by (simp add: call_after_def)
    next
      case m: False
      define rest where "rest = drop ?m src"
      have "rest \<noteq> []" "by_call w ?s @ rest = whole" "r = (if \<not> p_readopen ?p \<or> killed then Failed else Sleeping rest)"
        using m sp o(3) by (simp_all only: rest_def drop_eq_Nil if_False)
      then show ?thesis unfolding True call_ok_def ca by (auto simp: call_after_def)
    qed
  next
    case False
    then have "by_call v ?s = by_call v s" by (simp add: by_call_write)
    moreover have "calls ?s v = calls s v" using False by (simp add: write_part_def w)
    ultimately show ?thesis using inv call_ok_same [of ?s v s] by (simp add: stream_inv_def)
  qed
  then show ?thesis using inv o(1,2) acc by (simp add: stream_inv_def write_part_def w comp_def)
qed

lemma read_part_ok:
  assumes "stream_inv s"
  shows "stream_inv (read_part n killed s)"
proof -
  let ?p = "the_pipe s"
  obtain r p' where r: "piperead killed n ?p = (r, p')" by fastforce
  have pi: "pipe_inv ?p" using assms by (simp add: stream_inv_def)
  note ro = piperead_ok [OF pi r]
  have c: "call_ok (read_part n killed s) v" for v
    using assms call_ok_same [of "read_part n killed s" v s] by (simp add: stream_inv_def by_call_def read_part_def r)
  show ?thesis
  proof (cases "buffered ?p = [] \<and> p_writeopen ?p")
    case True
    then have "p' = ?p" "r = Failed \<or> r = Sleeping []" using ro by (auto split: if_splits)
    then show ?thesis using assms c by (auto simp: stream_inv_def read_part_def r)
  next
    case False
    then have "r = Returned (int (length (take (nat n) (buffered ?p)))) (take (nat n) (buffered ?p))"
        "buffered p' = drop (nat n) (buffered ?p)" "pipe_inv p'"
      using ro by (simp_all only: if_False)
    then show ?thesis using assms c by (auto simp: stream_inv_def read_part_def r)
  qed
qed

lemma pipe_step_stream: "pipe_step s s' \<Longrightarrow> stream_inv s \<Longrightarrow> stream_inv s'"
proof (induction rule: pipe_step.induct)
  case (p_write s w src killed)
  then have "call_ok s w" by (simp add: stream_inv_def)
  then have "by_call w s = []" using p_write(1) by (simp add: call_ok_def)
  then show ?case using write_part_ok [OF p_write(2), of w src src] by simp
next
  case (p_resume s w whole rest killed)
  then have "call_ok s w" by (simp add: stream_inv_def)
  then show ?case using write_part_ok [OF p_resume(2), of w rest whole] p_resume(1) by (simp add: call_ok_def)
next
  case (p_read s n killed)
  then show ?case by (rule read_part_ok)
next
  case (p_close s writable)
  let ?q = "fst (pipe_shut writable (the_pipe s))"
  have "pipe_inv ?q = pipe_inv (the_pipe s)" "buffered ?q = buffered (the_pipe s)"
    by (simp_all add: pipe_shut_def p_wake_def pipe_inv_def buffered_def fill_def)
  moreover have "call_ok (s\<lparr>the_pipe := ?q\<rparr>) v = call_ok s v" for v by (rule call_ok_same) (simp_all add: by_call_def)
  ultimately show ?case using p_close by (simp add: stream_inv_def)
qed

text \<open>C8: A pipe is a bounded stream.  Whatever readers and writers do with a fresh pipe, in any
  interleaving and even after its counters have wrapped around: the bytes that the calls of \<open>piperead\<close>
  have returned, followed by the at most \<open>PIPESIZE\<close> bytes in the buffer, are exactly the bytes accepted
  from the calls of \<open>pipewrite\<close>, in order; every read returned the number of its bytes; a write that has
  returned did return the length of its request and has put the whole request into the stream, in
  order; a sleeping one has put in all but the rest it still holds; and a failed one a proper prefix.\<close>

theorem pipe_stream:
  assumes "length junk = PIPESIZE" and "pipe_step\<^sup>*\<^sup>* (new_pipe junk) s"
  shows "concat (map snd (got s)) @ buffered (the_pipe s) = map snd (sent s) \<and> length (buffered (the_pipe s)) \<le> PIPESIZE \<and>
    (\<forall>(k, bs) \<in> set (got s). k = int (length bs)) \<and>
    (\<forall>w. case calls s w of
       None \<Rightarrow> by_call w s = []
     | Some (Blocked whole rest) \<Rightarrow> by_call w s @ rest = whole
     | Some (Done whole k) \<Rightarrow> by_call w s = whole \<and> k = int (length whole)
     | Some (Broken whole) \<Rightarrow> \<exists>rest. rest \<noteq> [] \<and> by_call w s @ rest = whole)"
proof -
  have "stream_inv s"
    using assms(2)
  proof (induction rule: rtranclp_induct)
    case base
    then show ?case using assms(1)
      by (simp add: stream_inv_def new_pipe_def pipe_inv_def buffered_def fill_def pipe_init_def call_ok_def by_call_def)
  next
    case (step y z)
    then show ?case using pipe_step_stream by blast
  qed
  then show ?thesis by (simp add: stream_inv_def pipe_inv_def call_ok_def)
qed

definition demo_writes :: psys where
  "demo_writes = read_part 2 False (write_part 0 [1, 2, 3] [1, 2, 3] False (new_pipe (replicate PIPESIZE 0)))"

theorem pipe_stream_witness:
  "length (replicate PIPESIZE (0 :: uchar)) = PIPESIZE \<and> got demo_writes = [(2, [1, 2])] \<and> calls demo_writes 0 = Some (Done [1, 2, 3] 3) \<and>
   by_call 0 demo_writes = [1, 2, 3] \<and> [1, 2] @ buffered (the_pipe demo_writes) = [1, 2, 3]"
proof -
  have e: "got demo_writes = [(2, [1, 2])]" "calls demo_writes 0 = Some (Done [1, 2, 3] 3)" "sent demo_writes = [(0, 1), (0, 2), (0, 3)]"
    unfolding demo_writes_def by code_simp+
  let ?s0 = "new_pipe (replicate PIPESIZE 0)" let ?s1 = "write_part 0 [1, 2, 3] [1, 2, 3] False ?s0"
  have "pipe_step ?s0 ?s1" by (rule pipe_step.p_write) (simp add: new_pipe_def)
  moreover have "pipe_step ?s1 demo_writes" unfolding demo_writes_def by (rule pipe_step.p_read)
  ultimately have run: "pipe_step\<^sup>*\<^sup>* ?s0 demo_writes" by (meson rtranclp.rtrancl_refl rtranclp.rtrancl_into_rtrancl)
  have j: "length (replicate PIPESIZE (0 :: uchar)) = PIPESIZE" by simp
  show ?thesis using pipe_stream [OF j run] e j by (auto dest: spec [of _ 0])
qed



text \<open>A killed process that finds the pipe full returns without waking anybody, so the bytes it has stored
  do not end the sleep of a reader.\<close>

lemma killed_writer_wakes_nobody:
  assumes "pipe_inv p" and "buffered p = []" and "PIPESIZE < length src"
  shows "\<exists>p'. pipewrite True n src p = (Failed, p') \<and> fill p' = PIPESIZE \<and> p_wakeups p' = p_wakeups p"
proof -
  obtain r p' where wr: "pipewrite True n src p = (r, p')" by fastforce
  have z: "fill p = 0" using assms(2) length_buffered [of p] by simp
  have w: "buffered p' = take PIPESIZE src" "r = Failed" "p_wakeups p' = p_wakeups p"
    using pipewrite_ok [OF assms(1) wr] z assms(2,3) by (auto simp: Let_def split: if_splits)
  have "fill p' = PIPESIZE" using arg_cong [OF w(1), of length] assms(3) by simp
  then show ?thesis using wr w(2,3) by (intro exI [of _ p']) simp
qed

end
