(* ===== verification/Sysfile.thy ===== *)
theory Sysfile
  imports FsFile Pipe Kalloc
begin

text \<open>
  Open files (\<open>src/file.c\<close>), pipe descriptors (\<open>src/pipe.c\<close>), system call arguments
  (\<open>src/syscall.c\<close>) and the file system calls (\<open>src/sysfile.c\<close>) for one process.  The process is
  its size, its memory, its saved stack pointer, its descriptor table, current directory and
  killed flag.  A call that has to wait for a locked inode, a busy buffer or the log is the outcome
  \<open>Asleep\<close>, where the model of the call ends.  A name buffer that the code leaves uninitialised is
  zeroed; no operation reads a name past its NUL.  \<open>devsw\<close> and the linker symbol \<open>end\<close> are arguments.
\<close>

section \<open>State\<close>

record kfs = fsdev +
  ftab :: "ofile list"
  kpages :: kmem
  pipes :: "nat \<Rightarrow> pipe option"
  u_sz :: uint
  u_mem :: mem
  u_esp :: uint
  u_ofile :: "nat option list"
  u_cwd :: nat
  u_killed :: bool

definition upd_file :: "nat \<Rightarrow> (ofile \<Rightarrow> ofile) \<Rightarrow> 'a kfs_scheme \<Rightarrow> 'a kfs_scheme" where
  "upd_file f g s = s\<lparr>ftab := (ftab s)[f := g (ftab s ! f)]\<rparr>"

section \<open>Open files (src/file.c, src/pipe.c)\<close>

definition pipeclose :: "uint \<Rightarrow> nat \<Rightarrow> bool \<Rightarrow> 'a kfs_scheme \<Rightarrow> 'a kfs_scheme res" where
  "pipeclose kend pp writable s =
     (case pipes s pp of None \<Rightarrow> Inl NullDeref
      | Some p \<Rightarrow>
          let (p, dead) = pipe_shut writable p in
          if dead then bindE (kfree kend (kpages s) (word_of_nat pp)) (\<lambda>k.
                         Inr (s\<lparr>pipes := (pipes s)(pp := None), kpages := k\<rparr>))
          else Inr (s\<lparr>pipes := (pipes s)(pp := Some p)\<rparr>))"

definition fileclose :: "uint \<Rightarrow> nat \<Rightarrow> 'a kfs_scheme \<Rightarrow> 'a kfs_scheme res" where
  "fileclose kend f s =
     (let ff = ftab s ! f in
      if f_ref ff < 1 then Inl (Panic ''fileclose'')
      else if f_ref ff - 1 > 0 then Inr (upd_file f (\<lambda>x. x\<lparr>f_ref := f_ref x - 1\<rparr>) s)
      else let s = upd_file f (\<lambda>x. x\<lparr>f_ref := 0, f_type := FD_NONE\<rparr>) s in
           case f_type ff of
             FD_PIPE \<Rightarrow> (case f_pipe ff of None \<Rightarrow> Inl NullDeref | Some pp \<Rightarrow> pipeclose kend pp (f_writable ff) s)
           | FD_INODE \<Rightarrow>
               (case f_ip ff of None \<Rightarrow> Inl NullDeref
                | Some ip \<Rightarrow> bindE (begin_op s) (\<lambda>s. bindE (iput ip s) (\<lambda>s. end_op s)))
           | FD_NONE \<Rightarrow> Inr s)"

text \<open>The page of a new pipe holds the lock (52 bytes), then the data.\<close>

definition pipealloc :: "uint \<Rightarrow> 'a kfs_scheme \<Rightarrow> ((nat \<times> nat) option \<times> 'a kfs_scheme) res" where
  "pipealloc kend s =
     (case filealloc (ftab s) of
        (None, _) \<Rightarrow> Inr (None, s)
      | (Some f0, ft) \<Rightarrow>
          (case filealloc ft of
             (None, _) \<Rightarrow> bindE (fileclose kend f0 (s\<lparr>ftab := ft\<rparr>)) (\<lambda>s. Inr (None, s))
           | (Some f1, ft) \<Rightarrow>
               let s = s\<lparr>ftab := ft\<rparr>; (pg, k) = kalloc (kpages s) in
               if pg = 0 then bindE (fileclose kend f0 s) (\<lambda>s. bindE (fileclose kend f1 s) (\<lambda>s. Inr (None, s)))
               else let junk = map (\<lambda>j. kbytes k (pg + 52 + word_of_nat j)) [0..<PIPESIZE];
                        s = s\<lparr>kpages := k, pipes := (pipes s)(unat pg \<mapsto> pipe_init junk)\<rparr>;
                        s = upd_file f0 (\<lambda>x. x\<lparr>f_type := FD_PIPE, f_readable := True, f_writable := False, f_pipe := Some (unat pg)\<rparr>) s;
                        s = upd_file f1 (\<lambda>x. x\<lparr>f_type := FD_PIPE, f_readable := False, f_writable := True, f_pipe := Some (unat pg)\<rparr>) s
                    in Inr (Some (f0, f1), s)))"

definition filestat :: "nat \<Rightarrow> 'a kfs_scheme \<Rightarrow> (stat option \<times> 'a kfs_scheme) res" where
  "filestat f s =
     (if f_type (ftab s ! f) = FD_INODE
      then case f_ip (ftab s ! f) of None \<Rightarrow> Inl (Panic ''ilock'')
           | Some ip \<Rightarrow>
               bindE (ilock (Some ip) s) (\<lambda>s.
               let st = stati (icache s ! ip) in
               bindE (iunlock (Some ip) s) (\<lambda>s. Inr (Some st, s)))
      else Inr (None, s))"

definition advance :: "nat \<Rightarrow> int \<Rightarrow> 'a kfs_scheme \<Rightarrow> 'a kfs_scheme" where
  "advance f r s = (if r > 0 then upd_file f (\<lambda>x. x\<lparr>f_off := f_off x + word_of_int r\<rparr>) s else s)"

definition fileread ::
  "('a kfs_ext fsdev_scheme) devread \<Rightarrow> nat \<Rightarrow> int \<Rightarrow> 'a kfs_scheme \<Rightarrow> (pres \<times> 'a kfs_scheme) res" where
  "fileread dr f n s =
     (let ff = ftab s ! f in
      if \<not> f_readable ff then Inr (Returned (-1) [], s)
      else if f_type ff = FD_PIPE
      then (case f_pipe ff of None \<Rightarrow> Inl NullDeref | Some pp \<Rightarrow>
            case pipes s pp of None \<Rightarrow> Inl NullDeref | Some p \<Rightarrow>
            let (r, p) = piperead (u_killed s) n p in
            Inr (case r of Failed \<Rightarrow> Returned (-1) [] | _ \<Rightarrow> r, s\<lparr>pipes := (pipes s)(pp \<mapsto> p)\<rparr>))
      else if f_type ff = FD_INODE
      then bindE (ilock (f_ip ff) s) (\<lambda>s.
           let ip = the (f_ip ff) in
           bindE (readi dr ip (f_off ff) (word_of_int n) s) (\<lambda>(r, bs, s).
           bindE (iunlock (f_ip ff) (advance f r s)) (\<lambda>s. Inr (Returned r bs, s))))
      else Inl (Panic ''fileread''))"

definition write_max :: nat where
  "write_max = ((LOGSIZE - 1 - 1 - 2) div 2) * 512"

text \<open>\<open>src\<close> is what is left of the \<open>n\<close> bytes; the loop stops early when \<open>writei\<close> fails.\<close>

function filewrite_loop ::
  "('a kfs_ext fsdev_scheme) devwrite \<Rightarrow> nat \<Rightarrow> uchar list \<Rightarrow> 'a kfs_scheme \<Rightarrow> (bool \<times> 'a kfs_scheme) res" where
  "filewrite_loop dw f src s =
     (if src = [] then Inr (True, s)
      else let n1 = min (length src) write_max; ff = ftab s ! f; ip = the (f_ip ff) in
           bindE (begin_op s) (\<lambda>s.
           bindE (ilock (f_ip ff) s) (\<lambda>s.
           bindE (writei dw ip (take n1 src) (f_off ff) (word_of_nat n1) s) (\<lambda>(r, s).
           bindE (iunlock (f_ip ff) (advance f r s)) (\<lambda>s.
           bindE (end_op s) (\<lambda>s.
           if r < 0 then Inr (False, s)
           else if r \<noteq> int n1 then Inl (Panic ''short filewrite'')
           else filewrite_loop dw f (drop n1 src) s))))))"
  by pat_completeness auto
termination
  by (relation "measure (\<lambda>(dw, f, src, s). length src)") (auto simp: write_max_def LOGSIZE_def MAXOPBLOCKS_def)

declare filewrite_loop.simps [simp del]

definition filewrite ::
  "('a kfs_ext fsdev_scheme) devwrite \<Rightarrow> nat \<Rightarrow> uchar list \<Rightarrow> int \<Rightarrow> 'a kfs_scheme \<Rightarrow> (pres \<times> 'a kfs_scheme) res" where
  "filewrite dw f src n s =
     (let ff = ftab s ! f in
      if \<not> f_writable ff then Inr (Returned (-1) [], s)
      else if f_type ff = FD_PIPE
      then (case f_pipe ff of None \<Rightarrow> Inl NullDeref | Some pp \<Rightarrow>
            case pipes s pp of None \<Rightarrow> Inl NullDeref | Some p \<Rightarrow>
            let (r, p) = pipewrite (u_killed s) n src p in
            Inr (case r of Failed \<Rightarrow> Returned (-1) [] | _ \<Rightarrow> r, s\<lparr>pipes := (pipes s)(pp \<mapsto> p)\<rparr>))
      else if f_type ff = FD_INODE
      then if n < 0 then Inr (Returned (-1) [], s)
           else bindE (filewrite_loop dw f src s) (\<lambda>(ok, s). Inr (Returned (if ok then n else -1) [], s))
      else Inl (Panic ''filewrite''))"

section \<open>System call arguments (src/syscall.c)\<close>

definition fetchint :: "uint \<Rightarrow> 'a kfs_scheme \<Rightarrow> uint option" where
  "fetchint addr s =
     (if addr \<ge> u_sz s \<or> addr + 4 > u_sz s then None else Some (read32 (u_mem s) addr))"

text \<open>The bytes of a string and its address; \<open>k\<close> counts down from the end of the address space.\<close>

fun fetchstr_loop :: "mem \<Rightarrow> uint \<Rightarrow> nat \<Rightarrow> uchar list option" where
  "fetchstr_loop m p 0 = None"
| "fetchstr_loop m p (Suc k) = (if m p = 0 then Some [] else map_option ((#) (m p)) (fetchstr_loop m (p + 1) k))"

definition fetchstr :: "uint \<Rightarrow> 'a kfs_scheme \<Rightarrow> uchar list option" where
  "fetchstr addr s = (if addr \<ge> u_sz s then None else fetchstr_loop (u_mem s) addr (unat (u_sz s) - unat addr))"

definition argint :: "nat \<Rightarrow> 'a kfs_scheme \<Rightarrow> uint option" where
  "argint n s = fetchint (u_esp s + 4 + 4 * word_of_nat n) s"

definition argptr :: "nat \<Rightarrow> int \<Rightarrow> 'a kfs_scheme \<Rightarrow> uint option" where
  "argptr n sz s =
     (case argint n s of None \<Rightarrow> None
      | Some i \<Rightarrow> if i \<ge> u_sz s \<or> i + word_of_int sz > u_sz s then None else Some i)"

definition argstr :: "nat \<Rightarrow> 'a kfs_scheme \<Rightarrow> uchar list option" where
  "argstr n s = (case argint n s of None \<Rightarrow> None | Some addr \<Rightarrow> fetchstr addr s)"

section \<open>File system calls (src/sysfile.c)\<close>


definition argfd :: "nat \<Rightarrow> 'a kfs_scheme \<Rightarrow> (nat \<times> nat) option" where
  "argfd n s =
     (case argint n s of None \<Rightarrow> None
      | Some w \<Rightarrow>
          let fd = sint w in
          if fd < 0 \<or> fd \<ge> int NOFILE then None
          else case u_ofile s ! nat fd of None \<Rightarrow> None | Some f \<Rightarrow> Some (nat fd, f))"

definition fdalloc :: "nat \<Rightarrow> 'a kfs_scheme \<Rightarrow> nat option \<times> 'a kfs_scheme" where
  "fdalloc f s =
     (case first_idx (\<lambda>x. x = None) (take NOFILE (u_ofile s)) of
        None \<Rightarrow> (None, s)
      | Some fd \<Rightarrow> (Some fd, s\<lparr>u_ofile := (u_ofile s)[fd := Some f]\<rparr>))"

definition fs_filedup :: "nat \<Rightarrow> 'a kfs_scheme \<Rightarrow> 'a kfs_scheme res" where
  "fs_filedup f s = bindE (filedup (ftab s) f) (\<lambda>ft. Inr (s\<lparr>ftab := ft\<rparr>))"

definition sys_dup :: "'a kfs_scheme \<Rightarrow> (int \<times> 'a kfs_scheme) res" where
  "sys_dup s =
     (case argfd 0 s of None \<Rightarrow> Inr (-1, s)
      | Some (_, f) \<Rightarrow>
          (case fdalloc f s of
             (None, s) \<Rightarrow> Inr (-1, s)
           | (Some fd, s) \<Rightarrow> bindE (fs_filedup f s) (\<lambda>s. Inr (int fd, s))))"

fun store_bytes :: "mem \<Rightarrow> uint \<Rightarrow> uchar list \<Rightarrow> mem" where
  "store_bytes m a [] = m"
| "store_bytes m a (b # bs) = store_bytes (m(a := b)) (a + 1) bs"

definition load_bytes :: "mem \<Rightarrow> uint \<Rightarrow> nat \<Rightarrow> uchar list" where
  "load_bytes m a n = map (\<lambda>k. m (a + word_of_nat k)) [0..<n]"

text \<open>A reader or writer of a pipe can go to sleep in the middle of its request.  The result is then
  \<open>None\<close>: the process is still in the call, and the pipe holds what it has already put there.\<close>

definition sys_read :: "('a kfs_ext fsdev_scheme) devread \<Rightarrow> 'a kfs_scheme \<Rightarrow> (int option \<times> 'a kfs_scheme) res" where
  "sys_read dr s =
     (case argfd 0 s of None \<Rightarrow> Inr (Some (-1), s) | Some (_, f) \<Rightarrow>
      case argint 2 s of None \<Rightarrow> Inr (Some (-1), s) | Some n \<Rightarrow>
      case argptr 1 (sint n) s of None \<Rightarrow> Inr (Some (-1), s) | Some p \<Rightarrow>
      bindE (fileread dr f (sint n) s) (\<lambda>(r, s).
      case r of Returned k bs \<Rightarrow> Inr (Some k, s\<lparr>u_mem := store_bytes (u_mem s) p bs\<rparr>) | _ \<Rightarrow> Inr (None, s)))"

definition sys_write :: "('a kfs_ext fsdev_scheme) devwrite \<Rightarrow> 'a kfs_scheme \<Rightarrow> (int option \<times> 'a kfs_scheme) res" where
  "sys_write dw s =
     (case argfd 0 s of None \<Rightarrow> Inr (Some (-1), s) | Some (_, f) \<Rightarrow>
      case argint 2 s of None \<Rightarrow> Inr (Some (-1), s) | Some n \<Rightarrow>
      case argptr 1 (sint n) s of None \<Rightarrow> Inr (Some (-1), s) | Some p \<Rightarrow>
      bindE (filewrite dw f (load_bytes (u_mem s) p (nat (sint n))) (sint n) s) (\<lambda>(r, s).
      case r of Returned k bs \<Rightarrow> Inr (Some k, s) | _ \<Rightarrow> Inr (None, s)))"

definition sys_close :: "uint \<Rightarrow> 'a kfs_scheme \<Rightarrow> (int \<times> 'a kfs_scheme) res" where
  "sys_close kend s =
     (case argfd 0 s of None \<Rightarrow> Inr (-1, s)
      | Some (fd, f) \<Rightarrow>
          bindE (fileclose kend f (s\<lparr>u_ofile := (u_ofile s)[fd := None]\<rparr>)) (\<lambda>s. Inr (0, s)))"

text \<open>\<open>struct stat\<close> in memory: the padding after the two shorts is left alone.\<close>

definition store_stat :: "mem \<Rightarrow> uint \<Rightarrow> stat \<Rightarrow> mem" where
  "store_stat m a st =
     write32 (store_bytes (write32 (write32 (store_bytes m a [ucast (st_type st), ucast (drop_bit 8 (st_type st))])
       (a + 4) (st_dev st)) (a + 8) (st_ino st)) (a + 12) [ucast (st_nlink st), ucast (drop_bit 8 (st_nlink st))])
       (a + 16) (st_size st)"

definition sys_fstat :: "'a kfs_scheme \<Rightarrow> (int \<times> 'a kfs_scheme) res" where
  "sys_fstat s =
     (case argfd 0 s of None \<Rightarrow> Inr (-1, s) | Some (_, f) \<Rightarrow>
      case argptr 1 20 s of None \<Rightarrow> Inr (-1, s) | Some p \<Rightarrow>
      bindE (filestat f s) (\<lambda>(r, s).
      case r of None \<Rightarrow> Inr (-1, s) | Some st \<Rightarrow> Inr (0, s\<lparr>u_mem := store_stat (u_mem s) p st\<rparr>)))"

definition op_fail :: "'a kfs_scheme \<Rightarrow> (int \<times> 'a kfs_scheme) res" where
  "op_fail s = bindE (end_op s) (\<lambda>s. Inr (-1, s))"

definition link_bad :: "nat \<Rightarrow> 'a kfs_scheme \<Rightarrow> (int \<times> 'a kfs_scheme) res" where
  "link_bad ip s =
     bindE (ilock (Some ip) s) (\<lambda>s.
     bindE (iupdate ip (upd_inode ip (\<lambda>x. x\<lparr>i_nlink := i_nlink x - 1\<rparr>) s)) (\<lambda>s.
     bindE (iunlockput ip s) op_fail))"

definition sys_link ::
  "('a kfs_ext fsdev_scheme) devread \<Rightarrow> ('a kfs_ext fsdev_scheme) devwrite \<Rightarrow> 'a kfs_scheme \<Rightarrow> (int \<times> 'a kfs_scheme) res" where
  "sys_link dr dw s =
     (case argstr 0 s of None \<Rightarrow> Inr (-1, s) | Some old \<Rightarrow>
      case argstr 1 s of None \<Rightarrow> Inr (-1, s) | Some new \<Rightarrow>
      bindE (begin_op s) (\<lambda>s.
      bindE (namei dr (u_cwd s) old s) (\<lambda>(r, s).
      case r of None \<Rightarrow> op_fail s | Some ip \<Rightarrow>
      bindE (ilock (Some ip) s) (\<lambda>s.
      if i_type (icache s ! ip) = T_DIR then bindE (iunlockput ip s) op_fail
      else bindE (iupdate ip (upd_inode ip (\<lambda>x. x\<lparr>i_nlink := i_nlink x + 1\<rparr>) s)) (\<lambda>s.
           bindE (iunlock (Some ip) s) (\<lambda>s.
           bindE (nameiparent dr (u_cwd s) new (replicate DIRSIZ 0) s) (\<lambda>(r, name, s).
           case r of None \<Rightarrow> link_bad ip s | Some dp \<Rightarrow>
           bindE (ilock (Some dp) s) (\<lambda>s.
           bindE (if i_dev (icache s ! dp) \<noteq> i_dev (icache s ! ip) then Inr (-1, s)
                  else dirlink dr dw dp name (i_inum (icache s ! ip)) s) (\<lambda>(r, s).
           if r < 0 then bindE (iunlockput dp s) (link_bad ip)
           else bindE (iunlockput dp s) (\<lambda>s.
                bindE (iput ip s) (\<lambda>s.
                bindE (end_op s) (\<lambda>s. Inr (0, s)))))))))))))"

function isdirempty_loop ::
  "('a fsdev_scheme) devread \<Rightarrow> nat \<Rightarrow> nat \<Rightarrow> nat \<Rightarrow> 'a fsdev_scheme \<Rightarrow> (bool \<times> 'a fsdev_scheme) res" where
  "isdirempty_loop dr dp sz off s =
     (if off < sz
      then bindE (readi dr dp (word_of_nat off) 16 s) (\<lambda>(r, de, s).
           if r \<noteq> 16 then Inl (Panic ''isdirempty: readi'')
           else if de_inum de \<noteq> 0 then Inr (False, s) else isdirempty_loop dr dp sz (off + 16) s)
      else Inr (True, s))"
  by pat_completeness auto
termination
  by (relation "measure (\<lambda>(dr, dp, sz, off, s). sz - off)") auto

declare isdirempty_loop.simps [simp del]

definition isdirempty :: "('a fsdev_scheme) devread \<Rightarrow> nat \<Rightarrow> 'a fsdev_scheme \<Rightarrow> (bool \<times> 'a fsdev_scheme) res" where
  "isdirempty dr dp s = isdirempty_loop dr dp (unat (i_size (icache s ! dp))) 32 s"

definition DOT :: uchar where "DOT = 46"

definition sys_unlink ::
  "('a kfs_ext fsdev_scheme) devread \<Rightarrow> ('a kfs_ext fsdev_scheme) devwrite \<Rightarrow> 'a kfs_scheme \<Rightarrow> (int \<times> 'a kfs_scheme) res" where
  "sys_unlink dr dw s =
     (case argstr 0 s of None \<Rightarrow> Inr (-1, s) | Some path \<Rightarrow>
      bindE (begin_op s) (\<lambda>s.
      bindE (nameiparent dr (u_cwd s) path (replicate DIRSIZ 0) s) (\<lambda>(r, name, s).
      case r of None \<Rightarrow> op_fail s | Some dp \<Rightarrow>
      bindE (ilock (Some dp) s) (\<lambda>s.
      if namecmp name [DOT] = 0 \<or> namecmp name [DOT, DOT] = 0 then bindE (iunlockput dp s) op_fail
      else bindE (dirlookup dr dp name s) (\<lambda>(r, s).
      case r of None \<Rightarrow> bindE (iunlockput dp s) op_fail | Some (ip, off) \<Rightarrow>
      bindE (ilock (Some ip) s) (\<lambda>s.
      if sint (i_nlink (icache s ! ip)) < 1 then Inl (Panic ''unlink: nlink < 1'')
      else bindE (if i_type (icache s ! ip) = T_DIR then isdirempty dr ip s else Inr (True, s)) (\<lambda>(empty, s).
      if \<not> empty then bindE (iunlockput ip s) (\<lambda>s. bindE (iunlockput dp s) op_fail)
      else bindE (writei dw dp (replicate 16 0) off 16 s) (\<lambda>(r, s).
      if r \<noteq> 16 then Inl (Panic ''unlink: writei'')
      else bindE (if i_type (icache s ! ip) = T_DIR
                  then iupdate dp (upd_inode dp (\<lambda>x. x\<lparr>i_nlink := i_nlink x - 1\<rparr>) s) else Inr s) (\<lambda>s.
           bindE (iunlockput dp s) (\<lambda>s.
           bindE (iupdate ip (upd_inode ip (\<lambda>x. x\<lparr>i_nlink := i_nlink x - 1\<rparr>) s)) (\<lambda>s.
           bindE (iunlockput ip s) (\<lambda>s.
           bindE (end_op s) (\<lambda>s. Inr (0, s))))))))))))))"

definition create ::
  "('a kfs_ext fsdev_scheme) devread \<Rightarrow> ('a kfs_ext fsdev_scheme) devwrite \<Rightarrow> uchar list \<Rightarrow> ushort \<Rightarrow> ushort \<Rightarrow> ushort \<Rightarrow>
     'a kfs_scheme \<Rightarrow> (nat option \<times> 'a kfs_scheme) res" where
  "create dr dw path type major minor s =
     bindE (nameiparent dr (u_cwd s) path (replicate DIRSIZ 0) s) (\<lambda>(r, name, s).
     case r of None \<Rightarrow> Inr (None, s) | Some dp \<Rightarrow>
     bindE (ilock (Some dp) s) (\<lambda>s.
     bindE (dirlookup dr dp name s) (\<lambda>(r, s).
     case r of
       Some (ip, _) \<Rightarrow>
         bindE (iunlockput dp s) (\<lambda>s.
         bindE (ilock (Some ip) s) (\<lambda>s.
         if type = T_FILE \<and> i_type (icache s ! ip) = T_FILE then Inr (Some ip, s)
         else bindE (iunlockput ip s) (\<lambda>s. Inr (None, s))))
     | None \<Rightarrow>
         bindE (ialloc (i_dev (icache s ! dp)) type s) (\<lambda>(ip, s).
         bindE (ilock (Some ip) s) (\<lambda>s.
         bindE (iupdate ip (upd_inode ip (\<lambda>x. x\<lparr>i_major := major, i_minor := minor, i_nlink := 1\<rparr>) s)) (\<lambda>s.
         bindE (if type = T_DIR
                then bindE (iupdate dp (upd_inode dp (\<lambda>x. x\<lparr>i_nlink := i_nlink x + 1\<rparr>) s)) (\<lambda>s.
                     bindE (dirlink dr dw ip [DOT] (i_inum (icache s ! ip)) s) (\<lambda>(r, s).
                     if r < 0 then Inl (Panic ''create dots'')
                     else bindE (dirlink dr dw ip [DOT, DOT] (i_inum (icache s ! dp)) s) (\<lambda>(r, s).
                          if r < 0 then Inl (Panic ''create dots'') else Inr s)))
                else Inr s) (\<lambda>s.
         bindE (dirlink dr dw dp name (i_inum (icache s ! ip)) s) (\<lambda>(r, s).
         if r < 0 then Inl (Panic ''create: dirlink'')
         else bindE (iunlockput dp s) (\<lambda>s. Inr (Some ip, s))))))))))"

definition O_WRONLY :: uint where "O_WRONLY = 1"
definition O_RDWR :: uint where "O_RDWR = 2"
definition O_CREATE :: uint where "O_CREATE = 0x200"

definition open_inode ::
  "('a kfs_ext fsdev_scheme) devread \<Rightarrow> ('a kfs_ext fsdev_scheme) devwrite \<Rightarrow> uchar list \<Rightarrow> uint \<Rightarrow> 'a kfs_scheme \<Rightarrow>
     (nat option \<times> 'a kfs_scheme) res" where
  "open_inode dr dw path omode s =
     (if omode AND O_CREATE \<noteq> 0 then create dr dw path T_FILE 0 0 s
      else bindE (namei dr (u_cwd s) path s) (\<lambda>(r, s).
           case r of None \<Rightarrow> Inr (None, s) | Some ip \<Rightarrow>
           bindE (ilock (Some ip) s) (\<lambda>s.
           if i_type (icache s ! ip) = T_DIR \<and> omode \<noteq> 0 then bindE (iunlockput ip s) (\<lambda>s. Inr (None, s))
           else Inr (Some ip, s))))"

definition open_file :: "uint \<Rightarrow> nat \<Rightarrow> uint \<Rightarrow> 'a kfs_scheme \<Rightarrow> (int \<times> 'a kfs_scheme) res" where
  "open_file kend ip omode s =
     (case filealloc (ftab s) of
        (None, _) \<Rightarrow> bindE (iunlockput ip s) op_fail
      | (Some f, ft) \<Rightarrow>
          (case fdalloc f (s\<lparr>ftab := ft\<rparr>) of
             (None, s) \<Rightarrow> bindE (fileclose kend f s) (\<lambda>s. bindE (iunlockput ip s) op_fail)
           | (Some fd, s) \<Rightarrow>
               bindE (iunlock (Some ip) s) (\<lambda>s.
               bindE (end_op s) (\<lambda>s.
               Inr (int fd, upd_file f (\<lambda>x. x\<lparr>f_type := FD_INODE, f_ip := Some ip, f_off := 0,
                      f_readable := (omode AND O_WRONLY = 0),
                      f_writable := (omode AND O_WRONLY \<noteq> 0 \<or> omode AND O_RDWR \<noteq> 0)\<rparr>) s)))))"

definition sys_open ::
  "uint \<Rightarrow> ('a kfs_ext fsdev_scheme) devread \<Rightarrow> ('a kfs_ext fsdev_scheme) devwrite \<Rightarrow> 'a kfs_scheme \<Rightarrow> (int \<times> 'a kfs_scheme) res" where
  "sys_open kend dr dw s =
     (case argstr 0 s of None \<Rightarrow> Inr (-1, s) | Some path \<Rightarrow>
      case argint 1 s of None \<Rightarrow> Inr (-1, s) | Some omode \<Rightarrow>
      bindE (begin_op s) (\<lambda>s.
      bindE (open_inode dr dw path omode s) (\<lambda>(r, s).
      case r of None \<Rightarrow> op_fail s | Some ip \<Rightarrow> open_file kend ip omode s)))"

definition sys_mkdir ::
  "('a kfs_ext fsdev_scheme) devread \<Rightarrow> ('a kfs_ext fsdev_scheme) devwrite \<Rightarrow> 'a kfs_scheme \<Rightarrow> (int \<times> 'a kfs_scheme) res" where
  "sys_mkdir dr dw s =
     bindE (begin_op s) (\<lambda>s.
     case argstr 0 s of None \<Rightarrow> op_fail s | Some path \<Rightarrow>
     bindE (create dr dw path T_DIR 0 0 s) (\<lambda>(r, s).
     case r of None \<Rightarrow> op_fail s
     | Some ip \<Rightarrow> bindE (iunlockput ip s) (\<lambda>s. bindE (end_op s) (\<lambda>s. Inr (0, s)))))"

definition sys_mknod ::
  "('a kfs_ext fsdev_scheme) devread \<Rightarrow> ('a kfs_ext fsdev_scheme) devwrite \<Rightarrow> 'a kfs_scheme \<Rightarrow> (int \<times> 'a kfs_scheme) res" where
  "sys_mknod dr dw s =
     bindE (begin_op s) (\<lambda>s.
     case argstr 0 s of None \<Rightarrow> op_fail s | Some path \<Rightarrow>
     case argint 1 s of None \<Rightarrow> op_fail s | Some major \<Rightarrow>
     case argint 2 s of None \<Rightarrow> op_fail s | Some minor \<Rightarrow>
     bindE (create dr dw path T_DEV (ucast major) (ucast minor) s) (\<lambda>(r, s).
     case r of None \<Rightarrow> op_fail s
     | Some ip \<Rightarrow> bindE (iunlockput ip s) (\<lambda>s. bindE (end_op s) (\<lambda>s. Inr (0, s)))))"

definition sys_chdir :: "('a kfs_ext fsdev_scheme) devread \<Rightarrow> 'a kfs_scheme \<Rightarrow> (int \<times> 'a kfs_scheme) res" where
  "sys_chdir dr s =
     bindE (begin_op s) (\<lambda>s.
     case argstr 0 s of None \<Rightarrow> op_fail s | Some path \<Rightarrow>
     bindE (namei dr (u_cwd s) path s) (\<lambda>(r, s).
     case r of None \<Rightarrow> op_fail s
     | Some ip \<Rightarrow>
         bindE (ilock (Some ip) s) (\<lambda>s.
         if i_type (icache s ! ip) \<noteq> T_DIR then bindE (iunlockput ip s) op_fail
         else bindE (iunlock (Some ip) s) (\<lambda>s.
              bindE (iput (u_cwd s) s) (\<lambda>s.
              bindE (end_op s) (\<lambda>s. Inr (0, s\<lparr>u_cwd := ip\<rparr>)))))))"

definition pipe_fds :: "uint \<Rightarrow> uint \<Rightarrow> nat \<Rightarrow> nat \<Rightarrow> 'a kfs_scheme \<Rightarrow> (int \<times> 'a kfs_scheme) res" where
  "pipe_fds kend fd f0 f1 s =
     (case fdalloc f0 s of
        (None, s) \<Rightarrow> bindE (fileclose kend f0 s) (\<lambda>s. bindE (fileclose kend f1 s) (\<lambda>s. Inr (-1, s)))
      | (Some fd0, s) \<Rightarrow>
          (case fdalloc f1 s of
             (None, s) \<Rightarrow>
               bindE (fileclose kend f0 (s\<lparr>u_ofile := (u_ofile s)[fd0 := None]\<rparr>)) (\<lambda>s.
               bindE (fileclose kend f1 s) (\<lambda>s. Inr (-1, s)))
           | (Some fd1, s) \<Rightarrow>
               Inr (0, s\<lparr>u_mem := write32 (write32 (u_mem s) fd (word_of_nat fd0)) (fd + 4) (word_of_nat fd1)\<rparr>)))"

definition sys_pipe :: "uint \<Rightarrow> 'a kfs_scheme \<Rightarrow> (int \<times> 'a kfs_scheme) res" where
  "sys_pipe kend s =
     (case argptr 0 8 s of None \<Rightarrow> Inr (-1, s) | Some fd \<Rightarrow>
      bindE (pipealloc kend s) (\<lambda>(r, s).
      case r of None \<Rightarrow> Inr (-1, s) | Some (f0, f1) \<Rightarrow> pipe_fds kend fd f0 f1 s))"

section \<open>The table of file system calls (src/syscall.c)\<close>

definition SYS_pipe :: nat where "SYS_pipe = 4"
definition SYS_read :: nat where "SYS_read = 5"
definition SYS_fstat :: nat where "SYS_fstat = 8"
definition SYS_chdir :: nat where "SYS_chdir = 9"
definition SYS_dup :: nat where "SYS_dup = 10"
definition SYS_open :: nat where "SYS_open = 15"
definition SYS_write :: nat where "SYS_write = 16"
definition SYS_mknod :: nat where "SYS_mknod = 17"
definition SYS_unlink :: nat where "SYS_unlink = 18"
definition SYS_link :: nat where "SYS_link = 19"
definition SYS_mkdir :: nat where "SYS_mkdir = 20"
definition SYS_close :: nat where "SYS_close = 21"

text \<open>A call that always returns, as an entry of the table.\<close>

definition returns :: "('s \<Rightarrow> (int \<times> 's) res) \<Rightarrow> 's \<Rightarrow> (int option \<times> 's) res" where
  "returns f s = bindE (f s) (\<lambda>(r, s). Inr (Some r, s))"

definition file_calls ::
  "uint \<Rightarrow> ('a kfs_ext fsdev_scheme) devread \<Rightarrow> ('a kfs_ext fsdev_scheme) devwrite \<Rightarrow> nat \<Rightarrow>
     ('a kfs_scheme \<Rightarrow> (int option \<times> 'a kfs_scheme) res) option" where
  "file_calls kend dr dw num =
     map_of [(SYS_pipe, returns (sys_pipe kend)), (SYS_read, sys_read dr), (SYS_fstat, returns sys_fstat),
             (SYS_chdir, returns (sys_chdir dr)), (SYS_dup, returns sys_dup), (SYS_open, returns (sys_open kend dr dw)),
             (SYS_write, sys_write dw), (SYS_mknod, returns (sys_mknod dr dw)), (SYS_unlink, returns (sys_unlink dr dw)),
             (SYS_link, returns (sys_link dr dw)), (SYS_mkdir, returns (sys_mkdir dr dw)), (SYS_close, returns (sys_close kend))] num"

end
