(* ===== verification/FsFrame.thy ===== *)
theory FsFrame
  imports Fs
begin

text \<open>
  What the operations of the cache, the log and the file system leave alone: everything outside
  the file system's own state, and the sizes of the tables of buffers and inodes.  They never
  dereference a null pointer, and every inode they hand out is an entry of the inode cache.  The
  device table is an argument, so its entries are assumed to do the same.
\<close>

section \<open>What is left alone\<close>

definition fs_rest :: "'a fsdev_scheme \<Rightarrow> nat \<times> nat \<times> 'a" where
  "fs_rest s = (length (bufs s), length (icache s), fsdev.more s)"

lemma fs_rest_update [simp]:
  fixes s :: "'a fsdev_scheme"
  shows "fs_rest (upd_buf i f s) = fs_rest s" "fs_rest (upd_inode i g s) = fs_rest s"
    "fs_rest (s\<lparr>lru := a1\<rparr>) = fs_rest s" "fs_rest (s\<lparr>disk := a2\<rparr>) = fs_rest s"
    "fs_rest (s\<lparr>dwrites := a3\<rparr>) = fs_rest s" "fs_rest (s\<lparr>lh_n := a4\<rparr>) = fs_rest s"
    "fs_rest (s\<lparr>lh_block := a5\<rparr>) = fs_rest s" "fs_rest (s\<lparr>l_outstanding := a6\<rparr>) = fs_rest s"
    "fs_rest (s\<lparr>l_committing := a7\<rparr>) = fs_rest s" "fs_rest (s\<lparr>l_wakeups := a8\<rparr>) = fs_rest s"
    "fs_rest (s\<lparr>fsb := a9\<rparr>) = fs_rest s" "fs_rest (s\<lparr>iwoken := a10\<rparr>) = fs_rest s"
    "length ic = length (icache s) \<Longrightarrow> fs_rest (s\<lparr>icache := ic\<rparr>) = fs_rest s"
  by (simp_all add: fs_rest_def upd_buf_def upd_inode_def)

lemma fs_rest_icache: "fs_rest s' = fs_rest s \<Longrightarrow> length (icache s') = length (icache s)"
  by (simp add: fs_rest_def)

text \<open>The postconditions: for an operation that returns the state, a value and the state, an
  inode and the state, or perhaps an inode and the state.\<close>

abbreviation fs_kept :: "'a fsdev_scheme \<Rightarrow> 'a fsdev_scheme \<Rightarrow> bool" where
  "fs_kept s s' \<equiv> fs_rest s' = fs_rest s"

definition dev_keeps_read :: "('a fsdev_scheme) devread \<Rightarrow> bool" where
  "dev_keeps_read dr \<longleftrightarrow> (\<forall>m f i n s. dr m = Some f \<longrightarrow> ensures (\<lambda>(r, bs, s'). fs_kept s s') (f i n s))"

definition dev_keeps_write :: "('a fsdev_scheme) devwrite \<Rightarrow> bool" where
  "dev_keeps_write dw \<longleftrightarrow> (\<forall>m f i src n s. dw m = Some f \<longrightarrow> ensures (\<lambda>(r, s'). fs_kept s s') (f i src n s))"

section \<open>Buffer cache\<close>

lemma iderw_keeps [keeps]: "ensures (fs_kept s) (iderw i s)"
  by (simp add: iderw_def Let_def)

lemma bget_keeps [keeps]: "ensures (\<lambda>(i, s'). fs_kept s s') (bget d n s)"
  by (simp add: bget_def split: option.split)

lemma bread_keeps [keeps]: "ensures (\<lambda>(i, s'). fs_kept s s') (bread d n s)"
  unfolding bread_def
  by (intro keeps [THEN ensures_bind] keeps [THEN ensures_weaken] ensures_intros) auto

lemma bwrite_keeps [keeps]: "ensures (fs_kept s) (bwrite i s)"
  unfolding bwrite_def using iderw_keeps [of "upd_buf i (\<lambda>b. b\<lparr>b_dirty := True\<rparr>) s" i] by simp

lemma brelse_keeps [keeps]: "ensures (fs_kept s) (brelse i s)"
  by (simp add: brelse_def)

section \<open>Log\<close>

lemma install_trans_loop_keeps [keeps]: "ensures (fs_kept s) (install_trans_loop tail k s)"
proof (induction tail k s rule: install_trans_loop.induct)
  case (2 tail k s)
  show ?case unfolding install_trans_loop.simps
    by (intro 2 [THEN ensures_weaken] keeps [THEN ensures_bind] keeps [THEN ensures_weaken] ensures_intros) auto
qed simp

lemma write_log_loop_keeps [keeps]: "ensures (fs_kept s) (write_log_loop tail k s)"
proof (induction tail k s rule: write_log_loop.induct)
  case (2 tail k s)
  show ?case unfolding write_log_loop.simps
    by (intro 2 [THEN ensures_weaken] keeps [THEN ensures_bind] keeps [THEN ensures_weaken] ensures_intros) auto
qed simp

lemma write_head_loop_keeps [keeps]: "ensures (\<lambda>_. True) (write_head_loop blk i k hb)"
  by (induction blk i k hb rule: write_head_loop.induct) simp_all

lemma write_head_keeps [keeps]: "ensures (fs_kept s) (write_head s)"
  unfolding write_head_def by (intro keeps [THEN ensures_bind] keeps [THEN ensures_weaken] ensures_intros) auto

lemma commit_keeps [keeps]: "ensures (fs_kept s) (commit s)"
  unfolding commit_def write_log_def install_trans_def by (intro keeps [THEN ensures_bind] keeps [THEN ensures_weaken] ensures_intros) (auto simp: ensures_def)

lemma begin_op_keeps [keeps]: "ensures (fs_kept s) (begin_op s)"
  by (simp add: begin_op_def)

lemma end_op_keeps [keeps]: "ensures (fs_kept s) (end_op s)"
  unfolding end_op_def by (intro keeps [THEN ensures_bind] keeps [THEN ensures_weaken] ensures_intros) auto

lemma log_write_keeps [keeps]: "ensures (fs_kept s) (log_write b s)"
  by (simp add: log_write_def Let_def)

section \<open>Blocks and inodes\<close>

lemma readsb_keeps [keeps]: "ensures (\<lambda>(sb, s'). fs_kept s s') (readsb d s)"
  unfolding readsb_def by (intro keeps [THEN ensures_bind] keeps [THEN ensures_weaken] ensures_intros) auto

lemma bzero_keeps [keeps]: "ensures (fs_kept s) (bzero d bno s)"
  unfolding bzero_def by (intro keeps [THEN ensures_bind] keeps [THEN ensures_weaken] ensures_intros) auto

lemma balloc_loop_keeps [keeps]: "ensures (\<lambda>(b, s'). fs_kept s s') (balloc_loop d sz b s)"
proof (induction "sz - b" arbitrary: b s rule: less_induct)
  case less
  note IH = less [of "b + BPB"]
  show ?case unfolding balloc_loop.simps [of d sz b s]
    by (intro IH [THEN ensures_weaken] keeps [THEN ensures_bind] keeps [THEN ensures_weaken] ensures_intros) (auto simp: BPB_def BSIZE_def)
qed

lemma balloc_keeps [keeps]: "ensures (\<lambda>(b, s'). fs_kept s s') (balloc d s)"
  unfolding balloc_def by (rule keeps)

lemma bfree_keeps [keeps]: "ensures (fs_kept s) (bfree d b s)"
  unfolding bfree_def by (intro keeps [THEN ensures_bind] keeps [THEN ensures_weaken] ensures_intros) auto

lemma iget_length: "ensures (\<lambda>(i, ic'). i < length ic \<and> length ic' = length ic) (iget ic d inum)"
  by (auto simp: iget_def first_idx_Some_iff split: option.split)

lemma fs_iget_keeps [keeps]: "ensures (\<lambda>(i, s'). fs_kept s s' \<and> i < length (icache s)) (fs_iget d inum s)"
  unfolding fs_iget_def by (intro iget_length [THEN ensures_bind] ensures_intros) auto

lemma ialloc_loop_keeps [keeps]:
  "ensures (\<lambda>(i, s'). fs_kept s s' \<and> i < length (icache s)) (ialloc_loop d type inum k s)"
proof (induction d type inum k s rule: ialloc_loop.induct)
  case (2 d type inum k s)
  show ?case unfolding ialloc_loop.simps
    by (intro 2 [THEN ensures_weaken] keeps [THEN ensures_bind] keeps [THEN ensures_weaken] ensures_intros) (auto dest: fs_rest_icache)
qed simp

lemma ialloc_keeps [keeps]: "ensures (\<lambda>(i, s'). fs_kept s s' \<and> i < length (icache s)) (ialloc d type s)"
  unfolding ialloc_def by (rule keeps)

lemma iupdate_keeps [keeps]: "ensures (fs_kept s) (iupdate i s)"
  unfolding iupdate_def by (intro keeps [THEN ensures_bind] keeps [THEN ensures_weaken] ensures_intros) auto

lemma ilock_keeps [keeps]: "ensures (fs_kept s) (ilock p s)"
  unfolding ilock_def by (intro keeps [THEN ensures_bind] keeps [THEN ensures_weaken] ensures_intros) auto

lemma iunlock_keeps [keeps]: "ensures (fs_kept s) (iunlock p s)"
  by (simp add: iunlock_def split: option.split)

section \<open>Inode content\<close>

lemma bmap_slot_keeps [keeps]: "ensures (\<lambda>(a, s'). fs_kept s s') (bmap_slot i k s)"
  unfolding bmap_slot_def by (intro keeps [THEN ensures_bind] keeps [THEN ensures_weaken] ensures_intros) auto

lemma bmap_keeps [keeps]: "ensures (\<lambda>(a, s'). fs_kept s s') (bmap i bn s)"
  unfolding bmap_def by (intro keeps [THEN ensures_bind] keeps [THEN ensures_weaken] ensures_intros) auto

lemma itrunc_direct_keeps [keeps]: "ensures (fs_kept s) (itrunc_direct i k c s)"
proof (induction i k c s rule: itrunc_direct.induct)
  case (2 i k c s)
  show ?case unfolding itrunc_direct.simps
    by (intro 2 [THEN ensures_weaken] keeps [THEN ensures_bind] keeps [THEN ensures_weaken] ensures_intros) auto
qed simp

lemma itrunc_indirect_keeps [keeps]: "ensures (fs_kept s) (itrunc_indirect i bp j c s)"
proof (induction i bp j c s rule: itrunc_indirect.induct)
  case (2 i bp j c s)
  show ?case unfolding itrunc_indirect.simps
    by (intro 2 [THEN ensures_weaken] keeps [THEN ensures_bind] keeps [THEN ensures_weaken] ensures_intros) auto
qed simp

lemma itrunc_keeps [keeps]: "ensures (fs_kept s) (itrunc i s)"
  unfolding itrunc_def bind_flat by (intro keeps [THEN ensures_bind] keeps [THEN ensures_weaken] ensures_intros) auto

lemma iput_keeps [keeps]: "ensures (fs_kept s) (iput i s)"
  unfolding iput_def bind_flat by (intro keeps [THEN ensures_bind] keeps [THEN ensures_weaken] ensures_intros) auto

lemma iunlockput_keeps [keeps]: "ensures (fs_kept s) (iunlockput i s)"
  unfolding iunlockput_def by (intro keeps [THEN ensures_bind] keeps [THEN ensures_weaken] ensures_intros) auto

lemma readi_loop_keeps [keeps]: "ensures (\<lambda>(bs, s'). fs_kept s s') (readi_loop i off n dst s)"
proof (induction n arbitrary: off dst s rule: less_induct)
  case (less n)
  show ?case unfolding readi_loop.simps [of i off n dst s]
    by (intro less [THEN ensures_weaken] keeps [THEN ensures_bind] keeps [THEN ensures_weaken] ensures_intros) (auto simp: chunk_pos)
qed

lemma writei_loop_keeps [keeps]: "ensures (\<lambda>(off, s'). fs_kept s s') (writei_loop i off n src s)"
proof (induction n arbitrary: off src s rule: less_induct)
  case (less n)
  show ?case unfolding writei_loop.simps [of i off n src s]
    by (intro less [THEN ensures_weaken] keeps [THEN ensures_bind] keeps [THEN ensures_weaken] ensures_intros) (auto simp: chunk_pos)
qed

lemma readi_keeps [keeps]:
  assumes "dev_keeps_read dr"
  shows "ensures (\<lambda>(r, bs, s'). fs_kept s s') (readi dr i off n s)"
  unfolding readi_def using assms
  by (intro keeps [THEN ensures_bind] keeps [THEN ensures_weaken] ensures_intros) (auto simp: dev_keeps_read_def)

lemma writei_keeps [keeps]:
  assumes "dev_keeps_write dw"
  shows "ensures (\<lambda>(r, s'). fs_kept s s') (writei dw i src off n s)"
  unfolding writei_def bind_flat using assms
  by (intro keeps [THEN ensures_bind] keeps [THEN ensures_weaken] ensures_intros) (auto simp: dev_keeps_write_def)

section \<open>Directories and paths\<close>

lemma dirlookup_loop_keeps [keeps]:
  assumes "dev_keeps_read dr"
  shows "ensures (\<lambda>(r, s'). fs_kept s s') (dirlookup_loop dr dp name sz off s)"
proof (induction "sz - off" arbitrary: off s rule: less_induct)
  case less
  note IH = less [of "off + 16"]
  show ?case unfolding dirlookup_loop.simps [of dr dp name sz off s] using assms
    by (intro IH [THEN ensures_weaken] keeps [THEN ensures_bind] keeps [THEN ensures_weaken] ensures_intros) auto
qed

lemma dirlookup_keeps [keeps]:
  assumes "dev_keeps_read dr"
  shows "ensures (\<lambda>(r, s'). fs_kept s s' \<and> (\<forall>ip off. r = Some (ip, off) \<longrightarrow> ip < length (icache s))) (dirlookup dr dp name s)"
  unfolding dirlookup_def using assms
  by (intro keeps [THEN ensures_bind] keeps [THEN ensures_weaken] ensures_intros) (auto dest: fs_rest_icache)

lemma dirlink_scan_keeps [keeps]:
  assumes "dev_keeps_read dr"
  shows "ensures (\<lambda>(r, s'). fs_kept s s') (dirlink_scan dr dp sz off s)"
proof (induction "sz - off" arbitrary: off s rule: less_induct)
  case less
  note IH = less [of "off + 16"]
  show ?case unfolding dirlink_scan.simps [of dr dp sz off s] using assms
    by (intro IH [THEN ensures_weaken] keeps [THEN ensures_bind] keeps [THEN ensures_weaken] ensures_intros) auto
qed

lemma dirlink_keeps [keeps]:
  assumes "dev_keeps_read dr" and "dev_keeps_write dw"
  shows "ensures (\<lambda>(r, s'). fs_kept s s') (dirlink dr dw dp name inum s)"
  unfolding dirlink_def using assms by (intro keeps [THEN ensures_bind] keeps [THEN ensures_weaken] ensures_intros) auto

lemma namex_loop_keeps [keeps]:
  assumes "dev_keeps_read dr" and "ip < length (icache s)"
  shows "ensures (\<lambda>(r, name', s'). fs_kept s s' \<and> (\<forall>ip'. r = Some ip' \<longrightarrow> ip' < length (icache s)))
           (namex_loop dr par ip path name s)"
  using assms(2)
proof (induction "length path" arbitrary: ip path name s rule: less_induct)
  case less
  show ?case unfolding namex_loop.simps [of dr par ip path name s] using assms(1) less(2)
    by (intro less(1) [THEN ensures_weaken] keeps [THEN ensures_bind] keeps [THEN ensures_weaken] ensures_intros) (auto simp: fs_rest_def dest: skipelem_shorter)
qed

lemma namex_keeps [keeps]:
  assumes "dev_keeps_read dr" and "cwd < length (icache s)"
  shows "ensures (\<lambda>(r, name', s'). fs_kept s s' \<and> (\<forall>ip'. r = Some ip' \<longrightarrow> ip' < length (icache s)))
           (namex dr cwd path par name s)"
  unfolding namex_def bind_flat using assms
  by (intro keeps [THEN ensures_bind] keeps [THEN ensures_weaken] ensures_intros) (auto dest: fs_rest_icache simp: fs_idup_def idup_def)

lemma namei_keeps [keeps]:
  assumes "dev_keeps_read dr" and "cwd < length (icache s)"
  shows "ensures (\<lambda>(r, s'). fs_kept s s' \<and> (\<forall>ip'. r = Some ip' \<longrightarrow> ip' < length (icache s))) (namei dr cwd path s)"
  unfolding namei_def using assms by (intro keeps [THEN ensures_bind] keeps [THEN ensures_weaken] ensures_intros) auto

lemma nameiparent_keeps [keeps]:
  assumes "dev_keeps_read dr" and "cwd < length (icache s)"
  shows "ensures (\<lambda>(r, name', s'). fs_kept s s' \<and> (\<forall>ip'. r = Some ip' \<longrightarrow> ip' < length (icache s)))
           (nameiparent dr cwd path name s)"
  unfolding nameiparent_def using assms by (rule keeps)

end
