(* ===== verification/SysInv.thy ===== *)
theory SysInv
  imports Sysfile FsFrame
begin

text \<open>
  The invariant of the open file layer and that every file system call keeps it: reference counts
  are exact, open files have the object their type promises, the two ends of a pipe are at most
  two files, and the page of a live pipe is not on the free list.  The references held by other
  processes, and those that a call holds itself between two steps, are the argument \<open>oth\<close>.
\<close>

declare filewrite_loop.simps [simp del] isdirempty_loop.simps [simp del]

section \<open>Invariant\<close>

definition refs_ok :: "(nat \<Rightarrow> nat) \<Rightarrow> ofile list \<Rightarrow> nat option list \<Rightarrow> bool" where
  "refs_ok oth ft fds \<longleftrightarrow>
     (\<forall>f < length ft. f_ref (ft ! f) = int (count_list fds (Some f) + oth f)) \<and>
     (\<forall>f. Some f \<in> set fds \<or> 0 < oth f \<longrightarrow> f < length ft)"

definition file_typed :: "nat \<Rightarrow> (nat \<Rightarrow> pipe option) \<Rightarrow> ofile \<Rightarrow> bool" where
  "file_typed ni ps f \<longleftrightarrow>
     (case f_type f of
        FD_NONE \<Rightarrow> True
      | FD_INODE \<Rightarrow> 0 < f_ref f \<and> (\<exists>ip < ni. f_ip f = Some ip)
      | FD_PIPE \<Rightarrow> 0 < f_ref f \<and> (\<exists>pp p. f_pipe f = Some pp \<and> ps pp = Some p \<and>
                      (if f_writable f then p_writeopen p else p_readopen p)))"

definition pipe_ends :: "ofile list \<Rightarrow> bool" where
  "pipe_ends ft \<longleftrightarrow>
     (\<forall>f < length ft. \<forall>g < length ft.
        f_type (ft ! f) = FD_PIPE \<and> f_type (ft ! g) = FD_PIPE \<and> f_pipe (ft ! f) = f_pipe (ft ! g) \<and>
        f_writable (ft ! f) = f_writable (ft ! g) \<longrightarrow> f = g)"

definition pipe_pages :: "uint \<Rightarrow> kmem \<Rightarrow> (nat \<Rightarrow> pipe option) \<Rightarrow> bool" where
  "pipe_pages kend k ps \<longleftrightarrow>
     (\<exists>free. kmem_inv kend k free \<and>
        (\<forall>pp p. ps pp = Some p \<longrightarrow> pipe_inv p \<and>
           (\<exists>pg. pp = unat pg \<and> page_ok kend pg \<and> pg \<noteq> 0 \<and> pg \<notin> set free)))"

definition files_ok :: "uint \<Rightarrow> (nat \<Rightarrow> nat) \<Rightarrow> 'a kfs_scheme \<Rightarrow> bool" where
  "files_ok kend oth s \<longleftrightarrow>
     length (u_ofile s) = NOFILE \<and> u_cwd s < length (icache s) \<and> refs_ok oth (ftab s) (u_ofile s) \<and>
     (\<forall>f < length (ftab s). file_typed (length (icache s)) (pipes s) (ftab s ! f)) \<and>
     pipe_ends (ftab s) \<and> pipe_pages kend (kpages s) (pipes s)"

text \<open>Descriptors refer to open files.\<close>

definition fds_open :: "'a kfs_scheme \<Rightarrow> bool" where
  "fds_open s \<longleftrightarrow> (\<forall>f. Some f \<in> set (u_ofile s) \<longrightarrow> f_type (ftab s ! f) \<noteq> FD_NONE)"

definition sys_ok :: "uint \<Rightarrow> (nat \<Rightarrow> nat) \<Rightarrow> 'a kfs_scheme \<Rightarrow> bool" where
  "sys_ok kend oth s \<longleftrightarrow> files_ok kend oth s \<and> fds_open s"

lemma kfs_rest:
  fixes s s' :: "'a kfs_scheme"
  assumes "fs_rest s' = fs_rest s"
  shows "ftab s' = ftab s" "kpages s' = kpages s" "pipes s' = pipes s" "u_sz s' = u_sz s" "u_mem s' = u_mem s"
    "u_esp s' = u_esp s" "u_ofile s' = u_ofile s" "u_cwd s' = u_cwd s" "u_killed s' = u_killed s"
    "length (icache s') = length (icache s)"
  using assms by (cases s; cases s'; simp add: fs_rest_def)+

lemma files_ok_kept:
  assumes "fs_rest s' = fs_rest s"
  shows "files_ok kend oth s' = files_ok kend oth s"
  by (simp add: files_ok_def kfs_rest [OF assms])

lemma fds_open_kept:
  assumes "fs_rest s' = fs_rest s"
  shows "fds_open s' = fds_open s"
  by (simp add: fds_open_def kfs_rest [OF assms])

lemma sys_ok_kept:
  assumes "fs_rest s' = fs_rest s"
  shows "sys_ok kend oth s' = sys_ok kend oth s"
  by (simp add: sys_ok_def files_ok_kept [OF assms] fds_open_kept [OF assms])

lemma sys_ok_mem [simp]: "sys_ok kend oth (s\<lparr>u_mem := m\<rparr>) = sys_ok kend oth s"
  by (simp add: sys_ok_def files_ok_def fds_open_def)

lemma upd_file_frame [simp]: "u_ofile (upd_file f g s) = u_ofile s" "length (ftab (upd_file f g s)) = length (ftab s)"
  by (simp_all add: upd_file_def)

section \<open>Reference counts\<close>

lemma count_list_update:
  assumes "i < length xs"
  shows "count_list (xs[i := y]) x + (if xs ! i = x then 1 else 0) = count_list xs x + (if y = x then 1 else 0)"
  using assms
proof (induction xs arbitrary: i)
  case (Cons z zs)
  then show ?case by (cases i) (force split: if_splits)+
qed simp

lemma count_list_pos: "x \<in> set xs \<Longrightarrow> 0 < count_list xs x"
  using count_list_0_iff [of xs x] by fastforce

lemma refs_ok_ref:
  assumes "refs_ok oth ft fds" and "f < length ft" and "Some f \<in> set fds \<or> 0 < oth f"
  shows "1 \<le> f_ref (ft ! f)"
  using assms count_list_pos [of "Some f" fds] by (auto simp: refs_ok_def)

lemma refs_ok_update:
  assumes "refs_ok oth ft fds" and "f < length ft"
    and "f_ref x = f_ref (ft ! f) + int (h f) - int (oth f)" and "\<And>g. g \<noteq> f \<Longrightarrow> h g = oth g"
  shows "refs_ok h (ft[f := x]) fds"
proof -
  have "g < length ft" if "0 < h g" for g using that assms by (cases "g = f") (auto simp: refs_ok_def)
  then show ?thesis using assms by (auto simp: refs_ok_def nth_list_update)
qed

lemma refs_ok_fd:
  assumes "refs_ok oth ft fds" and "fd < length fds"
    and "\<And>g. h g + (if y = Some g then 1 else 0) = oth g + (if fds ! fd = Some g then 1 else 0)"
  shows "refs_ok h ft (fds[fd := y])"
proof -
  have "count_list (fds[fd := y]) (Some g) + h g = count_list fds (Some g) + oth g" for g
    using count_list_update [OF assms(2), of y "Some g"] assms(3) [of g] by (auto split: if_splits)
  moreover have "g < length ft" if "Some g \<in> set (fds[fd := y]) \<or> 0 < h g" for g
  proof -
    have "Some g \<in> set fds \<or> 0 < oth g"
      using that calculation [of g] count_list_pos [of "Some g" "fds[fd := y]"] count_list_0_iff [of fds "Some g"] by force
    then show ?thesis using assms(1) by (auto simp: refs_ok_def)
  qed
  ultimately show ?thesis using assms(1) by (auto simp: refs_ok_def)
qed

section \<open>Files and descriptors\<close>

lemma file_typed_off [simp]: "file_typed ni ps (x\<lparr>f_off := o1\<rparr>) = file_typed ni ps x"
  by (simp add: file_typed_def cong: ftype.case_cong)

definition end_open :: "bool \<Rightarrow> pipe \<Rightarrow> bool" where
  "end_open w p \<longleftrightarrow> (if w then p_writeopen p else p_readopen p)"

lemma file_typed_pipe:
  "f_type f = FD_PIPE \<Longrightarrow>
   file_typed ni ps f \<longleftrightarrow> 0 < f_ref f \<and> (\<exists>pp p. f_pipe f = Some pp \<and> ps pp = Some p \<and> end_open (f_writable f) p)"
  by (simp add: file_typed_def end_open_def)

lemma file_typed_pipes:
  assumes "file_typed ni ps f"
    and "\<And>pp p. \<lbrakk>f_type f = FD_PIPE; f_pipe f = Some pp; ps pp = Some p; end_open (f_writable f) p\<rbrakk> \<Longrightarrow>
           \<exists>p'. ps' pp = Some p' \<and> end_open (f_writable f) p'"
  shows "file_typed ni ps' f"
proof (cases "f_type f = FD_PIPE")
  case True
  then show ?thesis using assms by (auto simp: file_typed_pipe)
next
  case False
  then show ?thesis using assms(1) by (auto simp: file_typed_def split: ftype.splits)
qed

text \<open>Moving a file's offset changes nothing here.\<close>

lemma sys_ok_off [simp]: "sys_ok kend oth (upd_file f (\<lambda>x. x\<lparr>f_off := g x\<rparr>) s) = sys_ok kend oth s"
proof (cases "f < length (ftab s)")
  case True
  let ?ft = "(ftab s)[f := (ftab s ! f)\<lparr>f_off := g (ftab s ! f)\<rparr>]"
  have t: "f_ref (?ft ! k) = f_ref (ftab s ! k)" "f_type (?ft ! k) = f_type (ftab s ! k)" "f_pipe (?ft ! k) = f_pipe (ftab s ! k)"
      "f_writable (?ft ! k) = f_writable (ftab s ! k)" "f_ip (?ft ! k) = f_ip (ftab s ! k)" for k
    using True by (simp_all add: nth_list_update)
  have "file_typed ni ps (?ft ! k) = file_typed ni ps (ftab s ! k)" for ni ps k
    unfolding file_typed_def t ..
  then show ?thesis
    by (simp add: sys_ok_def files_ok_def fds_open_def upd_file_def refs_ok_def pipe_ends_def t del: nth_list_update_eq)
qed (simp add: upd_file_def list_update_beyond)

lemma pipe_endsD:
  "\<lbrakk>pipe_ends ft; f < length ft; g < length ft; f_type (ft ! f) = FD_PIPE; f_type (ft ! g) = FD_PIPE;
    f_pipe (ft ! f) = f_pipe (ft ! g); f_writable (ft ! f) = f_writable (ft ! g)\<rbrakk> \<Longrightarrow> f = g"
  unfolding pipe_ends_def by blast

lemma pipe_ends_drop:
  assumes "pipe_ends ft" and "f_type x \<noteq> FD_PIPE"
  shows "pipe_ends (ft[f := x])"
  unfolding pipe_ends_def
proof (intro allI impI, elim conjE)
  fix g h assume "g < length (ft[f := x])" "h < length (ft[f := x])" "f_type (ft[f := x] ! g) = FD_PIPE" "f_type (ft[f := x] ! h) = FD_PIPE"
    and e: "f_pipe (ft[f := x] ! g) = f_pipe (ft[f := x] ! h)" "f_writable (ft[f := x] ! g) = f_writable (ft[f := x] ! h)"
  then have l: "g < length ft" "h < length ft" and "g \<noteq> f" "h \<noteq> f" using assms(2) by auto
  then have n: "ft[f := x] ! g = ft ! g" "ft[f := x] ! h = ft ! h" by simp_all
  show "g = h" using assms(1) l e \<open>f_type (ft[f := x] ! g) = FD_PIPE\<close> \<open>f_type (ft[f := x] ! h) = FD_PIPE\<close> unfolding pipe_ends_def n by blast
qed

text \<open>A new file is a reference the caller holds.\<close>

lemma filealloc_ok:
  assumes "files_ok kend oth s" and "filealloc (ftab s) = (Some f, ft)"
  shows "files_ok kend (oth(f := Suc (oth f))) (s\<lparr>ftab := ft\<rparr>)" and "f < length ft" and "length ft = length (ftab s)"
    and "f_type (ft ! f) = FD_NONE" and "oth f = 0" and "Some f \<notin> set (u_ofile s)"
    and "fds_open s \<Longrightarrow> fds_open (s\<lparr>ftab := ft\<rparr>)"
proof -
  have f: "f < length (ftab s)" "f_ref (ftab s ! f) = 0" and ft: "ft = (ftab s)[f := (ftab s ! f)\<lparr>f_ref := 1\<rparr>]"
    using assms(2) by (auto simp: filealloc_def first_idx_Some_iff split: option.splits)
  have r: "refs_ok oth (ftab s) (u_ofile s)" and ty: "file_typed (length (icache s)) (pipes s) (ftab s ! f)"
    using assms(1) f by (auto simp: files_ok_def)
  have "f_type (ftab s ! f) = FD_NONE" using ty f(2) by (auto simp: file_typed_def split: ftype.splits)
  moreover have "\<not> 1 \<le> f_ref (ftab s ! f)" using f by simp
  ultimately show n: "f_type (ft ! f) = FD_NONE" "oth f = 0" "Some f \<notin> set (u_ofile s)"
    using refs_ok_ref [OF r f(1)] f(1) ft by auto
  show "f < length ft" "length ft = length (ftab s)" using f ft by simp_all
  show "fds_open (s\<lparr>ftab := ft\<rparr>)" if "fds_open s"
    using that n(3) unfolding fds_open_def ft by (auto simp: nth_list_update split: if_splits) (metis nth_list_update_neq)
  have "refs_ok (oth(f := Suc (oth f))) ft (u_ofile s)"
    unfolding ft using f by (intro refs_ok_update [OF r]) auto
  moreover have "file_typed (length (icache s)) (pipes s) (ft ! g)" if "g < length ft" for g
    using that assms(1) n(1) by (cases "g = f") (auto simp: files_ok_def ft file_typed_def)
  moreover have "pipe_ends ft"
    unfolding ft using assms(1) n(1) f(1) by (intro pipe_ends_drop) (auto simp: files_ok_def ft)
  ultimately show "files_ok kend (oth(f := Suc (oth f))) (s\<lparr>ftab := ft\<rparr>)"
    using assms(1) by (simp add: files_ok_def ft)
qed

text \<open>\<open>fdalloc\<close> hands the reference to the descriptor table.\<close>

lemma fdalloc_ok:
  assumes "files_ok kend (oth(f := Suc n)) s" and "fdalloc f s = (Some fd, s')"
  shows "files_ok kend (oth(f := n)) s'" and "ftab s' = ftab s" and "set (u_ofile s') \<subseteq> insert (Some f) (set (u_ofile s))"
    and "fs_rest s' = fs_rest (s\<lparr>u_ofile := u_ofile s'\<rparr>)" and "fd < NOFILE" and "u_ofile s' ! fd = Some f"
    and "u_ofile s' = (u_ofile s)[fd := Some f]" and "u_ofile s ! fd = None"
proof -
  have fd: "fd < length (u_ofile s)" "fd < NOFILE" "u_ofile s ! fd = None" and s': "s' = s\<lparr>u_ofile := (u_ofile s)[fd := Some f]\<rparr>"
    using assms(2) by (auto simp: fdalloc_def first_idx_Some_iff split: option.splits)
  show "ftab s' = ftab s" "set (u_ofile s') \<subseteq> insert (Some f) (set (u_ofile s))" "fd < NOFILE" "u_ofile s' ! fd = Some f"
      "fs_rest s' = fs_rest (s\<lparr>u_ofile := u_ofile s'\<rparr>)" "u_ofile s' = (u_ofile s)[fd := Some f]" "u_ofile s ! fd = None"
    using fd s' by (simp_all add: set_update_subset_insert)
  have "refs_ok (oth(f := n)) (ftab s) ((u_ofile s)[fd := Some f])"
    using assms(1) fd unfolding files_ok_def by (intro refs_ok_fd [where oth = "oth(f := Suc n)"]) auto
  then show "files_ok kend (oth(f := n)) s'" using assms(1) by (simp add: files_ok_def s')
qed

lemma fdalloc_None: "fdalloc f s = (None, s') \<Longrightarrow> s' = s"
  by (simp add: fdalloc_def split: option.splits)

text \<open>Clearing a descriptor leaves its reference with the caller.\<close>

lemma clear_fd_ok:
  assumes "files_ok kend oth s" and "fd < NOFILE" and "u_ofile s ! fd = Some f"
  shows "files_ok kend (oth(f := Suc (oth f))) (s\<lparr>u_ofile := (u_ofile s)[fd := None]\<rparr>)"
proof -
  have "refs_ok (oth(f := Suc (oth f))) (ftab s) ((u_ofile s)[fd := None])"
    using assms unfolding files_ok_def by (intro refs_ok_fd [where oth = oth]) auto
  then show ?thesis using assms(1) by (simp add: files_ok_def)
qed

lemma argfd_ok:
  assumes "files_ok kend oth s" and "argfd n s = Some (fd, f)"
  shows "fd < NOFILE" and "u_ofile s ! fd = Some f" and "Some f \<in> set (u_ofile s)" and "f < length (ftab s)" and "1 \<le> f_ref (ftab s ! f)"
proof -
  show fd: "fd < NOFILE" "u_ofile s ! fd = Some f"
    using assms(2) by (auto simp: argfd_def Let_def split: option.splits if_splits)
  have len: "length (u_ofile s) = NOFILE" and r: "refs_ok oth (ftab s) (u_ofile s)" using assms(1) by (auto simp: files_ok_def)
  show m: "Some f \<in> set (u_ofile s)" using fd len by (metis nth_mem)
  then show l: "f < length (ftab s)" using r by (auto simp: refs_ok_def)
  show "1 \<le> f_ref (ftab s ! f)" using refs_ok_ref [OF r l] m by blast
qed

section \<open>Closing\<close>

lemma pipe_shut_ok:
  assumes "pipe_shut w p = (p', dead)"
  shows "pipe_inv p' = pipe_inv p" and "dead \<longleftrightarrow> (if w then \<not> p_readopen p else \<not> p_writeopen p)"
    and "p_writeopen p' \<longleftrightarrow> \<not> w \<and> p_writeopen p" and "p_readopen p' \<longleftrightarrow> w \<and> p_readopen p"
  using assms by (cases w; auto simp: pipe_shut_def p_wake_def pipe_inv_def fill_def Let_def)+

text \<open>Closing one end of a pipe, once no file refers to that end any more.\<close>

lemma pipeclose_ok:
  assumes ok: "files_ok kend oth s" and p: "pipes s pp = Some p" and e: "if w then p_writeopen p else p_readopen p"
    and last: "\<And>g. \<lbrakk>g < length (ftab s); f_type (ftab s ! g) = FD_PIPE; f_pipe (ftab s ! g) = Some pp\<rbrakk> \<Longrightarrow> f_writable (ftab s ! g) \<noteq> w"
  shows "ensures (\<lambda>s'. files_ok kend oth s' \<and> u_ofile s' = u_ofile s \<and> ftab s' = ftab s) (pipeclose kend pp w s)"
proof -
  obtain free where k: "kmem_inv kend (kpages s) free"
      and pg: "\<And>q r. pipes s q = Some r \<Longrightarrow> pipe_inv r \<and> (\<exists>pg. q = unat pg \<and> page_ok kend pg \<and> pg \<noteq> 0 \<and> pg \<notin> set free)"
    using ok unfolding files_ok_def pipe_pages_def by blast
  obtain v where v: "pp = unat v" "page_ok kend v" "v \<noteq> 0" "v \<notin> set free" and pi: "pipe_inv p" using pg [OF p] by blast
  obtain p' dead where s: "pipe_shut w p = (p', dead)" by fastforce
  note sh = pipe_shut_ok [OF s]
  have other: "\<not> dead \<and> (if f_writable (ftab s ! g) then p_writeopen p' else p_readopen p')"
    if "g < length (ftab s)" "f_type (ftab s ! g) = FD_PIPE" "f_pipe (ftab s ! g) = Some pp" for g
    using last [OF that] ok that p sh by (auto simp: files_ok_def file_typed_def split: if_splits)
  have typed: "file_typed (length (icache s)) (pipes s) (ftab s ! g)" if "g < length (ftab s)" for g
    using ok that by (simp add: files_ok_def)
  show ?thesis
  proof (cases dead)
    case True
    obtain k' where k': "kfree kend (kpages s) v = Inr k'" "kmem_inv kend k' (v # free)"
      using kmem.free_page [OF k v(2,4,3)] by blast
    have "pipe_inv r \<and> (\<exists>pg. q = unat pg \<and> page_ok kend pg \<and> pg \<noteq> 0 \<and> pg \<notin> set (v # free))"
      if "((pipes s)(pp := None)) q = Some r" for q r
    proof -
      have q: "q \<noteq> pp" "pipes s q = Some r" using that by (auto split: if_splits)
      then show ?thesis using pg [OF q(2)] v(1) by auto
    qed
    then have "pipe_pages kend k' ((pipes s)(pp := None))"
      unfolding pipe_pages_def using k'(2) by blast
    moreover have "file_typed (length (icache s)) ((pipes s)(pp := None)) (ftab s ! g)" if "g < length (ftab s)" for g
      using other [OF that] True by (intro file_typed_pipes [OF typed [OF that]]) auto
    ultimately have "files_ok kend oth (s\<lparr>pipes := (pipes s)(pp := None), kpages := k'\<rparr>)"
      using ok by (simp add: files_ok_def)
    then show ?thesis using p s True k'(1) v(1) by (simp add: pipeclose_def)
  next
    case False
    have "pipe_pages kend (kpages s) ((pipes s)(pp \<mapsto> p'))"
      unfolding pipe_pages_def using k pg v pi sh(1) by (intro exI [of _ free] conjI) auto
    moreover have "file_typed (length (icache s)) ((pipes s)(pp \<mapsto> p')) (ftab s ! g)" if "g < length (ftab s)" for g
      using other [OF that] by (intro file_typed_pipes [OF typed [OF that]]) (auto simp: end_open_def)
    ultimately have "files_ok kend oth (s\<lparr>pipes := (pipes s)(pp \<mapsto> p')\<rparr>)"
      using ok by (simp add: files_ok_def)
    then show ?thesis using p s False by (simp add: pipeclose_def)
  qed
qed

text \<open>\<open>fileclose\<close> gives up a reference the caller holds.\<close>

lemma fileclose_ok:
  assumes ok: "files_ok kend (oth(f := Suc n)) s"
  shows "ensures (\<lambda>s'. files_ok kend (oth(f := n)) s' \<and> u_ofile s' = u_ofile s \<and> (fds_open s \<longrightarrow> fds_open s') \<and>
           (\<forall>g. g \<noteq> f \<longrightarrow> ftab s' ! g = ftab s ! g) \<and> length (ftab s') = length (ftab s)) (fileclose kend f s)"
proof -
  have r: "refs_ok (oth(f := Suc n)) (ftab s) (u_ofile s)" using ok by (simp add: files_ok_def)
  then have f: "f < length (ftab s)" by (auto simp: refs_ok_def)
  have ref: "f_ref (ftab s ! f) = int (count_list (u_ofile s) (Some f)) + int (Suc n)" using r f by (simp add: refs_ok_def)
  let ?ff = "ftab s ! f"
  have typed: "file_typed (length (icache s)) (pipes s) (ftab s ! g)" if "g < length (ftab s)" for g
    using ok that by (simp add: files_ok_def)
  show ?thesis
  proof (cases "1 < f_ref ?ff")
    case True
    let ?ft = "(ftab s)[f := ?ff\<lparr>f_ref := f_ref ?ff - 1\<rparr>]"
    have "refs_ok (oth(f := n)) ?ft (u_ofile s)" using f by (intro refs_ok_update [OF r]) auto
    moreover have "file_typed (length (icache s)) (pipes s) (?ft ! g)" if "g < length (ftab s)" for g
      using typed [OF that] True f by (cases "g = f") (auto simp: file_typed_def split: ftype.splits if_splits)
    moreover have t: "f_type (?ft ! g) = f_type (ftab s ! g)" "f_pipe (?ft ! g) = f_pipe (ftab s ! g)" "f_writable (?ft ! g) = f_writable (ftab s ! g)" for g
      using f by (simp_all add: nth_list_update)
    then have "pipe_ends ?ft" using ok by (simp add: files_ok_def pipe_ends_def)
    ultimately have "files_ok kend (oth(f := n)) (s\<lparr>ftab := ?ft\<rparr>)" using ok by (simp add: files_ok_def)
    then show ?thesis using True t by (simp add: fileclose_def upd_file_def fds_open_def Let_def)
  next
    case False
    then have one: "f_ref ?ff = 1" "n = 0" "Some f \<notin> set (u_ofile s)" using ref by (auto simp: count_list_0_iff [symmetric])
    let ?ft = "(ftab s)[f := ?ff\<lparr>f_ref := 0, f_type := FD_NONE\<rparr>]" let ?s = "s\<lparr>ftab := ?ft\<rparr>"
    have "refs_ok (oth(f := n)) ?ft (u_ofile s)" using f one by (intro refs_ok_update [OF r]) auto
    moreover have "file_typed (length (icache s)) (pipes s) (?ft ! g)" if "g < length (ftab s)" for g
      using typed [OF that] f by (cases "g = f") (auto simp: file_typed_def)
    moreover have "pipe_ends ?ft" using ok by (intro pipe_ends_drop) (auto simp: files_ok_def)
    ultimately have ok': "files_ok kend (oth(f := n)) ?s" using ok by (simp add: files_ok_def)
    have open': "fds_open s \<longrightarrow> fds_open ?s" using one(3) by (auto simp: fds_open_def) (metis nth_list_update_neq)
    have eq: "upd_file f (\<lambda>x. x\<lparr>f_ref := 0, f_type := FD_NONE\<rparr>) s = ?s" by (simp add: upd_file_def)
    show ?thesis
    proof (cases "f_type ?ff")
      case FD_NONE
      then show ?thesis using one ok' open' eq by (simp add: fileclose_def Let_def)
    next
      case FD_PIPE
      then obtain pp p where p: "f_pipe ?ff = Some pp" "pipes s pp = Some p" "if f_writable ?ff then p_writeopen p else p_readopen p"
        using typed [OF f] by (auto simp: file_typed_def)
      have pc: "ensures (\<lambda>s'. files_ok kend (oth(f := n)) s' \<and> u_ofile s' = u_ofile ?s \<and> ftab s' = ftab ?s) (pipeclose kend pp (f_writable ?ff) ?s)"
      proof (rule pipeclose_ok [OF ok'])
        show "f_writable (ftab ?s ! g) \<noteq> f_writable ?ff" if "g < length (ftab ?s)" "f_type (ftab ?s ! g) = FD_PIPE" "f_pipe (ftab ?s ! g) = Some pp" for g
        proof
          have gf: "g \<noteq> f" using that f by auto
          assume "f_writable (ftab ?s ! g) = f_writable ?ff"
          then show False using gf that FD_PIPE p(1) pipe_endsD [OF _ _ f, of g] ok by (simp add: files_ok_def)
        qed
      qed (use p in simp_all)
      have e: "fileclose kend f s = pipeclose kend pp (f_writable ?ff) ?s"
        using one(1) FD_PIPE p(1) eq by (simp add: fileclose_def Let_def)
      show ?thesis unfolding e by (rule ensures_weaken [OF pc]) (use open' in \<open>simp add: fds_open_def\<close>)
    next
      case FD_INODE
      then obtain ip where ip: "f_ip ?ff = Some ip" using typed [OF f] by (auto simp: file_typed_def)
      have fr: "ensures (\<lambda>s'. fs_rest s' = fs_rest ?s) (bindE (begin_op ?s) (\<lambda>s. bindE (iput ip s) (\<lambda>s. end_op s)))"
        by (intro keeps [THEN ensures_bind] keeps [THEN ensures_weaken]) auto
      have "files_ok kend (oth(f := n)) s' \<and> u_ofile s' = u_ofile s \<and> (fds_open s \<longrightarrow> fds_open s') \<and>
           (\<forall>g. g \<noteq> f \<longrightarrow> ftab s' ! g = ftab s ! g) \<and> length (ftab s') = length (ftab s)" if "fs_rest s' = fs_rest ?s" for s'
        using files_ok_kept [OF that] ok' open' fds_open_kept [OF that] kfs_rest [OF that] by simp
      then show ?thesis using one(1) FD_INODE ip eq ensures_weaken [OF fr] by (simp add: fileclose_def Let_def)
    qed
  qed
qed

section \<open>New pipes\<close>

lemma pipe_page_new:
  assumes "pipe_pages kend k ps" and "kalloc k = (pg, k')" and "pg \<noteq> 0" and "pipe_inv p"
  shows "pipe_pages kend k' (ps(unat pg \<mapsto> p))" and "ps (unat pg) = None"
proof -
  obtain free where fr: "kmem_inv kend k free"
      and pp: "\<And>q r. ps q = Some r \<Longrightarrow> pipe_inv r \<and> (\<exists>v. q = unat v \<and> page_ok kend v \<and> v \<noteq> 0 \<and> v \<notin> set free)"
    using assms(1) unfolding pipe_pages_def by blast
  obtain rest where rest: "free = pg # rest" using fr assms(2,3) kmem.alloc_empty [of kend k] kmem.alloc_page [of kend k] by (cases free) auto
  have k': "kmem_inv kend k' rest" using kmem.alloc_page [of kend k pg rest] fr assms(2) rest by auto
  have wf: "distinct free" "page_ok kend pg" using kmem.free_list_wf [OF fr] rest by auto
  show n: "ps (unat pg) = None"
  proof (rule ccontr)
    assume "ps (unat pg) \<noteq> None"
    then obtain r where "ps (unat pg) = Some r" by blast
    then show False using pp [of "unat pg" r] rest by (auto simp: word_eq_iff_unsigned [symmetric])
  qed
  have "pipe_inv r \<and> (\<exists>v. q = unat v \<and> page_ok kend v \<and> v \<noteq> 0 \<and> v \<notin> set rest)" if "(ps(unat pg \<mapsto> p)) q = Some r" for q r
  proof (cases "q = unat pg")
    case True
    then show ?thesis using that assms(3,4) wf rest by auto
  next
    case False
    then show ?thesis using that pp [of q r] rest by auto
  qed
  then show "pipe_pages kend k' (ps(unat pg \<mapsto> p))" unfolding pipe_pages_def using k' by blast
qed

lemma pipe_init_inv: "length junk = PIPESIZE \<Longrightarrow> pipe_inv (pipe_init junk) \<and> end_open w (pipe_init junk)"
  by (simp add: pipe_inv_def pipe_init_def fill_def end_open_def)

lemma new_pipe_ok:
  assumes ok: "files_ok kend oth s" and f: "f0 \<noteq> f1" "f0 < length (ftab s)" "f1 < length (ftab s)"
    "1 \<le> f_ref (ftab s ! f0)" "1 \<le> f_ref (ftab s ! f1)"
    and pg: "kalloc (kpages s) = (pg, k)" "pg \<noteq> 0" and p: "pipe_inv p" "p_readopen p" "p_writeopen p"
    and ft: "ft = (ftab s)[f0 := (ftab s ! f0)\<lparr>f_type := FD_PIPE, f_readable := True, f_writable := False, f_pipe := Some (unat pg)\<rparr>,
                           f1 := (ftab s ! f1)\<lparr>f_type := FD_PIPE, f_readable := False, f_writable := True, f_pipe := Some (unat pg)\<rparr>]"
  shows "files_ok kend oth (s\<lparr>kpages := k, pipes := (pipes s)(unat pg \<mapsto> p), ftab := ft\<rparr>)"
proof -
  have pgs: "pipe_pages kend (kpages s) (pipes s)" using ok by (simp add: files_ok_def)
  note new = pipe_page_new [OF pgs pg p(1)]
  have nth: "ft ! f0 = (ftab s ! f0)\<lparr>f_type := FD_PIPE, f_readable := True, f_writable := False, f_pipe := Some (unat pg)\<rparr>"
      "ft ! f1 = (ftab s ! f1)\<lparr>f_type := FD_PIPE, f_readable := False, f_writable := True, f_pipe := Some (unat pg)\<rparr>"
      "\<And>g. g \<noteq> f0 \<Longrightarrow> g \<noteq> f1 \<Longrightarrow> ft ! g = ftab s ! g" and len: "length ft = length (ftab s)"
    using f ft by simp_all
  have typed: "file_typed (length (icache s)) (pipes s) (ftab s ! g)" if "g < length (ftab s)" for g
    using ok that by (simp add: files_ok_def)
  have old: "f_pipe (ftab s ! g) \<noteq> Some (unat pg)" if "g < length (ftab s)" "f_type (ftab s ! g) = FD_PIPE" for g
    using typed [OF that(1)] that(2) new(2) by (auto simp: file_typed_pipe)
  have "file_typed (length (icache s)) ((pipes s)(unat pg \<mapsto> p)) (ft ! g)" if g: "g < length (ftab s)" for g
  proof (cases "g = f0 \<or> g = f1")
    case True
    then show ?thesis using f p nth by (auto simp: file_typed_def)
  next
    case False
    then show ?thesis using nth(3) [of g] old [OF g] by (auto intro!: file_typed_pipes [OF typed [OF g]])
  qed
  moreover have "refs_ok oth ft (u_ofile s)"
  proof -
    have "f_ref (ft ! g) = f_ref (ftab s ! g)" for g using nth by (cases "g = f0 \<or> g = f1") auto
    then show ?thesis using ok len by (simp add: files_ok_def refs_ok_def)
  qed
  moreover have "pipe_ends ft"
    unfolding pipe_ends_def
  proof (intro allI impI, elim conjE)
    fix g h assume a: "g < length ft" "h < length ft" "f_type (ft ! g) = FD_PIPE" "f_type (ft ! h) = FD_PIPE"
      "f_pipe (ft ! g) = f_pipe (ft ! h)" "f_writable (ft ! g) = f_writable (ft ! h)"
    have x: "f_pipe (ft ! j) = Some (unat pg) \<longleftrightarrow> j = f0 \<or> j = f1" if "j < length ft" "f_type (ft ! j) = FD_PIPE" for j
      using that old [of j] nth len by (cases "j = f0 \<or> j = f1") auto
    show "g = h"
    proof (cases "f_pipe (ft ! g) = Some (unat pg)")
      case True
      then show ?thesis using x [OF a(1,3)] x [OF a(2,4)] a(5,6) nth by auto
    next
      case False
      then have e: "ft ! g = ftab s ! g" "ft ! h = ftab s ! h" using x [OF a(1,3)] x [OF a(2,4)] a(5) nth(3) by auto
      show ?thesis using ok a unfolding files_ok_def e len by (metis pipe_endsD)
    qed
  qed
  ultimately show ?thesis using ok new(1) len by (simp add: files_ok_def)
qed

lemma pipealloc_ok:
  assumes ok: "sys_ok kend oth s"
  shows "ensures (\<lambda>(r, s'). u_ofile s' = u_ofile s \<and>
     (case r of None \<Rightarrow> sys_ok kend oth s'
      | Some (f0, f1) \<Rightarrow> f0 \<noteq> f1 \<and> sys_ok kend (oth(f0 := Suc (oth f0), f1 := Suc (oth f1))) s' \<and>
          f_type (ftab s' ! f0) \<noteq> FD_NONE \<and> f_type (ftab s' ! f1) \<noteq> FD_NONE)) (pipealloc kend s)"
proof -
  have s0: "files_ok kend oth s" "fds_open s" using ok by (auto simp: sys_ok_def)
  obtain r0 ft0 where a0: "filealloc (ftab s) = (r0, ft0)" by fastforce
  show ?thesis
  proof (cases r0)
    case None
    then show ?thesis using a0 ok by (simp add: pipealloc_def)
  next
    case (Some f0)
    note A = filealloc_ok [OF s0(1) a0 [unfolded Some]]
    let ?s1 = "s\<lparr>ftab := ft0\<rparr>" let ?o1 = "oth(f0 := Suc (oth f0))"
    obtain r1 ft1 where a1: "filealloc ft0 = (r1, ft1)" by fastforce
    show ?thesis
    proof (cases r1)
      case None
      have "ensures (\<lambda>s'. u_ofile s' = u_ofile s \<and> sys_ok kend oth s') (fileclose kend f0 ?s1)"
        using A(7) [OF s0(2)] by (intro ensures_weaken [OF fileclose_ok [OF A(1)]]) (auto simp: sys_ok_def)
      then show ?thesis using a0 a1 Some None
        by (auto simp: pipealloc_def intro!: ensures_bind)
    next
      case (Some f1)
      have a1': "filealloc (ftab ?s1) = (Some f1, ft1)" using a1 Some by simp
      note B = filealloc_ok [OF A(1) a1']
      let ?s2 = "s\<lparr>ftab := ft1\<rparr>" let ?o2 = "oth(f0 := Suc (oth f0), f1 := Suc (oth f1))"
      have ne: "f0 \<noteq> f1" using B(5) by auto
      have s2: "files_ok kend ?o2 ?s2" "fds_open ?s2" using B(1) B(7) [OF A(7) [OF s0(2)]] ne by simp_all
      have l: "f0 < length ft1" "f1 < length ft1" using A(2) B(2,3) by simp_all
      have refs: "refs_ok ?o2 ft1 (u_ofile s)" using s2(1) by (simp add: files_ok_def)
      have refs': "1 \<le> f_ref (ft1 ! f0)" "1 \<le> f_ref (ft1 ! f1)" using refs_ok_ref [OF refs] l ne by auto
      obtain pg k where k: "kalloc (kpages s) = (pg, k)" by fastforce
      show ?thesis
      proof (cases "pg = 0")
        case True
        have o0: "files_ok kend ((oth(f1 := Suc (oth f1)))(f0 := Suc (oth f0))) ?s2" using s2(1) ne by (simp add: fun_upd_twist)
        have "ensures (\<lambda>s'. files_ok kend (oth(f1 := Suc (oth f1))) s' \<and> u_ofile s' = u_ofile s \<and> fds_open s') (fileclose kend f0 ?s2)"
          using s2(2) ne by (intro ensures_weaken [OF fileclose_ok [OF o0]]) (auto simp: fun_upd_idem)
        moreover have "ensures (\<lambda>s''. u_ofile s'' = u_ofile s \<and> sys_ok kend oth s'') (fileclose kend f1 s')"
          if "files_ok kend (oth(f1 := Suc (oth f1))) s' \<and> u_ofile s' = u_ofile s \<and> fds_open s'" for s'
          using that by (intro ensures_weaken [OF fileclose_ok, of kend oth f1 "oth f1" s']) (auto simp: sys_ok_def)
        ultimately show ?thesis using a0 a1 \<open>r0 = Some f0\<close> Some k True
          by (auto simp: pipealloc_def Let_def intro!: ensures_bind)
      next
        case False
        let ?junk = "map (\<lambda>j. kbytes k (pg + 52 + word_of_nat j)) [0..<PIPESIZE]"
        let ?p = "pipe_init ?junk"
        let ?ft = "ft1[f0 := (ft1 ! f0)\<lparr>f_type := FD_PIPE, f_readable := True, f_writable := False, f_pipe := Some (unat pg)\<rparr>,
                       f1 := (ft1 ! f1)\<lparr>f_type := FD_PIPE, f_readable := False, f_writable := True, f_pipe := Some (unat pg)\<rparr>]"
        have pi: "pipe_inv ?p" "p_readopen ?p" "p_writeopen ?p" using pipe_init_inv [of ?junk] by (simp_all add: pipe_init_def)
        have fo: "files_ok kend ?o2 (?s2\<lparr>kpages := k, pipes := (pipes ?s2)(unat pg \<mapsto> ?p), ftab := ?ft\<rparr>)"
          using l refs' k False ne pi by (intro new_pipe_ok [OF s2(1) ne]) simp_all
        have "fds_open (?s2\<lparr>kpages := k, pipes := (pipes ?s2)(unat pg \<mapsto> ?p), ftab := ?ft\<rparr>)"
          using s2(2) l by (simp add: fds_open_def nth_list_update)
        then show ?thesis using fo a0 a1 \<open>r0 = Some f0\<close> Some k False ne l
          by (simp add: pipealloc_def Let_def upd_file_def sys_ok_def)
      qed
    qed
  qed
qed

section \<open>Reading and writing\<close>

lemma sys_ok_pipe:
  assumes ok: "sys_ok kend oth s" and p: "pipes s pp = Some p"
    and p': "pipe_inv p'" "p_readopen p' = p_readopen p" "p_writeopen p' = p_writeopen p"
  shows "sys_ok kend oth (s\<lparr>pipes := (pipes s)(pp \<mapsto> p')\<rparr>)"
proof -
  have "pipe_pages kend (kpages s) ((pipes s)(pp \<mapsto> p'))"
    using ok p p'(1) unfolding sys_ok_def files_ok_def pipe_pages_def by (auto split: if_splits)
  moreover have "file_typed ni ((pipes s)(pp \<mapsto> p')) x" if "file_typed ni (pipes s) x" for ni x
    using p p'(2,3) by (intro file_typed_pipes [OF that]) (auto simp: end_open_def)
  ultimately show ?thesis using ok by (simp add: sys_ok_def files_ok_def fds_open_def)
qed

lemma sys_ok_file:
  assumes "sys_ok kend oth s" and "Some f \<in> set (u_ofile s)"
  shows "f_type (ftab s ! f) = FD_INODE \<and> (\<exists>ip. f_ip (ftab s ! f) = Some ip) \<or>
    f_type (ftab s ! f) = FD_PIPE \<and> (\<exists>pp p. f_pipe (ftab s ! f) = Some pp \<and> pipes s pp = Some p \<and> pipe_inv p)"
proof -
  have "f < length (ftab s)" "f_type (ftab s ! f) \<noteq> FD_NONE" using assms by (auto simp: sys_ok_def files_ok_def refs_ok_def fds_open_def)
  then have t: "file_typed (length (icache s)) (pipes s) (ftab s ! f)" using assms(1) by (simp add: sys_ok_def files_ok_def)
  have "pipe_inv p" if "pipes s pp = Some p" for pp p
    using assms(1) that unfolding sys_ok_def files_ok_def pipe_pages_def by blast
  then show ?thesis using t \<open>f_type (ftab s ! f) \<noteq> FD_NONE\<close> by (fastforce simp: file_typed_def split: ftype.splits)
qed

text \<open>After a transfer of \<open>r\<close> bytes the file's offset moves, and the inode is unlocked.\<close>

lemma advance_ok:
  assumes "sys_ok kend oth s"
    and "fs_rest s' = fs_rest (advance f r s1)" and "fs_rest s1 = fs_rest s"
  shows "sys_ok kend oth s'" and "u_ofile s' = u_ofile s" and "f_ip (ftab s' ! f) = f_ip (ftab s ! f)" and "length (ftab s') = length (ftab s)"
proof -
  note k = kfs_rest [OF assms(3)] and k' = kfs_rest [OF assms(2)]
  have a: "sys_ok kend oth (advance f r s1) = sys_ok kend oth s1" "u_ofile (advance f r s1) = u_ofile s1"
      "length (ftab (advance f r s1)) = length (ftab s1)" by (simp_all add: advance_def)
  show "sys_ok kend oth s'" using sys_ok_kept [OF assms(2)] sys_ok_kept [OF assms(3)] assms(1) a by simp
  show "u_ofile s' = u_ofile s" "length (ftab s') = length (ftab s)" using k k' a by simp_all
  have "f_ip (ftab (advance f r s1) ! f) = f_ip (ftab s1 ! f)"
    by (cases "f < length (ftab s1)") (simp_all add: advance_def upd_file_def list_update_beyond)
  then show "f_ip (ftab s' ! f) = f_ip (ftab s ! f)" using k k' by simp
qed

lemma advance_cong: "fs_rest s' = fs_rest s \<Longrightarrow> fs_rest (advance f r s') = fs_rest (advance f r s)"
  by (cases s; cases s') (simp add: fs_rest_def advance_def upd_file_def)

lemma fileread_ok:
  assumes ok: "sys_ok kend oth s" and f: "Some f \<in> set (u_ofile s)" and dr: "dev_keeps_read dr"
  shows "ensures (\<lambda>(r, s'). sys_ok kend oth s' \<and> u_ofile s' = u_ofile s) (fileread dr f n s)"
  using sys_ok_file [OF ok f]
proof (elim disjE conjE exE)
  fix ip assume t: "f_type (ftab s ! f) = FD_INODE" "f_ip (ftab s ! f) = Some ip"
  show ?thesis unfolding fileread_def bind_flat using ok t dr
    by (intro keeps [THEN ensures_bind] ensures_intros) (auto intro: advance_ok [OF ok])
next
  fix pp p assume t: "f_type (ftab s ! f) = FD_PIPE" "f_pipe (ftab s ! f) = Some pp" "pipes s pp = Some p" "pipe_inv p"
  obtain r p' where r: "piperead (u_killed s) n p = (r, p')" by fastforce
  then show ?thesis using t sys_ok_pipe [OF ok t(3)] piperead_ok [OF t(4) r] ok by (simp add: fileread_def Let_def)
qed

lemma filewrite_loop_ok:
  assumes "sys_ok kend oth s" and "f_ip (ftab s ! f) = Some ip" and "dev_keeps_write dw"
  shows "ensures (\<lambda>(r, s'). sys_ok kend oth s' \<and> u_ofile s' = u_ofile s) (filewrite_loop dw f src s)"
  using assms(1,2)
proof (induction "length src" arbitrary: src s rule: less_induct)
  case less
  note adv = advance_ok [OF less(2), where f = f]
  have wm: "0 < write_max" by (simp add: write_max_def LOGSIZE_def MAXOPBLOCKS_def)
  have IH: "ensures (\<lambda>(r, s''). sys_ok kend oth s'' \<and> u_ofile s'' = u_ofile s) (filewrite_loop dw f (drop n src) s')"
    if "src \<noteq> []" "n = min (length src) write_max" "fs_rest s' = fs_rest (advance f (int n) s)" for s' n
    using less(1) [of "drop n src" s'] that(1,2) adv [OF that(3) refl] less(3) wm by (simp add: min_def)
  show ?case unfolding filewrite_loop.simps [of dw f src s] using assms(3) less(2,3)
    by (intro keeps [THEN ensures_bind] ensures_intros IH) (auto intro: adv advance_cong)
qed

lemma filewrite_ok:
  assumes ok: "sys_ok kend oth s" and f: "Some f \<in> set (u_ofile s)" and dw: "dev_keeps_write dw"
  shows "ensures (\<lambda>(r, s'). sys_ok kend oth s' \<and> u_ofile s' = u_ofile s) (filewrite dw f src n s)"
  using sys_ok_file [OF ok f]
proof (elim disjE conjE exE)
  fix ip assume t: "f_type (ftab s ! f) = FD_INODE" "f_ip (ftab s ! f) = Some ip"
  show ?thesis unfolding filewrite_def using ok t
    by (intro filewrite_loop_ok [OF ok t(2) dw, THEN ensures_bind] ensures_intros) auto
next
  fix pp p assume t: "f_type (ftab s ! f) = FD_PIPE" "f_pipe (ftab s ! f) = Some pp" "pipes s pp = Some p" "pipe_inv p"
  obtain r p' where r: "pipewrite (u_killed s) n src p = (r, p')" by fastforce
  then show ?thesis using t sys_ok_pipe [OF ok t(3)] pipewrite_ok [OF t(4) r] ok by (simp add: filewrite_def Let_def)
qed

section \<open>Calls that only work on the file system\<close>

abbreviation kept_inode :: "'a fsdev_scheme \<Rightarrow> nat option \<times> 'a fsdev_scheme \<Rightarrow> bool" where
  "kept_inode s \<equiv> \<lambda>(r, s'). fs_kept s s' \<and> (\<forall>ip. r = Some ip \<longrightarrow> ip < length (icache s))"

lemma op_fail_keeps [keeps]: "ensures (\<lambda>(r, s'). fs_kept s s') (op_fail s)"
  unfolding op_fail_def by (intro keeps [THEN ensures_bind] ensures_intros) auto

lemma filestat_keeps [keeps]:
  "\<exists>ip. f_ip (ftab s ! f) = Some ip \<Longrightarrow> ensures (\<lambda>(r, s'). fs_kept s s') (filestat f s)"
  unfolding filestat_def by (intro keeps [THEN ensures_bind] keeps [THEN ensures_weaken] ensures_intros) auto

lemma link_bad_keeps [keeps]: "ensures (\<lambda>(r, s'). fs_kept s s') (link_bad ip s)"
  unfolding link_bad_def by (intro keeps [THEN ensures_bind] keeps [THEN ensures_weaken] ensures_intros) auto

lemma isdirempty_keeps [keeps]:
  assumes "dev_keeps_read dr"
  shows "ensures (\<lambda>(r, s'). fs_kept s s') (isdirempty dr dp s)"
proof -
  have "ensures (\<lambda>(r, s'). fs_kept s s') (isdirempty_loop dr dp sz off s)" for sz off s
  proof (induction "sz - off" arbitrary: off s rule: less_induct)
    case less
    note IH = less [of "off + 16"]
    show ?case unfolding isdirempty_loop.simps [of dr dp sz off s] using assms
      by (intro IH [THEN ensures_weaken] keeps [THEN ensures_bind] keeps [THEN ensures_weaken] ensures_intros) auto
  qed
  then show ?thesis by (simp add: isdirempty_def)
qed

lemma cwd_kept: "fs_rest s' = fs_rest s \<Longrightarrow> u_cwd s < length (icache s) \<Longrightarrow> u_cwd s' < length (icache s')"
  using kfs_rest(8,10) by metis

lemma index_kept: "ip < length (icache x) \<Longrightarrow> fs_rest x = fs_rest s \<Longrightarrow> fs_rest s' = fs_rest s \<Longrightarrow> ip < length (icache s')"
  by (simp add: fs_rest_def)

lemma create_keeps [keeps]:
  fixes s :: "'a kfs_scheme"
  assumes "dev_keeps_read dr" and "dev_keeps_write dw" and "u_cwd s < length (icache s)"
  shows "ensures (kept_inode s) (create dr dw path type major minor s)"
  unfolding create_def bind_flat using assms
  by (intro keeps [THEN ensures_bind] keeps [THEN ensures_weaken] ensures_intros) (auto dest: fs_rest_icache)

lemma open_inode_keeps [keeps]:
  fixes s :: "'a kfs_scheme"
  assumes "dev_keeps_read dr" and "dev_keeps_write dw" and "u_cwd s < length (icache s)"
  shows "ensures (kept_inode s) (open_inode dr dw path omode s)"
  unfolding open_inode_def using assms
  by (intro keeps [THEN ensures_bind] keeps [THEN ensures_weaken] ensures_intros) (auto dest: fs_rest_icache)

lemma sys_link_keeps [keeps]:
  fixes s :: "'a kfs_scheme"
  assumes "dev_keeps_read dr" and "dev_keeps_write dw" and "u_cwd s < length (icache s)"
  shows "ensures (\<lambda>(r, s'). fs_kept s s') (sys_link dr dw s)"
  unfolding sys_link_def bind_flat using assms
  by (intro keeps [THEN ensures_bind] keeps [THEN ensures_weaken] ensures_intros) (auto intro: cwd_kept)

lemma sys_unlink_keeps [keeps]:
  fixes s :: "'a kfs_scheme"
  assumes "dev_keeps_read dr" and "dev_keeps_write dw" and "u_cwd s < length (icache s)"
  shows "ensures (\<lambda>(r, s'). fs_kept s s') (sys_unlink dr dw s)"
  unfolding sys_unlink_def bind_flat using assms
  by (intro keeps [THEN ensures_bind] keeps [THEN ensures_weaken] ensures_intros) (auto intro: cwd_kept)

lemma sys_mkdir_keeps [keeps]:
  fixes s :: "'a kfs_scheme"
  assumes "dev_keeps_read dr" and "dev_keeps_write dw" and "u_cwd s < length (icache s)"
  shows "ensures (\<lambda>(r, s'). fs_kept s s') (sys_mkdir dr dw s)"
  unfolding sys_mkdir_def using assms
  by (intro keeps [THEN ensures_bind] keeps [THEN ensures_weaken] ensures_intros) (auto intro: cwd_kept)

lemma sys_mknod_keeps [keeps]:
  fixes s :: "'a kfs_scheme"
  assumes "dev_keeps_read dr" and "dev_keeps_write dw" and "u_cwd s < length (icache s)"
  shows "ensures (\<lambda>(r, s'). fs_kept s s') (sys_mknod dr dw s)"
  unfolding sys_mknod_def using assms
  by (intro keeps [THEN ensures_bind] keeps [THEN ensures_weaken] ensures_intros) (auto intro: cwd_kept)

lemma sys_ok_cwd: "sys_ok kend oth s \<Longrightarrow> u_cwd s < length (icache s)"
  by (simp add: sys_ok_def files_ok_def)

lemma kept_sys_ok:
  assumes "sys_ok kend oth s" and "ensures (\<lambda>(r, s'). fs_kept s s') c"
  shows "ensures (\<lambda>(r, s'). sys_ok kend oth s') c"
  using assms(1) by (intro ensures_weaken [OF assms(2)]) (auto dest: sys_ok_kept)

section \<open>Every call keeps the invariant\<close>

lemma sys_chdir_ok:
  fixes s :: "'a kfs_scheme"
  assumes ok: "sys_ok kend oth s" and dr: "dev_keeps_read dr"
  shows "ensures (\<lambda>(r, s'). sys_ok kend oth s') (sys_chdir dr s)"
proof -
  have c: "u_cwd s < length (icache s)" by (rule sys_ok_cwd [OF ok])
  have k: "sys_ok kend oth s'" if "fs_rest s' = fs_rest s" for s' using sys_ok_kept [OF that] ok by simp
  have k': "sys_ok kend oth (s'\<lparr>u_cwd := ip\<rparr>)" if "fs_rest s' = fs_rest s" "ip < length (icache x)" "fs_rest x = fs_rest s" for s' x ip
    using k [OF that(1)] kfs_rest(10) [OF that(1)] kfs_rest(10) [OF that(3)] that(2) by (simp add: sys_ok_def files_ok_def fds_open_def)
  show ?thesis unfolding sys_chdir_def using dr c
    by (intro keeps [THEN ensures_bind] keeps [THEN ensures_weaken] ensures_intros)
      (auto intro: cwd_kept k k' dest: fs_rest_icache)
qed

lemma sys_dup_ok:
  assumes ok: "sys_ok kend oth s"
  shows "ensures (\<lambda>(r, s'). sys_ok kend oth s') (sys_dup s)"
proof (cases "argfd 0 s")
  case (Some a)
  obtain fd f where a: "a = (fd, f)" by (cases a)
  have fo: "files_ok kend oth s" using ok by (simp add: sys_ok_def)
  note F = argfd_ok [OF fo Some [unfolded a]]
  obtain r s1 where s1: "fdalloc f s = (r, s1)" by fastforce
  show ?thesis
  proof (cases r)
    case None
    then show ?thesis using Some a s1 fdalloc_None [of f s s1] ok by (simp add: sys_dup_def)
  next
    case (Some nfd)
    let ?ft = "(ftab s)[f := (ftab s ! f)\<lparr>f_ref := f_ref (ftab s ! f) + 1\<rparr>]"
    have fd: "nfd < length (u_ofile s)" "u_ofile s ! nfd = None" and e: "s1 = s\<lparr>u_ofile := (u_ofile s)[nfd := Some f]\<rparr>"
      using s1 Some by (auto simp: fdalloc_def first_idx_Some_iff split: option.splits)
    have same: "f_type (?ft ! g) = f_type (ftab s ! g)" "f_pipe (?ft ! g) = f_pipe (ftab s ! g)" "f_writable (?ft ! g) = f_writable (ftab s ! g)"
        "f_ip (?ft ! g) = f_ip (ftab s ! g)" "0 < f_ref (ftab s ! g) \<Longrightarrow> 0 < f_ref (?ft ! g)" for g
      using F(4) by (simp_all add: nth_list_update)
    have "refs_ok (oth(f := Suc (oth f))) ?ft (u_ofile s)"
      using fo F(4) by (intro refs_ok_update [where oth = oth]) (auto simp: files_ok_def)
    moreover have "pipe_ends ?ft" using fo by (simp add: files_ok_def pipe_ends_def same)
    moreover have "file_typed (length (icache s)) (pipes s) (?ft ! g)" if "g < length (ftab s)" for g
      using fo that same [of g] by (auto simp: files_ok_def file_typed_def split: ftype.splits)
    ultimately have "files_ok kend (oth(f := Suc (oth f))) (s\<lparr>ftab := ?ft\<rparr>)" using fo by (simp add: files_ok_def)
    moreover have "fdalloc f (s\<lparr>ftab := ?ft\<rparr>) = (Some nfd, s\<lparr>ftab := ?ft, u_ofile := (u_ofile s)[nfd := Some f]\<rparr>)"
      using s1 Some by (auto simp: fdalloc_def split: option.splits)
    ultimately have "files_ok kend oth (s\<lparr>ftab := ?ft, u_ofile := (u_ofile s)[nfd := Some f]\<rparr>)"
      using fdalloc_ok(1) [of kend oth f "oth f"] by fastforce
    moreover have "fds_open (s\<lparr>ftab := ?ft, u_ofile := (u_ofile s)[nfd := Some f]\<rparr>)"
      using ok F(3) set_update_subset_insert [of "u_ofile s" nfd "Some f"] unfolding sys_ok_def fds_open_def by (auto simp: same)
    moreover have "s\<lparr>ftab := ?ft, u_ofile := (u_ofile s)[nfd := Some f]\<rparr> = s1\<lparr>ftab := ?ft\<rparr>" by (cases s) (simp add: e)
    ultimately show ?thesis using \<open>argfd 0 s = Some a\<close> a s1 Some e F(5)
      by (simp add: sys_dup_def fs_filedup_def filedup_def sys_ok_def)
  qed
qed (simp add: sys_dup_def ok)

lemma sys_read_ok:
  assumes "sys_ok kend oth s" and "dev_keeps_read dr"
  shows "ensures (\<lambda>(r, s'). sys_ok kend oth s') (sys_read dr s)"
proof -
  have "Some f \<in> set (u_ofile s)" if "argfd 0 s = Some (fd, f)" for fd f
    using argfd_ok(3) [OF _ that] assms(1) by (auto simp: sys_ok_def)
  then show ?thesis unfolding sys_read_def using assms
    by (intro ensures_intros fileread_ok [THEN ensures_bind]) (auto split: pres.split)
qed

lemma sys_write_ok:
  assumes "sys_ok kend oth s" and "dev_keeps_write dw"
  shows "ensures (\<lambda>(r, s'). sys_ok kend oth s') (sys_write dw s)"
proof -
  have "Some f \<in> set (u_ofile s)" if "argfd 0 s = Some (fd, f)" for fd f
    using argfd_ok(3) [OF _ that] assms(1) by (auto simp: sys_ok_def)
  then show ?thesis unfolding sys_write_def using assms
    by (intro ensures_intros filewrite_ok [THEN ensures_bind]) (auto split: pres.split)
qed

lemma sys_close_ok:
  assumes ok: "sys_ok kend oth s"
  shows "ensures (\<lambda>(r, s'). sys_ok kend oth s') (sys_close kend s)"
proof (cases "argfd 0 s")
  case (Some a)
  obtain fd f where a: "a = (fd, f)" by (cases a)
  have fo: "files_ok kend oth s" using ok by (simp add: sys_ok_def)
  note F = argfd_ok [OF fo Some [unfolded a]]
  let ?s = "s\<lparr>u_ofile := (u_ofile s)[fd := None]\<rparr>"
  have "fds_open ?s" using ok set_update_subset_insert [of "u_ofile s" fd None] by (auto simp: sys_ok_def fds_open_def)
  then have "ensures (sys_ok kend oth) (fileclose kend f ?s)"
    by (intro ensures_weaken [OF fileclose_ok [OF clear_fd_ok [OF fo F(1,2)]]]) (auto simp: sys_ok_def)
  then show ?thesis using Some a by (auto simp: sys_close_def intro!: ensures_bind)
qed (simp add: sys_close_def ok)

lemma sys_fstat_ok:
  fixes s :: "'a kfs_scheme"
  assumes ok: "sys_ok kend oth s"
  shows "ensures (\<lambda>(r, s'). sys_ok kend oth s') (sys_fstat s)"
proof (cases "argfd 0 s")
  case (Some a)
  obtain fd f where a: "a = (fd, f)" by (cases a)
  have "Some f \<in> set (u_ofile s)" using argfd_ok(3) [OF _ Some [unfolded a]] ok by (auto simp: sys_ok_def)
  then have st: "ensures (\<lambda>(r, s'). fs_kept s s') (filestat f s)"
    using sys_ok_file [OF ok] filestat_keeps [of s f] by (fastforce simp: filestat_def)
  have k: "sys_ok kend oth s'" if "fs_rest s' = fs_rest s" for s' using sys_ok_kept [OF that] ok by simp
  have "ensures (\<lambda>(r, s'). sys_ok kend oth s')
      (bindE (filestat f s) (\<lambda>(r, s). case r of None \<Rightarrow> Inr (-1 :: int, s) | Some st \<Rightarrow> Inr (0, s\<lparr>u_mem := store_stat (u_mem s) p st\<rparr>)))" for p
    by (intro st [THEN ensures_bind] ensures_intros) (auto intro: k)
  then show ?thesis using Some a ok by (simp add: sys_fstat_def split: option.split)
qed (simp add: sys_fstat_def ok)

lemma sys_pipe_ok:
  fixes s :: "'a kfs_scheme"
  assumes ok: "sys_ok kend oth s"
  shows "ensures (\<lambda>(r, s'). sys_ok kend oth s') (sys_pipe kend s)"
proof -
  have close: "ensures (\<lambda>(r, s'). sys_ok kend oth s') (bindE (fileclose kend f0 s1) (\<lambda>s. bindE (fileclose kend f1 s) (\<lambda>s. Inr (-1 :: int, s))))"
    if ne: "f0 \<noteq> f1" and s1: "files_ok kend (oth(f0 := Suc (oth f0), f1 := Suc (oth f1))) s1" "fds_open s1" for f0 f1 and s1 :: "'a kfs_scheme"
  proof -
    have o0: "files_ok kend ((oth(f1 := Suc (oth f1)))(f0 := Suc (oth f0))) s1" using s1(1) ne by (simp add: fun_upd_twist)
    have "ensures (\<lambda>s'. files_ok kend (oth(f1 := Suc (oth f1))) s' \<and> fds_open s') (fileclose kend f0 s1)"
      using s1(2) ne by (intro ensures_weaken [OF fileclose_ok [OF o0]]) (auto simp: fun_upd_idem)
    moreover have "ensures (sys_ok kend oth) (fileclose kend f1 s')" if "files_ok kend (oth(f1 := Suc (oth f1))) s' \<and> fds_open s'" for s' :: "'a kfs_scheme"
      using that by (intro ensures_weaken [OF fileclose_ok, of kend oth f1 "oth f1" s']) (auto simp: sys_ok_def)
    ultimately show ?thesis by (auto intro!: ensures_bind)
  qed
  have rest: "ensures (\<lambda>(r, s'). sys_ok kend oth s') (pipe_fds kend fd f0 f1 s1)"
    if ne: "f0 \<noteq> f1" and s1: "sys_ok kend (oth(f0 := Suc (oth f0), f1 := Suc (oth f1))) s1"
      and ty: "f_type (ftab s1 ! f0) \<noteq> FD_NONE" "f_type (ftab s1 ! f1) \<noteq> FD_NONE" for f0 f1 fd and s1 :: "'a kfs_scheme"
  proof -
    have fo: "files_ok kend ((oth(f1 := Suc (oth f1)))(f0 := Suc (oth f0))) s1" "fds_open s1" using s1 ne by (simp_all add: fun_upd_twist sys_ok_def)
    obtain r0 s2 where a0: "fdalloc f0 s1 = (r0, s2)" by fastforce
    show ?thesis
    proof (cases r0)
      case None
      then show ?thesis using a0 close [OF ne] s1 fdalloc_None [of f0 s1 s2] by (simp add: sys_ok_def pipe_fds_def)
    next
      case (Some fd0)
      note A = fdalloc_ok [OF fo(1) a0 [unfolded Some]]
      have fo2: "files_ok kend (oth(f1 := Suc (oth f1))) s2" using A(1) ne by (simp add: fun_upd_idem)
      have op2: "fds_open s2" using fo(2) ty(1) A(2,3) by (auto simp: fds_open_def)
      obtain r1 s3 where a1: "fdalloc f1 s2 = (r1, s3)" by fastforce
      show ?thesis
      proof (cases r1)
        case None
        then have s3: "s3 = s2" using a1 fdalloc_None by auto
        let ?s = "s2\<lparr>u_ofile := (u_ofile s2)[fd0 := None]\<rparr>"
        have "files_ok kend (oth(f0 := Suc (oth f0), f1 := Suc (oth f1))) ?s"
          using clear_fd_ok [OF fo2 A(5,6)] ne by (simp add: fun_upd_twist)
        moreover have "fds_open ?s" using op2 set_update_subset_insert [of "u_ofile s2" fd0 None] by (auto simp: fds_open_def)
        ultimately show ?thesis using close [OF ne] a0 Some a1 None s3 by (simp add: pipe_fds_def)
      next
        case (Some fd1)
        note B = fdalloc_ok [OF fo2 a1 [unfolded Some]]
        have "fds_open s3" using op2 ty(2) A(2) B(2,3) by (auto simp: fds_open_def)
        then have "sys_ok kend oth s3" using B(1) by (simp add: sys_ok_def)
        then show ?thesis using a0 \<open>r0 = Some fd0\<close> a1 Some by (simp add: pipe_fds_def)
      qed
    qed
  qed
  show ?thesis unfolding sys_pipe_def using ok
    by (intro pipealloc_ok [OF ok, THEN ensures_bind] ensures_intros rest) auto
qed

lemma sys_open_ok:
  fixes s :: "'a kfs_scheme"
  assumes ok: "sys_ok kend oth s" and dev: "dev_keeps_read dr" "dev_keeps_write dw"
  shows "ensures (\<lambda>(r, s'). sys_ok kend oth s') (sys_open kend dr dw s)"
proof -
  have k: "sys_ok kend oth s'" if "fs_rest s' = fs_rest s" for s' using sys_ok_kept [OF that] ok by simp
  have fail: "ensures (\<lambda>(r, s'). sys_ok kend oth s') (bindE (iunlockput ip s1) op_fail)" if "sys_ok kend oth s1" for ip and s1 :: "'a kfs_scheme"
    by (rule kept_sys_ok [OF that]) (intro keeps [THEN ensures_bind] keeps [THEN ensures_weaken], auto)
  have alloc: "ensures (\<lambda>(r, s'). sys_ok kend oth s') (open_file kend ip omode s1)"
    if s1: "sys_ok kend oth s1" and ip: "ip < length (icache s1)" for ip omode and s1 :: "'a kfs_scheme"
  proof -
    have s1': "files_ok kend oth s1" "fds_open s1" using s1 by (simp_all add: sys_ok_def)
    obtain r ft where a: "filealloc (ftab s1) = (r, ft)" by fastforce
    show ?thesis
    proof (cases r)
      case None
      then show ?thesis using a fail [OF s1] by (simp add: open_file_def)
    next
      case (Some f)
      note A = filealloc_ok [OF s1'(1) a [unfolded Some]]
      let ?s2 = "s1\<lparr>ftab := ft\<rparr>"
      obtain q s3 where b: "fdalloc f ?s2 = (q, s3)" by fastforce
      show ?thesis
      proof (cases q)
        case None
        then have s3: "s3 = ?s2" using b fdalloc_None by auto
        have "ensures (sys_ok kend oth) (fileclose kend f ?s2)"
          using A(7) [OF s1'(2)] by (intro ensures_weaken [OF fileclose_ok [OF A(1)]]) (auto simp: sys_ok_def)
        then show ?thesis using a \<open>r = Some f\<close> b None s3 by (auto simp: open_file_def intro!: ensures_bind [OF _ fail])
      next
        case (Some fd)
        note B = fdalloc_ok [OF A(1) b [unfolded Some]]
        have fin: "sys_ok kend oth (upd_file f (\<lambda>x. x\<lparr>f_type := FD_INODE, f_ip := Some ip, f_off := 0, f_readable := rd, f_writable := wr\<rparr>) s5)"
          if "fs_rest s5 = fs_rest s3" for s5 rd wr
        proof -
          let ?x = "(ftab s3 ! f)\<lparr>f_type := FD_INODE, f_ip := Some ip, f_off := 0, f_readable := rd, f_writable := wr\<rparr>"
          have ft3: "ftab s3 = ft" and f: "f < length ft" and fo: "files_ok kend oth s3" using B(1,2) A(2) by simp_all
          have ic: "length (icache s3) = length (icache s1)" using B(4) by (simp add: fs_rest_def)
          have "Some f \<in> set (u_ofile s3)" using B(5,6) fo by (metis files_ok_def nth_mem)
          then have "1 \<le> f_ref (ft ! f)" using refs_ok_ref [of oth ft "u_ofile s3" f] fo f ft3 by (simp add: files_ok_def)
          then have "file_typed (length (icache s3)) (pipes s3) (ft[f := ?x] ! g)" if "g < length ft" for g
            using fo that f ft3 ip ic by (cases "g = f") (auto simp: files_ok_def file_typed_def)
          moreover have "refs_ok oth (ft[f := ?x]) (u_ofile s3)"
            using fo f ft3 by (intro refs_ok_update [where oth = oth]) (auto simp: files_ok_def)
          moreover have "pipe_ends (ft[f := ?x])" using fo ft3 by (intro pipe_ends_drop) (auto simp: files_ok_def)
          moreover have "f_type (ft[f := ?x] ! g) \<noteq> FD_NONE" if "Some g \<in> set (u_ofile s3)" for g
            using that s1'(2) A(7) B(3) f by (cases "g = f") (auto simp: fds_open_def)
          ultimately have "sys_ok kend oth (s3\<lparr>ftab := ft[f := ?x]\<rparr>)"
            using fo ft3 by (simp add: sys_ok_def files_ok_def fds_open_def)
          then show ?thesis using kfs_rest [OF that] ft3 by (simp add: sys_ok_def files_ok_def fds_open_def upd_file_def)
        qed
        show ?thesis using a \<open>r = Some f\<close> b Some
          by (auto simp: open_file_def intro!: keeps [THEN ensures_bind] fin)
      qed
    qed
  qed
  show ?thesis unfolding sys_open_def using ok dev sys_ok_cwd [OF ok]
    by (intro keeps [THEN ensures_bind] keeps [THEN ensures_weaken] ensures_intros alloc)
      (auto intro: k cwd_kept index_kept)
qed

section \<open>Sequences of calls\<close>

text \<open>A process makes file system calls; in between it runs in user mode, grows and shrinks, and may
  be killed.\<close>

inductive sys_step ::
  "uint \<Rightarrow> ('a kfs_ext fsdev_scheme) devread \<Rightarrow> ('a kfs_ext fsdev_scheme) devwrite \<Rightarrow> 'a kfs_scheme \<Rightarrow> 'a kfs_scheme \<Rightarrow> bool"
  for kend dr dw where
  call: "file_calls kend dr dw num = Some f \<Longrightarrow> f s = Inr (r, s') \<Longrightarrow> sys_step kend dr dw s s'"
| user: "sys_step kend dr dw s (s\<lparr>u_mem := m, u_esp := e, u_sz := z, u_killed := k\<rparr>)"

lemma returns_ok: "ensures (\<lambda>(r, s'). P s') (c s) \<Longrightarrow> ensures (\<lambda>(r, s'). P s') (returns c s)"
  by (cases "c s") (auto simp: returns_def)

lemma file_calls_ok:
  assumes ok: "sys_ok kend oth s" and dev: "dev_keeps_read dr" "dev_keeps_write dw" and f: "file_calls kend dr dw num = Some f"
  shows "ensures (\<lambda>(r, s'). sys_ok kend oth s') (f s)"
proof -
  note c = sys_ok_cwd [OF ok]
  have "f \<in> {returns (sys_pipe kend), sys_read dr, returns sys_fstat, returns (sys_chdir dr), returns sys_dup, returns (sys_open kend dr dw),
      sys_write dw, returns (sys_mknod dr dw), returns (sys_unlink dr dw), returns (sys_link dr dw), returns (sys_mkdir dr dw), returns (sys_close kend)}"
    using f by (simp add: file_calls_def split: if_splits)
  then show ?thesis
    using sys_pipe_ok [OF ok] sys_read_ok [OF ok dev(1)] sys_fstat_ok [OF ok] sys_chdir_ok [OF ok dev(1)] sys_dup_ok [OF ok]
      sys_open_ok [OF ok dev] sys_write_ok [OF ok dev(2)] sys_close_ok [OF ok]
      kept_sys_ok [OF ok sys_mknod_keeps [OF dev c]] kept_sys_ok [OF ok sys_unlink_keeps [OF dev c]]
      kept_sys_ok [OF ok sys_link_keeps [OF dev c]] kept_sys_ok [OF ok sys_mkdir_keeps [OF dev c]]
    by (elim insertE) (simp_all add: returns_ok)
qed

lemma sys_ok_step:
  assumes "sys_step kend dr dw s s'" and "sys_ok kend oth s" and "dev_keeps_read dr" and "dev_keeps_write dw"
  shows "sys_ok kend oth s'"
  using assms(1)
proof cases
  case (call num f r)
  then show ?thesis using ensures_InrD [OF file_calls_ok [OF assms(2-4) call(1)] call(2)] by simp
next
  case user
  then show ?thesis using assms(2) by (simp add: sys_ok_def files_ok_def fds_open_def)
qed

end
