(* ===== verification/FsAlloc.thy ===== *)
theory FsAlloc
  imports FsFile
begin

text \<open>
  Block allocation (\<open>balloc\<close>, \<open>bfree\<close>) against the set of blocks that the free map marks as
  used, and the round trip of an inode through its disk block.
\<close>

section \<open>Bits of the free map\<close>

lemma bit_clear_iff: "bit_clear data y \<longleftrightarrow> \<not> bit (data ! (y div 8)) (y mod 8)"
proof -
  have "data ! (y div 8) AND push_bit (y mod 8) 1 = 0 \<longleftrightarrow> \<not> bit (data ! (y div 8)) (y mod 8)"
    by (simp add: push_bit_eq_mult and_exp_eq_0_iff_not_bit)
  then show ?thesis by (simp add: bit_clear_def bmask_def)
qed

lemma eq_div_mod: "(x :: nat) = y \<longleftrightarrow> x div 8 = y div 8 \<and> x mod 8 = y mod 8"
  by (metis div_mult_mod_eq)

lemma bit_clear_set:
  assumes "x < BPB" and "length data = BSIZE"
  shows "bit_clear (set_bit_at data x) y \<longleftrightarrow> y \<noteq> x \<and> bit_clear data y"
proof -
  have "x div 8 < length data" using assms by (auto simp: BPB_def BSIZE_def)
  then show ?thesis
    unfolding bit_clear_iff set_bit_at_def bmask_def
    by (auto simp: nth_list_update bit_simps eq_div_mod [of y x])
qed

lemma bit_clear_clear:
  assumes "x < BPB" and "length data = BSIZE"
  shows "bit_clear (clear_bit_at data x) y \<longleftrightarrow> y = x \<or> bit_clear data y"
proof -
  have "x div 8 < length data" "y mod 8 < 8" using assms by (auto simp: BPB_def BSIZE_def)
  then show ?thesis
    unfolding bit_clear_iff clear_bit_at_def bmask_def
    by (auto simp: nth_list_update bit_simps eq_div_mod [of y x])
qed

lemma length_set_bit [simp]: "length (set_bit_at data x) = length data" "length (clear_bit_at data x) = length data"
  by (simp_all add: set_bit_at_def clear_bit_at_def)

lemma balloc_scan_Some:
  "balloc_scan data b sz bi k = Some x \<longleftrightarrow>
     bi \<le> x \<and> x < bi + k \<and> b + x < sz \<and> bit_clear data x \<and> (\<forall>y. bi \<le> y \<and> y < x \<longrightarrow> \<not> bit_clear data y)"
proof (induction k arbitrary: bi)
  case (Suc k)
  show ?case
  proof (cases "b + bi < sz \<and> \<not> bit_clear data bi")
    case True
    then have "balloc_scan data b sz bi (Suc k) = Some x \<longleftrightarrow> balloc_scan data b sz (bi + 1) k = Some x" by simp
    also have "\<dots> \<longleftrightarrow> bi \<le> x \<and> x < bi + Suc k \<and> b + x < sz \<and> bit_clear data x \<and> (\<forall>y. bi \<le> y \<and> y < x \<longrightarrow> \<not> bit_clear data y)"
      unfolding Suc using True by (auto simp: Suc_le_eq nat_less_le)
    finally show ?thesis .
  next
    case False
    then show ?thesis by (auto simp: nat_less_le)
  qed
qed auto

lemma balloc_scan_None:
  "balloc_scan data b sz bi k = None \<longleftrightarrow> (\<forall>x. bi \<le> x \<and> x < bi + k \<and> b + x < sz \<longrightarrow> \<not> bit_clear data x)"
proof (induction k arbitrary: bi)
  case (Suc k)
  show ?case
  proof (cases "b + bi < sz \<and> \<not> bit_clear data bi")
    case True
    then have "balloc_scan data b sz bi (Suc k) = None \<longleftrightarrow> balloc_scan data b sz (bi + 1) k = None" by simp
    also have "\<dots> \<longleftrightarrow> (\<forall>x. bi \<le> x \<and> x < bi + Suc k \<and> b + x < sz \<longrightarrow> \<not> bit_clear data x)"
      unfolding Suc using True by (auto simp: Suc_le_eq nat_less_le)
    finally show ?thesis .
  next
    case False
    then show ?thesis by auto
  qed
qed auto

section \<open>Allocation\<close>

definition used :: "'a fsdev_scheme \<Rightarrow> nat \<Rightarrow> bool" where
  "used s b \<longleftrightarrow> \<not> bit_clear (content s (BBLOCK (word_of_nat b) (fsb s))) (b mod BPB)"

abbreviation fs_blocks :: "'a fsdev_scheme \<Rightarrow> nat" where
  "fs_blocks s \<equiv> unat (sb_size (fsb s))"

text \<open>The free map covers the disk, and what it marks as free can be used for data.\<close>

definition map_ok :: "'a fsdev_scheme \<Rightarrow> bool" where
  "map_ok s \<longleftrightarrow> (\<forall>b < fs_blocks s.
     plain_block s (BBLOCK (word_of_nat b) (fsb s)) \<and> length (content s (BBLOCK (word_of_nat b) (fsb s))) = BSIZE \<and>
     (\<not> used s b \<longrightarrow> plain_block s (word_of_nat b) \<and>
        (\<forall>b' < fs_blocks s. BBLOCK (word_of_nat b') (fsb s) \<noteq> word_of_nat b)))"

lemma BBLOCK_chunk:
  assumes "x < BPB" and "q * BPB + x < 4294967296"
  shows "BBLOCK (word_of_nat (q * BPB + x)) sb = BBLOCK (word_of_nat (q * BPB)) sb"
    and "(q * BPB + x) mod BPB = x"
proof -
  have d: "(word_of_nat (q * BPB + y) :: uint) div word_of_nat BPB = word_of_nat q" if "y < BPB" "q * BPB + y < 4294967296" for y
  proof -
    have "unat ((word_of_nat (q * BPB + y) :: uint) div word_of_nat BPB) = (q * BPB + y) div BPB"
      using that(2) by (simp only: unat_div_distrib unat_word_of_nat_uint) (simp add: BPB_def BSIZE_def)
    also have "\<dots> = q" using that(1) by simp
    finally have "word_of_nat (unat ((word_of_nat (q * BPB + y) :: uint) div word_of_nat BPB)) = (word_of_nat q :: uint)"
      by (rule arg_cong)
    then show ?thesis by simp
  qed
  show "BBLOCK (word_of_nat (q * BPB + x)) sb = BBLOCK (word_of_nat (q * BPB)) sb"
    using d [OF assms] d [of 0] assms unfolding BBLOCK_def by simp
  show "(q * BPB + x) mod BPB = x" using assms(1) by simp
qed

lemma same_fs:
  assumes "same s s'"
  shows "fsb s' = fsb s" "used s' = used s" "map_ok s' = map_ok s"
proof -
  note d = sameD [OF assms] and lf = log_fields [OF sameD(5) [OF assms]]
  show f: "fsb s' = fsb s" using fs_fields(1) [OF d(5)] .
  show u: "used s' = used s" unfolding used_def f d(2) ..
  show "map_ok s' = map_ok s" unfolding map_ok_def f u d(2,4) lf(1,2) ..
qed

lemma bzero_ok:
  assumes "log_inv s" and "busyb s = {}" and "plain_block s n" and "lh_n s < l_size s - 1" and "1 \<le> l_outstanding s"
  shows "\<exists>s'. bzero 1 n s = Inr s' \<and> log_inv s' \<and> busyb s' = {} \<and> content s' = (content s)(n := replicate BSIZE 0) \<and>
     disk s' = disk s \<and> disksize s' = disksize s \<and> dwrites s' = dwrites s \<and> dev.more s' = dev.more (log_add n s)"
proof -
  obtain bp s1 s2 s3 where "bread 1 n s = Inr (bp, s1)"
      "log_write bp (upd_buf bp (\<lambda>b. b\<lparr>b_data := replicate BSIZE 0\<rparr>) s1) = Inr s2" "brelse bp s2 = Inr s3"
      "log_inv s3" "busyb s3 = {}" "content s3 = (content s)(n := replicate BSIZE 0)" "disk s3 = disk s" "dwrites s3 = dwrites s"
      "disksize s3 = disksize s" "dev.more s3 = dev.more (log_add n s)"
    using log_update [OF assms(1,2), of n "replicate BSIZE 0"] assms(3-5) by blast
  then show ?thesis by (simp add: bzero_def)
qed

text \<open>The outer loop: below \<open>q * BPB\<close> everything is in use.\<close>

lemma balloc_loop_ok:
  assumes "log_inv s" and "busyb s = {}" and "map_ok s" and "1 \<le> l_outstanding s" and "lh_n s + 2 \<le> l_size s - 1"
    and "sz = fs_blocks s" and "\<forall>b < min sz (q * BPB). used s b"
  shows "if \<exists>b < sz. \<not> used s b
    then \<exists>b s'. balloc_loop 1 sz (q * BPB) s = Inr (word_of_nat b, s') \<and> b < sz \<and> \<not> used s b \<and> (\<forall>b' < b. used s b') \<and>
       log_inv s' \<and> busyb s' = {} \<and> icache s' = icache s \<and> fsb s' = fsb s \<and> disk s' = disk s \<and> disksize s' = disksize s \<and>
       lh_n s' \<le> lh_n s + 2 \<and> l_outstanding s' = l_outstanding s \<and> l_size s' = l_size s \<and>
       content s' = (content s)(BBLOCK (word_of_nat b) (fsb s) := set_bit_at (content s (BBLOCK (word_of_nat b) (fsb s))) (b mod BPB),
                                word_of_nat b := replicate BSIZE 0)
    else balloc_loop 1 sz (q * BPB) s = Inl (Panic ''balloc: out of blocks'')"
  using assms
proof (induction "sz - q * BPB" arbitrary: q s rule: less_induct)
  case less
  show ?case
  proof (cases "q * BPB < sz")
    case False
    then have "\<forall>b < sz. used s b" using less(8) by auto
    moreover have "balloc_loop 1 sz (q * BPB) s = Inl (Panic ''balloc: out of blocks'')"
      using False by (subst balloc_loop.simps) simp
    ultimately show ?thesis by auto
  next
    case True
    define n where "n = BBLOCK (word_of_nat (q * BPB)) (fsb s)"
    have n: "plain_block s n" "length (content s n) = BSIZE"
      using less(4) True less(7) by (auto simp: map_ok_def n_def)
    have lim: "sz < 4294967296" using less(7) unat_uint_less by simp
    have bb: "BBLOCK (word_of_nat (q * BPB + x)) (fsb s) = n" "(q * BPB + x) mod BPB = x"
      if "x < BPB" "q * BPB + x < sz" for x
      using BBLOCK_chunk [of x q] that lim by (simp_all add: n_def)
    show ?thesis
    proof (cases "balloc_scan (content s n) (q * BPB) sz 0 BPB")
      case None
      then have nf: "\<not> bit_clear (content s n) x" if "x < BPB" "q * BPB + x < sz" for x
        using that by (simp add: balloc_scan_None)
      have all: "\<forall>b < min sz (Suc q * BPB). used s b"
      proof (intro allI impI)
        fix b assume b: "b < min sz (Suc q * BPB)"
        show "used s b"
        proof (cases "b < q * BPB")
          case True
          then show ?thesis using less(8) b by simp
        next
          case False
          define x where "x = b - q * BPB"
          then have x: "b = q * BPB + x" "x < BPB" "q * BPB + x < sz" using False b by auto
          then show ?thesis using nf [OF x(2,3)] bb [OF x(2,3)] by (simp add: used_def x(1))
        qed
      qed
      obtain bp s1 s2 where r: "bread 1 n s = Inr (bp, s1)" "b_data (bufs s1 ! bp) = content s n"
          "dev.more s1 = dev.more s" "brelse bp s1 = Inr s2" "same s s2"
        using read_same [OF less(2,3)] n by blast
      note d2 = sameD [OF r(5)] and sf = same_fs [OF r(5)] and lf2 = log_fields [OF sameD(5) [OF r(5)]]
      have st: "balloc_loop 1 sz (q * BPB) s = balloc_loop 1 sz (Suc q * BPB) s2"
        using True r None by (subst balloc_loop.simps) (simp add: n_def [symmetric] add.commute del: of_nat_mult)
      have dec: "sz - Suc q * BPB < sz - q * BPB" using True by (simp add: BPB_def BSIZE_def)
      have p: "busyb s2 = {}" "map_ok s2" "1 \<le> l_outstanding s2" "lh_n s2 + 2 \<le> l_size s2 - 1" "sz = fs_blocks s2"
          "\<forall>b < min sz (Suc q * BPB). used s2 b"
        unfolding d2(3) sf lf2(2,3,6) by (fact less(3-7) all)+
      show ?thesis
        using less(1) [OF dec d2(1) p] unfolding st sf(1,2) d2(2,4,6) lf2(2,3,6) fs_fields(2) [OF d2(5)] .
    next
      case (Some x)
      then have x: "x < BPB" "q * BPB + x < sz" "bit_clear (content s n) x" "\<forall>y < x. \<not> bit_clear (content s n) y"
        by (auto simp: balloc_scan_Some)
      define b where "b = q * BPB + x"
      note bx = bb [OF x(1,2), folded b_def]
      have free: "\<not> used s b" using x(3) bx by (simp add: used_def)
      have below: "used s b'" if "b' < b" for b'
      proof (cases "b' < q * BPB")
        case True
        then show ?thesis using less(8) x(2) by simp
      next
        case False
        define y where "y = b' - q * BPB"
        then have y: "b' = q * BPB + y" "y < x" "y < BPB" "q * BPB + y < sz" using False that x(1,2) by (auto simp: b_def)
        then show ?thesis using x(4) bb [OF y(3,4)] by (simp add: used_def y(1))
      qed
      have "b < fs_blocks s" using x(2) less(7) by (simp add: b_def)
      then have fb: "plain_block s (word_of_nat b)" "n \<noteq> word_of_nat b"
        using less(4) free bx(1) by (auto simp: map_ok_def)
      let ?d = "set_bit_at (content s n) x"
      obtain bp s1 s2 s3 where u: "bread 1 n s = Inr (bp, s1)" "b_data (bufs s1 ! bp) = content s n"
          "log_write bp (upd_buf bp (\<lambda>b. b\<lparr>b_data := ?d\<rparr>) s1) = Inr s2" "brelse bp s2 = Inr s3"
          "log_inv s3" "busyb s3 = {}" "content s3 = (content s)(n := ?d)" "disk s3 = disk s"
          "disksize s3 = disksize s" "dev.more s3 = dev.more (log_add n s)"
        using log_update [OF less(2,3), of n ?d] n less(5,6) by auto
      note lf3 = log_fields [OF u(10)]
      have n3: "lh_n s3 \<le> lh_n s + 1" using lf3(6) log_add_n(2) [OF less(2), of n] less(6) by simp
      have "plain_block s3 (word_of_nat b)" "lh_n s3 < l_size s3 - 1" "1 \<le> l_outstanding s3"
        using fb(1) u(9) lf3 n3 less(5,6) by simp_all
      then obtain s4 where s4: "bzero 1 (word_of_nat b) s3 = Inr s4" "log_inv s4" "busyb s4 = {}"
          "content s4 = (content s3)(word_of_nat b := replicate BSIZE 0)" "disk s4 = disk s3" "disksize s4 = disksize s3"
          "dev.more s4 = dev.more (log_add (word_of_nat b) s3)"
        using bzero_ok [OF u(5,6)] by blast
      note lf4 = log_fields [OF s4(7)]
      have n4: "lh_n s4 \<le> lh_n s + 2"
        using lf4(6) log_add_n(2) [OF u(5), of "word_of_nat b"] n3 \<open>lh_n s3 < l_size s3 - 1\<close> by simp
      have "logdev.more s4 = logdev.more s" using lf4(9) lf3(9) by simp
      then have fs4: "icache s4 = icache s" "fsb s4 = fsb s" by (cases s; cases s4; simp)+
      have "upd_buf bp (\<lambda>b. b\<lparr>b_data := set_bit_at (b_data b) x\<rparr>) s1 = upd_buf bp (\<lambda>b. b\<lparr>b_data := ?d\<rparr>) s1"
        using u(2) by (simp add: upd_buf_def)
      then have "balloc_loop 1 sz (q * BPB) s = Inr (word_of_nat b, s4)"
        using True u(1-4) s4(1) Some by (subst balloc_loop.simps) (simp add: n_def [symmetric] b_def del: of_nat_mult of_nat_add)
      moreover have "\<exists>b < sz. \<not> used s b" using free x(2) by (auto simp: b_def)
      ultimately show ?thesis
        using free below x(2) s4 fs4 u(7-9) n4 lf3 lf4 bx unfolding b_def [symmetric]
        by (simp only: if_True) (intro exI [of _ b] exI [of _ s4], simp add: b_def)
    qed
  qed
qed

text \<open>The free map after an update of one of its bits.\<close>

lemma div_BPB: "unat ((word_of_nat b :: uint) div word_of_nat BPB) = b div BPB" if "b < 4294967296"
  using that by (simp only: unat_div_distrib unat_word_of_nat_uint) (simp add: BPB_def BSIZE_def)

lemma BBLOCK_eq_iff:
  assumes "a < 4294967296" and "b < 4294967296"
  shows "BBLOCK (word_of_nat a) sb = BBLOCK (word_of_nat b) sb \<longleftrightarrow> a div BPB = b div BPB"
proof -
  have "BBLOCK (word_of_nat a) sb = BBLOCK (word_of_nat b) sb \<longleftrightarrow>
      (word_of_nat a :: uint) div word_of_nat BPB = word_of_nat b div word_of_nat BPB"
    by (simp add: BBLOCK_def)
  then show ?thesis using div_BPB [OF assms(1)] div_BPB [OF assms(2)] by (metis word_eq_iff_unsigned)
qed

lemma used_update:
  assumes b: "b < 4294967296" "b' < 4294967296" and len: "length (content s (BBLOCK (word_of_nat b) (fsb s))) = BSIZE"
    and f: "fsb s' = fsb s"
    and c: "content s' (BBLOCK (word_of_nat b') (fsb s)) =
      (if b' div BPB = b div BPB then g (content s (BBLOCK (word_of_nat b) (fsb s))) (b mod BPB)
       else content s (BBLOCK (word_of_nat b') (fsb s)))"
  shows "g = set_bit_at \<Longrightarrow> used s' b' \<longleftrightarrow> b' = b \<or> used s b'"
    and "g = clear_bit_at \<Longrightarrow> used s' b' \<longleftrightarrow> b' \<noteq> b \<and> used s b'"
proof -
  have m: "b mod BPB < BPB" by (simp add: BPB_def BSIZE_def)
  have eq: "b' = b \<longleftrightarrow> b' div BPB = b div BPB \<and> b' mod BPB = b mod BPB" by (metis div_mult_mod_eq)
  have same: "content s (BBLOCK (word_of_nat b') (fsb s)) = content s (BBLOCK (word_of_nat b) (fsb s))" if "b' div BPB = b div BPB"
    using that BBLOCK_eq_iff [OF b(2,1)] by simp
  show "used s' b' \<longleftrightarrow> b' = b \<or> used s b'" if "g = set_bit_at"
    unfolding used_def f c that eq using same bit_clear_set [OF m len] by auto
  show "used s' b' \<longleftrightarrow> b' \<noteq> b \<and> used s b'" if "g = clear_bit_at"
    unfolding used_def f c that eq using same bit_clear_clear [OF m len] by auto
qed

lemma bfree_ok:
  assumes inv: "log_inv s" "busyb s = {}" and mp: "map_ok s" and sb: "fsb s = dec_sb (content s 1)"
    and b: "b < fs_blocks s" and out: "1 \<le> l_outstanding s" and room: "lh_n s < l_size s - 1"
  defines "n \<equiv> BBLOCK (word_of_nat b) (fsb s)"
  shows "if used s b
    then \<exists>s'. bfree 1 (word_of_nat b) s = Inr s' \<and> log_inv s' \<and> busyb s' = {} \<and> icache s' = icache s \<and> fsb s' = fsb s \<and>
       disk s' = disk s \<and> disksize s' = disksize s \<and> content s' = (content s)(n := clear_bit_at (content s n) (b mod BPB))
    else bfree 1 (word_of_nat b) s = Inl (Panic ''freeing free block'')"
proof -
  have n: "plain_block s n" "length (content s n) = BSIZE" using mp b by (auto simp: map_ok_def n_def)
  have ub: "unat (word_of_nat b :: uint) = b" using b unat_uint_less [of "sb_size (fsb s)"] by (simp add: unat_word_of_nat_uint)
  have one: "1 < disksize s" using inv(1) by (simp add: log_inv_def log_place_def)
  obtain i s1 s2 where r: "bread 1 1 s = Inr (i, s1)" "b_data (bufs s1 ! i) = content s 1" "brelse i s1 = Inr s2" "same s s2"
    using read_same [OF inv one] by blast
  have f2: "fsb s2 = fsb s" using fs_fields(1) [OF sameD(5) [OF r(4)]] .
  then have s2: "s2\<lparr>fsb := dec_sb (content s 1)\<rparr> = s2" using sb by (cases s2) simp
  have rs: "readsb 1 s = Inr (dec_sb (content s 1), s2)" using r by (simp add: readsb_def)
  note d2 = sameD [OF r(4)] and lf2 = log_fields [OF sameD(5) [OF r(4)]]
  let ?d = "clear_bit_at (content s n) (b mod BPB)"
  obtain bp t1 t2 t3 where u: "bread 1 n s2 = Inr (bp, t1)" "b_data (bufs t1 ! bp) = content s2 n"
      "log_write bp (upd_buf bp (\<lambda>b. b\<lparr>b_data := ?d\<rparr>) t1) = Inr t2" "brelse bp t2 = Inr t3"
      "log_inv t3" "busyb t3 = {}" "content t3 = (content s2)(n := ?d)" "disk t3 = disk s2"
      "disksize t3 = disksize s2" "dev.more t3 = dev.more (log_add n s2)"
    using log_update [OF d2(1), of n ?d] d2(3,4) inv(2) n lf2 room out by auto
  have cl: "bit_clear (content s n) (b mod BPB) \<longleftrightarrow> \<not> used s b" by (simp add: used_def n_def)
  have e: "bfree 1 (word_of_nat b) s =
      (if used s b then bindE (log_write bp (upd_buf bp (\<lambda>x. x\<lparr>b_data := clear_bit_at (b_data x) (b mod BPB)\<rparr>) t1)) (brelse bp)
       else Inl (Panic ''freeing free block''))"
    using rs s2 u(1,2) d2(2) ub cl by (simp add: bfree_def Let_def sb [symmetric] n_def [symmetric])
  have "upd_buf bp (\<lambda>x. x\<lparr>b_data := clear_bit_at (b_data x) (b mod BPB)\<rparr>) t1 = upd_buf bp (\<lambda>b. b\<lparr>b_data := ?d\<rparr>) t1"
    using u(2) d2(2) by (simp add: upd_buf_def)
  then have bf: "bfree 1 (word_of_nat b) s = Inr t3" if "used s b" using e that u(3,4) by simp
  have "logdev.more t3 = logdev.more s" using log_fields(9) [OF u(10)] lf2(9) by simp
  then have "icache t3 = icache s" "fsb t3 = fsb s" by (cases s; cases t3; simp)+
  then show ?thesis
  proof (cases "used s b")
    case True
    then show ?thesis
      using bf u(5-9) d2(2,4,6) \<open>icache t3 = icache s\<close> \<open>fsb t3 = fsb s\<close> by (simp only: if_True) simp
  qed (use e in simp)
qed

section \<open>Inodes in their disk block\<close>

lemma length_put_words [simp]: "length (put_words b k ws) = length b"
  by (induction ws arbitrary: b k) auto

lemma nth_put_words_other:
  "j < k \<or> k + 4 * length ws \<le> j \<Longrightarrow> put_words b k ws ! j = b ! j"
  by (induction ws arbitrary: b k) (auto simp: nth_put32_other)

lemma get_words_put_words:
  assumes "k + 4 * length ws \<le> length b"
  shows "get_words (put_words b k ws) k (length ws) = ws"
  using assms
proof (induction ws arbitrary: b k)
  case (Cons w ws)
  have "get_words (put_words (put32 b k w) (k + 4) ws) k (Suc (length ws)) =
      get32 (put_words (put32 b k w) (k + 4) ws) k # get_words (put_words (put32 b k w) (k + 4) ws) (k + 4) (length ws)"
    by (simp add: get_words_def upt_conv_Cons map_Suc_upt [symmetric] comp_def add.assoc del: upt_Suc map_Suc_upt)
  moreover have "get32 (put_words (put32 b k w) (k + 4) ws) k = get32 (put32 b k w) k"
    by (simp add: get32_def nth_put_words_other)
  moreover have "get_words (put_words (put32 b k w) (k + 4) ws) (k + 4) (length ws) = ws"
    using Cons by simp
  ultimately show ?case using Cons(2) by simp
qed (simp add: get_words_def)

lemma get_put_dinode:
  assumes k: "k < IPB" and len: "length b = BSIZE" and ad: "length (i_addrs ip) = NDIRECT + 1"
  shows "get_dinode (put_dinode ip k b) k ip0 =
    ip0\<lparr>i_type := i_type ip, i_major := i_major ip, i_minor := i_minor ip, i_nlink := i_nlink ip,
        i_size := i_size ip, i_addrs := i_addrs ip\<rparr>"
proof -
  have lim: "64 * k + 64 \<le> length b" "length (i_addrs ip) = 13"
    using assms by (auto simp: IPB_def BSIZE_def NDIRECT_def)
  let ?o = "64 * k"
  let ?b = "put32 (put16 (put16 (put16 (put16 b ?o (i_type ip)) (?o + 2) (i_major ip)) (?o + 4) (i_minor ip)) (?o + 6) (i_nlink ip)) (?o + 8) (i_size ip)"
  have g16: "get16 (put_words ?b (?o + 12) (i_addrs ip)) j = get16 ?b j" if "j + 2 \<le> ?o + 12" for j
    using that by (simp add: get16_def nth_put_words_other)
  have g32: "get32 (put_words ?b (?o + 12) (i_addrs ip)) (?o + 8) = get32 ?b (?o + 8)"
    by (simp add: get32_def nth_put_words_other)
  have "get_words (put_words ?b (?o + 12) (i_addrs ip)) (?o + 12) (NDIRECT + 1) = i_addrs ip"
    unfolding ad [symmetric] by (rule get_words_put_words) (use lim in simp)
  moreover have "get32 ?b (?o + 8) = i_size ip" "get16 ?b ?o = i_type ip" "get16 ?b (?o + 2) = i_major ip"
      "get16 ?b (?o + 4) = i_minor ip" "get16 ?b (?o + 6) = i_nlink ip"
    using lim(1) by (simp_all add: field_other)
  moreover have "get16 (put_words ?b (?o + 12) (i_addrs ip)) ?o = get16 ?b ?o"
      "get16 (put_words ?b (?o + 12) (i_addrs ip)) (?o + 2) = get16 ?b (?o + 2)"
      "get16 (put_words ?b (?o + 12) (i_addrs ip)) (?o + 4) = get16 ?b (?o + 4)"
      "get16 (put_words ?b (?o + 12) (i_addrs ip)) (?o + 6) = get16 ?b (?o + 6)"
    by (rule g16, simp)+
  ultimately show ?thesis unfolding get_dinode_def put_dinode_def g32 by (simp only:)
qed

lemma put_dinode_other:
  assumes "j < 64 * k \<or> 64 * k + 64 \<le> j" and "length (i_addrs ip) = NDIRECT + 1"
  shows "put_dinode ip k b ! j = b ! j"
  using assms by (auto simp: put_dinode_def nth_put_words_other nth_put32_other nth_put16_other NDIRECT_def)

lemma length_put_dinode [simp]: "length (put_dinode ip k b) = length b"
  by (simp add: put_dinode_def)

lemma inode_slot_less: "inode_slot n < IPB"
  by (simp add: inode_slot_def IPB_def BSIZE_def)

text \<open>Locking an inode that is not in memory yet.\<close>

lemma ilock_ok:
  assumes inv: "log_inv s" "busyb s = {}" and j: "j < length (icache s)" "1 \<le> i_ref (icache s ! j)"
    "\<not> i_busy (icache s ! j)" "\<not> i_valid (icache s ! j)" "i_dev (icache s ! j) = 1"
    and b: "iblock s j < disksize s"
  defines "ip \<equiv> (get_dinode (content s (iblock s j)) (inode_slot (i_inum (icache s ! j))) (icache s ! j))
                  \<lparr>i_busy := True, i_valid := True\<rparr>"
  shows "if i_type ip = 0 then ilock (Some j) s = Inl (Panic ''ilock: no type'')
     else \<exists>s'. ilock (Some j) s = Inr s' \<and> log_inv s' \<and> busyb s' = {} \<and> content s' = content s \<and> disk s' = disk s \<and>
            fsb s' = fsb s \<and> icache s' = (icache s)[j := ip]"
proof -
  let ?s0 = "upd_inode j (\<lambda>ip. ip\<lparr>i_busy := True\<rparr>) s"
  let ?a = "iblock s j" and ?k = "inode_slot (i_inum (icache s ! j))"
  obtain bp s1 s2 where r: "bread 1 ?a ?s0 = Inr (bp, s1)" "b_data (bufs s1 ! bp) = content s ?a"
      "dev.more s1 = dev.more ?s0" "brelse bp s1 = Inr s2" "same ?s0 s2"
    using read_same [of ?s0 ?a] inv b by auto
  let ?f = "get_dinode (content s ?a) ?k"
  have br: "brelse bp (upd_inode j ?f s1) = Inr (upd_inode j ?f s2)"
  proof -
    have ic: "icache s2 = icache s1" using r(4) by (auto simp: brelse_def upd_buf_def split: if_splits)
    show ?thesis using r(4) ic
      by (auto simp: brelse_def upd_buf_def upd_inode_def split: if_splits)
  qed
  note d2 = sameD [OF r(5)]
  have ic2: "icache s2 = icache ?s0" "fsb s2 = fsb s" using fs_fields [OF d2(5)] by simp_all
  let ?s3 = "upd_inode j (\<lambda>ip. ip\<lparr>i_valid := True\<rparr>) (upd_inode j ?f s2)"
  have ic3: "icache ?s3 = (icache s)[j := ip]"
  proof -
    have "(?f (x\<lparr>i_busy := True\<rparr>))\<lparr>i_valid := True\<rparr> = (?f x)\<lparr>i_busy := True, i_valid := True\<rparr>" for x
      by (cases x) (simp add: get_dinode_def)
    then show ?thesis using ic2 j(1) by (simp add: ip_def)
  qed
  have e: "ilock (Some j) s = (if i_type ip = 0 then Inl (Panic ''ilock: no type'') else Inr ?s3)"
  proof -
    have "ilock (Some j) s = (if i_type (icache ?s3 ! j) = 0 then Inl (Panic ''ilock: no type'') else Inr ?s3)"
      using j r(1,2) br by (simp add: ilock_def Let_def)
    then show ?thesis using ic3 j(1) by simp
  qed
  show ?thesis
  proof (cases "i_type ip = 0")
    case False
    then have "ilock (Some j) s = Inr ?s3" using e by simp
    then show ?thesis using False d2(1-3,6) inv(2) ic2(2) ic3 by (simp only: if_False) (intro exI [of _ ?s3], simp)
  qed (use e in simp)
qed

end
