(* ===== verification/FsDir.thy ===== *)
theory FsDir
  imports FsFile
begin

text \<open>
  Directories and path names of \<open>src/fs.c\<close>: \<open>dirlookup\<close> against the sequence of entries of a
  directory, \<open>skipelem\<close> against the list of elements of a path, and the string comparison on
  byte lists against \<open>strncmp\<close> on memory.
\<close>

section \<open>Strings\<close>

definition str_bytes :: "mem \<Rightarrow> uint \<Rightarrow> nat \<Rightarrow> uchar list" where
  "str_bytes m a n = map (\<lambda>k. m (a + word_of_nat k)) [0..<n]"

lemma str_bytes_Suc: "str_bytes m a (Suc n) = m a # str_bytes m (a + 1) n"
proof -
  have "[0..<Suc n] = 0 # map Suc [0..<n]" by (simp add: upt_conv_Cons map_Suc_upt del: upt_Suc)
  then show ?thesis by (simp add: str_bytes_def comp_def add.assoc add.commute add.left_commute del: upt_Suc)
qed

lemma strncmp_list_eq: "n \<le> k \<Longrightarrow> strncmp_list (str_bytes m p k) (str_bytes m q k) n = strncmp_loop m p q n"
proof (induction n arbitrary: p q k)
  case (Suc n)
  then obtain k' where k: "k = Suc k'" "n \<le> k'" by (cases k) auto
  then show ?case using Suc(1) [OF k(2)] by (simp add: str_bytes_Suc Let_def)
qed simp

text \<open>Names are equal when they agree up to their NUL or to fourteen characters.\<close>

definition cname :: "uchar list \<Rightarrow> uchar list" where
  "cname s = takeWhile (\<lambda>c. c \<noteq> 0) (take DIRSIZ s)"

lemma strncmp_list_0:
  "strncmp_list p q n = 0 \<longleftrightarrow> takeWhile (\<lambda>c. c \<noteq> 0) (take n p) = takeWhile (\<lambda>c. c \<noteq> 0) (take n q)"
proof (induction n arbitrary: p q)
  case (Suc n)
  show ?case by (cases p; cases q) (auto simp: Suc Let_def unsigned_eq_0_iff)
qed simp

lemma namecmp_iff: "namecmp s t = 0 \<longleftrightarrow> cname s = cname t"
  by (simp add: namecmp_def cname_def strncmp_list_0)

lemma length_strncpy_list [simp]: "length (strncpy_list t n) = n"
  by (induction t n rule: strncpy_list.induct) (auto split: list.splits)

lemma cname_strncpy: "cname (strncpy_list t DIRSIZ) = cname t"
proof -
  have "takeWhile (\<lambda>c. c \<noteq> 0) (take n (strncpy_list t n)) = takeWhile (\<lambda>c. c \<noteq> 0) (take n t)" for n
    by (induction t n rule: strncpy_list.induct) (auto split: list.splits)
  then show ?thesis by (simp add: cname_def)
qed

section \<open>Paths\<close>

text \<open>The elements of a path, read off directly: the pieces between slashes that are not empty.\<close>

fun pieces :: "uchar list \<Rightarrow> uchar list list" where
  "pieces [] = [[]]"
| "pieces (c # cs) = (if c = SLASH then [] # pieces cs
     else (case pieces cs of [] \<Rightarrow> [[c]] | p # ps \<Rightarrow> (c # p) # ps))"

definition path_elems :: "uchar list \<Rightarrow> uchar list list" where
  "path_elems path = filter (\<lambda>p. p \<noteq> []) (pieces path)"

lemma pieces_not_Nil: "pieces p \<noteq> []"
  by (cases p) (auto split: list.splits)

lemma path_elems_slashes: "path_elems (dropWhile (\<lambda>c. c = SLASH) p) = path_elems p"
  by (induction p) (auto simp: path_elems_def)

lemma pieces_first:
  "pieces p = takeWhile (\<lambda>c. c \<noteq> SLASH) p #
     (case dropWhile (\<lambda>c. c \<noteq> SLASH) p of [] \<Rightarrow> [] | c # cs \<Rightarrow> pieces cs)"
  by (induction p) (auto split: list.splits)

lemma path_elems_first:
  assumes "p \<noteq> []" and "hd p \<noteq> SLASH"
  shows "path_elems p = takeWhile (\<lambda>c. c \<noteq> SLASH) p # path_elems (dropWhile (\<lambda>c. c \<noteq> SLASH) p)"
proof -
  let ?r = "dropWhile (\<lambda>c. c \<noteq> SLASH) p"
  have "takeWhile (\<lambda>c. c \<noteq> SLASH) p \<noteq> []" using assms by (cases p) auto
  then have "path_elems p = takeWhile (\<lambda>c. c \<noteq> SLASH) p # (case ?r of [] \<Rightarrow> [] | c # cs \<Rightarrow> path_elems cs)"
    unfolding path_elems_def pieces_first [of p] by (simp split: list.split del: dropWhile_eq_Nil_conv)
  moreover have "path_elems ?r = (case ?r of [] \<Rightarrow> [] | c # cs \<Rightarrow> path_elems cs)"
  proof (cases ?r)
    case Nil
    show ?thesis unfolding Nil by (simp add: path_elems_def)
  next
    case (Cons c cs)
    then have "c = SLASH" by (simp add: dropWhile_eq_Cons_conv)
    then show ?thesis unfolding Cons by (simp add: path_elems_def)
  qed
  ultimately show ?thesis
    by simp
qed

lemma hd_dropWhile_slash: "dropWhile (\<lambda>c. c = SLASH) p \<noteq> [] \<Longrightarrow> hd (dropWhile (\<lambda>c. c = SLASH) p) \<noteq> SLASH"
  by (rule hd_dropWhile)

lemma skipelem_elems:
  "skipelem path name =
     (case path_elems path of
        [] \<Rightarrow> None
      | e # es \<Rightarrow>
          Some (dropWhile (\<lambda>c. c = SLASH) (dropWhile (\<lambda>c. c \<noteq> SLASH) (dropWhile (\<lambda>c. c = SLASH) path)),
                if DIRSIZ \<le> length e then take DIRSIZ e else e @ [0] @ drop (length e + 1) name))"
    (is "_ = ?rhs")
proof (cases "dropWhile (\<lambda>c. c = SLASH) path = []")
  case True
  have "path_elems path = path_elems []" using path_elems_slashes [of path] unfolding True by (rule sym)
  then show ?thesis using True by (simp add: skipelem_def path_elems_def)
next
  case False
  let ?p = "dropWhile (\<lambda>c. c = SLASH) path"
  have "path_elems path = takeWhile (\<lambda>c. c \<noteq> SLASH) ?p # path_elems (dropWhile (\<lambda>c. c \<noteq> SLASH) ?p)"
    using path_elems_first [OF False hd_dropWhile_slash [OF False]] path_elems_slashes [of path] by simp
  then show ?thesis using False by (simp add: skipelem_def Let_def)
qed

lemma skipelem_rest:
  assumes "skipelem path name = Some (rest, name')"
  shows "path_elems rest = tl (path_elems path)" and "path_elems path \<noteq> []"
    and "rest = [] \<longleftrightarrow> length (path_elems path) = 1"
proof -
  let ?p = "dropWhile (\<lambda>c. c = SLASH) path"
  let ?r = "dropWhile (\<lambda>c. c \<noteq> SLASH) ?p"
  have p: "?p \<noteq> []" and r: "rest = dropWhile (\<lambda>c. c = SLASH) ?r"
    using assms by (auto simp: skipelem_def Let_def split: if_splits)
  have e: "path_elems path = takeWhile (\<lambda>c. c \<noteq> SLASH) ?p # path_elems ?r"
    using path_elems_first [OF p hd_dropWhile_slash [OF p]] path_elems_slashes [of path] by simp
  have pr: "path_elems rest = path_elems ?r" unfolding r by (rule path_elems_slashes)
  show "path_elems rest = tl (path_elems path)" "path_elems path \<noteq> []" using e pr by simp_all
  have "rest = [] \<longleftrightarrow> path_elems rest = []"
  proof
    assume "path_elems rest = []"
    then show "rest = []"
      using path_elems_first [of rest] r hd_dropWhile [of "\<lambda>c. c = SLASH" ?r] by (cases "rest = []") auto
  qed (simp add: path_elems_def)
  then show "rest = [] \<longleftrightarrow> length (path_elems path) = 1" using e pr by simp
qed

section \<open>Directories\<close>

text \<open>The entry at offset \<open>off\<close> of a directory.\<close>

definition dir_entry :: "'a fsdev_scheme \<Rightarrow> nat \<Rightarrow> nat \<Rightarrow> uchar list" where
  "dir_entry s dp off = map (fbyte s dp) [off..<off + 16]"

definition dir_match :: "'a fsdev_scheme \<Rightarrow> nat \<Rightarrow> uchar list \<Rightarrow> nat \<Rightarrow> bool" where
  "dir_match s dp name off \<longleftrightarrow>
     de_inum (dir_entry s dp off) \<noteq> 0 \<and> cname name = cname (de_name (dir_entry s dp off))"

text \<open>The offsets of the entries from \<open>off\<close> on.\<close>

definition offsets :: "nat \<Rightarrow> nat \<Rightarrow> nat list" where
  "offsets off sz = map (\<lambda>k. off + 16 * k) [0..<(sz - off) div 16]"

definition dir_ok :: "'a fsdev_scheme \<Rightarrow> nat \<Rightarrow> nat \<Rightarrow> bool" where
  "dir_ok s dp nb \<longleftrightarrow> file_ok s dp nb \<and> i_type (icache s ! dp) = T_DIR \<and> 16 dvd unat (i_size (icache s ! dp)) \<and>
     unat (i_size (icache s ! dp)) \<le> nb * BSIZE"

lemma offsets_step: "off < sz \<Longrightarrow> 16 dvd sz - off \<Longrightarrow> offsets off sz = off # offsets (off + 16) sz"
proof -
  assume a: "off < sz" "16 dvd sz - off"
  then obtain m where m: "sz - off = 16 * Suc m" by (metis dvdE gr0_implies_Suc mult_is_0 not_gr0 zero_less_diff)
  then have "sz - (off + 16) = 16 * m" by simp
  then show ?thesis
    using m by (simp add: offsets_def upt_conv_Cons map_Suc_upt [symmetric] comp_def del: upt_Suc map_Suc_upt)
qed

lemma offsets_end: "sz \<le> off \<Longrightarrow> offsets off sz = []"
  by (simp add: offsets_def)

lemma dir_read:
  assumes inv: "log_inv s" "busyb s = {}" and d: "dir_ok s dp nb" and off: "off < unat (i_size (icache s ! dp))"
    "16 dvd unat (i_size (icache s ! dp)) - off"
  shows "\<exists>s'. readi dr dp (word_of_nat off) 16 s = Inr (16, dir_entry s dp off, s') \<and> same s s'"
proof -
  let ?z = "i_size (icache s ! dp)"
  have f: "file_ok s dp nb" "i_type (icache s ! dp) \<noteq> T_DEV" "unat ?z \<le> nb * BSIZE"
    using d by (auto simp: dir_ok_def T_DIR_def T_DEV_def)
  have "16 \<le> unat ?z - off" using off by (intro dvd_imp_le) simp_all
  then have le: "off + 16 \<le> unat ?z" by linarith
  have u: "unat (word_of_nat off :: uint) = off" using off(1) unat_uint_less [of ?z] by (simp add: unat_word_of_nat_uint)
  have "(word_of_nat off :: uint) + 16 = word_of_nat (off + 16)" by simp
  then have u16: "unat ((word_of_nat off :: uint) + 16) = off + 16"
    using le unat_uint_less [of ?z] by (simp only: unat_word_of_nat_uint)
  have "(word_of_nat off :: uint) \<le> ?z" "(word_of_nat off :: uint) \<le> word_of_nat off + 16"
    using u u16 le by (simp_all add: word_le_nat_alt)
  from readi_ok [OF inv f(1,3,2) this, of dr] show ?thesis
    using le by (simp add: u dir_entry_def min_def)
qed

lemma dir_ok_same: "same s s' \<Longrightarrow> dir_ok s' dp nb = dir_ok s dp nb"
  using file_ok_same [of s s' dp nb] fs_fields(2) [OF sameD(5), of s s'] by (simp add: dir_ok_def)

lemma dir_entry_same: "same s s' \<Longrightarrow> dir_entry s' dp off = dir_entry s dp off"
  by (simp add: dir_entry_def fbyte_same)

lemma dirlookup_loop_ok:
  assumes "log_inv s" and "busyb s = {}" and "dir_ok s dp nb" and "sz = unat (i_size (icache s ! dp))" and "16 dvd sz - off"
  shows "\<exists>s'. dirlookup_loop dr dp name sz off s =
      Inr (map_option (\<lambda>k. (ucast (de_inum (dir_entry s dp k)), word_of_nat k)) (find (dir_match s dp name) (offsets off sz)), s') \<and>
      same s s'"
  using assms
proof (induction "sz - off" arbitrary: off s rule: less_induct)
  case less
  show ?case
  proof (cases "off < sz")
    case False
    then show ?thesis using less(2) by (subst dirlookup_loop.simps) (simp add: offsets_end)
  next
    case True
    obtain s1 where s1: "readi dr dp (word_of_nat off) 16 s = Inr (16, dir_entry s dp off, s1)" "same s s1"
      using dir_read [OF less(2-4), of off dr] True less(5,6) by auto
    note os = offsets_step [OF True less(6)]
    have step: "dirlookup_loop dr dp name sz off s =
        (if dir_match s dp name off then Inr (Some (ucast (de_inum (dir_entry s dp off)), word_of_nat off), s1)
         else dirlookup_loop dr dp name sz (off + 16) s1)"
      using True s1(1) by (subst dirlookup_loop.simps) (simp add: dir_match_def namecmp_iff)
    show ?thesis
    proof (cases "dir_match s dp name off")
      case True
      then show ?thesis using step s1(2) os by simp
    next
      case nm: False
      note d1 = sameD [OF s1(2)]
      have dec: "sz - (off + 16) < sz - off" "16 dvd sz - (off + 16)"
        using True dvd_diff_nat [OF less(6) dvd_refl] by (simp_all add: diff_diff_left)
      have p: "busyb s1 = {}" "dir_ok s1 dp nb" "sz = unat (i_size (icache s1 ! dp))"
        using less(3-5) d1(3) dir_ok_same [OF s1(2)] fs_fields(2) [OF d1(5)] by simp_all
      have e: "dir_match s1 dp name = dir_match s dp name" "dir_entry s1 dp = dir_entry s dp"
        using dir_entry_same [OF s1(2)] by (auto simp: dir_match_def fun_eq_iff)
      obtain s' where "dirlookup_loop dr dp name sz (off + 16) s1 =
          Inr (map_option (\<lambda>k. (ucast (de_inum (dir_entry s dp k)), word_of_nat k)) (find (dir_match s dp name) (offsets (off + 16) sz)), s')"
          "same s1 s'"
        using less(1) [OF dec(1) d1(1) p dec(2)] unfolding e by blast
      then show ?thesis using step nm os same_trans [OF s1(2)] by auto
    qed
  qed
qed

text \<open>\<open>dirlookup\<close> finds the first entry with the name, and takes a reference to its inode.\<close>

lemma dirlookup_ok:
  assumes inv: "log_inv s" "busyb s = {}" and d: "dir_ok s dp nb"
  shows "case find (dir_match s dp name) (offsets 0 (unat (i_size (icache s ! dp)))) of
      None \<Rightarrow> \<exists>s'. dirlookup dr dp name s = Inr (None, s') \<and> same s s'
    | Some off \<Rightarrow> \<exists>s'. same s s' \<and> dirlookup dr dp name s =
        bindE (fs_iget 1 (ucast (de_inum (dir_entry s dp off))) s') (\<lambda>(ip, s). Inr (Some (ip, word_of_nat off), s))"
proof -
  have t: "i_type (icache s ! dp) = T_DIR" "i_dev (icache s ! dp) = 1" "16 dvd unat (i_size (icache s ! dp)) - 0"
    using d by (simp_all add: dir_ok_def file_ok_def)
  obtain s' where s': "dirlookup_loop dr dp name (unat (i_size (icache s ! dp))) 0 s =
      Inr (map_option (\<lambda>k. (ucast (de_inum (dir_entry s dp k)), word_of_nat k))
        (find (dir_match s dp name) (offsets 0 (unat (i_size (icache s ! dp))))), s')" "same s s'"
    using dirlookup_loop_ok [OF inv d refl t(3)] by blast
  have "i_dev (icache s' ! dp) = 1" using fs_fields(2) [OF sameD(5) [OF s'(2)]] t(2) by simp
  then show ?thesis
    using s' t(1) by (cases "find (dir_match s dp name) (offsets 0 (unat (i_size (icache s ! dp))))")
      (auto simp: dirlookup_def)
qed

end
