(* ===== verification/FsProps.thy ===== *)
theory FsProps
  imports FsAlloc FsDir
begin

text \<open>
  The properties of the log and of the file system, each with an instance on a small disk laid
  out as \<open>src/mkfs.c\<close> lays it out: superblock in block 1, log from block 2, inodes from block
  32, free map in block 58.
\<close>

section \<open>A small disk\<close>

definition demo_sb :: block where
  "demo_sb = put32 (put32 (put32 (put32 (put32 (put32 (put32 (replicate BSIZE 0) 0 1000) 4 941) 8 200) 12 30) 16 2) 20 32) 24 58"

text \<open>The map marks everything but block 700 as used.\<close>

definition demo_map :: block where
  "demo_map = clear_bit_at (replicate BSIZE 255) 700"

definition demo_disk :: "uint \<Rightarrow> block" where
  "demo_disk n = (if n = 1 then demo_sb else if n = 58 then demo_map else replicate BSIZE 0)"

definition demo_ip :: inode where
  "demo_ip = \<lparr>i_dev = 1, i_inum = 5, i_ref = 1, i_busy = True, i_valid = True, i_type = T_FILE, i_major = 0,
     i_minor = 0, i_nlink = 1, i_size = 600, i_addrs = [100, 101] @ replicate 11 0\<rparr>"

definition demo_fs :: fsdev where
  "demo_fs = (fresh_log demo_disk 1000 (fsdev.fields (dec_sb demo_sb) [demo_ip, demo_ip\<lparr>i_busy := False, i_valid := False\<rparr>] []))
     \<lparr>l_start := 2, l_size := 30, l_dev := 1, l_outstanding := 1\<rparr>"

lemma demo_sb_fields:
  "sb_size (dec_sb demo_sb) = 1000" "sb_ninodes (dec_sb demo_sb) = 200" "sb_nlog (dec_sb demo_sb) = 30"
  "sb_logstart (dec_sb demo_sb) = 2" "sb_inodestart (dec_sb demo_sb) = 32" "sb_bmapstart (dec_sb demo_sb) = 58"
  by (simp_all add: demo_sb_def dec_sb_def field_other BSIZE_def)

lemma zero_header: "is_header (replicate BSIZE 0) []"
  by (simp add: is_header_def get32_def BSIZE_def)

lemma demo_fs_fields:
  "icache demo_fs = [demo_ip, demo_ip\<lparr>i_busy := False, i_valid := False\<rparr>]" "fsb demo_fs = dec_sb demo_sb"
  "l_start demo_fs = 2" "l_size demo_fs = 30"
  "l_outstanding demo_fs = 1" "lh_n demo_fs = 0" "disksize demo_fs = 1000" "disk demo_fs = demo_disk" "l_dev demo_fs = 1"
  "\<not> l_committing demo_fs" "length (lh_block demo_fs) = LOGSIZE" "length (bufs demo_fs) = NBUF"
  by (simp_all add: demo_fs_def fresh_log_def binit_def fsdev.defs)

lemma demo_cache: "cache_inv demo_fs" "content demo_fs = demo_disk" "dirtyb demo_fs = {}" "busyb demo_fs = {}"
proof -
  let ?m = "fsdev.fields (dec_sb demo_sb) [demo_ip, demo_ip\<lparr>i_busy := False, i_valid := False\<rparr>] []"
  let ?f = "fresh_log demo_disk 1000 ?m"
  have e: "bufs demo_fs = bufs ?f" "lru demo_fs = lru ?f" "disk demo_fs = disk ?f" "disksize demo_fs = disksize ?f"
    by (simp_all add: demo_fs_def)
  note cg = cache_inv_cong [OF e] and fl = fresh_log_facts(1,2) [of demo_disk 1000 ?m]
  show "cache_inv demo_fs" "content demo_fs = demo_disk" "dirtyb demo_fs = {}" "busyb demo_fs = {}"
    using cg fl(1) view_eqD [OF fl(2)] by simp_all
qed

lemma demo_region: "region demo_fs = logreg 2 30"
  by (simp add: demo_fs_fields)

lemma demo_log_inv: "log_inv demo_fs"
proof -
  have "log_place demo_fs"
    unfolding log_place_def demo_region
    by (simp add: demo_fs_fields demo_disk_def demo_sb_fields logreg_def LOGSIZE_def MAXOPBLOCKS_def)
  moreover have "is_header (demo_disk 2) []" by (simp add: demo_disk_def zero_header)
  ultimately show ?thesis using demo_cache by (simp add: log_inv_def demo_fs_fields)
qed

lemma demo_bzero: "\<exists>s. bzero 1 100 demo_fs = Inr s \<and> log_inv s \<and> busyb s = {} \<and> lh_n s = 1 \<and> l_outstanding s = 1 \<and> \<not> l_committing s"
proof -
  have "plain_block demo_fs 100" unfolding demo_region by (simp add: demo_fs_fields logreg_def)
  then obtain s where s: "bzero 1 100 demo_fs = Inr s" "log_inv s" "busyb s = {}" "dev.more s = dev.more (log_add 100 demo_fs)"
    using bzero_ok [OF demo_log_inv demo_cache(4), of 100] by (auto simp: demo_fs_fields)
  note lf = log_fields [OF s(4)]
  have "lh_n (log_add 100 demo_fs) = 1"
    using log_add_logged(2) [of demo_fs 100] by (simp add: demo_fs_fields LOGSIZE_def MAXOPBLOCKS_def)
  then show ?thesis using s lf by (simp add: demo_fs_fields)
qed

section \<open>The log\<close>

text \<open>C3: A commit is atomic under crashes.  From any state of the log with a transaction and no
  buffer in use, \<open>commit\<close> succeeds, empties the log and puts the new contents of every block on
  the disk.  If the machine stops after any number \<open>k\<close> of the disk writes of the commit, and
  then stops again during any number of attempts at recovery (each after any number of its
  writes), the next boot that runs \<open>initlog\<close> to the end sees either all old blocks or all new
  blocks; which of the two is decided by the header write alone.\<close>

theorem commit_crash_safe:
  assumes "log_inv s" and "busyb s = {}" and "0 < lh_n s"
  shows "\<exists>s' W. commit s = Inr s' \<and> dwrites s' = dwrites s @ W \<and> log_inv s' \<and> lh_n s' = 0 \<and>
     (\<forall>b. b \<notin> region s \<longrightarrow> disk s' b = content s b \<and> content s' b = content s b) \<and>
     (\<forall>k js. \<exists>r. initlog 1 (fresh_log (crashes (disksize s) js (apply_writes (take k W) (disk s))) (disksize s) ()) = Inr r \<and>
        log_inv r \<and> lh_n r = 0 \<and>
        (\<forall>b. b \<notin> region s \<longrightarrow> content r b = (if k \<le> nat (lh_n s) then disk s b else content s b)))"
proof -
  obtain s' W where c: "commit s = Inr s'" "log_inv s'" "dev.more s' = dev.more (s\<lparr>lh_n := 0\<rparr>)" "dwrites s' = dwrites s @ W"
      "\<forall>b. b \<notin> region s \<longrightarrow> content s' b = content s b \<and> disk s' b = content s b"
      "\<And>k. represents (l_start s) (nat (l_size s)) (disksize s) (apply_writes (take k W) (disk s))
            (if k \<le> nat (lh_n s) then disk s else content s)"
      "\<And>k. sb_places (l_start s) (nat (l_size s)) (disksize s) (apply_writes (take k W) (disk s))"
    using commit_inv [OF assms] by blast
  have n: "lh_n s' = 0" using log_fields(6) [OF c(3)] by simp
  have "\<exists>r. initlog 1 (fresh_log (crashes (disksize s) js (apply_writes (take k W) (disk s))) (disksize s) ()) = Inr r \<and>
        log_inv r \<and> lh_n r = 0 \<and>
        (\<forall>b. b \<notin> region s \<longrightarrow> content r b = (if k \<le> nat (lh_n s) then disk s b else content s b))" for k js
  proof -
    let ?f = "if k \<le> nat (lh_n s) then disk s else content s"
    obtain r :: logdev where "initlog 1 (fresh_log (crashes (disksize s) js (apply_writes (take k W) (disk s))) (disksize s) ()) = Inr r"
        "log_inv r" "lh_n r = 0" "\<forall>b. b \<notin> region s \<longrightarrow> content r b = ?f b"
      using initlog_ok [OF conjunct1 conjunct2, OF crashes_ok [OF c(7,6)] crashes_ok [OF c(7,6)], where m = "()"] by blast
    then show ?thesis by (intro exI [of _ r]) simp
  qed
  then show ?thesis using c(1,2,4,5) n by (intro exI [of _ s'] exI [of _ W]) simp
qed

theorem commit_crash_safe_witness:
  "\<exists>s. bzero 1 100 demo_fs = Inr s \<and> log_inv s \<and> busyb s = {} \<and> 0 < lh_n s \<and>
     (\<exists>s' W. commit s = Inr s' \<and> dwrites s' = dwrites s @ W \<and>
       (\<forall>k. \<exists>r. initlog 1 (fresh_log (crashes (disksize s) [3, 1, 7] (apply_writes (take k W) (disk s))) (disksize s) ()) = Inr r))"
proof -
  obtain s where s: "bzero 1 100 demo_fs = Inr s" "log_inv s" "busyb s = {}" "lh_n s = 1" using demo_bzero by blast
  then have n: "0 < lh_n s" by simp
  obtain s' W where "commit s = Inr s'" "dwrites s' = dwrites s @ W"
      "\<forall>k js. \<exists>r. initlog 1 (fresh_log (crashes (disksize s) js (apply_writes (take k W) (disk s))) (disksize s) ()) = Inr r"
    using commit_crash_safe [OF s(2,3) n] by blast
  then show ?thesis using s(1-3) n by blast
qed

text \<open>C6: Recovery always succeeds and can be interrupted.  Booting on any disk whose superblock
  places the log and whose log is well formed, \<open>initlog\<close> returns with an empty log and with the
  contents the disk stands for both in the cache and on the disk; after any prefix of its writes
  the disk still stands for the same contents.\<close>

theorem initlog_recovers:
  assumes "sb_places st sz z d" and "represents st sz z d f"
  shows "\<exists>r. initlog 1 (fresh_log d z ()) = Inr r \<and> log_inv r \<and> lh_n r = 0 \<and>
     (\<forall>b. b \<notin> logreg st sz \<longrightarrow> content r b = f b \<and> disk r b = f b) \<and>
     (\<forall>j. represents st sz z (apply_writes (take j (dwrites r)) d) f)"
  using initlog_ok [OF assms, of "()"] by blast

lemma demo_represents: "sb_places 2 30 1000 demo_disk" "represents 2 30 1000 demo_disk demo_disk"
proof -
  show "sb_places 2 30 1000 demo_disk"
    by (simp add: sb_places_def demo_disk_def demo_sb_fields logreg_def LOGSIZE_def MAXOPBLOCKS_def)
  have "log_disk 2 30 1000 demo_disk []" by (simp add: log_disk_def demo_disk_def zero_header)
  then show "represents 2 30 1000 demo_disk demo_disk" by (rule representsI) (simp add: install_writes_def)
qed

theorem initlog_recovers_witness:
  "sb_places 2 30 1000 demo_disk \<and> represents 2 30 1000 demo_disk demo_disk \<and>
   (\<exists>r. initlog 1 (fresh_log demo_disk 1000 ()) = Inr r \<and> content r 58 = demo_map)"
proof -
  have "(58 :: uint) \<notin> logreg 2 30" by (simp add: logreg_def)
  then show ?thesis
    using initlog_recovers [OF demo_represents] demo_represents by (auto simp: demo_disk_def)
qed

text \<open>C31: The end of an operation.  With an operation running, no buffer in use and no commit in
  progress, \<open>end_op\<close> succeeds and wakes those waiting for the log; it leaves the contents of all
  blocks unchanged, and when it ends the last operation it also empties the log and brings the
  disk up to date.\<close>

theorem end_op_commits:
  assumes "log_inv s" and "busyb s = {}" and "1 \<le> l_outstanding s" and "\<not> l_committing s"
  shows "\<exists>s'. end_op s = Inr s' \<and> log_inv s' \<and> l_outstanding s' = l_outstanding s - 1 \<and> \<not> l_committing s' \<and>
     l_wakeups s' = l_wakeups s + 1 \<and> (\<forall>b. b \<notin> region s \<longrightarrow> content s' b = content s b) \<and>
     (if l_outstanding s = 1 then lh_n s' = 0 \<and> dirtyb s' = {} \<and> (\<forall>b. b \<notin> region s \<longrightarrow> disk s' b = content s b)
      else lh_n s' = lh_n s \<and> disk s' = disk s)"
  using end_op_ok [OF assms] by (auto split: if_splits)

theorem end_op_commits_witness:
  "\<exists>s s'. bzero 1 100 demo_fs = Inr s \<and> l_outstanding s = 1 \<and> end_op s = Inr s' \<and> lh_n s' = 0 \<and> dirtyb s' = {}"
proof -
  obtain s where s: "bzero 1 100 demo_fs = Inr s" "log_inv s" "busyb s = {}" "l_outstanding s = 1" "\<not> l_committing s"
    using demo_bzero by blast
  then show ?thesis using end_op_commits [of s] by force
qed

text \<open>C35: \<open>log_write\<close>.  It panics when the header is full or no operation is running; otherwise it
  pins the buffer, and the block joins the transaction unless it is already part of it.\<close>

theorem log_write_absorbs:
  assumes "0 \<le> lh_n s" and "length (lh_block s) = LOGSIZE" and "b < length (bufs s)"
  defines "n \<equiv> b_blockno (bufs s ! b)"
  shows "if int LOGSIZE \<le> lh_n s \<or> l_size s - 1 \<le> lh_n s then log_write b s = Inl (Panic ''too big a transaction'')
     else if l_outstanding s < 1 then log_write b s = Inl (Panic ''log_write outside of trans'')
     else \<exists>s'. log_write b s = Inr s' \<and> b_dirty (bufs s' ! b) \<and> b_data (bufs s' ! b) = b_data (bufs s ! b) \<and>
            logged s' = (if n \<in> set (logged s) then logged s else logged s @ [n]) \<and>
            disk s' = disk s \<and> (\<forall>j. j \<noteq> b \<longrightarrow> bufs s' ! j = bufs s ! j)"
proof -
  have e: "log_write b s = Inr (upd_buf b (\<lambda>b. b\<lparr>b_dirty := True\<rparr>) (log_add n s))"
    if "lh_n s < int LOGSIZE" "lh_n s < l_size s - 1" "1 \<le> l_outstanding s"
    using that by (simp add: log_write_def log_add_def n_def Let_def)
  have "logged (log_add n s) = (if n \<in> set (logged s) then logged s else logged s @ [n])" if "lh_n s < int LOGSIZE"
  proof -
    have "nat (lh_n s) < length (lh_block s)" using that assms(1,2) by linarith
    then show ?thesis using log_add_logged [OF assms(1), of n] by auto
  qed
  then show ?thesis
    using e assms(3) by (auto simp: log_write_def upd_buf_def log_add_def not_le)
qed

theorem log_write_absorbs_witness:
  "0 \<le> lh_n demo_fs \<and> length (lh_block demo_fs) = LOGSIZE \<and> (3 :: nat) < length (bufs demo_fs) \<and>
   (\<exists>s'. log_write 3 demo_fs = Inr s' \<and> b_dirty (bufs s' ! 3) \<and> logged s' = [0])"
proof -
  have len: "3 < length (bufs demo_fs)" by (simp add: demo_fs_fields NBUF_def)
  have b: "b_blockno (bufs demo_fs ! 3) = 0"
    by (simp add: demo_fs_def fresh_log_def binit_def NBUF_def zero_buf_def)
  show ?thesis
    using log_write_absorbs [of demo_fs 3] len b by (auto simp: demo_fs_fields LOGSIZE_def MAXOPBLOCKS_def)
qed

text \<open>The blocks an operation writes through the log, each zeroed with \<open>bzero\<close>.\<close>

fun bzeros :: "uint list \<Rightarrow> 'a logdev_scheme \<Rightarrow> 'a logdev_scheme res" where
  "bzeros [] s = Inr s"
| "bzeros (n # ns) s = bindE (bzero 1 n s) (bzeros ns)"

lemma bzeros_ok:
  assumes "log_inv s" and "busyb s = {}" and "1 \<le> l_outstanding s" and "distinct ns" and "set ns \<inter> set (logged s) = {}"
    and "\<forall>n \<in> set ns. plain_block s n" and "lh_n s + int (length ns) \<le> l_size s - 1"
  shows "\<exists>s'. bzeros ns s = Inr s' \<and> log_inv s' \<and> busyb s' = {} \<and> lh_n s' = lh_n s + int (length ns) \<and> l_size s' = l_size s \<and>
    disksize s' = disksize s"
  using assms
proof (induction ns arbitrary: s)
  case (Cons n ns)
  have room: "lh_n s < l_size s - 1" using Cons.prems(7) by simp
  have pn: "plain_block s n" using Cons.prems(6) by simp
  obtain t where t: "bzero 1 n s = Inr t" "log_inv t" "busyb t = {}" "disksize t = disksize s" "dev.more t = dev.more (log_add n s)"
    using bzero_ok [OF Cons.prems(1,2) pn room Cons.prems(3)] by blast
  note lf = log_fields [OF t(5)]
  have "0 \<le> lh_n s" "nat (lh_n s) < length (lh_block s)"
    using Cons.prems(1) room by (auto simp: log_inv_def log_place_def)
  then have la: "lh_n (log_add n s) = lh_n s + 1" "logged (log_add n s) = logged s @ [n]"
    using log_add_logged(2) [of s n] Cons.prems(5) by auto
  have lt: "lh_n t = lh_n s + 1" "logged t = logged s @ [n]" using la lf by simp_all
  have same: "l_start t = l_start s" "l_size t = l_size s" "l_outstanding t = l_outstanding s" using lf by (simp_all add: log_add_def)
  have "\<forall>n \<in> set ns. plain_block t n" using Cons.prems(6) same t(4) by simp
  moreover have "set ns \<inter> set (logged t) = {}" using Cons.prems(4,5) lt(2) by auto
  ultimately obtain s' where "bzeros ns t = Inr s'" "log_inv s'" "busyb s' = {}" "lh_n s' = lh_n t + int (length ns)" "l_size s' = l_size t" "disksize s' = disksize t"
    using Cons.IH [of t] t(2,3) Cons.prems(3,4,7) same lt(1) by auto
  then show ?case using t(1,4) lt(1) same(2) by simp
qed simp

text \<open>A block too many: the read succeeds and \<open>log_write\<close> panics.\<close>

lemma bzero_full:
  assumes "log_inv s" and "busyb s = {}" and "n < disksize s" and "lh_n s = l_size s - 1"
  shows "bzero 1 n s = Inl (Panic ''too big a transaction'')"
proof -
  have "avail s \<noteq> {}" by (rule log_inv_avail(2) [OF assms(1,2)])
  then obtain i t where t: "bread 1 n s = Inr (i, t)" "view t = (content s, disk s, dirtyb s, insert n (busyb s), dwrites s, disksize s, dev.more s)"
    using bread_ok [of s n] assms by (auto simp: log_inv_def)
  have "dev.more t = dev.more s" using view_eqD [OF t(2)] by simp
  then have "lh_n t = lh_n s" "l_size t = l_size s" using log_fields by blast+
  then show ?thesis using t(1) assms(4) by (simp add: bzero_def log_write_def upd_buf_def)
qed

text \<open>C36: The reservation of \<open>begin_op\<close> and the limit of \<open>log_write\<close> disagree by one block.  With the log of
  \<open>LOGSIZE\<close> = 30 blocks that \<open>mkfs\<close> makes, one of which is the header, and nothing in it, \<open>begin_op\<close> admits
  three operations, each of which may write \<open>MAXOPBLOCKS\<close> = 10 blocks.  If they do write ten blocks each, thirty different
  ones, the first twenty-nine are logged and the thirtieth makes \<open>log_write\<close> panic.\<close>

theorem log_reservation_gap:
  assumes "log_inv s" and "busyb s = {}" and "lh_n s = 0" and "l_outstanding s = 0" and "\<not> l_committing s" and "l_size s = int LOGSIZE"
    and "length ns = 3 * MAXOPBLOCKS" and "distinct ns" and "\<forall>n \<in> set ns. plain_block s n"
  shows "\<exists>s3 s4. bindE (bindE (begin_op s) begin_op) begin_op = Inr s3 \<and> l_outstanding s3 = 3 \<and>
     bzeros (butlast ns) s3 = Inr s4 \<and> lh_n s4 = 29 \<and> bzeros ns s3 = Inl (Panic ''too big a transaction'')"
proof -
  let ?s = "s\<lparr>l_outstanding := 3\<rparr>"
  have three: "bindE (bindE (begin_op s) begin_op) begin_op = Inr ?s"
    using assms(3-5) by (simp add: begin_op_def LOGSIZE_def MAXOPBLOCKS_def)
  have "bufs ?s = bufs s" "lru ?s = lru s" "disk ?s = disk s" "disksize ?s = disksize s" by simp_all
  note cg = cache_inv_cong [OF this]
  have inv: "log_inv ?s" "busyb ?s = {}" using assms(1,2) cg by (simp_all add: log_inv_def log_place_def)
  have "ns \<noteq> []" using assms(7) by (auto simp: MAXOPBLOCKS_def)
  then have ns: "ns = butlast ns @ [last ns]" "length (butlast ns) = 29" using assms(7) by (simp_all add: MAXOPBLOCKS_def)
  have pl: "\<forall>n \<in> set (butlast ns). plain_block ?s n" "last ns < disksize s" using assms(9) ns(1) by (auto dest: in_set_butlastD) (metis in_set_conv_decomp)
  have l0: "logged s = []" using assms(3) by simp
  obtain s4 where s4: "bzeros (butlast ns) ?s = Inr s4" "log_inv s4" "busyb s4 = {}" "lh_n s4 = 29" "l_size s4 = 30" "disksize s4 = disksize s"
    using bzeros_ok [OF inv, of "butlast ns"] pl(1) assms(3,6,8) l0 ns(2) by (auto simp: distinct_butlast LOGSIZE_def MAXOPBLOCKS_def)
  have app: "bzeros (xs @ ys) u = bindE (bzeros xs u) (bzeros ys)" for xs ys u
  proof (induction xs arbitrary: u)
    case (Cons x xs)
    then show ?case by (cases "bzero 1 x u") simp_all
  qed simp
  have "bzero 1 (last ns) s4 = Inl (Panic ''too big a transaction'')" using bzero_full [OF s4(2,3)] s4(4-6) pl(2) by simp
  then have "bzeros ns ?s = Inl (Panic ''too big a transaction'')" using app [of "butlast ns" "[last ns]" ?s] ns(1) s4(1) by simp
  then show ?thesis using three s4(1,4) by simp
qed

theorem log_reservation_gap_witness:
  "\<exists>s3. bindE (bindE (begin_op (demo_fs\<lparr>l_outstanding := 0\<rparr>)) begin_op) begin_op = Inr s3 \<and>
     bzeros (map word_of_nat [100 ..< 130]) s3 = Inl (Panic ''too big a transaction'')"
proof -
  let ?s = "demo_fs\<lparr>l_outstanding := 0\<rparr>" and ?ns = "map word_of_nat [100 ..< 130] :: uint list"
  have "bufs ?s = bufs demo_fs" "lru ?s = lru demo_fs" "disk ?s = disk demo_fs" "disksize ?s = disksize demo_fs" by simp_all
  note cg = cache_inv_cong [OF this]
  have inv: "log_inv ?s" "busyb ?s = {}" using demo_log_inv demo_cache(4) cg by (simp_all add: log_inv_def log_place_def)
  have r: "region ?s = region demo_fs" by simp
  have e: "[100 ..< 130] = [100, 101, 102, 103, 104, 105, 106, 107, 108, 109, 110, 111, 112, 113, 114, 115, 116, 117, 118, 119,
     120, 121, 122, 123, 124, 125, 126, 127, 128, 129 :: nat]" by (simp add: upt_rec)
  have ns: "length ?ns = 3 * MAXOPBLOCKS" "distinct ?ns" by (simp add: MAXOPBLOCKS_def) (simp add: e)
  have "\<forall>n \<in> set ?ns. plain_block ?s n" unfolding r demo_region e by (simp add: demo_fs_fields logreg_def)
  from log_reservation_gap [OF inv _ _ _ _ ns this] show ?thesis by (auto simp: demo_fs_fields LOGSIZE_def MAXOPBLOCKS_def)
qed

section \<open>Files\<close>

text \<open>C5: What is written to a file is what is read back.  For a file whose blocks up to the end of
  the write are allocated, in an operation with room in the log, \<open>writei\<close> at an offset inside the
  file returns the length of the data, and a \<open>readi\<close> of the same range then returns the data;
  every byte outside the range is unchanged, the size grows as needed, and nothing has gone to
  the disk yet.\<close>

theorem writei_readi:
  assumes "log_inv s" and "busyb s = {}" and f: "file_ok s i nb" and ty: "i_type (icache s ! i) \<noteq> T_DEV"
    and off: "off \<le> i_size (icache s ! i)" and fit: "unat off + length src \<le> nb * BSIZE"
    and sz: "unat (i_size (icache s ! i)) \<le> nb * BSIZE" and room: "file_room s i nb (chunks (unat off) (length src))"
  shows "\<exists>s1 s2. writei dw i src off (word_of_nat (length src)) s = Inr (int (length src), s1) \<and>
     readi dr i off (word_of_nat (length src)) s1 = Inr (int (length src), src, s2) \<and>
     i_size (icache s1 ! i) = max (i_size (icache s ! i)) (off + word_of_nat (length src)) \<and>
     (\<forall>k < nb * BSIZE. k < unat off \<or> unat off + length src \<le> k \<longrightarrow> fbyte s1 i k = fbyte s i k) \<and> disk s1 = disk s"
proof -
  let ?n = "length src" let ?w = "word_of_nat ?n :: uint"
  obtain s1 where s1: "writei dw i src off ?w s = Inr (int ?n, s1)" "log_inv s1" "busyb s1 = {}" "file_ok s1 i nb" "disk s1 = disk s"
      "icache s1 = (icache s)[i := (icache s ! i)\<lparr>i_size := max (i_size (icache s ! i)) (off + ?w)\<rparr>]"
      "\<forall>k < nb * BSIZE. fbyte s1 i k = (if unat off \<le> k \<and> k < unat off + ?n then src ! (k - unat off) else fbyte s i k)"
    using writei_ok [OF assms(1,2) f ty off refl fit room] by blast
  have il: "i < length (icache s)" "nb * BSIZE \<le> MAXFILE * BSIZE" using f by (simp_all add: file_ok_def)
  moreover have "MAXFILE * BSIZE = 71680" by (simp add: MAXFILE_def NDIRECT_def NINDIRECT_def BSIZE_def)
  ultimately have b: "unat off + ?n < 4294967296" using fit by linarith
  have un: "unat ?w = ?n" using b by (simp add: unat_word_of_nat_uint)
  have "off + ?w = word_of_nat (unat off + ?n)" by simp
  then have uo: "unat (off + ?w) = unat off + ?n" using b by (simp only: unat_word_of_nat_uint)
  have ip: "i_size (icache s1 ! i) = max (i_size (icache s ! i)) (off + ?w)" "i_type (icache s1 ! i) \<noteq> T_DEV"
    using s1(6) il(1) ty by simp_all
  have z: "unat (i_size (icache s1 ! i)) = max (unat (i_size (icache s ! i))) (unat off + ?n)"
    unfolding ip(1) by (simp add: max_def word_le_nat_alt uo)
  have h: "unat (i_size (icache s1 ! i)) \<le> nb * BSIZE" "off \<le> i_size (icache s1 ! i)" "off \<le> off + ?w"
    using z fit sz uo by (simp_all add: word_le_nat_alt)
  have e: "min (unat off + unat ?w) (unat (i_size (icache s1 ! i))) = unat off + ?n" using z un by simp
  obtain s2 where "readi dr i off ?w s1 = Inr (int ?n, map (fbyte s1 i) [unat off..<unat off + ?n], s2)"
    using readi_ok [OF s1(2,3,4) h(1) ip(2) h(2,3), of dr] unfolding e by auto
  moreover have "map (fbyte s1 i) [unat off..<unat off + ?n] = src"
    using s1(7) fit by (intro nth_equalityI) auto
  moreover have "\<forall>k < nb * BSIZE. k < unat off \<or> unat off + ?n \<le> k \<longrightarrow> fbyte s1 i k = fbyte s i k"
    using s1(7) by auto
  ultimately show ?thesis using s1(1,5) ip(1) by (intro exI [of _ s1] exI [of _ s2]) simp
qed

lemma demo_file: "file_ok demo_fs 0 2" "file_room demo_fs 0 2 2"
proof -
  have ba: "baddr demo_fs 0 bn = (if bn = 0 then 100 else 101)" if "bn < 2" for bn
    using that by (auto simp: baddr_def demo_fs_fields demo_ip_def NDIRECT_def less_2_cases_iff)
  have im: "baddr demo_fs 0 ` {..<2} = {100, 101}" using ba by (auto simp: image_iff) (metis one_less_numeral_iff zero_less_numeral semiring_norm(76) zero_neq_one)+
  have "inj_on (baddr demo_fs 0) {..<2}" using ba by (auto simp: inj_on_def split: if_splits)
  moreover have "\<forall>bn < 2. plain_block demo_fs (baddr demo_fs 0 bn)"
    unfolding demo_region using ba by (auto simp: demo_fs_fields logreg_def)
  ultimately show "file_ok demo_fs 0 2"
    using ba by (auto simp: file_ok_def demo_fs_fields demo_cache demo_ip_def demo_disk_def NDIRECT_def MAXFILE_def NINDIRECT_def BSIZE_def)
  have "iblock demo_fs 0 = 32"
    by (simp add: demo_fs_fields demo_ip_def IBLOCK_def demo_sb_fields IPB_def BSIZE_def)
  then show "file_room demo_fs 0 2 2"
    unfolding file_room_def demo_region using im by (simp add: demo_fs_fields logreg_def NDIRECT_def)
qed

theorem writei_readi_witness:
  "\<exists>s1 s2. writei (\<lambda>_. None) 0 (replicate 600 7) 300 600 demo_fs = Inr (600, s1) \<and>
     readi (\<lambda>_. None) 0 300 600 s1 = Inr (600, replicate 600 7, s2) \<and> i_size (icache s1 ! 0) = 900"
proof -
  have c: "chunks 300 600 = 2" by (simp add: chunks_def BSIZE_def)
  show ?thesis
    using writei_readi [OF demo_log_inv demo_cache(4) demo_file(1), of 300 "replicate 600 7" "\<lambda>_. None" "\<lambda>_. None"]
      demo_file(2) c by (auto simp: demo_fs_fields demo_ip_def T_FILE_def T_DEV_def BSIZE_def max_def)
qed

section \<open>Block allocation\<close>

text \<open>C7: \<open>balloc\<close> and \<open>bfree\<close> implement a set of used blocks.  \<open>balloc\<close> returns the lowest free
  block, zeroed, and marks exactly that block as used, or panics when every block is in use;
  \<open>bfree\<close> marks exactly the given block as free and panics when it was free already.\<close>

theorem balloc_bfree_set:
  assumes "log_inv s" and "busyb s = {}" and mp: "map_ok s" and sb: "fsb s = dec_sb (content s 1)"
    and out: "1 \<le> l_outstanding s" and room: "lh_n s + 2 \<le> l_size s - 1"
  defines "U \<equiv> {b. b < fs_blocks s \<and> used s b}"
  shows "(if U = {..<fs_blocks s} then balloc 1 s = Inl (Panic ''balloc: out of blocks'')
     else \<exists>b s'. balloc 1 s = Inr (word_of_nat b, s') \<and> b < fs_blocks s \<and> b \<notin> U \<and> {..<b} \<subseteq> U \<and> log_inv s' \<and>
       {b. b < fs_blocks s' \<and> used s' b} = insert b U \<and> content s' (word_of_nat b) = replicate BSIZE 0) \<and>
    (\<forall>x. x < fs_blocks s \<longrightarrow>
     (if x \<in> U then \<exists>s'. bfree 1 (word_of_nat x) s = Inr s' \<and> log_inv s' \<and> {b. b < fs_blocks s' \<and> used s' b} = U - {x}
      else bfree 1 (word_of_nat x) s = Inl (Panic ''freeing free block'')))"
proof (intro conjI allI impI)
  let ?sz = "fs_blocks s"
  have lim: "b < 4294967296" if "b < ?sz" for b using that unat_uint_less [of "sb_size (fsb s)"] by simp
  have len: "length (content s (BBLOCK (word_of_nat b) (fsb s))) = BSIZE" if "b < ?sz" for b
    using that mp by (simp add: map_ok_def)
  have full: "U = {..<?sz} \<longleftrightarrow> \<not> (\<exists>b < ?sz. \<not> used s b)" by (auto simp: U_def)
  note bl = balloc_loop_ok [OF assms(1,2) mp out room refl, of 0, simplified]
  have ba: "balloc 1 s = balloc_loop 1 ?sz 0 s" by (simp add: balloc_def)
  show "if U = {..<?sz} then balloc 1 s = Inl (Panic ''balloc: out of blocks'')
     else \<exists>b s'. balloc 1 s = Inr (word_of_nat b, s') \<and> b < ?sz \<and> b \<notin> U \<and> {..<b} \<subseteq> U \<and> log_inv s' \<and>
       {b. b < fs_blocks s' \<and> used s' b} = insert b U \<and> content s' (word_of_nat b) = replicate BSIZE 0"
  proof (cases "\<exists>b < ?sz. \<not> used s b")
    case True
    then obtain b s' where b: "balloc 1 s = Inr (word_of_nat b, s')" "b < ?sz" "\<not> used s b" "\<forall>b' < b. used s b'" "log_inv s'"
        "fsb s' = fsb s"
        "content s' = (content s)(BBLOCK (word_of_nat b) (fsb s) := set_bit_at (content s (BBLOCK (word_of_nat b) (fsb s))) (b mod BPB),
                                word_of_nat b := replicate BSIZE 0)"
      using bl ba by auto
    have "used s' b' \<longleftrightarrow> b' = b \<or> used s b'" if b': "b' < ?sz" for b'
    proof -
      have "BBLOCK (word_of_nat b') (fsb s) \<noteq> word_of_nat b" using mp b(2,3) b' by (simp add: map_ok_def)
      then have "content s' (BBLOCK (word_of_nat b') (fsb s)) =
          (if b' div BPB = b div BPB then set_bit_at (content s (BBLOCK (word_of_nat b) (fsb s))) (b mod BPB)
           else content s (BBLOCK (word_of_nat b') (fsb s)))"
        using b(7) BBLOCK_eq_iff [OF lim [OF b'] lim [OF b(2)], of "fsb s"] by simp
      then show ?thesis by (rule used_update(1) [OF lim [OF b(2)] lim [OF b'] len [OF b(2)] b(6) _ refl])
    qed
    then have "{b. b < fs_blocks s' \<and> used s' b} = insert b U" using b(2,6) by (auto simp: U_def)
    moreover have "{..<b} \<subseteq> U" "b \<notin> U" using b(2-4) by (auto simp: U_def)
    moreover have "U \<noteq> {..<?sz}" using full True by simp
    ultimately show ?thesis using b(1,2,5,7) by (simp only: if_False) (intro exI [of _ b] exI [of _ s'], simp)
  next
    case False
    then have "balloc 1 s = Inl (Panic ''balloc: out of blocks'')" using bl ba unfolding if_not_P [OF False] by simp
    then show ?thesis using False full by simp
  qed
  fix x assume x: "x < ?sz"
  show "if x \<in> U then \<exists>s'. bfree 1 (word_of_nat x) s = Inr s' \<and> log_inv s' \<and> {b. b < fs_blocks s' \<and> used s' b} = U - {x}
      else bfree 1 (word_of_nat x) s = Inl (Panic ''freeing free block'')"
  proof -
    have rm: "lh_n s < l_size s - 1" using room by linarith
    note bf = bfree_ok [OF assms(1,2) mp sb x out rm]
    show ?thesis
    proof (cases "used s x")
      case True
      then obtain s' where s': "bfree 1 (word_of_nat x) s = Inr s'" "log_inv s'" "fsb s' = fsb s"
          "content s' = (content s)(BBLOCK (word_of_nat x) (fsb s) := clear_bit_at (content s (BBLOCK (word_of_nat x) (fsb s))) (x mod BPB))"
        using bf by auto
      have "used s' b' \<longleftrightarrow> b' \<noteq> x \<and> used s b'" if b': "b' < ?sz" for b'
      proof -
        have "content s' (BBLOCK (word_of_nat b') (fsb s)) =
            (if b' div BPB = x div BPB then clear_bit_at (content s (BBLOCK (word_of_nat x) (fsb s))) (x mod BPB)
             else content s (BBLOCK (word_of_nat b') (fsb s)))"
          using s'(4) BBLOCK_eq_iff [OF lim [OF b'] lim [OF x], of "fsb s"] by simp
        then show ?thesis by (rule used_update(2) [OF lim [OF x] lim [OF b'] len [OF x] s'(3) _ refl])
      qed
      then have "{b. b < fs_blocks s' \<and> used s' b} = U - {x}" using s'(3) by (auto simp: U_def)
      then show ?thesis using s'(1,2) True x by (simp add: U_def)
    next
      case False
      then show ?thesis using bf by (simp add: U_def)
    qed
  qed
qed

lemma demo_map_ok: "b < 1000 \<Longrightarrow> used demo_fs b \<longleftrightarrow> b \<noteq> 700" "fs_blocks demo_fs = 1000" "map_ok demo_fs"
proof -
  have bb: "BBLOCK (word_of_nat b) (fsb demo_fs) = 58" if "b < 1000" for b
  proof -
    have "unat ((word_of_nat b :: uint) div word_of_nat BPB) = 0"
      using div_BPB [of b] that by (simp add: BPB_def BSIZE_def)
    then show ?thesis by (simp add: BBLOCK_def demo_fs_fields demo_sb_fields unat_eq_zero)
  qed
  have word_numeral_255: "(255 :: uchar) = - 1" by simp
  have ones: "\<not> bit_clear (replicate BSIZE 255) y" if "y < 4096" for y
  proof -
    have "y div 8 < BSIZE" using that by (simp add: BSIZE_def less_mult_imp_div_less)
    moreover have "bit (- 1 :: uchar) (y mod 8)" by simp
    then have "bit (255 :: uchar) (y mod 8)" by (simp only: word_numeral_255)
    ultimately show ?thesis by (simp add: bit_clear_iff)
  qed
  have u: "used demo_fs b \<longleftrightarrow> b \<noteq> 700" if "b < 1000" for b
    using that ones [of b] bit_clear_clear [of 700 "replicate BSIZE 255" b]
    by (simp add: used_def bb demo_cache demo_disk_def demo_map_def BPB_def BSIZE_def)
  then show "b < 1000 \<Longrightarrow> used demo_fs b \<longleftrightarrow> b \<noteq> 700" .
  show n: "fs_blocks demo_fs = 1000" by (simp add: demo_fs_fields demo_sb_fields)
  show "map_ok demo_fs"
    unfolding map_ok_def n demo_region
    using bb u by (auto simp: demo_fs_fields demo_cache demo_disk_def demo_map_def logreg_def)
qed

theorem balloc_bfree_set_witness:
  "(\<exists>s'. balloc 1 demo_fs = Inr (700, s') \<and> content s' 700 = replicate BSIZE 0) \<and>
   (\<exists>s'. bfree 1 300 demo_fs = Inr s') \<and> bfree 1 700 demo_fs = Inl (Panic ''freeing free block'')"
proof -
  let ?U = "{b. b < fs_blocks demo_fs \<and> used demo_fs b}"
  have U: "?U = {..<1000} - {700}" using demo_map_ok(1,2) by auto
  have sb: "fsb demo_fs = dec_sb (content demo_fs 1)" by (simp add: demo_fs_fields demo_cache demo_disk_def)
  have "1 \<le> l_outstanding demo_fs" "lh_n demo_fs + 2 \<le> l_size demo_fs - 1" by (simp_all add: demo_fs_fields)
  note th = balloc_bfree_set [OF demo_log_inv demo_cache(4) demo_map_ok(3) sb this, unfolded U, unfolded demo_map_ok(2)]
  have "(700 :: nat) \<in> {..<1000}" by (simp only: lessThan_iff)
  then have "({..<1000} - {700} :: nat set) \<noteq> {..<1000}" by blast
  from th [THEN conjunct1, unfolded if_not_P [OF this]]
  obtain b s' where b: "balloc 1 demo_fs = Inr (word_of_nat b, s')" "b < 1000" "b \<notin> {..<1000} - {700}"
      "content s' (word_of_nat b) = replicate BSIZE 0"
    by blast
  then have "b = 700" by (simp only: Diff_iff lessThan_iff) blast
  then have "\<exists>s'. balloc 1 demo_fs = Inr (700, s') \<and> content s' 700 = replicate BSIZE 0" using b(1,4) by simp
  moreover have "\<exists>s'. bfree 1 (word_of_nat 300) demo_fs = Inr s'"
    using th [THEN conjunct2, rule_format, of 300] by (simp only: Diff_iff lessThan_iff) auto
  moreover have "bfree 1 (word_of_nat 700) demo_fs = Inl (Panic ''freeing free block'')"
    using th [THEN conjunct2, rule_format, of 700] by simp
  ultimately show ?thesis by simp
qed

section \<open>Inodes\<close>

text \<open>C33: An inode survives the round trip through the disk.  After \<open>iupdate\<close> of a cached inode,
  \<open>ilock\<close> on any unloaded cache entry of the same inode reads back its type, device numbers, link
  count, size and block addresses; the other inodes of the same disk block are untouched.\<close>

theorem iupdate_ilock:
  assumes "log_inv s" and "busyb s = {}" and i: "i_dev (icache s ! i) = 1" "length (i_addrs (icache s ! i)) = NDIRECT + 1"
      "i_type (icache s ! i) \<noteq> 0"
    and b: "plain_block s (iblock s i)" "length (content s (iblock s i)) = BSIZE" and room: "lh_n s < l_size s - 1" "1 \<le> l_outstanding s"
    and j: "j < length (icache s)" "1 \<le> i_ref (icache s ! j)" "\<not> i_busy (icache s ! j)" "\<not> i_valid (icache s ! j)"
      "i_dev (icache s ! j) = 1" "i_inum (icache s ! j) = i_inum (icache s ! i)"
  shows "\<exists>s1 s2. iupdate i s = Inr s1 \<and> ilock (Some j) s1 = Inr s2 \<and>
     icache s2 ! j = (icache s ! j)\<lparr>i_busy := True, i_valid := True, i_type := i_type (icache s ! i), i_major := i_major (icache s ! i),
       i_minor := i_minor (icache s ! i), i_nlink := i_nlink (icache s ! i), i_size := i_size (icache s ! i),
       i_addrs := i_addrs (icache s ! i)\<rparr> \<and>
     (\<forall>k. k < IPB \<and> k \<noteq> inode_slot (i_inum (icache s ! i)) \<longrightarrow> (\<forall>ip. get_dinode (content s1 (iblock s i)) k ip = get_dinode (content s (iblock s i)) k ip))"
proof -
  let ?ip = "icache s ! i" and ?jp = "icache s ! j" and ?k = "inode_slot (i_inum (icache s ! i))" and ?a = "iblock s i"
  obtain s1 where s1: "iupdate i s = Inr s1" "log_inv s1" "busyb s1 = {}"
      "content s1 = (content s)(?a := put_dinode ?ip ?k (content s ?a))" "disksize s1 = disksize s"
      "dev.more s1 = dev.more (log_add ?a s)"
    using iupdate_ok [OF assms(1,2) i(1) b(1) room] by blast
  have "logdev.more s1 = logdev.more s" using log_fields(9) [OF s1(6)] by simp
  then have fs: "icache s1 = icache s" "fsb s1 = fsb s" by (cases s; cases s1; simp)+
  have ib: "iblock s1 j = ?a" using fs j(6) by simp
  let ?new = "(get_dinode (content s1 ?a) ?k ?jp)\<lparr>i_busy := True, i_valid := True\<rparr>"
  have get: "get_dinode (content s1 ?a) ?k ?jp = ?jp\<lparr>i_type := i_type ?ip, i_major := i_major ?ip, i_minor := i_minor ?ip,
      i_nlink := i_nlink ?ip, i_size := i_size ?ip, i_addrs := i_addrs ?ip\<rparr>"
    using get_put_dinode [OF inode_slot_less b(2) i(2)] s1(4) by simp
  have "\<exists>s2. ilock (Some j) s1 = Inr s2 \<and> icache s2 = (icache s)[j := ?new]"
    using ilock_ok [OF s1(2,3), of j] fs ib s1(5) j get b(1) i(3) by auto
  moreover have "?new = ?jp\<lparr>i_busy := True, i_valid := True, i_type := i_type ?ip, i_major := i_major ?ip,
      i_minor := i_minor ?ip, i_nlink := i_nlink ?ip, i_size := i_size ?ip, i_addrs := i_addrs ?ip\<rparr>"
    unfolding get by (cases ?jp) simp
  moreover have "get_dinode (content s1 ?a) k ip = get_dinode (content s ?a) k ip" if "k < IPB" "k \<noteq> ?k" for k ip
  proof -
    have nth: "content s1 ?a ! m = content s ?a ! m" if "64 * k \<le> m" "m < 64 * k + 64" for m
      using s1(4) put_dinode_other [of m ?k ?ip "content s ?a"] i(2) that \<open>k \<noteq> ?k\<close> by (cases "k < ?k") auto
    then show ?thesis
      by (simp add: get_dinode_def get16_def get32_def get_words_def NDIRECT_def)
  qed
  ultimately show ?thesis using s1(1) j(1) by (metis nth_list_update_eq)
qed

theorem iupdate_ilock_witness:
  "\<exists>s1 s2. iupdate 0 demo_fs = Inr s1 \<and> ilock (Some 1) s1 = Inr s2 \<and> i_addrs (icache s2 ! 1) = [100, 101] @ replicate 11 0"
proof -
  have ib: "iblock demo_fs 0 = 32"
    by (simp add: demo_fs_fields demo_ip_def IBLOCK_def demo_sb_fields IPB_def BSIZE_def)
  have "plain_block demo_fs (iblock demo_fs 0)" unfolding ib demo_region by (simp add: demo_fs_fields logreg_def)
  then show ?thesis
    using iupdate_ilock [OF demo_log_inv demo_cache(4), of 0 1] ib
    by (fastforce simp: demo_fs_fields demo_cache demo_disk_def demo_ip_def NDIRECT_def T_FILE_def)
qed

section \<open>Directories and paths\<close>

text \<open>C32: \<open>dirlookup\<close> returns the first entry of the directory that is in use and has the name (as
  C compares names of at most fourteen characters), with a reference to its inode and its
  offset; without such an entry it returns null.  The directory and everything else is left
  unchanged.\<close>

theorem dirlookup_first:
  assumes "log_inv s" and "busyb s = {}" and "dir_ok s dp nb"
  shows "case find (\<lambda>off. de_inum (dir_entry s dp off) \<noteq> 0 \<and> cname name = cname (de_name (dir_entry s dp off)))
           (map (\<lambda>k. 16 * k) [0..<unat (i_size (icache s ! dp)) div 16]) of
      None \<Rightarrow> \<exists>s'. dirlookup dr dp name s = Inr (None, s') \<and> same s s'
    | Some off \<Rightarrow> \<exists>s'. same s s' \<and> dirlookup dr dp name s =
        bindE (fs_iget 1 (ucast (de_inum (dir_entry s dp off))) s') (\<lambda>(ip, s). Inr (Some (ip, word_of_nat off), s))"
proof -
  have "(\<lambda>off. de_inum (dir_entry s dp off) \<noteq> 0 \<and> cname name = cname (de_name (dir_entry s dp off))) = dir_match s dp name"
    by (auto simp: dir_match_def fun_eq_iff)
  moreover have "map (\<lambda>k. 16 * k) [0..<unat (i_size (icache s ! dp)) div 16] = offsets 0 (unat (i_size (icache s ! dp)))"
    by (simp add: offsets_def)
  ultimately show ?thesis using dirlookup_ok [OF assms, where name = name and dr = dr] by simp
qed

text \<open>A directory whose first entry is inode 5 under the name \<open>f\<close>.\<close>

definition demo_dir :: block where
  "demo_dir = mk_dirent 5 [102] @ replicate 496 0"

definition demo_dp :: inode where
  "demo_dp = demo_ip\<lparr>i_inum := 1, i_type := T_DIR, i_size := 32\<rparr>"

definition demo_fs2 :: fsdev where
  "demo_fs2 = (fresh_log (demo_disk(100 := demo_dir)) 1000 (fsdev.fields (dec_sb demo_sb) [demo_dp] []))
     \<lparr>l_start := 2, l_size := 30, l_dev := 1, l_outstanding := 1\<rparr>"

lemma demo_fs2_fields:
  "icache demo_fs2 = [demo_dp]" "l_start demo_fs2 = 2" "l_size demo_fs2 = 30" "lh_n demo_fs2 = 0" "disksize demo_fs2 = 1000"
  "disk demo_fs2 = demo_disk(100 := demo_dir)" "l_dev demo_fs2 = 1"
  "length (lh_block demo_fs2) = LOGSIZE" "length (bufs demo_fs2) = NBUF"
  by (simp_all add: demo_fs2_def fresh_log_def binit_def fsdev.defs)

lemma demo_fs2_ok: "log_inv demo_fs2" "busyb demo_fs2 = {}" "content demo_fs2 = demo_disk(100 := demo_dir)" "dir_ok demo_fs2 0 1"
proof -
  let ?m = "fsdev.fields (dec_sb demo_sb) [demo_dp] []"
  let ?f = "fresh_log (demo_disk(100 := demo_dir)) 1000 ?m"
  have e: "bufs demo_fs2 = bufs ?f" "lru demo_fs2 = lru ?f" "disk demo_fs2 = disk ?f" "disksize demo_fs2 = disksize ?f"
    by (simp_all add: demo_fs2_def)
  note cg = cache_inv_cong [OF e] and fl = fresh_log_facts(1,2) [of "demo_disk(100 := demo_dir)" 1000 ?m]
  show c: "busyb demo_fs2 = {}" "content demo_fs2 = demo_disk(100 := demo_dir)"
    using cg fl(1) view_eqD [OF fl(2)] by simp_all
  have reg: "region demo_fs2 = logreg 2 30" by (simp add: demo_fs2_fields)
  have "log_place demo_fs2"
    unfolding log_place_def reg
    by (simp add: demo_fs2_fields demo_disk_def demo_sb_fields logreg_def LOGSIZE_def MAXOPBLOCKS_def)
  moreover have "is_header (demo_disk 2) []" by (simp add: demo_disk_def zero_header)
  ultimately show "log_inv demo_fs2"
    using cg fl(1) view_eqD [OF fl(2)] by (simp add: log_inv_def demo_fs2_fields)
  have ba: "baddr demo_fs2 0 0 = 100" by (simp add: baddr_def demo_fs2_fields demo_dp_def demo_ip_def NDIRECT_def)
  have "length demo_dir = BSIZE" by (simp add: demo_dir_def mk_dirent_def BSIZE_def DIRSIZ_def)
  then show "dir_ok demo_fs2 0 1"
    unfolding dir_ok_def file_ok_def reg using ba c(2)
    by (simp add: demo_fs2_fields demo_dp_def demo_ip_def logreg_def NDIRECT_def MAXFILE_def BSIZE_def lessThan_Suc)
qed

theorem dirlookup_first_witness:
  "\<exists>s. dirlookup (\<lambda>_. None) 0 [102] demo_fs2 = bindE (fs_iget 1 5 s) (\<lambda>(ip, s). Inr (Some (ip, 0), s))"
proof -
  have "dir_entry demo_fs2 0 0 = take 16 demo_dir"
  proof (rule nth_equalityI)
    fix k assume "k < length (dir_entry demo_fs2 0 0)"
    then have k: "k < 16" by (simp add: dir_entry_def)
    then show "dir_entry demo_fs2 0 0 ! k = take 16 demo_dir ! k"
      by (simp add: dir_entry_def fbyte_def baddr_def demo_fs2_fields demo_fs2_ok demo_dp_def demo_ip_def NDIRECT_def BSIZE_def)
  qed (simp add: dir_entry_def demo_dir_def mk_dirent_def DIRSIZ_def)
  also have "take 16 demo_dir = mk_dirent 5 [102]" by (simp add: demo_dir_def mk_dirent_def DIRSIZ_def)
  finally have de: "dir_entry demo_fs2 0 0 = mk_dirent 5 [102]" .
  have in5: "de_inum (mk_dirent 5 [102]) = 5" by code_simp
  have nm: "cname (de_name (mk_dirent 5 [102])) = [102]" "cname [102] = [102]" by code_simp+
  have up: "[0..<unat (i_size (icache demo_fs2 ! 0)) div 16] = [0, 1]"
    by (simp add: demo_fs2_fields demo_dp_def upt_conv_Cons)
  show ?thesis
    using dirlookup_first [OF demo_fs2_ok(1,2,4), where name = "[102]" and dr = "\<lambda>_. None"] unfolding up
    by (auto simp: de in5 nm)
qed

text \<open>C34: \<open>skipelem\<close> takes paths apart as their list of elements.  It returns null exactly when the
  path has no element; otherwise it copies the first element into the buffer, cut at fourteen
  characters, and returns a shorter path with no leading slash whose elements are the remaining
  ones, so that the loops over it end.\<close>

theorem skipelem_is_elems:
  assumes "length name = DIRSIZ"
  shows "case skipelem path name of
     None \<Rightarrow> path_elems path = []
   | Some (rest, name') \<Rightarrow>
       (\<exists>e. path_elems path = e # path_elems rest \<and> cname name' = cname e \<and> length name' = DIRSIZ) \<and>
       length rest < length path \<and> (rest = [] \<or> hd rest \<noteq> SLASH) \<and> (rest = [] \<longleftrightarrow> path_elems rest = [])"
proof (cases "skipelem path name")
  case None
  then show ?thesis by (simp add: skipelem_elems split: list.splits)
next
  case (Some p)
  obtain rest name' where p: "p = (rest, name')" by (cases p)
  note sr = skipelem_rest [OF Some [unfolded p]]
  obtain e es where e: "path_elems path = e # es" using sr(2) by (cases "path_elems path") auto
  then have n: "name' = (if DIRSIZ \<le> length e then take DIRSIZ e else e @ [0] @ drop (length e + 1) name)"
      and r: "rest = dropWhile (\<lambda>c. c = SLASH) (dropWhile (\<lambda>c. c \<noteq> SLASH) (dropWhile (\<lambda>c. c = SLASH) path))"
    using Some p by (simp_all add: skipelem_elems)
  have "cname name' = cname e"
  proof (cases "DIRSIZ \<le> length e")
    case False
    then obtain k where "DIRSIZ - length e = Suc k" by (cases "DIRSIZ - length e") auto
    then show ?thesis using False by (auto simp: n cname_def takeWhile_append takeWhile_eq_all_conv [THEN iffD2])
  qed (simp add: n cname_def)
  moreover have "length name' = DIRSIZ" unfolding n using assms by simp
  moreover have "rest = [] \<or> hd rest \<noteq> SLASH" unfolding r using hd_dropWhile_slash by blast
  ultimately show ?thesis
    using Some p sr e skipelem_shorter [OF Some [unfolded p]] by auto
qed

theorem skipelem_is_elems_witness:
  "length (replicate DIRSIZ (0 :: uchar)) = DIRSIZ \<and>
   skipelem [SLASH, 97, SLASH, 98] (replicate DIRSIZ 0) = Some ([98], [97] @ replicate 13 0) \<and>
   path_elems [SLASH, 97, SLASH, 98] = [97] # path_elems [98]"
proof -
  have e: "skipelem [SLASH, 97, SLASH, 98] (replicate DIRSIZ 0) = Some ([98], [97] @ replicate 13 0)"
    by code_simp
  have p: "path_elems [SLASH, 97, SLASH, 98] = [[97], [98]]" by code_simp
  have "length (replicate DIRSIZ (0 :: uchar)) = DIRSIZ" by simp
  from skipelem_is_elems [OF this, of "[SLASH, 97, SLASH, 98]"] show ?thesis
    unfolding e using p by (simp add: path_elems_def)
qed

text \<open>The comparison of names on byte lists is \<open>strncmp\<close> of \<open>src/string.c\<close> on memory: \<open>namecmp\<close>
  of the bytes found at two addresses is \<open>strncmp\<close> of the addresses with the length \<open>DIRSIZ\<close>, and it
  is zero exactly when the names agree up to their NUL or fourteen characters.\<close>

theorem namecmp_strncmp:
  "namecmp (str_bytes m p DIRSIZ) (str_bytes m q DIRSIZ) = strncmp m p q (word_of_nat DIRSIZ) \<and>
   (strncmp m p q (word_of_nat DIRSIZ) = 0 \<longleftrightarrow> cname (str_bytes m p DIRSIZ) = cname (str_bytes m q DIRSIZ))"
proof -
  have "namecmp (str_bytes m p DIRSIZ) (str_bytes m q DIRSIZ) = strncmp m p q (word_of_nat DIRSIZ)"
    by (simp add: namecmp_def strncmp_def strncmp_list_eq DIRSIZ_def)
  then show ?thesis using namecmp_iff by metis
qed

end
