(* ===== verification/SysProps.thy ===== *)
theory SysProps
  imports SysInv FsProps
begin

text \<open>
  Properties of the system call layer: safety of arbitrary sequences of file system calls, the
  checks of user addresses, and pipes used through open files; with the states that witness them.
\<close>

section \<open>A concrete process\<close>

definition free_file :: ofile where
  "free_file = \<lparr>f_type = FD_NONE, f_ref = 0, f_readable = False, f_writable = False, f_pipe = None, f_ip = None, f_off = 0\<rparr>"

definition demo_sys :: kfs where
  "demo_sys = fsdev.extend demo_fs
     (kfs.fields (replicate 3 free_file) two_pages (\<lambda>_. None) 4096 (\<lambda>_. 0) 0 (replicate NOFILE None) 0 False)"

text \<open>A device that reads nothing and takes everything.\<close>

definition null_read :: "kfs devread" where
  "null_read m = (if m = 1 then Some (\<lambda>i n s. Inr (0, [], s)) else None)"

definition null_write :: "kfs devwrite" where
  "null_write m = (if m = 1 then Some (\<lambda>i src n s. Inr (sint n, s)) else None)"

lemma null_devices: "dev_keeps_read null_read" "dev_keeps_write null_write"
  by (simp_all add: dev_keeps_read_def dev_keeps_write_def null_read_def null_write_def)

lemma demo_sys_fields:
  "ftab demo_sys = replicate 3 free_file" "kpages demo_sys = two_pages" "pipes demo_sys = (\<lambda>_. None)" "u_sz demo_sys = 4096"
  "u_mem demo_sys = (\<lambda>_. 0)" "u_esp demo_sys = 0" "u_ofile demo_sys = replicate NOFILE None" "u_cwd demo_sys = 0"
  "length (icache demo_sys) = 2" "u_killed demo_sys = False"
  by (simp_all add: demo_sys_def fsdev.defs kfs.defs demo_fs_def fresh_log_def binit_def)

lemma demo_sys_ok: "sys_ok 0x80110000 (\<lambda>_. 0) demo_sys"
proof -
  have "count_list (replicate NOFILE None) (Some f) = 0" for f :: nat
    by (simp add: count_list_0_iff)
  then show ?thesis using two_pages_inv
    by (auto simp: sys_ok_def files_ok_def fds_open_def demo_sys_fields refs_ok_def file_typed_def pipe_ends_def
        pipe_pages_def free_file_def)
qed

lemma demo_pipealloc: "\<exists>s1. pipealloc 0x80110000 demo_sys = Inr (Some (0, 1), s1) \<and> u_ofile s1 = u_ofile demo_sys"
proof -
  have fa: "filealloc (replicate 3 free_file) = (Some 0, (replicate 3 free_file)[0 := free_file\<lparr>f_ref := 1\<rparr>])"
      "filealloc ((replicate 3 free_file)[0 := free_file\<lparr>f_ref := 1\<rparr>]) =
         (Some 1, (replicate 3 free_file)[0 := free_file\<lparr>f_ref := 1\<rparr>, 1 := free_file\<lparr>f_ref := 1\<rparr>])"
    by code_simp+
  have "fst (kalloc two_pages) = 0x80201000" by code_simp
  then obtain k where ka: "kalloc two_pages = (0x80201000, k)" by (cases "kalloc two_pages") simp
  show ?thesis using fa(2) by (simp add: pipealloc_def demo_sys_fields fa(1) ka Let_def upd_file_def)
qed

section \<open>Properties\<close>

text \<open>C4: The open file layer is type safe.  From a state in which reference counts are exact, open
  files have the object their type promises, the ends of a pipe are at most two files and pipe
  pages are not free, every sequence of file system calls, with user code running in between, leads
  to such a state again; and no call made there accesses a null pointer or hits one of the panics
  in \<open>filedup\<close>, \<open>fileclose\<close>, \<open>fileread\<close> or \<open>filewrite\<close>.  The drivers in the device table are assumed
  to leave the tables of the file system alone.\<close>

theorem file_calls_safe:
  assumes "sys_ok kend oth s" and "dev_keeps_read dr" and "dev_keeps_write dw"
    and "(sys_step kend dr dw)\<^sup>*\<^sup>* s s'"
  shows "sys_ok kend oth s' \<and> (\<forall>num f. file_calls kend dr dw num = Some f \<longrightarrow> f s' \<notin> Inl ` faults)"
proof -
  have ok: "sys_ok kend oth s'"
    using assms(4,1) by (induction rule: rtranclp_induct) (use sys_ok_step assms(2,3) in blast)+
  then show ?thesis using ensures_no_fault [OF file_calls_ok [OF ok assms(2,3)]] by blast
qed

text \<open>C11: Checked arguments lie in the process.  With a process size below \<open>KERNBASE\<close>, an integer
  that \<open>fetchint\<close> returns, a buffer of non-negative size that \<open>argptr\<close> accepts and a string that
  \<open>fetchstr\<close> returns, its NUL included, lie below the size of the process; the string is the bytes
  in memory up to the first NUL.\<close>

theorem arguments_inside:
  assumes "u_sz s \<le> KERNBASE"
  shows "(fetchint addr s = Some v \<longrightarrow> unat addr + 4 \<le> unat (u_sz s) \<and> v = read32 (u_mem s) addr) \<and>
    (argptr n sz s = Some p \<and> 0 \<le> sz \<and> sz < 2 ^ 31 \<longrightarrow> argint n s = Some p \<and> unat p + nat sz \<le> unat (u_sz s)) \<and>
    (fetchstr addr s = Some str \<longrightarrow> unat addr + length str < unat (u_sz s) \<and> 0 \<notin> set str \<and>
       str = load_bytes (u_mem s) addr (length str) \<and> u_mem s (addr + word_of_nat (length str)) = 0)"
proof (intro conjI impI)
  have z: "unat (u_sz s) \<le> 2147483648" using assms by (simp add: word_le_nat_alt KERNBASE_def)
  have add: "unat (a + word_of_int k) = unat a + nat k" if "unat a < unat (u_sz s)" "0 \<le> k" "k < 2 ^ 31" for a :: uint and k
  proof -
    have "unat a + nat k < 2 ^ 32" using that z by simp
    then have "unat (a + word_of_nat (nat k)) = unat a + nat k" by (intro unat_add_word_of_nat) simp
    then show ?thesis using that(2) by simp
  qed
  show "unat addr + 4 \<le> unat (u_sz s)" "v = read32 (u_mem s) addr" if "fetchint addr s = Some v"
    using that add [of addr 4] by (auto simp: fetchint_def word_le_nat_alt word_less_nat_alt not_le not_less split: if_splits)
  show "argint n s = Some p" "unat p + nat sz \<le> unat (u_sz s)" if "argptr n sz s = Some p \<and> 0 \<le> sz \<and> sz < 2 ^ 31"
    using that add [of p sz] by (auto simp: argptr_def word_le_nat_alt word_less_nat_alt not_le not_less split: if_splits option.splits)
  have loop: "length str < k \<and> 0 \<notin> set str \<and> str = load_bytes m a (length str) \<and> m (a + word_of_nat (length str)) = 0"
    if "fetchstr_loop m a k = Some str" for m a k
    using that
  proof (induction m a k arbitrary: str rule: fetchstr_loop.induct)
    case (2 m a k)
    show ?case
    proof (cases "m a = 0")
      case False
      then obtain t where t: "str = m a # t" "fetchstr_loop m (a + 1) k = Some t" using 2(2) by auto
      have "load_bytes m a (Suc j) = m a # load_bytes m (a + 1) j" for j
        by (simp add: load_bytes_def upt_conv_Cons map_Suc_upt [symmetric] ac_simps del: upt_Suc map_Suc_upt)
      then show ?thesis using 2(1) [OF False t(2)] False t(1) by (auto simp: algebra_simps)
    qed (use 2(2) in \<open>simp add: load_bytes_def\<close>)
  qed simp
  assume f: "fetchstr addr s = Some str"
  then have "unat addr < unat (u_sz s)" and l: "fetchstr_loop (u_mem s) addr (unat (u_sz s) - unat addr) = Some str"
    by (auto simp: fetchstr_def not_le word_less_nat_alt split: if_splits)
  then show "unat addr + length str < unat (u_sz s)" "0 \<notin> set str" "str = load_bytes (u_mem s) addr (length str)"
      "u_mem s (addr + word_of_nat (length str)) = 0"
    using loop [OF l] by auto
qed

theorem arguments_inside_witness:
  "u_sz demo_sys \<le> KERNBASE \<and> fetchint 4 demo_sys = Some 0 \<and> argptr 0 8 demo_sys = Some 0 \<and> fetchstr 7 demo_sys = Some [] \<and>
   unat (0 :: uint) + nat 8 \<le> unat (u_sz demo_sys)"
proof -
  have k: "unat (4096 :: uint) - unat (7 :: uint) = Suc 4088" by simp
  have l: "fetchstr_loop (\<lambda>_. 0) 7 (Suc 4088) = Some []" by (subst fetchstr_loop.simps) simp
  have a: "u_sz demo_sys \<le> KERNBASE" "fetchint 4 demo_sys = Some 0" "argptr 0 8 demo_sys = Some 0" "fetchstr 7 demo_sys = Some []"
    unfolding fetchstr_def demo_sys_fields k l
    by (simp_all add: demo_sys_fields KERNBASE_def fetchint_def argptr_def argint_def read32_def)
  then show ?thesis using arguments_inside [OF a(1), of 4 0 0 8 0 "[]"] by simp
qed

theorem file_calls_safe_witness:
  "sys_ok 0x80110000 (\<lambda>_. 0) demo_sys \<and> dev_keeps_read null_read \<and> dev_keeps_write null_write \<and>
   (\<exists>s'. sys_pipe 0x80110000 demo_sys = Inr (0, s') \<and> u_ofile s' ! 0 = Some 0 \<and> u_ofile s' ! 1 = Some 1 \<and> sys_ok 0x80110000 (\<lambda>_. 0) s')"
proof -
  have fd: "first_idx (\<lambda>x. x = None) (replicate 16 (None :: nat option)) = Some 0"
      "first_idx (\<lambda>x. x = None) ((replicate 16 None)[0 := Some (0 :: nat)]) = Some 1"
    by code_simp+
  have "argptr 0 8 demo_sys = Some 0"
    by (simp add: demo_sys_fields fetchint_def argptr_def argint_def read32_def)
  moreover obtain s1 where "pipealloc 0x80110000 demo_sys = Inr (Some (0, 1), s1)" "u_ofile s1 = u_ofile demo_sys"
    using demo_pipealloc by blast
  ultimately obtain s' where s': "sys_pipe 0x80110000 demo_sys = Inr (0, s')" "u_ofile s' ! 0 = Some 0" "u_ofile s' ! 1 = Some 1"
    using fd(2) by (simp add: sys_pipe_def demo_sys_fields pipe_fds_def fdalloc_def NOFILE_def fd(1))
  have "sys_step 0x80110000 null_read null_write demo_sys s'"
    using s'(1) by (intro sys_step.call [of _ _ _ SYS_pipe "returns (sys_pipe 0x80110000)" _ "Some 0"]) (simp_all add: file_calls_def returns_def)
  then show ?thesis using file_calls_safe [OF demo_sys_ok null_devices, of s'] s' demo_sys_ok null_devices by blast
qed

text \<open>C37: \<open>read(fd, p, -1)\<close> gets past the argument check, and \<open>readi\<close> takes the length for the largest
  unsigned number: at the start of a file it delivers the whole file, however little of the process
  lies behind \<open>p\<close>.\<close>

theorem read_minus_one:
  assumes "argint 1 s = Some p" and "0 < p" and "p < u_sz s" and "i_type (icache s ! i) \<noteq> T_DEV"
  shows "argptr 1 (-1) s = Some p \<and> readi dr i 0 (word_of_int (-1)) s = readi dr i 0 (i_size (icache s ! i)) s"
proof -
  have "unat (p - 1) = unat p - 1" using assms(2) by (simp add: unat_minus_one_uint)
  then have "\<not> u_sz s < p - 1" using assms(3) by (simp add: word_less_nat_alt)
  moreover have "\<not> (i_size (icache s ! i) < (- 1 :: uint)) \<Longrightarrow> i_size (icache s ! i) = - 1"
    by (metis word_order.not_eq_extremum)
  ultimately show ?thesis using assms by (auto simp: argptr_def readi_def not_le Let_def)
qed

theorem read_minus_one_witness:
  "argint 1 (demo_sys\<lparr>u_mem := write32 (\<lambda>_. 0) 8 4095\<rparr>) = Some 4095 \<and> 4095 < u_sz demo_sys \<and>
   argptr 1 (-1) (demo_sys\<lparr>u_mem := write32 (\<lambda>_. 0) 8 4095\<rparr>) = Some 4095 \<and> i_size (icache demo_sys ! 0) = 600"
proof -
  let ?s = "demo_sys\<lparr>u_mem := write32 (\<lambda>_. 0) 8 4095\<rparr>"
  have a: "argint 1 ?s = Some 4095" "0 < (4095 :: uint)" "4095 < u_sz ?s"
    by (simp_all add: argint_def fetchint_def demo_sys_fields)
  have t: "i_type (icache ?s ! 0) \<noteq> T_DEV" "i_size (icache demo_sys ! 0) = 600"
    by (simp_all add: demo_sys_def fsdev.defs kfs.defs demo_fs_def fresh_log_def binit_def demo_ip_def T_FILE_def T_DEV_def)
  show ?thesis using read_minus_one [OF a t(1)] a t(2) by (simp add: demo_sys_fields)
qed

section \<open>Pipes through open files\<close>

text \<open>What \<open>pipealloc\<close> sets up.\<close>

lemma pipealloc_makes:
  assumes "pipealloc kend s = Inr (Some (f0, f1), s1)"
  shows "\<exists>pp junk. length junk = PIPESIZE \<and> pipes s1 pp = Some (pipe_init junk) \<and> f0 \<noteq> f1 \<and> f1 < length (ftab s1) \<and>
    f_type (ftab s1 ! f0) = FD_PIPE \<and> f_readable (ftab s1 ! f0) \<and> f_pipe (ftab s1 ! f0) = Some pp \<and>
    f_type (ftab s1 ! f1) = FD_PIPE \<and> f_writable (ftab s1 ! f1) \<and> f_pipe (ftab s1 ! f1) = Some pp \<and> f_ref (ftab s1 ! f1) = 1"
proof -
  obtain ft0 where a: "filealloc (ftab s) = (Some f0, ft0)" and b: "\<exists>ft1. filealloc ft0 = (Some f1, ft1)"
    using assms by (auto simp: pipealloc_def Let_def bindE_eq_Inr_iff split: prod.splits option.splits if_splits)
  obtain ft1 where b: "filealloc ft0 = (Some f1, ft1)" using b by blast
  have f0: "f0 < length ft0" "f_ref (ft0 ! f0) = 1"
    using a by (auto simp: filealloc_def first_idx_Some_iff split: option.splits)
  have f1: "f1 < length ft0" "f_ref (ft0 ! f1) = 0" "ft1 = ft0[f1 := (ft0 ! f1)\<lparr>f_ref := 1\<rparr>]"
    using b by (auto simp: filealloc_def first_idx_Some_iff split: option.splits)
  have ne: "f0 \<noteq> f1" using f0 f1 by auto
  obtain pg k where k: "kalloc (kpages s) = (pg, k)" by fastforce
  have "pg \<noteq> 0" using assms a b k by (auto simp: pipealloc_def Let_def bindE_eq_Inr_iff split: if_splits)
  then show ?thesis using assms a b k ne f0 f1
    by (intro exI [of _ "unat pg"] exI [of _ "map (\<lambda>j. kbytes k (pg + 52 + word_of_nat j)) [0..<PIPESIZE]"])
      (auto simp: pipealloc_def Let_def upd_file_def)
qed

text \<open>C10: A pipe works through its two files.  Whatever a new pipe's page contained, up to \<open>PIPESIZE\<close>
  bytes written to the second file are read back from the first, in order; and once the second file
  is closed, reading the first returns 0, the end of the file.\<close>

theorem pipe_write_read_close:
  assumes "pipealloc kend s = Inr (Some (f0, f1), s1)" and "src \<noteq> []" and "length src \<le> PIPESIZE" and "n = int (length src)"
  shows "\<exists>s2 s3 s4 s5. filewrite dw f1 src n s1 = Inr (Returned n [], s2) \<and> fileread dr f0 n s2 = Inr (Returned n src, s3) \<and>
    fileclose kend f1 s3 = Inr s4 \<and> fileread dr f0 n s4 = Inr (Returned 0 [], s5)"
proof -
  obtain pp junk where j: "length junk = PIPESIZE" and p: "pipes s1 pp = Some (pipe_init junk)" and ne: "f0 \<noteq> f1" and l: "f1 < length (ftab s1)"
    and t0: "f_type (ftab s1 ! f0) = FD_PIPE" "f_readable (ftab s1 ! f0)" "f_pipe (ftab s1 ! f0) = Some pp"
    and t1: "f_type (ftab s1 ! f1) = FD_PIPE" "f_writable (ftab s1 ! f1)" "f_pipe (ftab s1 ! f1) = Some pp" "f_ref (ftab s1 ! f1) = 1"
    using pipealloc_makes [OF assms(1)] by blast
  let ?p = "pipe_init junk"
  have i: "pipe_inv ?p" using pipe_init_inv [OF j] by blast
  have z: "fill ?p = 0" "p_readopen ?p" by (simp_all add: fill_def pipe_init_def)
  then have b: "buffered ?p = []" by (simp add: buffered_def)
  obtain r p2 where w: "pipewrite (u_killed s1) n src ?p = (r, p2)" by fastforce
  have W: "pipe_inv p2" "buffered p2 = src" "r = Returned n []" "p_readopen p2"
    using pipewrite_ok [OF i w] assms(3) z b by (auto simp: Let_def)
  let ?s2 = "s1\<lparr>pipes := (pipes s1)(pp \<mapsto> p2)\<rparr>"
  have 1: "filewrite dw f1 src n s1 = Inr (Returned n [], ?s2)" using t1 p w W by (simp add: filewrite_def Let_def)
  obtain r3 p3 where r: "piperead (u_killed s1) n p2 = (r3, p3)" by fastforce
  have R: "pipe_inv p3" "r3 = Returned n src" "buffered p3 = []" "p_readopen p3"
    using piperead_ok [OF W(1) r] W assms(2,4) by auto
  let ?s3 = "s1\<lparr>pipes := (pipes s1)(pp \<mapsto> p3)\<rparr>"
  have 2: "fileread dr f0 n ?s2 = Inr (Returned n src, ?s3)" using t0 r R by (simp add: fileread_def Let_def)
  obtain p4 dead where c: "pipe_shut True p3 = (p4, dead)" by fastforce
  have C: "pipe_inv p4" "\<not> dead" "\<not> p_writeopen p4" using pipe_shut_ok [OF c] R by auto
  have C': "buffered p4 = []" using c R(3) by (auto simp: pipe_shut_def p_wake_def buffered_def fill_def Let_def)
  let ?ft = "(ftab s1)[f1 := (ftab s1 ! f1)\<lparr>f_ref := 0, f_type := FD_NONE\<rparr>]"
  let ?s4 = "s1\<lparr>ftab := ?ft, pipes := (pipes s1)(pp \<mapsto> p4)\<rparr>"
  have "fileclose kend f1 ?s3 = pipeclose kend pp True (s1\<lparr>pipes := (pipes s1)(pp \<mapsto> p3), ftab := ?ft\<rparr>)"
    using t1 by (simp add: fileclose_def Let_def upd_file_def)
  also have "\<dots> = Inr (s1\<lparr>pipes := (pipes s1)(pp \<mapsto> p4), ftab := ?ft\<rparr>)" using c C(2) by (simp add: pipeclose_def)
  also have "s1\<lparr>pipes := (pipes s1)(pp \<mapsto> p4), ftab := ?ft\<rparr> = ?s4" by (cases s1) simp
  finally have 3: "fileclose kend f1 ?s3 = Inr ?s4" .
  obtain r5 p5 where e: "piperead (u_killed s1) n p4 = (r5, p5)" by fastforce
  have "r5 = Returned 0 []" using piperead_ok [OF C(1) e] C(3) C' by simp
  then have "fileread dr f0 n ?s4 = Inr (Returned 0 [], ?s4\<lparr>pipes := (pipes ?s4)(pp \<mapsto> p5)\<rparr>)"
    using t0 e ne by (simp add: fileread_def Let_def)
  then show ?thesis using 1 2 3 by blast
qed

theorem pipe_write_read_close_witness:
  "\<exists>s1 s2 s3. pipealloc 0x80110000 demo_sys = Inr (Some (0, 1), s1) \<and> filewrite null_write 1 [104, 105] 2 s1 = Inr (Returned 2 [], s2) \<and>
     fileread null_read 0 2 s2 = Inr (Returned 2 [104, 105], s3)"
proof -
  obtain s1 where s1: "pipealloc 0x80110000 demo_sys = Inr (Some (0, 1), s1)"
    using demo_pipealloc by blast
  show ?thesis using pipe_write_read_close [OF s1, of "[104, 105]" 2 null_write null_read] s1 by (fastforce simp: PIPESIZE_def)
qed

end
