(* ===== verification/Ulib.thy ===== *)
theory Ulib
  imports Kstring
begin

text \<open>
  The user library: \<open>src/ulib.c\<close> and \<open>src/printf.c\<close>.  A C string is the list of its characters before
  the NUL.  What a function prints is the list of bytes it writes.  The variable arguments of \<open>printf\<close>
  are the words \<open>ap 0, ap 1, \<dots>\<close> that follow the format on the stack, and \<open>strs\<close> gives the string at an
  address.
\<close>

section \<open>Strings (src/ulib.c)\<close>

fun strcmp :: "uchar list \<Rightarrow> uchar list \<Rightarrow> int" where
  "strcmp [] [] = 0"
| "strcmp [] (y # ys) = - uint y"
| "strcmp (x # xs) [] = uint x"
| "strcmp (x # xs) (y # ys) = (if x = y then strcmp xs ys else uint x - uint y)"

text \<open>The position of a character in a string held in a buffer: the search ends at the first NUL.\<close>

fun strchr :: "uchar list \<Rightarrow> uchar \<Rightarrow> nat option" where
  "strchr [] c = None"
| "strchr (x # xs) c = (if x = 0 then None else if x = c then Some 0 else map_option Suc (strchr xs c))"

lemma strchr_SomeD:
  "strchr p c = Some k \<Longrightarrow> k < length p \<and> p ! k = c \<and> c \<notin> set (take k p) \<and> 0 \<notin> set (take k p)"
  by (induction p arbitrary: k) (auto split: if_splits)

text \<open>The result is an \<open>int\<close>, which a number too large for it overflows; the words wrap around as the machine's registers do.\<close>

fun atoi_loop :: "uint \<Rightarrow> uchar list \<Rightarrow> uint" where
  "atoi_loop n [] = n"
| "atoi_loop n (c # cs) = (if 48 \<le> c \<and> c \<le> 57 then atoi_loop (n * 10 + ucast c - 48) cs else n)"

definition atoi :: "uchar list \<Rightarrow> uint" where
  "atoi s = atoi_loop 0 s"

text \<open>\<open>gets\<close>: the characters stored in the buffer, before the NUL it adds, and the rest of the input.
  \<open>read\<close> delivers one character at a time until the input ends.\<close>

fun gets_loop :: "nat \<Rightarrow> nat \<Rightarrow> uchar list \<Rightarrow> uchar list \<times> uchar list" where
  "gets_loop i mx [] = ([], [])"
| "gets_loop i mx (c # inp) =
     (if i + 1 < mx
      then if c = 10 \<or> c = 13 then ([c], inp) else let (b, rest) = gets_loop (i + 1) mx inp in (c # b, rest)
      else ([], c # inp))"

definition gets :: "nat \<Rightarrow> uchar list \<Rightarrow> uchar list \<times> uchar list" where
  "gets mx inp = gets_loop 0 mx inp"

text \<open>\<open>memset\<close> and \<open>memmove\<close> of the library; unlike the kernel's, this \<open>memmove\<close> always copies upwards.\<close>

definition u_memset :: "mem \<Rightarrow> uint \<Rightarrow> uint \<Rightarrow> uint \<Rightarrow> mem" where
  "u_memset m dst c n = stosb m dst (ucast c) (unat n)"

definition u_memmove :: "mem \<Rightarrow> uint \<Rightarrow> uint \<Rightarrow> int \<Rightarrow> mem" where
  "u_memmove m dst src n = copy_up m dst src (nat n)"

section \<open>Printing (src/printf.c)\<close>

definition digit :: "nat \<Rightarrow> uchar" where
  "digit d = (if d < 10 then 48 + word_of_nat d else 55 + word_of_nat d)"

text \<open>The digits in the order in which they are computed; the base is ten or sixteen.\<close>

function digits_rev :: "nat \<Rightarrow> nat \<Rightarrow> uchar list" where
  "digits_rev base x =
     (if base < 2 then [] else digit (x mod base) # (if x div base = 0 then [] else digits_rev base (x div base)))"
  by pat_completeness auto
termination
  by (relation "measure snd") (auto simp: div_eq_0_iff)

declare digits_rev.simps [simp del]

definition MINUS :: uchar where "MINUS = 45"

definition printint :: "uint \<Rightarrow> nat \<Rightarrow> bool \<Rightarrow> uchar list" where
  "printint xx base sg =
     (let neg = sg \<and> sint xx < 0; x = (if neg then - xx else xx) in
      rev (digits_rev base (unat x) @ (if neg then [MINUS] else [])))"

definition PERCENT :: uchar where "PERCENT = 37"

definition null_str :: "uchar list" where "null_str = [40, 110, 117, 108, 108, 41]"

fun printf_loop :: "(uint \<Rightarrow> uchar list) \<Rightarrow> (nat \<Rightarrow> uint) \<Rightarrow> nat \<Rightarrow> bool \<Rightarrow> uchar list \<Rightarrow> uchar list" where
  "printf_loop strs ap k pct [] = []"
| "printf_loop strs ap k False (c # fmt) =
     (if c = PERCENT then printf_loop strs ap k True fmt else c # printf_loop strs ap k False fmt)"
| "printf_loop strs ap k True (c # fmt) =
     (if c = 100 then printint (ap k) 10 True @ printf_loop strs ap (k + 1) False fmt
      else if c = 120 \<or> c = 112 then printint (ap k) 16 False @ printf_loop strs ap (k + 1) False fmt
      else if c = 115 then (if ap k = 0 then null_str else strs (ap k)) @ printf_loop strs ap (k + 1) False fmt
      else if c = 99 then ucast (ap k) # printf_loop strs ap (k + 1) False fmt
      else if c = PERCENT then c # printf_loop strs ap k False fmt
      else PERCENT # c # printf_loop strs ap k False fmt)"

definition printf :: "(uint \<Rightarrow> uchar list) \<Rightarrow> (nat \<Rightarrow> uint) \<Rightarrow> uchar list \<Rightarrow> uchar list" where
  "printf strs ap fmt = printf_loop strs ap 0 False fmt"

section \<open>Numbers read back\<close>

lemma digits_rev_less: "x < 10 \<Longrightarrow> digits_rev 10 x = [digit x]"
  by (simp add: digits_rev.simps)

lemma digits_rev_step: "10 \<le> x \<Longrightarrow> digits_rev 10 x = digit (x mod 10) # digits_rev 10 (x div 10)"
  by (auto simp: digits_rev.simps [of 10 x] div_eq_0_iff)

lemma digit_char: "d < 10 \<Longrightarrow> 48 \<le> digit d \<and> digit d \<le> 57 \<and> ucast (digit d) - 48 = (word_of_nat d :: uint)"
proof -
  assume "d < 10"
  then have "d \<in> {0, 1, 2, 3, 4, 5, 6, 7, 8, 9}" by auto
  then show ?thesis by (elim insertE) (simp_all add: digit_def)
qed

lemma atoi_loop_append:
  "(\<forall>c \<in> set ds. 48 \<le> c \<and> c \<le> 57) \<Longrightarrow> atoi_loop n (ds @ cs) = atoi_loop (atoi_loop n ds) cs"
  by (induction ds arbitrary: n) auto

lemma digits_rev_chars: "\<forall>c \<in> set (digits_rev 10 x). 48 \<le> c \<and> c \<le> 57"
proof (induction x rule: less_induct)
  case (less x)
  show ?case
  proof (cases "x < 10")
    case True
    then show ?thesis using digit_char [of x] by (simp add: digits_rev_less)
  next
    case False
    then show ?thesis using less [of "x div 10"] digit_char [of "x mod 10"] by (simp add: digits_rev_step)
  qed
qed

lemma atoi_digits: "atoi_loop 0 (rev (digits_rev 10 x)) = word_of_nat x"
proof (induction x rule: less_induct)
  case (less x)
  show ?case
  proof (cases "x < 10")
    case True
    then show ?thesis using digit_char [of x] by (simp add: digits_rev_less)
  next
    case False
    have "atoi_loop 0 (rev (digits_rev 10 x)) = word_of_nat (x div 10) * 10 + (ucast (digit (x mod 10)) - 48)"
      using False less [of "x div 10"] digits_rev_chars [of "x div 10"] digit_char [of "x mod 10"]
      by (simp add: digits_rev_step atoi_loop_append)
    also have "\<dots> = word_of_nat (x div 10 * 10 + x mod 10)"
      unfolding of_nat_add of_nat_mult using digit_char [of "x mod 10"] by simp
    finally show ?thesis by (simp only: div_mult_mod_eq)
  qed
qed

lemma digits_rev_length: "x < 10 ^ n \<Longrightarrow> 0 < n \<Longrightarrow> length (digits_rev 10 x) \<le> n"
proof (induction n arbitrary: x)
  case (Suc n)
  show ?case
  proof (cases "x < 10")
    case False
    then have "n \<noteq> 0" using Suc.prems by (cases n) auto
    moreover have "x div 10 < 10 ^ n" using Suc.prems(1) by (simp add: less_mult_imp_div_less)
    ultimately show ?thesis using Suc.IH [of "x div 10"] False by (simp add: digits_rev_step)
  qed (simp add: digits_rev_less)
qed simp

text \<open>C38: A number printed with \<open>%d\<close> reads back: \<open>atoi\<close> of the digits is the number, after a minus sign
  its negation, for every 32-bit integer including the smallest one; and with its sign the number
  fits in the sixteen characters of the buffer of \<open>printint\<close>.\<close>

theorem atoi_printint:
  "(if sint x < 0 then hd (printint x 10 True) = MINUS \<and> - atoi (tl (printint x 10 True)) = x
    else atoi (printint x 10 True) = x) \<and> length (printint x 10 True) \<le> 16"
proof -
  have d: "length (digits_rev 10 (unat y)) \<le> 10" for y :: uint
    using unat_uint_less [of y] by (intro digits_rev_length) simp_all
  have "length (printint x 10 True) \<le> length (digits_rev 10 (unat (if sint x < 0 then - x else x))) + 1"
    by (simp add: printint_def Let_def)
  then have "length (printint x 10 True) \<le> 16" using d [of "if sint x < 0 then - x else x"] by linarith
  then show ?thesis by (auto simp: printint_def Let_def atoi_def atoi_digits)
qed

end
