(* ===== verification/Grep.thy ===== *)
theory Grep
  imports Ulib
begin

text \<open>
  The text tools \<open>src/grep.c\<close> and \<open>src/wc.c\<close>.  A C string is the list of its characters before the
  NUL.  The bytes that successive calls of \<open>read\<close> return are the list \<open>reads\<close>; the loop ends with
  the first call that returns nothing.
\<close>

section \<open>Matching (src/grep.c)\<close>

text \<open>The operators of the pattern language.\<close>

definition CARET :: uchar where "CARET = 94"
definition STAR :: uchar where "STAR = 42"
definition DOLLAR :: uchar where "DOLLAR = 36"
definition PERIOD :: uchar where "PERIOD = 46"
definition NEWLINE :: uchar where "NEWLINE = 10"

fun matchhere :: "uchar list \<Rightarrow> uchar list \<Rightarrow> bool"
  and matchstar :: "uchar \<Rightarrow> uchar list \<Rightarrow> uchar list \<Rightarrow> bool" where
  "matchhere [] str = True"
| "matchhere (r0 # re) str =
     (if re \<noteq> [] \<and> hd re = STAR then matchstar r0 (tl re) str
      else if r0 = DOLLAR \<and> re = [] then str = []
      else (case str of [] \<Rightarrow> False | t # ts \<Rightarrow> (r0 = PERIOD \<or> r0 = t) \<and> matchhere re ts))"
| "matchstar c re str =
     (matchhere re str \<or> (case str of [] \<Rightarrow> False | t # ts \<Rightarrow> (t = c \<or> c = PERIOD) \<and> matchstar c re ts))"

fun match_from :: "uchar list \<Rightarrow> uchar list \<Rightarrow> bool" where
  "match_from re [] = matchhere re []"
| "match_from re (t # ts) = (matchhere re (t # ts) \<or> match_from re ts)"

definition match :: "uchar list \<Rightarrow> uchar list \<Rightarrow> bool" where
  "match re str = (if re \<noteq> [] \<and> hd re = CARET then matchhere (tl re) str else match_from re str)"

section \<open>The pattern language\<close>

datatype item = One uchar | Many uchar | AtEnd

fun items :: "uchar list \<Rightarrow> item list" where
  "items [] = []"
| "items (c # re) =
     (if re \<noteq> [] \<and> hd re = STAR then Many c # items (tl re)
      else if c = DOLLAR \<and> re = [] then [AtEnd] else One c # items re)"

definition stands_for :: "uchar \<Rightarrow> uchar \<Rightarrow> bool" where
  "stands_for c x \<longleftrightarrow> c = PERIOD \<or> c = x"

inductive begins :: "item list \<Rightarrow> uchar list \<Rightarrow> bool" where
  nothing: "begins [] str"
| one: "stands_for c x \<Longrightarrow> begins is str \<Longrightarrow> begins (One c # is) (x # str)"
| many: "(\<forall>x \<in> set u. stands_for c x) \<Longrightarrow> begins is str \<Longrightarrow> begins (Many c # is) (u @ str)"
| at_end: "begins [AtEnd] []"

inductive_simps begins_simps: "begins [] t" "begins (One c # is) t" "begins (Many c # is) t" "begins [AtEnd] t"

text \<open>A star either stops, or takes one more character.\<close>

lemma begins_many:
  "begins (Many c # is) str \<longleftrightarrow>
     begins is str \<or> (\<exists>t ts. str = t # ts \<and> stands_for c t \<and> begins (Many c # is) ts)"
proof
  assume "begins (Many c # is) str"
  then obtain u t where u: "str = u @ t" "\<forall>x \<in> set u. stands_for c x" "begins is t" by (auto simp: begins_simps)
  then show "begins is str \<or> (\<exists>t ts. str = t # ts \<and> stands_for c t \<and> begins (Many c # is) ts)"
    by (cases u) (auto intro: many)
next
  assume "begins is str \<or> (\<exists>t ts. str = t # ts \<and> stands_for c t \<and> begins (Many c # is) ts)"
  then show "begins (Many c # is) str"
  proof (elim disjE exE conjE)
    assume "begins is str"
    then show ?thesis using many [of "[]" c "is" str] by simp
  next
    fix t ts assume a: "str = t # ts" "stands_for c t" "begins (Many c # is) ts"
    then obtain u v where "ts = u @ v" "\<forall>x \<in> set u. stands_for c x" "begins is v" by (auto simp: begins_simps)
    then show ?thesis using a many [of "t # u" c "is" v] by simp
  qed
qed

lemma match_begins:
  "matchhere re str = begins (items re) str"
  "matchstar c re str = begins (Many c # items re) str"
proof (induction re str and c re str rule: matchhere_matchstar.induct)
  case (2 r0 re str)
  consider "re \<noteq> []" "hd re = STAR" | "\<not> (re \<noteq> [] \<and> hd re = STAR)" "r0 = DOLLAR" "re = []"
    | "\<not> (re \<noteq> [] \<and> hd re = STAR)" "\<not> (r0 = DOLLAR \<and> re = [])" by blast
  then show ?case
  proof cases
    case 1
    then show ?thesis using 2(1) by simp
  next
    case 2
    then show ?thesis by (simp add: begins_simps)
  next
    case 3
    then have i: "items (r0 # re) = One r0 # items re" by auto
    show ?thesis
    proof (cases str)
      case Nil
      then show ?thesis unfolding i using 3 by (auto simp: begins_simps)
    next
      case (Cons t ts)
      then show ?thesis unfolding i using 3 2(2) [OF 3 Cons] by (auto simp: begins_simps stands_for_def)
    qed
  qed
next
  case (3 c re str)
  show ?case unfolding begins_many [of c "items re" str] using 3
    by (auto simp: stands_for_def split: list.splits)
qed (simp add: begins.nothing)

text \<open>C14: \<open>match\<close> decides the pattern language: after a leading caret the pattern has to match at the
  beginning of the text, otherwise somewhere in it.  A period stands for any character, a star for
  any number of copies of what precedes it, and a dollar sign at the end of the pattern for the end
  of the text.\<close>

theorem match_language:
  "match re str \<longleftrightarrow>
     (if re \<noteq> [] \<and> hd re = CARET then begins (items (tl re)) str
      else (\<exists>before rest. str = before @ rest \<and> begins (items re) rest))"
proof -
  have "match_from re str \<longleftrightarrow> (\<exists>before rest. str = before @ rest \<and> begins (items re) rest)"
  proof (induction str)
    case (Cons t ts)
    show ?case unfolding match_from.simps Cons match_begins
      by (auto simp: Cons_eq_append_conv)
  qed (simp add: match_begins)
  then show ?thesis by (simp only: match_def match_begins(1))
qed

section \<open>Printing the matching lines (src/grep.c)\<close>

text \<open>The inner loop: what is written and what is left of the buffer.\<close>

function grep_lines :: "uchar list \<Rightarrow> uchar list \<Rightarrow> uchar list \<times> uchar list" where
  "grep_lines pattern p =
     (case strchr p NEWLINE of
        None \<Rightarrow> ([], p)
      | Some k \<Rightarrow>
          let (out, rest) = grep_lines pattern (drop (k + 1) p) in
          ((if match pattern (take k p) then take (k + 1) p else []) @ out, rest))"
  by pat_completeness auto
termination
  by (relation "measure (\<lambda>(pattern, p). length p)") (auto dest: strchr_SomeD)

declare grep_lines.simps [simp del]

text \<open>The outer loop; \<open>buf\<close> is the part of the buffer that is kept.\<close>

fun grep :: "uchar list \<Rightarrow> uchar list \<Rightarrow> uchar list list \<Rightarrow> uchar list" where
  "grep pattern buf [] = []"
| "grep pattern buf (r # reads) =
     (if r = [] then []
      else let (out, p) = grep_lines pattern (buf @ r) in
           out @ grep pattern (if length p = length (buf @ r) then [] else p) reads)"

text \<open>The complete lines of a stream, without their newlines.\<close>

fun split_lines :: "uchar list \<Rightarrow> uchar list list \<times> uchar list" where
  "split_lines [] = ([], [])"
| "split_lines (c # cs) =
     (let (ls, rest) = split_lines cs in
      if c = NEWLINE then ([] # ls, rest)
      else case ls of [] \<Rightarrow> ([], c # rest) | l # ls \<Rightarrow> ((c # l) # ls, rest))"

lemma split_lines_line:
  "NEWLINE \<notin> set l \<Longrightarrow> split_lines (l @ NEWLINE # p) = (l # fst (split_lines p), snd (split_lines p))"
  by (induction l) (auto split: prod.splits)

lemma split_lines_none: "NEWLINE \<notin> set p \<Longrightarrow> split_lines p = ([], p)"
  by (induction p) auto

lemma strchr_newline:
  assumes "0 \<notin> set p"
  shows "strchr p NEWLINE = None \<longleftrightarrow> NEWLINE \<notin> set p"
  using assms by (induction p) auto

lemma grep_lines_ok:
  assumes "0 \<notin> set p"
  shows "grep_lines pattern p =
    (concat (map (\<lambda>l. l @ [NEWLINE]) (filter (match pattern) (fst (split_lines p)))), snd (split_lines p))"
  using assms
proof (induction "length p" arbitrary: p rule: less_induct)
  case less
  show ?case
  proof (cases "strchr p NEWLINE")
    case None
    then have "split_lines p = ([], p)" using strchr_newline [OF less(2)] split_lines_none by blast
    then show ?thesis using None by (simp add: grep_lines.simps)
  next
    case (Some k)
    note k = strchr_SomeD [OF Some]
    have e: "p = take k p @ NEWLINE # drop (k + 1) p" using k by (metis Suc_eq_plus1 id_take_nth_drop)
    have s: "split_lines p = (take k p # fst (split_lines (drop (k + 1) p)), snd (split_lines (drop (k + 1) p)))"
      using split_lines_line [of "take k p" "drop (k + 1) p"] k e by metis
    have t: "take (k + 1) p = take k p @ [NEWLINE]" using k by (simp add: take_Suc_conv_app_nth)
    have "grep_lines pattern (drop (k + 1) p) =
        (concat (map (\<lambda>l. l @ [NEWLINE]) (filter (match pattern) (fst (split_lines (drop (k + 1) p))))), snd (split_lines (drop (k + 1) p)))"
      using less k by (intro less(1)) (auto dest: in_set_dropD)
    then show ?thesis unfolding grep_lines.simps [of pattern p] s using Some t by simp
  qed
qed

lemma split_lines_append:
  "split_lines (p @ q) =
     (fst (split_lines p) @ fst (split_lines (snd (split_lines p) @ q)), snd (split_lines (snd (split_lines p) @ q)))"
proof (induction p)
  case (Cons c cs)
  then show ?case by (cases "split_lines cs"; cases "split_lines (snd (split_lines cs) @ q)") (auto split: list.splits prod.splits)
qed simp

lemma split_lines_rest: "NEWLINE \<notin> set (snd (split_lines p))" "set (snd (split_lines p)) \<subseteq> set p"
  by (induction p) (auto split: list.splits prod.splits)

lemma split_lines_shorter: "NEWLINE \<in> set p \<Longrightarrow> length (snd (split_lines p)) < length p"
proof -
  assume "NEWLINE \<in> set p"
  then obtain l q where p: "p = l @ NEWLINE # q" "NEWLINE \<notin> set l" by (metis split_list_first)
  have "length (snd (split_lines q)) \<le> length q" by (induction q) (auto split: list.splits prod.splits)
  then show ?thesis unfolding p(1) using split_lines_line [OF p(2)] by simp
qed

text \<open>The part of a text up to its last newline, and the text that is left when every piece without a
  newline is dropped together with the line that was begun before it.\<close>

definition complete :: "uchar list \<Rightarrow> uchar list" where
  "complete t = concat (map (\<lambda>l. l @ [NEWLINE]) (fst (split_lines t)))"

fun kept :: "uchar list \<Rightarrow> uchar list list \<Rightarrow> uchar list" where
  "kept t [] = t"
| "kept t (r # reads) = kept (if NEWLINE \<in> set r then t @ r else complete t) reads"

lemma complete_rest: "complete t @ snd (split_lines t) = t"
proof (induction t)
  case (Cons c cs)
  then show ?case by (cases "split_lines cs") (auto simp: complete_def split: list.splits)
qed (simp add: complete_def)

lemma split_lines_complete: "split_lines (complete t) = (fst (split_lines t), [])"
proof -
  have "NEWLINE \<notin> set l" if "l \<in> set (fst (split_lines t))" for l
    using that by (induction t arbitrary: l) (auto split: list.splits prod.splits if_splits)
  moreover have "\<forall>l \<in> set ls. NEWLINE \<notin> set l \<Longrightarrow> split_lines (concat (map (\<lambda>l. l @ [NEWLINE]) ls)) = (ls, [])" for ls
    by (induction ls) (auto simp: split_lines_line)
  ultimately show ?thesis unfolding complete_def by blast
qed

lemma grep_kept:
  assumes "\<forall>r \<in> set reads. r \<noteq> [] \<and> 0 \<notin> set r" and "0 \<notin> set t"
  shows "concat (map (\<lambda>l. l @ [NEWLINE]) (filter (match pattern) (fst (split_lines (kept t reads))))) =
    concat (map (\<lambda>l. l @ [NEWLINE]) (filter (match pattern) (fst (split_lines t)))) @ grep pattern (snd (split_lines t)) reads"
  using assms
proof (induction reads arbitrary: t)
  case (Cons r reads)
  let ?buf = "snd (split_lines t)"
  have nz: "0 \<notin> set (?buf @ r)" using Cons.prems split_lines_rest(2) [of t] by auto
  show ?case
  proof (cases "NEWLINE \<in> set r")
    case True
    have "length (snd (split_lines (?buf @ r))) < length (?buf @ r)" using True by (intro split_lines_shorter) simp
    then have "grep pattern ?buf (r # reads) = concat (map (\<lambda>l. l @ [NEWLINE]) (filter (match pattern) (fst (split_lines (?buf @ r))))) @
        grep pattern (snd (split_lines (?buf @ r))) reads"
      using Cons.prems(1) grep_lines_ok [OF nz, of pattern] by (simp add: Let_def)
    then show ?thesis using True Cons.IH [of "t @ r"] Cons.prems split_lines_append [of t r] by simp
  next
    case False
    then have "split_lines (?buf @ r) = ([], ?buf @ r)" using split_lines_rest(1) [of t] by (intro split_lines_none) simp
    then have "grep pattern ?buf (r # reads) = grep pattern [] reads"
      using Cons.prems(1) grep_lines_ok [OF nz, of pattern] by (simp add: Let_def)
    moreover have "0 \<notin> set (complete t)" using Cons.prems(2) complete_rest [of t] by (metis Un_iff set_append)
    ultimately show ?thesis using False Cons.IH [of "complete t"] Cons.prems(1) by (simp add: split_lines_complete)
  qed
qed simp

lemma kept_all: "\<forall>r \<in> set reads. NEWLINE \<in> set r \<Longrightarrow> kept t reads = t @ concat reads"
  by (induction reads arbitrary: t) auto

text \<open>C15: \<open>grep\<close> prints exactly the complete lines that match the pattern, each once, in order, of the text
  that it keeps: all of the input when every \<open>read\<close> delivers a newline, and otherwise the input without the
  pieces that hold no newline and the beginnings of lines in front of them.  The input holds no NUL.\<close>

theorem grep_matching_lines:
  assumes "\<forall>r \<in> set reads. r \<noteq> [] \<and> 0 \<notin> set r"
  shows "grep pattern [] reads = concat (map (\<lambda>l. l @ [NEWLINE]) (filter (match pattern) (fst (split_lines (kept [] reads))))) \<and>
    ((\<forall>r \<in> set reads. NEWLINE \<in> set r) \<longrightarrow> kept [] reads = concat reads)"
  using grep_kept [OF assms, of "[]" pattern] kept_all [of reads "[]"] by simp

theorem grep_matching_lines_witness:
  "list_all (\<lambda>r. r \<noteq> [] \<and> (0 :: uchar) \<notin> set r) [[97, 98, NEWLINE, 97], [99, NEWLINE], [97, 99], [97, 99, 99, NEWLINE]] \<and>
   kept [] [[97, 98, NEWLINE, 97], [99, NEWLINE], [97, 99], [97, 99, 99, NEWLINE]] = [97, 98, NEWLINE, 97, 99, NEWLINE, 97, 99, 99, NEWLINE] \<and>
   grep [97, 99] [] [[97, 98, NEWLINE, 97], [99, NEWLINE], [97, 99], [97, 99, 99, NEWLINE]] = [97, 99, NEWLINE, 97, 99, 99, NEWLINE]"
proof -
  let ?reads = "[[97, 98, NEWLINE, 97], [99, NEWLINE], [97, 99], [97, 99, 99, NEWLINE]]"
  have a: "\<forall>r \<in> set ?reads. r \<noteq> [] \<and> (0 :: uchar) \<notin> set r" by (simp add: NEWLINE_def)
  have k: "kept [] ?reads = [97, 98, NEWLINE, 97, 99, NEWLINE, 97, 99, 99, NEWLINE]" by code_simp
  have "fst (split_lines [97, 98, NEWLINE, 97, 99, NEWLINE, 97, 99, 99, NEWLINE]) = [[97, 98], [97, 99], [97, 99, 99]]" by code_simp
  moreover have "filter (match [97, 99]) [[97, 98], [97, 99], [97, 99, 99]] = [[97, 99], [97, 99, 99]]" by code_simp
  ultimately show ?thesis using grep_matching_lines [OF a, of "[97, 99]"] a k by simp
qed

text \<open>A line that arrives in two pieces can be lost: after a \<open>read\<close> without a newline \<open>grep\<close> empties
  its buffer, although there is room left in it.\<close>

theorem grep_drops_partial_line:
  "grep [97, 98] [] [[97, 98], [99, NEWLINE]] = [] \<and> grep [97, 98] [] [[97, 98, 99, NEWLINE]] = [97, 98, 99, NEWLINE]"
  by code_simp

section \<open>Counting (src/wc.c)\<close>

definition is_space :: "uchar \<Rightarrow> bool" where
  "is_space c = (strchr [32, 13, 9, NEWLINE, 11] c \<noteq> None)"

text \<open>Lines, words and characters so far, and whether the last character was inside a word.\<close>

definition wc_char :: "uchar \<Rightarrow> nat \<times> nat \<times> nat \<times> bool \<Rightarrow> nat \<times> nat \<times> nat \<times> bool" where
  "wc_char x = (\<lambda>(l, w, c, inword).
     let c = c + 1; l = (if x = NEWLINE then l + 1 else l) in
     if is_space x then (l, w, c, False) else if \<not> inword then (l, w + 1, c, True) else (l, w, c, inword))"

definition wc :: "uchar list list \<Rightarrow> nat \<times> nat \<times> nat" where
  "wc reads = (let (l, w, c, _) = fold (\<lambda>r st. fold wc_char r st) (takeWhile (\<lambda>r. r \<noteq> []) reads) (0, 0, 0, False) in (l, w, c))"

text \<open>The words of a text: the maximal runs of characters that are not white space.\<close>

fun word_starts :: "bool \<Rightarrow> uchar list \<Rightarrow> nat" where
  "word_starts inword [] = 0"
| "word_starts inword (x # xs) = (if \<not> is_space x \<and> \<not> inword then 1 else 0) + word_starts (\<not> is_space x) xs"

function words :: "uchar list \<Rightarrow> uchar list list" where
  "words t = (let t = dropWhile is_space t in
     if t = [] then [] else takeWhile (\<lambda>x. \<not> is_space x) t # words (dropWhile (\<lambda>x. \<not> is_space x) t))"
  by pat_completeness auto
termination
proof (relation "measure length")
  fix t x :: "uchar list" assume a: "x = dropWhile is_space t" "x \<noteq> []"
  obtain y ys where x: "x = y # ys" using a(2) by (cases x) auto
  then have "\<not> is_space y" using a by (metis hd_dropWhile list.sel(1))
  then have "length (dropWhile (\<lambda>x. \<not> is_space x) x) \<le> length ys" using x by (simp add: length_dropWhile_le)
  moreover have "length x \<le> length t" unfolding a(1) by (rule length_dropWhile_le)
  ultimately show "(dropWhile (\<lambda>x. \<not> is_space x) x, t) \<in> measure length" using x by simp
qed simp

declare words.simps [simp del]

lemma wc_fold:
  "fold wc_char t (l, w, c, b) =
     (l + count_list t NEWLINE, w + word_starts b t, c + length t, if t = [] then b else \<not> is_space (last t))"
  by (induction t arbitrary: l w c b) (auto simp: wc_char_def Let_def)

lemma word_starts_skip: "word_starts False (dropWhile is_space t) = word_starts False t"
  by (induction t) auto

lemma word_starts_run:
  "word_starts True t = word_starts False (dropWhile (\<lambda>x. \<not> is_space x) t)"
  by (induction t) auto

lemma word_starts_words: "word_starts False t = length (words t)"
proof (induction t rule: words.induct)
  case (1 t)
  let ?d = "dropWhile is_space t"
  show ?case
  proof (cases "?d = []")
    case True
    then have "words t = []" unfolding words.simps [of t] by simp
    moreover have "word_starts False t = 0" using word_starts_skip [of t] unfolding True by simp
    ultimately show ?thesis by simp
  next
    case False
    then obtain y ys where d: "?d = y # ys" by (cases ?d) auto
    then have y: "\<not> is_space y" by (metis False hd_dropWhile list.sel(1))
    have "word_starts False t = 1 + word_starts True ys" using word_starts_skip [of t] y unfolding d by simp
    also have "word_starts True ys = word_starts False (dropWhile (\<lambda>x. \<not> is_space x) ?d)"
      unfolding word_starts_run d using y by simp
    also have "\<dots> = length (words (dropWhile (\<lambda>x. \<not> is_space x) ?d))" using 1 [OF refl False] .
    finally show ?thesis using False unfolding words.simps [of t] Let_def by simp
  qed
qed

text \<open>\<open>wc\<close> counts the newlines, the words and the characters of its input, words being the maximal
  runs of characters other than white space, also across the pieces in which the input arrives.\<close>

theorem wc_counts:
  assumes "t = concat (takeWhile (\<lambda>r. r \<noteq> []) reads)"
  shows "wc reads = (count_list t NEWLINE, length (words t), length t)"
proof -
  have "fold (\<lambda>r st. fold wc_char r st) rs st = fold wc_char (concat rs) st" for rs st
    by (induction rs arbitrary: st) simp_all
  then show ?thesis by (simp add: wc_def wc_fold word_starts_words assms)
qed

theorem wc_counts_witness: "wc [[97, 32, 98], [98, NEWLINE]] = (1, length (words [97, 32, 98, 98, NEWLINE]), 5)"
  using wc_counts [of "[97, 32, 98, 98, NEWLINE]" "[[97, 32, 98], [98, NEWLINE]]"] by (simp add: NEWLINE_def)

end
