(* ===== verification/Sh.thy ===== *)
theory Sh
  imports Ulib
begin

text \<open>
  The command parser of the shell (\<open>src/sh.c\<close>).  The parser works on a buffer \<open>t\<close> of characters, none
  of them NUL, that is followed by a NUL; the pointers of the code are positions in it.  The token
  loops are structural or have a measure; the four mutually recursive parsing functions have fuel,
  and \<open>parsecmd\<close> grants them four units for every character.  A parsed command is a tree with a
  pair of positions for every word; \<open>nulterminate\<close> later cuts the words out of the buffer in place.
  The constructors of the code do not check what \<open>malloc\<close> returns; memory is taken to suffice.
\<close>

section \<open>Tokens\<close>

definition whitespace :: "uchar list" where "whitespace = [32, 9, 13, 10, 11]"
definition symbols :: "uchar list" where "symbols = [60, 124, 62, 38, 59, 40, 41]"

abbreviation BAR :: uchar where "BAR \<equiv> 124"
abbreviation LPAR :: uchar where "LPAR \<equiv> 40"
abbreviation RPAR :: uchar where "RPAR \<equiv> 41"
abbreviation SEMI :: uchar where "SEMI \<equiv> 59"
abbreviation AMP :: uchar where "AMP \<equiv> 38"
abbreviation LESS :: uchar where "LESS \<equiv> 60"
abbreviation GREATER :: uchar where "GREATER \<equiv> 62"
abbreviation PLUS :: uchar where "PLUS \<equiv> 43"
abbreviation WORD :: uchar where "WORD \<equiv> 97"

definition white :: "uchar \<Rightarrow> bool" where "white c = (strchr whitespace c \<noteq> None)"
definition symbol :: "uchar \<Rightarrow> bool" where "symbol c = (strchr symbols c \<noteq> None)"

text \<open>The character at a position; behind the last one is the NUL.\<close>

definition ch :: "uchar list \<Rightarrow> nat \<Rightarrow> uchar" where
  "ch t s = (if s < length t then t ! s else 0)"

function skip_white :: "uchar list \<Rightarrow> nat \<Rightarrow> nat" where
  "skip_white t s = (if s < length t \<and> white (t ! s) then skip_white t (s + 1) else s)"
  by pat_completeness auto
termination
  by (relation "measure (\<lambda>(t, s). length t - s)") auto

function skip_word :: "uchar list \<Rightarrow> nat \<Rightarrow> nat" where
  "skip_word t s = (if s < length t \<and> \<not> white (t ! s) \<and> \<not> symbol (t ! s) then skip_word t (s + 1) else s)"
  by pat_completeness auto
termination
  by (relation "measure (\<lambda>(t, s). length t - s)") auto

declare skip_white.simps [simp del] skip_word.simps [simp del]

text \<open>The token, where it begins and ends, and where the next one begins.\<close>

definition gettoken :: "uchar list \<Rightarrow> nat \<Rightarrow> uchar \<times> nat \<times> nat \<times> nat" where
  "gettoken t s =
     (let q = skip_white t s; c = ch t q;
          (ret, eq) = (if c = 0 then (0, q)
                       else if c \<in> {BAR, LPAR, RPAR, SEMI, AMP, LESS} then (c, q + 1)
                       else if c = GREATER then if ch t (q + 1) = GREATER then (PLUS, q + 2) else (c, q + 1)
                       else (WORD, skip_word t q))
      in (ret, q, eq, skip_white t eq))"

definition peek :: "uchar list \<Rightarrow> nat \<Rightarrow> uchar list \<Rightarrow> nat \<times> bool" where
  "peek t s toks = (let s = skip_white t s in (s, ch t s \<noteq> 0 \<and> strchr toks (ch t s) \<noteq> None))"

lemma skip_white_bounds: "s \<le> length t \<Longrightarrow> s \<le> skip_white t s \<and> skip_white t s \<le> length t"
proof (induction t s rule: skip_white.induct)
  case (1 t s)
  then show ?case by (cases "s < length t \<and> white (t ! s)") (auto simp: skip_white.simps [of t s])
qed

lemma skip_word_bounds: "s \<le> length t \<Longrightarrow> s \<le> skip_word t s \<and> skip_word t s \<le> length t"
proof (induction t s rule: skip_word.induct)
  case (1 t s)
  then show ?case
    by (cases "s < length t \<and> \<not> white (t ! s) \<and> \<not> symbol (t ! s)") (auto simp: skip_word.simps [of t s])
qed

lemma skip_white_idem [simp]: "skip_white t (skip_white t s) = skip_white t s"
proof (induction t s rule: skip_white.induct)
  case (1 t s)
  show ?case
  proof (cases "s < length t \<and> white (t ! s)")
    case True
    then show ?thesis using 1 by (simp add: skip_white.simps [of t s])
  next
    case False
    then have "skip_white t s = s" by (subst skip_white.simps) (rule if_not_P)
    then show ?thesis by simp
  qed
qed

lemma skip_white_stop: "skip_white t s < length t \<Longrightarrow> \<not> white (t ! skip_white t s)"
proof (induction t s rule: skip_white.induct)
  case (1 t s)
  then show ?case by (cases "s < length t \<and> white (t ! s)") (auto simp: skip_white.simps [of t s])
qed

lemma not_word_char: "\<not> white c \<Longrightarrow> c \<notin> {BAR, LPAR, RPAR, SEMI, AMP, LESS} \<Longrightarrow> c \<noteq> GREATER \<Longrightarrow> \<not> symbol c"
  by (auto simp: symbol_def symbols_def)

text \<open>Progress: every token but the end of the text takes at least one character.\<close>

lemma gettoken_bounds:
  assumes "gettoken t s = (tok, q, eq, s')" and "s \<le> length t"
  shows "s \<le> q" "q \<le> eq" "eq \<le> s'" "s' \<le> length t" "tok \<noteq> 0 \<Longrightarrow> q < eq" "tok = 0 \<Longrightarrow> s' = length t \<or> ch t s' = 0"
proof -
  have q: "q = skip_white t s" using assms(1) by (auto simp: gettoken_def Let_def split: prod.splits)
  have b: "s \<le> q" "q \<le> length t" using skip_white_bounds [OF assms(2)] q by auto
  have e: "(tok, eq) = (if ch t q = 0 then (0, q)
                       else if ch t q \<in> {BAR, LPAR, RPAR, SEMI, AMP, LESS} then (ch t q, q + 1)
                       else if ch t q = GREATER then if ch t (q + 1) = GREATER then (PLUS, q + 2) else (ch t q, q + 1)
                       else (WORD, skip_word t q))" and s': "s' = skip_white t eq"
    using assms(1) q by (auto simp: gettoken_def Let_def split: prod.splits)
  have l: "q < length t" if "ch t q \<noteq> 0" using that by (auto simp: ch_def split: if_splits)
  have l2: "q + 1 < length t" if "ch t (q + 1) = GREATER" using that by (auto simp: ch_def split: if_splits)
  have w: "q < skip_word t q"
    if "ch t q \<noteq> 0" "ch t q \<notin> {BAR, LPAR, RPAR, SEMI, AMP, LESS}" "ch t q \<noteq> GREATER"
  proof -
    have "\<not> white (t ! q)" using skip_white_stop [of t s] q l that(1) by simp
    then have "\<not> symbol (t ! q)" using not_word_char [of "t ! q"] that l [OF that(1)] by (auto simp: ch_def)
    then have "skip_word t q = skip_word t (q + 1)" using \<open>\<not> white (t ! q)\<close> l that(1) by (simp add: skip_word.simps [of t q])
    then show ?thesis using skip_word_bounds [of "q + 1" t] l that(1) by simp
  qed
  have eq: "q \<le> eq \<and> eq \<le> length t \<and> (tok \<noteq> 0 \<longrightarrow> q < eq)"
    using e b l l2 w skip_word_bounds [OF b(2)] by (auto split: if_splits)
  then show "q \<le> eq" "tok \<noteq> 0 \<Longrightarrow> q < eq" "s \<le> q" using b by auto
  show "eq \<le> s'" "s' \<le> length t" using skip_white_bounds [of eq t] eq s' by auto
  show "s' = length t \<or> ch t s' = 0" if "tok = 0" using that e s' q by (auto split: if_splits)
qed

lemma peek_bounds:
  assumes "peek t s toks = (s', b)" and "s \<le> length t"
  shows "s \<le> s'" "s' \<le> length t" "b \<Longrightarrow> s' < length t" "skip_white t s' = s'"
proof -
  have p: "s' = skip_white t s" "b \<Longrightarrow> ch t s' \<noteq> 0" using assms(1) by (auto simp: peek_def Let_def)
  show "s \<le> s'" "s' \<le> length t" "skip_white t s' = s'" using skip_white_bounds [OF assms(2)] p(1) by simp_all
  show "s' < length t" if b using p(2) [OF that] by (auto simp: ch_def split: if_splits)
qed

lemma peek_token:
  assumes "peek t s toks = (s1, True)" and "s \<le> length t" and "gettoken t s1 = (tok, q, eq, s2)"
  shows "s < s2" "s2 \<le> length t" "tok \<noteq> 0"
proof -
  note p = peek_bounds [OF assms(1,2)]
  have "ch t s1 \<noteq> 0" using assms(1) by (auto simp: peek_def Let_def)
  then show tok: "tok \<noteq> 0" using assms(3) p(4) by (auto simp: gettoken_def Let_def split: if_splits)
  show "s < s2" "s2 \<le> length t" using gettoken_bounds [OF assms(3) p(2)] tok p(1) by auto
qed

lemma redirs_progress:
  assumes "peek t s toks = (s1, True)" and "\<not> length t < s"
    and "gettoken t s1 = (tok, a, b, s2)" and "gettoken t s2 = (w, q, eq, s3)"
  shows "length t - s3 < length t - s"
proof -
  have "s < s2" "s2 \<le> length t" using peek_token [OF assms(1) _ assms(3)] assms(2) by auto
  then show ?thesis using gettoken_bounds [OF assms(4)] by fastforce
qed

lemma back_progress:
  assumes "peek t s toks = (s1, True)" and "\<not> length t < s" and "gettoken t s1 = (tok, a, b, s2)"
  shows "length t - s2 < length t - s"
  using peek_token [OF assms(1) _ assms(3)] assms(2) by auto

section \<open>Commands\<close>

text \<open>The word type is a pair of positions while parsing, and the text of the word afterwards.\<close>

datatype 'w cmd =
    Exec "'w list"
  | Redir "'w cmd" 'w uint nat
  | PipeC "'w cmd" "'w cmd"
  | ListC "'w cmd" "'w cmd"
  | Back "'w cmd"

definition MAXARGS :: nat where "MAXARGS = 10"

lemma bindE_cong [fundef_cong]:
  "r = r' \<Longrightarrow> (\<And>x. r' = Inr x \<Longrightarrow> f x = g x) \<Longrightarrow> bindE r f = bindE r' g"
  by (cases r') auto

text \<open>The loop of \<open>parseredirs\<close>: the redirections in the order in which they are wrapped around the
  command.  \<open>O_RDONLY\<close> is 0 and \<open>O_WRONLY|O_CREATE\<close> is \<open>0x201\<close>.\<close>

function redirs :: "uchar list \<Rightarrow> nat \<Rightarrow> (((nat \<times> nat) \<times> uint \<times> nat) list \<times> nat) res" where
  "redirs t s =
     (if length t < s then Inl OutOfBounds
      else case peek t s [LESS, GREATER] of (s1, more) \<Rightarrow>
        if \<not> more then Inr ([], s1)
        else case gettoken t s1 of (tok, _, _, s2) \<Rightarrow>
             case gettoken t s2 of (w, q, eq, s3) \<Rightarrow>
             if w \<noteq> WORD then Inl (Panic ''missing file for redirection'')
             else bindE (redirs t s3) (\<lambda>(rs, s4).
                  Inr (((q, eq), (if tok = LESS then (0, 0) else (0x201, 1))) # rs, s4)))"
  by pat_completeness auto
termination
  by (relation "measure (\<lambda>(t, s). length t - s)") (auto intro: redirs_progress [OF sym _ sym sym])

declare redirs.simps [simp del]

definition wrap :: "'w cmd \<Rightarrow> ('w \<times> uint \<times> nat) list \<Rightarrow> 'w cmd" where
  "wrap c rs = foldl (\<lambda>c (w, mode, fd). Redir c w mode fd) c rs"

definition parseredirs :: "uchar list \<Rightarrow> (nat \<times> nat) cmd \<Rightarrow> nat \<Rightarrow> ((nat \<times> nat) cmd \<times> nat) res" where
  "parseredirs t c s = bindE (redirs t s) (\<lambda>(rs, s). Inr (wrap c rs, s))"

lemma redirs_bounds:
  assumes "redirs t s = Inr (rs, s')" and "s \<le> length t"
  shows "s \<le> s' \<and> s' \<le> length t"
  using assms
proof (induction "length t - s" arbitrary: s rs s' rule: less_induct)
  case less
  obtain s1 more where p: "peek t s [LESS, GREATER] = (s1, more)" by fastforce
  have s1: "s \<le> s1" "s1 \<le> length t" using peek_bounds [OF p less(3)] by auto
  show ?case
  proof (cases more)
    case False
    then show ?thesis using less(2,3) p s1 by (simp add: redirs.simps [of t s])
  next
    case True
    then have True': "more = True" by simp
    obtain tok a b s2 where g: "gettoken t s1 = (tok, a, b, s2)" by (metis prod_cases4)
    obtain w q eq s3 where h: "gettoken t s2 = (w, q, eq, s3)" by (metis prod_cases4)
    have s2: "s1 \<le> s2" "s2 \<le> length t" using gettoken_bounds [OF g s1(2)] by auto
    have s3: "s2 \<le> s3" "s3 \<le> length t" using gettoken_bounds [OF h s2(2)] by auto
    obtain rs' s4 where r: "w = WORD" "redirs t s3 = Inr (rs', s4)" "s' = s4"
      using less(2,3) p True g h by (auto simp: redirs.simps [of t s] bindE_eq_Inr_iff split: if_splits)
    have "s3 \<le> s4 \<and> s4 \<le> length t" using less(1) [OF redirs_progress [OF p [unfolded True'] _ g h] r(2) s3(2)] less(3) True by simp
    then show ?thesis using s1 s2 s3 r(3) by simp
  qed
qed

lemma exec_progress:
  assumes "peek t s toks = (s1, stop)" and "\<not> length t < s" and "gettoken t s1 = (tok, q, eq, s2)" and "tok \<noteq> 0"
    and "redirs t s2 = Inr (rs, s3)"
  shows "length t - s3 < length t - s"
proof -
  have p: "s \<le> s1" "s1 \<le> length t" using peek_bounds [OF assms(1)] assms(2) by auto
  have "s1 < s2" "s2 \<le> length t" using gettoken_bounds [OF assms(3) p(2)] assms(4) by auto
  then show ?thesis using redirs_bounds [OF assms(5)] p by auto
qed

section \<open>Parsing\<close>

text \<open>The loop of \<open>parseexec\<close> over the arguments and the redirections between them.  The code keeps a
  pointer to the command inside the redirections wrapped around it so far.\<close>

function exec_loop ::
  "uchar list \<Rightarrow> nat \<Rightarrow> (nat \<times> nat) list \<Rightarrow> ((nat \<times> nat) \<times> uint \<times> nat) list \<Rightarrow>
     ((nat \<times> nat) list \<times> ((nat \<times> nat) \<times> uint \<times> nat) list \<times> nat) res" where
  "exec_loop t s args rs =
     (if length t < s then Inl OutOfBounds
      else case peek t s [BAR, RPAR, AMP, SEMI] of (s1, stop) \<Rightarrow>
        if stop then Inr (args, rs, s1)
        else case gettoken t s1 of (tok, q, eq, s2) \<Rightarrow>
             if tok = 0 then Inr (args, rs, s2)
             else if tok \<noteq> WORD then Inl (Panic ''syntax'')
             else let args = args @ [(q, eq)] in
                  if length args \<ge> MAXARGS then Inl (Panic ''too many args'')
                  else bindE (redirs t s2) (\<lambda>(rs', s3). exec_loop t s3 args (rs @ rs')))"
  by pat_completeness auto
termination
  by (relation "measure (\<lambda>(t, s, args, rs). length t - s)") (auto intro: exec_progress [OF sym _ sym])

declare exec_loop.simps [simp del]

function back_loop :: "uchar list \<Rightarrow> (nat \<times> nat) cmd \<Rightarrow> nat \<Rightarrow> (nat \<times> nat) cmd \<times> nat" where
  "back_loop t c s =
     (if length t < s then (c, s)
      else case peek t s [AMP] of (s1, amp) \<Rightarrow>
        if amp then (case gettoken t s1 of (_, _, _, s2) \<Rightarrow> back_loop t (Back c) s2) else (c, s1))"
  by pat_completeness auto
termination
  by (relation "measure (\<lambda>(t, c, s). length t - s)") (auto intro: back_progress [OF sym _ sym])

declare back_loop.simps [simp del]

fun parseline :: "nat \<Rightarrow> uchar list \<Rightarrow> nat \<Rightarrow> ((nat \<times> nat) cmd \<times> nat) res"
  and parsepipe :: "nat \<Rightarrow> uchar list \<Rightarrow> nat \<Rightarrow> ((nat \<times> nat) cmd \<times> nat) res"
  and parseexec :: "nat \<Rightarrow> uchar list \<Rightarrow> nat \<Rightarrow> ((nat \<times> nat) cmd \<times> nat) res"
  and parseblock :: "nat \<Rightarrow> uchar list \<Rightarrow> nat \<Rightarrow> ((nat \<times> nat) cmd \<times> nat) res" where
  "parseline 0 t s = Inl Diverge"
| "parseline (Suc n) t s =
     bindE (parsepipe n t s) (\<lambda>(c, s).
     case back_loop t c s of (c, s) \<Rightarrow>
     case peek t s [SEMI] of (s, semi) \<Rightarrow>
     if semi
     then case gettoken t s of (_, _, _, s) \<Rightarrow> bindE (parseline n t s) (\<lambda>(d, s). Inr (ListC c d, s))
     else Inr (c, s))"
| "parsepipe 0 t s = Inl Diverge"
| "parsepipe (Suc n) t s =
     bindE (parseexec n t s) (\<lambda>(c, s).
     case peek t s [BAR] of (s, bar) \<Rightarrow>
     if bar
     then case gettoken t s of (_, _, _, s) \<Rightarrow> bindE (parsepipe n t s) (\<lambda>(d, s). Inr (PipeC c d, s))
     else Inr (c, s))"
| "parseexec 0 t s = Inl Diverge"
| "parseexec (Suc n) t s =
     (case peek t s [LPAR] of (s, block) \<Rightarrow>
      if block then parseblock n t s
      else bindE (redirs t s) (\<lambda>(rs, s).
           bindE (exec_loop t s [] rs) (\<lambda>(args, rs, s).
           Inr (wrap (Exec args) rs, s))))"
| "parseblock 0 t s = Inl Diverge"
| "parseblock (Suc n) t s =
     (case peek t s [LPAR] of (s, open) \<Rightarrow>
      if \<not> open then Inl (Panic ''parseblock'')
      else case gettoken t s of (_, _, _, s) \<Rightarrow>
           bindE (parseline n t s) (\<lambda>(c, s).
           case peek t s [RPAR] of (s, closed) \<Rightarrow>
           if \<not> closed then Inl (Panic ''syntax - missing )'')
           else case gettoken t s of (_, _, _, s) \<Rightarrow> parseredirs t c s))"

text \<open>\<open>nulterminate\<close> on the buffer.\<close>

fun nulterminate :: "(nat \<times> nat) cmd \<Rightarrow> uchar list \<Rightarrow> uchar list" where
  "nulterminate (Exec args) b = fold (\<lambda>(q, eq) b. b[eq := 0]) args b"
| "nulterminate (Redir c (q, eq) mode fd) b = (nulterminate c b)[eq := 0]"
| "nulterminate (PipeC c d) b = nulterminate d (nulterminate c b)"
| "nulterminate (ListC c d) b = nulterminate d (nulterminate c b)"
| "nulterminate (Back c) b = nulterminate c b"

text \<open>The command and the buffer after \<open>parsecmd\<close>; leftovers are a syntax error.\<close>

definition parsecmd :: "uchar list \<Rightarrow> ((nat \<times> nat) cmd \<times> uchar list) res" where
  "parsecmd t =
     bindE (parseline (4 * length t + 4) t 0) (\<lambda>(c, s).
     case peek t s [] of (s, _) \<Rightarrow>
     if s \<noteq> length t then Inl (Panic ''syntax'') else Inr (c, nulterminate c (t @ [0])))"

section \<open>The parser returns, and its words are words of the text\<close>

definition word_char :: "uchar \<Rightarrow> bool" where
  "word_char c \<longleftrightarrow> c \<noteq> 0 \<and> \<not> white c \<and> \<not> symbol c"

text \<open>A maximal stretch of word characters.\<close>

definition is_word :: "uchar list \<Rightarrow> nat \<times> nat \<Rightarrow> bool" where
  "is_word t = (\<lambda>(q, e). q < e \<and> e \<le> length t \<and> (\<forall>k. q \<le> k \<and> k < e \<longrightarrow> word_char (t ! k)) \<and>
     (q = 0 \<or> \<not> word_char (t ! (q - 1))) \<and> (e = length t \<or> \<not> word_char (t ! e)))"

text \<open>A position between two tokens: it is not inside a word.\<close>

definition between :: "uchar list \<Rightarrow> nat \<Rightarrow> bool" where
  "between t s \<longleftrightarrow> s \<le> length t \<and> (s = 0 \<or> s = length t \<or> \<not> word_char (t ! (s - 1)) \<or> \<not> word_char (t ! s))"

definition parses :: "('a \<Rightarrow> bool) \<Rightarrow> 'a res \<Rightarrow> bool" where
  "parses P r \<longleftrightarrow> (case r of Inl e \<Rightarrow> e \<noteq> Diverge | Inr x \<Rightarrow> P x)"

lemma parses_simps [simp]: "parses P (Inl e) \<longleftrightarrow> e \<noteq> Diverge" "parses P (Inr x) \<longleftrightarrow> P x"
  by (simp_all add: parses_def)

lemma parses_bind: "parses Q r \<Longrightarrow> (\<And>x. Q x \<Longrightarrow> parses P (f x)) \<Longrightarrow> parses P (bindE r f)"
  by (cases r) auto

lemma parses_weaken: "parses Q r \<Longrightarrow> (\<And>x. Q x \<Longrightarrow> P x) \<Longrightarrow> parses P r"
  by (cases r) auto

lemma skip_word_chars:
  assumes "0 \<notin> set t" and "s \<le> k" and "k < skip_word t s"
  shows "word_char (t ! k)"
  using assms
proof (induction t s rule: skip_word.induct)
  case (1 t s)
  show ?case
  proof (cases "s < length t \<and> \<not> white (t ! s) \<and> \<not> symbol (t ! s)")
    case True
    then have "skip_word t s = skip_word t (s + 1)" by (simp add: skip_word.simps [of t s])
    moreover have "word_char (t ! s)" using True 1(2) nth_mem [of s t] by (metis word_char_def)
    ultimately show ?thesis using 1 True by (cases "k = s") auto
  next
    case False
    then have "skip_word t s = s" by (subst skip_word.simps) (rule if_not_P)
    then show ?thesis using 1 by simp
  qed
qed

lemma skip_word_end: "skip_word t s < length t \<Longrightarrow> \<not> word_char (t ! skip_word t s)"
proof (induction t s rule: skip_word.induct)
  case (1 t s)
  show ?case
  proof (cases "s < length t \<and> \<not> white (t ! s) \<and> \<not> symbol (t ! s)")
    case True
    then have "skip_word t s = skip_word t (s + 1)" by (simp add: skip_word.simps [of t s])
    then show ?thesis using 1 True by simp
  next
    case False
    then have e: "skip_word t s = s" by (subst skip_word.simps) (rule if_not_P)
    then show ?thesis using 1(2) False unfolding e by (auto simp: word_char_def)
  qed
qed

lemma white_not_word: "white c \<Longrightarrow> \<not> word_char c" and symbol_not_word: "symbol c \<Longrightarrow> \<not> word_char c"
  by (simp_all add: word_char_def)

lemma skip_white_between:
  "between t s \<Longrightarrow> between t (skip_white t s)"
proof (induction t s rule: skip_white.induct)
  case (1 t s)
  show ?case
  proof (cases "s < length t \<and> white (t ! s)")
    case True
    then have "between t (s + 1)" by (simp add: between_def white_not_word)
    then show ?thesis using 1(1) True by (simp add: skip_white.simps [of t s])
  next
    case False
    then have "skip_white t s = s" by (subst skip_white.simps) (rule if_not_P)
    then show ?thesis using 1(2) by simp
  qed
qed

lemma gettoken_between:
  assumes "gettoken t s = (tok, q, e, s')" and "between t s" and "0 \<notin> set t"
  shows "between t s'" and "tok = WORD \<Longrightarrow> is_word t (q, e)"
proof -
  have l: "s \<le> length t" using assms(2) by (simp add: between_def)
  note b = gettoken_bounds [OF assms(1) l]
  have q: "q = skip_white t s" and s': "s' = skip_white t e" using assms(1) by (auto simp: gettoken_def Let_def split: if_splits)
  have bq: "between t q" unfolding q by (rule skip_white_between [OF assms(2)])
  have e: "e = (if tok = 0 then q else if tok = WORD then skip_word t q else if tok = PLUS then q + 2 else q + 1)"
    and sy: "tok \<noteq> 0 \<Longrightarrow> tok \<noteq> WORD \<Longrightarrow> symbol (ch t (e - 1))"
    using assms(1) q by (auto simp: gettoken_def Let_def symbol_def symbols_def split: if_splits)
  have be: "between t e"
  proof (cases "tok = 0 \<or> tok = WORD")
    case True
    then show ?thesis using e bq b(3,4) skip_word_end [of t q] by (cases "e = length t") (auto simp: between_def)
  next
    case False
    then have l1: "e - 1 < length t" using b by auto
    then have "symbol (t ! (e - 1))" using sy False by (simp add: ch_def)
    then show ?thesis using b(3,4) by (simp add: between_def symbol_not_word)
  qed
  then show "between t s'" unfolding s' by (rule skip_white_between)
  show "is_word t (q, e)" if tok: "tok = WORD"
  proof -
    have w: "q < e" "e \<le> length t" "e = skip_word t q" using b tok e by auto
    then have "word_char (t ! k)" if "q \<le> k" "k < e" for k using skip_word_chars [OF assms(3)] that by simp
    moreover have "q = 0 \<or> \<not> word_char (t ! (q - 1))" using bq w calculation [of q] by (auto simp: between_def)
    ultimately show ?thesis using w skip_word_end [of t q] by (auto simp: is_word_def)
  qed
qed

lemma peek_between: "peek t s toks = (s', b) \<Longrightarrow> between t s \<Longrightarrow> between t s'"
  using skip_white_between by (auto simp: peek_def Let_def)

lemma between_le: "between t s \<Longrightarrow> s \<le> length t"
  by (simp add: between_def)

lemma redirs_parses:
  assumes "between t s" and "0 \<notin> set t"
  shows "parses (\<lambda>(rs, s'). s \<le> s' \<and> between t s' \<and> (\<forall>r \<in> set rs. is_word t (fst r))) (redirs t s)"
  using assms(1)
proof (induction "length t - s" arbitrary: s rule: less_induct)
  case less
  obtain s1 more where p: "peek t s [LESS, GREATER] = (s1, more)" by fastforce
  have s1: "s \<le> s1" "between t s1" using peek_bounds [OF p between_le [OF less(2)]] peek_between [OF p less(2)] by auto
  show ?case
  proof (cases more)
    case False
    then show ?thesis using between_le [OF less(2)] p s1 by (simp add: redirs.simps [of t s])
  next
    case True
    obtain tok a b s2 where g: "gettoken t s1 = (tok, a, b, s2)" by (metis prod_cases4)
    obtain w q e s3 where h: "gettoken t s2 = (w, q, e, s3)" by (metis prod_cases4)
    have s2: "s1 \<le> s2" "between t s2" using gettoken_bounds [OF g between_le [OF s1(2)]] gettoken_between [OF g s1(2) assms(2)] by auto
    have s3: "s2 \<le> s3" "between t s3" using gettoken_bounds [OF h between_le [OF s2(2)]] gettoken_between [OF h s2(2) assms(2)] by auto
    have m: "length t - s3 < length t - s" using redirs_progress [of t s _ s1 tok a b s2 w q e s3] p True g h between_le [OF less(2)] by auto
    have "parses (\<lambda>(rs, s'). s3 \<le> s' \<and> between t s' \<and> (\<forall>r \<in> set rs. is_word t (fst r))) (redirs t s3)" by (rule less(1) [OF m s3(2)])
    moreover have "is_word t (q, e)" if "w = WORD" using gettoken_between(2) [OF h s2(2) assms(2) that] .
    ultimately show ?thesis unfolding redirs.simps [of t s] using between_le [OF less(2)] p True g h s1 s2 s3
      by (auto intro!: parses_bind)
  qed
qed

lemma exec_loop_parses:
  assumes "between t s" and "0 \<notin> set t" and "\<forall>a \<in> set args. is_word t a" and "\<forall>r \<in> set rs. is_word t (fst r)"
  shows "parses (\<lambda>(args, rs, s'). s \<le> s' \<and> between t s' \<and> (\<forall>a \<in> set args. is_word t a) \<and> (\<forall>r \<in> set rs. is_word t (fst r)))
           (exec_loop t s args rs)"
  using assms(1,3,4)
proof (induction "length t - s" arbitrary: s args rs rule: less_induct)
  case less
  obtain s1 stop where p: "peek t s [BAR, RPAR, AMP, SEMI] = (s1, stop)" by fastforce
  have s1: "s \<le> s1" "between t s1" using peek_bounds [OF p between_le [OF less(2)]] peek_between [OF p less(2)] by auto
  obtain tok q e s2 where g: "gettoken t s1 = (tok, q, e, s2)" by (metis prod_cases4)
  have s2: "s1 \<le> s2" "between t s2" "tok \<noteq> 0 \<Longrightarrow> s1 < s2"
    using gettoken_bounds [OF g between_le [OF s1(2)]] gettoken_between [OF g s1(2) assms(2)] by auto
  show ?case
  proof (cases "stop \<or> tok \<noteq> WORD")
    case True
    then show ?thesis using between_le [OF less(2)] less(3,4) p s1 g s2 by (auto simp: exec_loop.simps [of t s])
  next
    case False
    have w: "is_word t (q, e)" using gettoken_between(2) [OF g s1(2) assms(2)] False by auto
    have "parses (\<lambda>(args, rs, s'). s \<le> s' \<and> between t s' \<and> (\<forall>a \<in> set args. is_word t a) \<and> (\<forall>r \<in> set rs. is_word t (fst r)))
        (exec_loop t s3 (args @ [(q, e)]) (rs @ rs'))"
      if "s2 \<le> s3 \<and> between t s3 \<and> (\<forall>r \<in> set rs'. is_word t (fst r))" for s3 rs'
      using that False s1 s2 w less(3,4) between_le [of t s3]
      by (intro parses_weaken [OF less(1) [of s3 "args @ [(q, e)]" "rs @ rs'"]]) auto
    then show ?thesis using between_le [OF less(2)] p g False redirs_parses [OF s2(2) assms(2)]
      unfolding exec_loop.simps [of t s] by (auto simp: Let_def intro!: parses_bind)
  qed
qed

lemma set_wrap: "set_cmd (wrap c rs) = set_cmd c \<union> fst ` set rs"
  by (induction rs arbitrary: c) (auto simp: wrap_def)

lemma back_loop_ok:
  assumes "0 \<notin> set t" and "between t s" and "back_loop t c s = (c', s')"
  shows "s \<le> s' \<and> between t s' \<and> set_cmd c' = set_cmd c"
  using assms(2,3)
proof (induction "length t - s" arbitrary: s c rule: less_induct)
  case less
  obtain s1 amp where p: "peek t s [AMP] = (s1, amp)" by fastforce
  have s1: "s \<le> s1" "between t s1" using peek_bounds [OF p between_le [OF less(2)]] peek_between [OF p less(2)] by auto
  obtain tok q e s2 where g: "gettoken t s1 = (tok, q, e, s2)" by (metis prod_cases4)
  show ?case
  proof (cases amp)
    case True
    then have s2: "s < s2" "s2 \<le> length t" "between t s2" using peek_token [OF _ between_le [OF less(2)] g] gettoken_between [OF g s1(2) assms(1)] p by auto
    have "back_loop t (Back c) s2 = (c', s')" using between_le [OF less(2)] less(3) p True g by (simp add: back_loop.simps [of t c s])
    moreover have "length t - s2 < length t - s" using s2 by simp
    ultimately show ?thesis using less(1) [of s2 "Back c"] s2 by simp
  next
    case False
    then show ?thesis using between_le [OF less(2)] less(3) p s1 by (auto simp: back_loop.simps [of t c s])
  qed
qed

definition parsed :: "uchar list \<Rightarrow> nat \<Rightarrow> (nat \<times> nat) cmd \<times> nat \<Rightarrow> bool" where
  "parsed t s = (\<lambda>(c, s'). s \<le> s' \<and> between t s' \<and> (\<forall>w \<in> set_cmd c. is_word t w))"

lemma fuel_step: "s < s' \<Longrightarrow> s' \<le> l \<Longrightarrow> 4 * (l - s') + 4 \<le> 4 * (l - s)" for l s s' :: nat
  by simp

text \<open>Four units of fuel for every character that is left are enough.\<close>

lemma parse_total:
  assumes "0 \<notin> set t"
  shows "between t s \<Longrightarrow> 4 * (length t - s) + 4 \<le> n \<Longrightarrow> parses (parsed t s) (parseline n t s)"
    and "between t s \<Longrightarrow> 4 * (length t - s) + 3 \<le> n \<Longrightarrow> parses (parsed t s) (parsepipe n t s)"
    and "between t s \<Longrightarrow> 4 * (length t - s) + 2 \<le> n \<Longrightarrow> parses (parsed t s) (parseexec n t s)"
    and "between t s \<Longrightarrow> 4 * (length t - s) + 1 \<le> n \<Longrightarrow> parses (parsed t s) (parseblock n t s)"
proof (induction n arbitrary: s)
  case (Suc n)
  {
    case 1
    have pp: "parses (parsed t s) (parsepipe n t s)" using Suc(2) [OF 1(1)] 1(2) by simp
    show ?case unfolding parseline.simps
    proof (rule parses_bind [OF pp])
      fix x assume x: "parsed t s x"
      obtain c s1 where cs: "x = (c, s1)" by (cases x)
      obtain c2 s2 where b: "back_loop t c s1 = (c2, s2)" by fastforce
      obtain s3 semi where p: "peek t s2 [SEMI] = (s3, semi)" by fastforce
      obtain tok q e s4 where g: "gettoken t s3 = (tok, q, e, s4)" by (metis prod_cases4)
      have s1: "s \<le> s1" "between t s1" "\<forall>w \<in> set_cmd c. is_word t w" using x cs by (auto simp: parsed_def)
      have s2: "s1 \<le> s2" "between t s2" "set_cmd c2 = set_cmd c" using back_loop_ok [OF assms s1(2) b] by auto
      have s3: "s2 \<le> s3" "between t s3" using peek_bounds [OF p between_le [OF s2(2)]] peek_between [OF p s2(2)] by auto
      have "parses (parsed t s) (bindE (parseline n t s4) (\<lambda>(d, s). Inr (ListC c2 d, s)))" if semi
      proof -
        have s4: "s2 < s4" "between t s4" "s4 \<le> length t" using peek_token [OF _ between_le [OF s2(2)] g] gettoken_between [OF g s3(2) assms] p that by auto
        have "parses (parsed t s4) (parseline n t s4)" using Suc(1) [OF s4(2)] 1(2) fuel_step [of s s4 "length t"] s4 s1(1) s2(1) by simp
        then show ?thesis by (rule parses_bind) (use s1 s2 s4 in \<open>auto simp: parsed_def\<close>)
      qed
      then show "parses (parsed t s) (case x of (c, s) \<Rightarrow> case back_loop t c s of (c, s) \<Rightarrow> case peek t s [SEMI] of (s, semi) \<Rightarrow>
          if semi then case gettoken t s of (_, _, _, s) \<Rightarrow> bindE (parseline n t s) (\<lambda>(d, s). Inr (ListC c d, s)) else Inr (c, s))"
        using cs b p g s1 s2 s3 by (auto simp: parsed_def)
    qed
  next
    case 2
    have pe: "parses (parsed t s) (parseexec n t s)" using Suc(3) [OF 2(1)] 2(2) by simp
    show ?case unfolding parsepipe.simps
    proof (rule parses_bind [OF pe])
      fix x assume x: "parsed t s x"
      obtain c s1 where cs: "x = (c, s1)" by (cases x)
      obtain s3 bar where p: "peek t s1 [BAR] = (s3, bar)" by fastforce
      obtain tok q e s4 where g: "gettoken t s3 = (tok, q, e, s4)" by (metis prod_cases4)
      have s1: "s \<le> s1" "between t s1" "\<forall>w \<in> set_cmd c. is_word t w" using x cs by (auto simp: parsed_def)
      have s3: "s1 \<le> s3" "between t s3" using peek_bounds [OF p between_le [OF s1(2)]] peek_between [OF p s1(2)] by auto
      have "parses (parsed t s) (bindE (parsepipe n t s4) (\<lambda>(d, s). Inr (PipeC c d, s)))" if bar
      proof -
        have s4: "s1 < s4" "between t s4" "s4 \<le> length t" using peek_token [OF _ between_le [OF s1(2)] g] gettoken_between [OF g s3(2) assms] p that by auto
        have "parses (parsed t s4) (parsepipe n t s4)" using Suc(2) [OF s4(2)] 2(2) fuel_step [of s s4 "length t"] s4 s1(1) by simp
        then show ?thesis by (rule parses_bind) (use s1 s4 in \<open>auto simp: parsed_def\<close>)
      qed
      then show "parses (parsed t s) (case x of (c, s) \<Rightarrow> case peek t s [BAR] of (s, bar) \<Rightarrow>
          if bar then case gettoken t s of (_, _, _, s) \<Rightarrow> bindE (parsepipe n t s) (\<lambda>(d, s). Inr (PipeC c d, s)) else Inr (c, s))"
        using cs p g s1 s3 by (auto simp: parsed_def)
    qed
  next
    case 3
    obtain s1 block where p: "peek t s [LPAR] = (s1, block)" by fastforce
    have s1: "s \<le> s1" "between t s1" using peek_bounds [OF p between_le [OF 3(1)]] peek_between [OF p 3(1)] by auto
    have "parses (parsed t s1) (parseblock n t s1)" using Suc(4) [OF s1(2)] 3(2) s1(1) by simp
    then have b: "parses (parsed t s) (parseblock n t s1)" by (rule parses_weaken) (use s1 in \<open>auto simp: parsed_def\<close>)
    have ex: "parses (parsed t s) (bindE (exec_loop t s2 [] rs) (\<lambda>(args, rs, s). Inr (wrap (Exec args) rs, s)))"
      if "s1 \<le> s2 \<and> between t s2 \<and> (\<forall>r \<in> set rs. is_word t (fst r))" for rs s2
      using that s1 by (intro parses_bind [OF exec_loop_parses [OF _ assms]]) (fastforce simp: parsed_def set_wrap)+
    have "parses (parsed t s) (bindE (redirs t s1) (\<lambda>(rs, s). bindE (exec_loop t s [] rs) (\<lambda>(args, rs, s). Inr (wrap (Exec args) rs, s))))"
      by (rule parses_bind [OF redirs_parses [OF s1(2) assms]]) (auto simp only: prod.case split: prod.splits intro!: ex)
    then show ?case using b p by simp
  next
    case 4
    obtain s1 open' where p: "peek t s [LPAR] = (s1, open')" by fastforce
    obtain tok q e s2 where g: "gettoken t s1 = (tok, q, e, s2)" by (metis prod_cases4)
    have "parses (parsed t s) (bindE (parseline n t s2) (\<lambda>(c, s). case peek t s [RPAR] of (s, closed) \<Rightarrow>
        if \<not> closed then Inl (Panic ''syntax - missing )'') else case gettoken t s of (_, _, _, s) \<Rightarrow> parseredirs t c s))" if open'
    proof -
      have s2: "s < s2" "s2 \<le> length t" "between t s2"
        using peek_token [OF _ between_le [OF 4(1)] g] gettoken_between [OF g peek_between [OF p 4(1)] assms] p that by auto
      have "parses (parsed t s2) (parseline n t s2)" using Suc(1) [OF s2(3)] 4(2) fuel_step [OF s2(1,2)] by simp
      then show ?thesis
      proof (rule parses_bind)
        fix x assume x: "parsed t s2 x"
        obtain c s3 where cs: "x = (c, s3)" by (cases x)
        obtain s4 closed where p2: "peek t s3 [RPAR] = (s4, closed)" by fastforce
        obtain tok q e s5 where g2: "gettoken t s4 = (tok, q, e, s5)" by (metis prod_cases4)
        have s3: "s2 \<le> s3" "between t s3" "\<forall>w \<in> set_cmd c. is_word t w" using x cs by (auto simp: parsed_def)
        have "parses (parsed t s) (parseredirs t c s5)" if closed
        proof -
          have s5: "s3 < s5" "between t s5" using peek_token [OF _ between_le [OF s3(2)] g2] gettoken_between [OF g2 peek_between [OF p2 s3(2)] assms] p2 that by auto
          show ?thesis unfolding parseredirs_def
            by (rule parses_bind [OF redirs_parses [OF s5(2) assms]]) (use s2 s3 s5 in \<open>fastforce simp: parsed_def set_wrap\<close>)
        qed
        then show "parses (parsed t s) (case x of (c, s) \<Rightarrow> case peek t s [RPAR] of (s, closed) \<Rightarrow>
            if \<not> closed then Inl (Panic ''syntax - missing )'') else case gettoken t s of (_, _, _, s) \<Rightarrow> parseredirs t c s)"
          using cs p2 g2 by auto
      qed
    qed
    then show ?case using p g by auto
  }
qed simp_all

section \<open>Cutting the words out of the buffer\<close>

definition cut :: "uchar list \<Rightarrow> nat \<times> nat \<Rightarrow> uchar list" where
  "cut t = (\<lambda>(q, e). take (e - q) (drop q t))"

lemma nth_update: "xs[e := x] ! k = (if k = e \<and> k < length xs then x else xs ! k)"
  by (cases "e < length xs") (auto simp: nth_list_update list_update_beyond)

lemma nul_fold: "fold (\<lambda>(q, e) b. b[e := 0]) ws b ! k = (if k \<in> snd ` set ws \<and> k < length b then 0 else b ! k)"
  "length (fold (\<lambda>(q, e) b. b[e := 0]) ws (b :: uchar list)) = length b"
  by (induction ws arbitrary: b) (auto simp: nth_update split: if_splits)

lemma nulterminate_nth:
  "nulterminate c b ! k = (if k \<in> snd ` set_cmd c \<and> k < length b then 0 else b ! k) \<and> length (nulterminate c b) = length b"
proof (induction c b arbitrary: k rule: nulterminate.induct)
  case (2 c q e mode fd b)
  then show ?case by (auto simp: nth_update)
qed (auto simp: nul_fold)

lemma nulterminate_word:
  assumes "\<forall>w \<in> set_cmd c. is_word t w" and "(q, e) \<in> set_cmd c"
  shows "takeWhile (\<lambda>x. x \<noteq> 0) (drop q (nulterminate c (t @ [0]))) = cut t (q, e)"
proof -
  let ?b = "nulterminate c (t @ [0])"
  have w: "q < e" "e \<le> length t" "\<And>k. q \<le> k \<Longrightarrow> k < e \<Longrightarrow> word_char (t ! k)" using assms by (auto simp: is_word_def)
  have len: "length ?b = Suc (length t)" using nulterminate_nth [of c "t @ [0]"] by simp
  have in_word: "?b ! k = t ! k" if "q \<le> k" "k < e" for k
  proof -
    have "k \<notin> snd ` set_cmd c"
    proof
      assume "k \<in> snd ` set_cmd c"
      then obtain q' where "is_word t (q', k)" using assms(1) by force
      then show False using w(2) w(3) [OF that] that by (simp add: is_word_def)
    qed
    then show ?thesis using nulterminate_nth [of c "t @ [0]" k] that w(2) by (simp add: nth_append)
  qed
  have "?b ! e = 0" using nulterminate_nth [of c "t @ [0]" e] assms(2) w(2) by force
  then have d: "drop q ?b = cut t (q, e) @ 0 # drop (Suc e) ?b"
  proof -
    have "drop q ?b = take (e - q) (drop q ?b) @ drop e ?b" using w(1) by (metis append_take_drop_id drop_drop le_add_diff_inverse2 less_imp_le_nat)
    moreover have "drop e ?b = 0 # drop (Suc e) ?b" using \<open>?b ! e = 0\<close> len w(2) by (metis Cons_nth_drop_Suc less_Suc_eq_le)
    moreover have "take (e - q) (drop q ?b) = cut t (q, e)"
      using w len in_word by (intro nth_equalityI) (auto simp: cut_def)
    ultimately show ?thesis by simp
  qed
  have "x \<noteq> 0" if "x \<in> set (cut t (q, e))" for x
    using that w(2) w(3) unfolding cut_def in_set_conv_nth by (auto simp: word_char_def)
  then show ?thesis unfolding d by (simp add: takeWhile_append2)
qed

text \<open>C13: The command parser always returns, with a command or a syntax error.  The words of a command
  are words of the line: not empty, without white space or symbols, and maximal in both directions, so that
  no character of a word is lost; and after
  \<open>nulterminate\<close> has overwritten the character behind every word in the buffer, the string that
  starts at a word is exactly that word, so no argument is damaged by the NUL of another.\<close>

theorem parsecmd_words:
  assumes "0 \<notin> set t"
  shows "parsecmd t \<noteq> Inl Diverge \<and>
    (\<forall>c b. parsecmd t = Inr (c, b) \<longrightarrow> (\<forall>(q, e) \<in> set_cmd c. is_word t (q, e) \<and> takeWhile (\<lambda>x. x \<noteq> 0) (drop q b) = cut t (q, e)))"
proof -
  have p: "parses (parsed t 0) (parseline (4 * length t + 4) t 0)" using parse_total(1) [OF assms, of 0] by (simp add: between_def)
  have "is_word t (q, e) \<and> takeWhile (\<lambda>x. x \<noteq> 0) (drop q b) = cut t (q, e)"
    if c: "parsecmd t = Inr (c, b)" and qe: "(q, e) \<in> set_cmd c" for c b q e
  proof -
    obtain c' s where l: "parseline (4 * length t + 4) t 0 = Inr (c', s)" using c by (auto simp: parsecmd_def bindE_eq_Inr_iff)
    obtain s' x where "peek t s [] = (s', x)" by fastforce
    then have "c' = c" and b: "b = nulterminate c (t @ [0])" using c l by (auto simp: parsecmd_def split: if_splits)
    then have "\<forall>w \<in> set_cmd c. is_word t w" using p l by (simp add: parsed_def)
    then show ?thesis using nulterminate_word [OF _ qe] qe b by auto
  qed
  moreover have "parsecmd t \<noteq> Inl Diverge"
    using p by (cases "parseline (4 * length t + 4) t 0") (auto simp: parsecmd_def split: prod.splits)
  ultimately show ?thesis by auto
qed

theorem parsecmd_words_witness:
  "let t = [108, 115, 32, 62, 102] in 0 \<notin> set t \<and> parsecmd t = Inr (Redir (Exec [(0, 2)]) (4, 5) 0x201 1, [108, 115, 0, 62, 102, 0]) \<and>
     is_word t (4, 5) \<and> takeWhile (\<lambda>x. x \<noteq> 0) (drop 0 [108, 115, 0, 62, 102, 0 :: uchar]) = cut t (0, 2)"
proof -
  let ?t = "[108, 115, 32, 62, 102] :: uchar list"
  have p: "parsecmd ?t = Inr (Redir (Exec [(0, 2)]) (4, 5) 0x201 1, [108, 115, 0, 62, 102, 0])" by code_simp
  have "0 \<notin> set ?t" by simp
  from parsecmd_words [OF this] p have "is_word ?t (4, 5)" and "takeWhile (\<lambda>x. x \<noteq> 0) (drop 0 [108, 115, 0, 62, 102, 0 :: uchar]) = cut ?t (0, 2)"
    by auto
  then show ?thesis using p by (simp only: Let_def) auto
qed

end
