(* ===== verification/ShPrint.thy ===== *)
theory ShPrint
  imports Sh
begin

text \<open>
  The shell's grammar, as a printer of commands: a list of commands is separated by semicolons,
  an ampersand puts a command in the background, bars make pipelines, and parentheses enclose a
  command that is not of the kind its place requires.  The parser of \<open>src/sh.c\<close> reads every printed
  command back.
\<close>

section \<open>Printing\<close>

definition show_word :: "uchar list \<Rightarrow> uchar list" where
  "show_word w = w @ [32]"

definition show_redir :: "uchar list \<times> uint \<times> nat \<Rightarrow> uchar list" where
  "show_redir = (\<lambda>(w, mode, fd). [if mode = 0 then LESS else GREATER, 32] @ show_word w)"

fun rank :: "'w cmd \<Rightarrow> nat" where
  "rank (ListC c d) = 0"
| "rank (Back c) = 1"
| "rank (PipeC c d) = 2"
| "rank (Exec args) = 3"
| "rank (Redir c w mode fd) = 3"

definition paren :: "nat \<Rightarrow> nat \<Rightarrow> uchar list \<Rightarrow> uchar list" where
  "paren p r x = (if r < p then [LPAR, 32] @ x @ [RPAR, 32] else x)"

fun show_cmd :: "uchar list cmd \<Rightarrow> uchar list" where
  "show_cmd (ListC c d) = paren 1 (rank c) (show_cmd c) @ [SEMI, 32] @ show_cmd d"
| "show_cmd (Back c) = paren 1 (rank c) (show_cmd c) @ [AMP, 32]"
| "show_cmd (PipeC c d) = paren 3 (rank c) (show_cmd c) @ [BAR, 32] @ paren 2 (rank d) (show_cmd d)"
| "show_cmd (Exec args) = concat (map show_word args)"
| "show_cmd (Redir c w mode fd) = paren 3 (rank c) (show_cmd c) @ show_redir (w, mode, fd)"

abbreviation show_at :: "nat \<Rightarrow> uchar list cmd \<Rightarrow> uchar list" where
  "show_at p c \<equiv> paren p (rank c) (show_cmd c)"

text \<open>Commands the shell can represent: at most nine arguments, words without special characters,
  and the two kinds of redirection.\<close>

definition good_word :: "uchar list \<Rightarrow> bool" where
  "good_word w \<longleftrightarrow> w \<noteq> [] \<and> (\<forall>c \<in> set w. word_char c)"

fun good_cmd :: "uchar list cmd \<Rightarrow> bool" where
  "good_cmd (ListC c d) \<longleftrightarrow> good_cmd c \<and> good_cmd d"
| "good_cmd (Back c) \<longleftrightarrow> good_cmd c"
| "good_cmd (PipeC c d) \<longleftrightarrow> good_cmd c \<and> good_cmd d"
| "good_cmd (Exec args) \<longleftrightarrow> length args < MAXARGS \<and> (\<forall>w \<in> set args. good_word w)"
| "good_cmd (Redir c w mode fd) \<longleftrightarrow> good_cmd c \<and> good_word w \<and> (mode, fd) \<in> {(0, 0), (0x201, 1)}"

section \<open>Reading single tokens\<close>

definition at :: "uchar list \<Rightarrow> nat \<Rightarrow> uchar list \<Rightarrow> bool" where
  "at t s x \<longleftrightarrow> s \<le> length t \<and> drop s t = x"

definition starts :: "uchar list \<Rightarrow> bool" where
  "starts x \<longleftrightarrow> x = [] \<or> \<not> white (hd x)"

lemma at_append:
  assumes "at t s (x @ y)"
  shows "at t (s + length x) y"
proof -
  have d: "drop s t = x @ y" "s \<le> length t" using assms by (auto simp: at_def)
  have "drop (s + length x) t = drop (length x) (drop s t)" by (simp add: add.commute)
  moreover have "length t - s = length x + length y" using arg_cong [OF d(1), of length] by simp
  ultimately show ?thesis using d by (simp add: at_def)
qed

lemma at_mono:
  assumes "at t s (x @ y)" and "at t s' y"
  shows "s \<le> s'"
proof -
  have "length t - s = length x + length y" "length t - s' = length y" "s \<le> length t" "s' \<le> length t"
    using assms by (auto simp: at_def simp flip: length_drop)
  then show ?thesis by linarith
qed

lemma at_nth: "at t s x \<Longrightarrow> k < length x \<Longrightarrow> s + k < length t \<and> t ! (s + k) = x ! k"
  unfolding at_def by (metis length_drop less_diff_conv add.commute nth_drop)

lemma at_end: "at t s [] \<Longrightarrow> s = length t"
  by (simp add: at_def)

lemma skip_white_at: "at t s x \<Longrightarrow> starts x \<Longrightarrow> skip_white t s = s"
proof -
  assume a: "at t s x" "starts x"
  then have "\<not> (s < length t \<and> white (t ! s))"
    using at_nth [OF a(1), of 0] at_end [of t s] by (cases x) (auto simp: starts_def)
  then show ?thesis by (subst skip_white.simps) (rule if_not_P)
qed

lemma skip_space_at: "at t s (32 # x) \<Longrightarrow> starts x \<Longrightarrow> skip_white t s = s + 1"
proof -
  assume a: "at t s (32 # x)" "starts x"
  have "s < length t" "white (t ! s)" using at_nth [OF a(1), of 0] by (auto simp: white_def whitespace_def)
  moreover have "skip_white t (s + 1) = s + 1" using at_append [of t s "[32]" x] a by (intro skip_white_at) simp_all
  ultimately show ?thesis by (simp add: skip_white.simps [of t s])
qed

lemma ch_at: "at t s x \<Longrightarrow> ch t s = (if x = [] then 0 else hd x)"
  using at_nth [of t s x 0] at_end [of t s] by (cases x) (auto simp: ch_def)

lemma peek_at: "at t s x \<Longrightarrow> starts x \<Longrightarrow> peek t s toks = (s, x \<noteq> [] \<and> hd x \<noteq> 0 \<and> strchr toks (hd x) \<noteq> None)"
  by (auto simp: peek_def Let_def skip_white_at ch_at)

lemma gettoken_symbol:
  assumes "at t s (c # 32 # y)" and "starts y" and "c \<in> {BAR, LPAR, RPAR, SEMI, AMP, LESS, GREATER}"
  shows "gettoken t s = (c, s, s + 1, s + 2)" and "at t (s + 2) y"
proof -
  have n: "starts (c # 32 # y)" using assms(3) by (auto simp: starts_def white_def whitespace_def)
  have a1: "at t (s + 1) (32 # y)" and a2: "at t (s + 2) y"
    using at_append [of t s "[c]" "32 # y"] at_append [of t s "[c, 32]" y] assms(1) by simp_all
  have w: "skip_white t s = s" by (rule skip_white_at [OF assms(1) n])
  have e: "skip_white t (Suc s) = s + 2" using skip_space_at [OF a1 assms(2)] by simp
  have c: "ch t s = c" "ch t (Suc s) = 32" using ch_at [OF assms(1)] ch_at [OF a1] by simp_all
  show "gettoken t s = (c, s, s + 1, s + 2)"
    unfolding gettoken_def Let_def w c using assms(3) c e by auto
  show "at t (s + 2) y" by (rule a2)
qed

lemma skip_word_at: "at t s (w @ 32 # y) \<Longrightarrow> \<forall>c \<in> set w. word_char c \<Longrightarrow> skip_word t s = s + length w"
proof (induction w arbitrary: s)
  case Nil
  have "white (t ! s)" using at_nth [OF Nil(1), of 0] by (simp add: white_def whitespace_def)
  then show ?case by (subst skip_word.simps) simp
next
  case (Cons c w)
  have "s < length t" "word_char (t ! s)" using at_nth [OF Cons.prems(1), of 0] Cons.prems(2) by auto
  moreover have "skip_word t (s + 1) = s + 1 + length w"
    using Cons.prems at_append [of t s "[c]" "w @ 32 # y"] by (intro Cons.IH) simp_all
  ultimately show ?case by (subst skip_word.simps) (simp add: word_char_def)
qed

lemma word_char_starts: "word_char c \<Longrightarrow> starts (c # x) \<and> c \<notin> {0, BAR, LPAR, RPAR, SEMI, AMP, LESS, GREATER}"
  by (auto simp: word_char_def starts_def symbol_def symbols_def)

lemma gettoken_at_word:
  assumes "at t s (show_word w @ y)" and "starts y" and "good_word w"
  shows "gettoken t s = (WORD, s, s + length w, s + length w + 1)" and "at t (s + length w + 1) y" and "cut t (s, s + length w) = w"
proof -
  obtain c w' where cw: "w = c # w'" using assms(3) by (cases w) (auto simp: good_word_def)
  have wc: "word_char c" "\<forall>c \<in> set w. word_char c" using assms(3) cw by (auto simp: good_word_def)
  have a: "at t s (w @ 32 # y)" using assms(1) by (simp add: show_word_def)
  have a1: "at t (s + length w) (32 # y)" using at_append [OF a] .
  have b: "skip_white t s = s" using skip_white_at [OF a] word_char_starts [OF wc(1)] cw by simp
  have ch: "ch t s = c" using ch_at [OF a] cw by simp
  have e: "skip_white t (s + length w) = s + length w + 1" by (rule skip_space_at [OF a1 assms(2)])
  show "gettoken t s = (WORD, s, s + length w, s + length w + 1)"
    unfolding gettoken_def Let_def b ch using word_char_starts [OF wc(1)] skip_word_at [OF a wc(2)] e by auto
  show "at t (s + length w + 1) y" using at_append [of t s "w @ [32]" y] a by simp
  show "cut t (s, s + length w) = w" using a by (auto simp: cut_def at_def)
qed

lemma starts_words: "\<forall>w \<in> set ws. good_word w \<Longrightarrow> starts y \<Longrightarrow> starts (concat (map show_word ws) @ y)"
proof (cases ws)
  case (Cons w ws')
  assume "\<forall>w \<in> set ws. good_word w"
  then obtain c w' where "w = c # w'" "word_char c" using Cons by (cases w) (auto simp: good_word_def)
  then show ?thesis using Cons word_char_starts [of c] by (simp add: show_word_def)
qed simp

section \<open>Reading redirections and arguments\<close>

definition good_redir :: "uchar list \<times> uint \<times> nat \<Rightarrow> bool" where
  "good_redir = (\<lambda>(w, mode, fd). good_word w \<and> (mode, fd) \<in> {(0, 0), (0x201, 1)})"

text \<open>What may follow a simple command: the end of the text or one of the symbols that end it.\<close>

definition ends :: "uchar list \<Rightarrow> uchar list \<Rightarrow> bool" where
  "ends toks x \<longleftrightarrow> x = [] \<or> hd x \<in> set toks"

lemma ends_starts: "ends [BAR, RPAR, AMP, SEMI] x \<Longrightarrow> starts x"
  by (auto simp: ends_def starts_def white_def whitespace_def)

lemma starts_redirs: "starts y \<Longrightarrow> starts (concat (map show_redir rs) @ y)"
  by (cases rs) (auto simp: show_redir_def starts_def white_def whitespace_def split: prod.splits)

abbreviation map_redir :: "('a \<Rightarrow> 'b) \<Rightarrow> 'a \<times> uint \<times> nat \<Rightarrow> 'b \<times> uint \<times> nat" where
  "map_redir f \<equiv> map_prod f (\<lambda>x. x)"

lemma redirs_none:
  assumes "at t s y" and "starts y" and "y = [] \<or> hd y \<notin> {LESS, GREATER}"
  shows "redirs t s = Inr ([], s)"
proof -
  have "peek t s [LESS, GREATER] = (s, False)" using peek_at [OF assms(1,2), of "[LESS, GREATER]"] assms(3) by auto
  then show ?thesis using assms(1) by (subst redirs.simps) (simp add: at_def)
qed

lemma redirs_at:
  assumes "at t s (concat (map show_redir rs) @ y)" and "starts y" and "y = [] \<or> hd y \<notin> {LESS, GREATER}"
    and "\<forall>r \<in> set rs. good_redir r"
  shows "\<exists>rs' s'. redirs t s = Inr (rs', s') \<and> map (map_redir (cut t)) rs' = rs \<and> at t s' y"
  using assms(1,4)
proof (induction rs arbitrary: s)
  case Nil
  then show ?case using redirs_none [OF _ assms(2,3), of t s] by simp
next
  case (Cons r rs)
  obtain w mode fd where r: "r = (w, mode, fd)" by (cases r)
  have g: "good_word w" "(mode, fd) \<in> {(0, 0), (0x201, 1)}" using Cons.prems(2) r by (auto simp: good_redir_def)
  let ?c = "if mode = 0 then LESS else GREATER" let ?rest = "concat (map show_redir rs) @ y"
  have a: "at t s (?c # 32 # show_word w @ ?rest)" using Cons.prems(1) r by (simp add: show_redir_def)
  have st: "starts ?rest" by (rule starts_redirs [OF assms(2)])
  have st2: "starts (show_word w @ ?rest)" using starts_words [of "[w]" ?rest] g st by simp
  have pk: "peek t s [LESS, GREATER] = (s, True)"
    using peek_at [OF a, of "[LESS, GREATER]"] by (auto simp: starts_def white_def whitespace_def)
  have g1: "gettoken t s = (?c, s, s + 1, s + 2)" "at t (s + 2) (show_word w @ ?rest)"
    using gettoken_symbol [OF a st2] by auto
  note g2 = gettoken_at_word [OF g1(2) st g(1)]
  obtain rs' s' where IH: "redirs t (s + 2 + length w + 1) = Inr (rs', s')" "map (map_redir (cut t)) rs' = rs" "at t s' y"
    using Cons.IH [OF g2(2)] Cons.prems(2) by auto
  have "s \<le> length t" using a by (simp add: at_def)
  then have "redirs t s = Inr (((s + 2, s + 2 + length w), if ?c = LESS then (0, 0) else (0x201, 1)) # rs', s')"
    using pk g1(1) g2(1) IH(1) by (simp add: redirs.simps [of t s])
  then show ?case using IH g2(3) g(2) r by auto
qed

lemma exec_stop:
  assumes "at t s y" and "ends [BAR, RPAR, AMP, SEMI] y"
  shows "exec_loop t s args rs = Inr (args, rs, s)"
proof (cases "y = []")
  case True
  then have e: "s = length t" using assms(1) by (simp add: at_def)
  have "skip_white t s = s" using skip_white_at [OF assms(1)] True by (simp add: starts_def)
  then have "gettoken t s = (0, s, s, s)" "peek t s [BAR, RPAR, AMP, SEMI] = (s, False)"
    using e by (simp_all add: gettoken_def peek_def ch_def Let_def)
  then show ?thesis using e by (subst exec_loop.simps) simp
next
  case False
  then have "peek t s [BAR, RPAR, AMP, SEMI] = (s, True)"
    using peek_at [OF assms(1) ends_starts [OF assms(2)], of "[BAR, RPAR, AMP, SEMI]"] assms(2) by (auto simp: ends_def)
  then show ?thesis using assms(1) by (simp add: exec_loop.simps [of t s] at_def)
qed

lemma exec_loop_at:
  assumes "at t s (concat (map show_word args) @ concat (map show_redir rs) @ y)" and "ends [BAR, RPAR, AMP, SEMI] y"
    and "\<forall>w \<in> set args. good_word w" and "\<forall>r \<in> set rs. good_redir r" and "length acc + length args < MAXARGS" and "args \<noteq> [] \<or> rs = []"
  shows "\<exists>as rs' s'. exec_loop t s acc rs0 = Inr (acc @ as, rs0 @ rs', s') \<and> map (cut t) as = args \<and>
     map (map_redir (cut t)) rs' = rs \<and> at t s' y"
  using assms(1,3,5,6)
proof (induction args arbitrary: s acc rs0)
  case Nil
  then show ?case using exec_stop [OF _ assms(2), of t s] by simp
next
  case (Cons w args)
  let ?tl = "concat (map show_word args) @ concat (map show_redir rs) @ y"
  have gw: "good_word w" "\<forall>w \<in> set args. good_word w" using Cons.prems(2) by auto
  have sy: "starts (concat (map show_redir rs) @ y)" by (rule starts_redirs [OF ends_starts [OF assms(2)]])
  have st: "starts ?tl" by (rule starts_words [OF gw(2) sy])
  have a: "at t s (show_word w @ ?tl)" using Cons.prems(1) by simp
  have le: "s \<le> length t" using a by (simp add: at_def)
  obtain c w' where cw: "w = c # w'" "word_char c" using gw(1) by (cases w) (auto simp: good_word_def)
  have "peek t s [BAR, RPAR, AMP, SEMI] = (s, False)"
    using peek_at [OF a, of "[BAR, RPAR, AMP, SEMI]"] starts_words [of "[w]" ?tl] gw(1) st word_char_starts [OF cw(2)] cw(1)
    by (auto simp: show_word_def)
  note pk = this and g = gettoken_at_word [OF a st gw(1)]
  let ?s2 = "s + length w + 1" let ?wd = "(s, s + length w)"
  show ?case
  proof (cases "args = []")
    case True
    have a2: "at t ?s2 (concat (map show_redir rs) @ y)" using g(2) True by simp
    obtain rs' s' where r: "redirs t ?s2 = Inr (rs', s')" "map (map_redir (cut t)) rs' = rs" "at t s' y"
      using redirs_at [OF a2 ends_starts [OF assms(2)] _ assms(4)] assms(2) by (auto simp: ends_def)
    have "exec_loop t s' (acc @ [?wd]) (rs0 @ rs') = Inr (acc @ [?wd], rs0 @ rs', s')" by (rule exec_stop [OF r(3) assms(2)])
    then have "exec_loop t s acc rs0 = Inr (acc @ [?wd], rs0 @ rs', s')"
      using pk g(1) r(1) le Cons.prems(3) by (simp add: exec_loop.simps [of t s] Let_def)
    then show ?thesis using r g(3) True by auto
  next
    case False
    have "redirs t ?s2 = Inr ([], ?s2)"
    proof -
      obtain w2 args2 where "args = w2 # args2" using False by (cases args) auto
      moreover obtain c2 w2' where "w2 = c2 # w2'" "word_char c2" using gw(2) calculation by (cases w2) (auto simp: good_word_def)
      ultimately show ?thesis using word_char_starts [of c2] by (intro redirs_none [OF g(2) st]) (auto simp: show_word_def)
    qed
    moreover obtain as rs' s' where "exec_loop t ?s2 (acc @ [?wd]) rs0 = Inr ((acc @ [?wd]) @ as, rs0 @ rs', s')" "map (cut t) as = args"
        "map (map_redir (cut t)) rs' = rs" "at t s' y"
      using Cons.IH [OF g(2) gw(2), of "acc @ [?wd]" rs0] Cons.prems(3) False by auto
    ultimately show ?thesis using pk g(1,3) le Cons.prems(3)
      by (intro exI [of _ "?wd # as"] exI [of _ rs'] exI [of _ s']) (simp add: exec_loop.simps [of t s] Let_def)
  qed
qed

section \<open>Reading commands\<close>

lemma back_loop_at:
  assumes "at t s (concat (replicate k [AMP, 32]) @ y)" and "starts y" and "y = [] \<or> hd y \<noteq> AMP"
  shows "\<exists>s'. back_loop t c s = ((Back ^^ k) c, s') \<and> at t s' y"
  using assms(1)
proof (induction k arbitrary: s c)
  case 0
  then have a: "at t s y" by simp
  have "peek t s [AMP] = (s, False)" using peek_at [OF a assms(2), of "[AMP]"] assms(3) by auto
  then show ?case using a by (subst back_loop.simps) (simp add: at_def)
next
  case (Suc k)
  let ?x = "concat (replicate k [AMP, 32]) @ y"
  have a: "at t s (AMP # 32 # ?x)" using Suc.prems by simp
  have st: "starts ?x" using assms(2) by (cases k) (auto simp: starts_def white_def whitespace_def)
  have "peek t s [AMP] = (s, True)"
    using peek_at [OF a, of "[AMP]"] by (auto simp: starts_def white_def whitespace_def)
  moreover have g: "gettoken t s = (AMP, s, s + 1, s + 2)" "at t (s + 2) ?x" using gettoken_symbol [OF a st] by auto
  moreover obtain s' where "back_loop t (Back c) (s + 2) = ((Back ^^ k) (Back c), s')" "at t s' y"
    using Suc.IH [OF g(2)] by blast
  ultimately show ?case using a by (subst back_loop.simps) (auto simp: at_def funpow_swap1)
qed

lemma starts_show: "good_cmd c \<Longrightarrow> starts y \<Longrightarrow> starts (show_cmd c @ y)"
  and starts_show_at: "good_cmd c \<Longrightarrow> starts y \<Longrightarrow> starts (show_at p c @ y)"
proof -
  have sym: "starts (x # z)" if "x \<in> {LPAR, SEMI, AMP, BAR}" for x z
    using that by (auto simp: starts_def white_def whitespace_def)
  have "good_cmd c \<Longrightarrow> starts y \<Longrightarrow> starts (show_cmd c @ y)" for c y
  proof (induction c arbitrary: y)
    case (Exec args) then show ?case using starts_words [of args y] by simp
  next
    case (Redir c w mode fd) then show ?case using starts_redirs [of y "[(w, mode, fd)]"] by (auto simp: paren_def sym)
  qed (auto simp: paren_def sym)
  then show "good_cmd c \<Longrightarrow> starts y \<Longrightarrow> starts (show_cmd c @ y)" "good_cmd c \<Longrightarrow> starts y \<Longrightarrow> starts (show_at p c @ y)"
    by (auto simp: paren_def sym)
qed

text \<open>A command as what the three levels of the grammar see: redirections around a base command, and a
  command put in the background some number of times.\<close>

lemma unwrap:
  "\<exists>b rs. c = wrap b rs \<and> (\<forall>d w mode fd. b \<noteq> Redir d w mode fd) \<and> show_at 3 c = show_at 3 b @ concat (map show_redir rs) \<and>
     (good_cmd c \<longrightarrow> good_cmd b \<and> (\<forall>r \<in> set rs. good_redir r))"
proof (induction c)
  case (Redir c w mode fd)
  then obtain b rs where "c = wrap b rs" "\<forall>d w mode fd. b \<noteq> Redir d w mode fd" "show_at 3 c = show_at 3 b @ concat (map show_redir rs)"
    "good_cmd c \<longrightarrow> good_cmd b \<and> (\<forall>r \<in> set rs. good_redir r)" by auto
  then show ?case
    by (intro exI [of _ b] exI [of _ "rs @ [(w, mode, fd)]"]) (auto simp: wrap_def paren_def good_redir_def)
next
  case (Exec args) show ?case by (rule exI [of _ "Exec args"], rule exI [of _ "[]"]) (simp add: wrap_def)
next
  case (PipeC c d) show ?case by (rule exI [of _ "PipeC c d"], rule exI [of _ "[]"]) (simp add: wrap_def)
next
  case (ListC c d) show ?case by (rule exI [of _ "ListC c d"], rule exI [of _ "[]"]) (simp add: wrap_def)
next
  case (Back c) show ?case by (rule exI [of _ "Back c"], rule exI [of _ "[]"]) (simp add: wrap_def)
qed

lemma unback:
  "\<exists>p k. c = (Back ^^ k) p \<and> show_at 1 c = show_at 2 p @ concat (replicate k [AMP, 32]) \<and> (good_cmd c \<longrightarrow> good_cmd p)"
proof (induction c)
  case (Back c)
  then obtain p k where "c = (Back ^^ k) p" "show_at 1 c = show_at 2 p @ concat (replicate k [AMP, 32])"
    "good_cmd c \<longrightarrow> good_cmd p" by auto
  moreover have "concat (replicate k [AMP, 32]) @ [AMP, 32] = concat (replicate (Suc k) [AMP, 32])"
    by (induction k) auto
  ultimately show ?case by (intro exI [of _ p] exI [of _ "Suc k"]) (simp add: paren_def)
next
  case (Exec args) show ?case by (rule exI [of _ "Exec args"], rule exI [of _ 0]) (simp add: paren_def)
next
  case (Redir c w mode fd) show ?case by (rule exI [of _ "Redir c w mode fd"], rule exI [of _ 0]) (simp add: paren_def)
next
  case (PipeC c d) show ?case by (rule exI [of _ "PipeC c d"], rule exI [of _ 0]) (simp add: paren_def)
next
  case (ListC c d) show ?case by (rule exI [of _ "ListC c d"], rule exI [of _ 0]) (simp add: paren_def)
qed

lemma map_wrap: "map_cmd f (wrap c rs) = wrap (map_cmd f c) (map (map_redir f) rs)"
  by (induction rs arbitrary: c) (auto simp: wrap_def split: prod.splits)

lemma map_back: "map_cmd f ((Back ^^ k) c) = (Back ^^ k) (map_cmd f c)"
  by (induction k) auto

text \<open>What it means that a parser, started where a command is printed, reads exactly this command.\<close>

definition reads :: "uchar list \<Rightarrow> uchar list cmd \<Rightarrow> uchar list \<Rightarrow> ((nat \<times> nat) cmd \<times> nat) res \<Rightarrow> bool" where
  "reads t c y r \<longleftrightarrow> (\<exists>c' s'. r = Inr (c', s') \<and> map_cmd (cut t) c' = c \<and> at t s' y)"

lemma readsE:
  assumes "reads t c y r"
  obtains c' s' where "r = Inr (c', s')" and "map_cmd (cut t) c' = c" and "at t s' y"
  using assms by (auto simp: reads_def)

lemma readsI: "r = Inr (c', s') \<Longrightarrow> map_cmd (cut t) c' = c \<Longrightarrow> at t s' y \<Longrightarrow> reads t c y r"
  by (auto simp: reads_def)

lemma peek_symbol: "at t s (c # 32 # y) \<Longrightarrow> c \<in> {BAR, LPAR, RPAR, SEMI, AMP} \<Longrightarrow> peek t s [d] = (s, c = d)"
  using peek_at [of t s "c # 32 # y" "[d]"] by (auto simp: starts_def white_def whitespace_def)

lemma peek_not: "at t s y \<Longrightarrow> ends toks y \<Longrightarrow> starts y \<Longrightarrow> d \<notin> set toks \<Longrightarrow> peek t s [d] = (s, False)"
  using peek_at [of t s y "[d]"] by (auto simp: ends_def)

lemma line_reads:
  assumes pipe: "\<And>c y. at t s (show_at 2 c @ y) \<Longrightarrow> good_cmd c \<Longrightarrow> ends [RPAR, AMP, SEMI] y \<Longrightarrow> reads t c y (parsepipe n t s)"
    and line: "\<And>c y s'. s < s' \<Longrightarrow> at t s' (show_cmd c @ y) \<Longrightarrow> good_cmd c \<Longrightarrow> ends [RPAR] y \<Longrightarrow> reads t c y (parseline n t s')"
    and a: "at t s (show_cmd c @ y)" and good: "good_cmd c" and y: "ends [RPAR] y"
  shows "reads t c y (parseline (Suc n) t s)"
proof -
  have sy: "starts y" using y by (auto simp: ends_def starts_def white_def whitespace_def)
  have front: "\<exists>b' s'. (case parsepipe n t s of Inr (c', s1) \<Rightarrow> back_loop t c' s1 = (b', s')) \<and> (\<exists>x. parsepipe n t s = Inr x) \<and>
      map_cmd (cut t) b' = b \<and> at t s' z \<and> s \<le> s'"
    if b: "at t s (show_at 1 b @ z)" "good_cmd b" and z: "ends [RPAR, SEMI] z" for b z
  proof -
    obtain p k where p: "b = (Back ^^ k) p" "show_at 1 b = show_at 2 p @ concat (replicate k [AMP, 32])" "good_cmd p"
      using unback [of b] b(2) by blast
    have "reads t p (concat (replicate k [AMP, 32]) @ z) (parsepipe n t s)"
      by (rule pipe) (use b(1) p z in \<open>cases k; auto simp: ends_def\<close>)+
    then obtain c' s1 where r: "parsepipe n t s = Inr (c', s1)" "map_cmd (cut t) c' = p" "at t s1 (concat (replicate k [AMP, 32]) @ z)"
      by (rule readsE)
    obtain s' where "back_loop t c' s1 = ((Back ^^ k) c', s')" "at t s' z"
      using back_loop_at [OF r(3), of c'] z by (auto simp: ends_def starts_def white_def whitespace_def)
    moreover have "s \<le> s'" using at_mono [OF b(1) calculation(2)] .
    ultimately show ?thesis using r(1,2) p(1) by (auto simp: map_back)
  qed
  show ?thesis
  proof (cases "\<exists>b d. c = ListC b d")
    case True
    then obtain b d where c: "c = ListC b d" by blast
    have sd: "starts (show_cmd d @ y)" using starts_show [of d y] good c sy by simp
    have ab: "at t s (show_at 1 b @ SEMI # 32 # show_cmd d @ y)" using a c by simp
    obtain c' s1 b' s' where f: "parsepipe n t s = Inr (c', s1)" "back_loop t c' s1 = (b', s')" "map_cmd (cut t) b' = b"
        "at t s' (SEMI # 32 # show_cmd d @ y)" "s \<le> s'"
      using front [OF ab] good c by (auto simp: ends_def)
    note g = gettoken_symbol [OF f(4) sd]
    have "reads t d y (parseline n t (s' + 2))" by (rule line) (use g f(5) good c y in auto)
    then obtain d' s2 where d: "parseline n t (s' + 2) = Inr (d', s2)" "map_cmd (cut t) d' = d" "at t s2 y" by (rule readsE)
    show ?thesis by (rule readsI [of _ "ListC b' d'" s2]) (use f g d c peek_symbol [OF f(4), of SEMI] in auto)
  next
    case False
    then have "show_cmd c = show_at 1 c" by (cases c) (auto simp: paren_def)
    then obtain c' s1 b' s' where f: "parsepipe n t s = Inr (c', s1)" "back_loop t c' s1 = (b', s')" "map_cmd (cut t) b' = c" "at t s' y"
      using front [of c y] a good y by (auto simp: ends_def)
    show ?thesis by (rule readsI [of _ b' s']) (use f peek_not [OF f(4) y sy, of SEMI] in auto)
  qed
qed

lemma pipe_reads:
  assumes exec: "\<And>c y. at t s (show_at 3 c @ y) \<Longrightarrow> good_cmd c \<Longrightarrow> ends [BAR, RPAR, AMP, SEMI] y \<Longrightarrow> reads t c y (parseexec n t s)"
    and pipe: "\<And>c y s'. s < s' \<Longrightarrow> at t s' (show_at 2 c @ y) \<Longrightarrow> good_cmd c \<Longrightarrow> ends [RPAR, AMP, SEMI] y \<Longrightarrow> reads t c y (parsepipe n t s')"
    and a: "at t s (show_at 2 c @ y)" and good: "good_cmd c" and y: "ends [RPAR, AMP, SEMI] y"
  shows "reads t c y (parsepipe (Suc n) t s)"
proof -
  have sy: "starts y" using y by (auto simp: ends_def starts_def white_def whitespace_def)
  show ?thesis
  proof (cases "\<exists>b d. c = PipeC b d")
    case True
    then obtain b d where c: "c = PipeC b d" by blast
    have sd: "starts (show_at 2 d @ y)" using starts_show_at [of d y 2] good c sy by simp
    have "reads t b (BAR # 32 # show_at 2 d @ y) (parseexec n t s)"
      by (rule exec) (use a c good in \<open>auto simp: ends_def paren_def\<close>)
    then obtain b' s' where f: "parseexec n t s = Inr (b', s')" "map_cmd (cut t) b' = b" "at t s' (BAR # 32 # show_at 2 d @ y)" by (rule readsE)
    have "s \<le> s'" using at_mono [OF _ f(3)] a c by (simp add: paren_def [of 2 2])
    note g = gettoken_symbol [OF f(3) sd]
    have "reads t d y (parsepipe n t (s' + 2))" by (rule pipe) (use g \<open>s \<le> s'\<close> good c y in auto)
    then obtain d' s2 where d: "parsepipe n t (s' + 2) = Inr (d', s2)" "map_cmd (cut t) d' = d" "at t s2 y" by (rule readsE)
    show ?thesis by (rule readsI [of _ "PipeC b' d'" s2]) (use f g d c peek_symbol [OF f(3), of BAR] in auto)
  next
    case False
    then have "show_at 2 c = show_at 3 c" by (cases c) (auto simp: paren_def)
    then have "reads t c y (parseexec n t s)" using a good y by (intro exec) (auto simp: ends_def)
    then obtain c' s' where f: "parseexec n t s = Inr (c', s')" "map_cmd (cut t) c' = c" "at t s' y" by (rule readsE)
    show ?thesis by (rule readsI [of _ c' s']) (use f peek_not [OF f(3) y sy, of BAR] in auto)
  qed
qed

lemma block_reads:
  assumes line: "\<And>c y s'. s < s' \<Longrightarrow> at t s' (show_cmd c @ y) \<Longrightarrow> good_cmd c \<Longrightarrow> ends [RPAR] y \<Longrightarrow> reads t c y (parseline n t s')"
    and a: "at t s (LPAR # 32 # show_cmd b @ RPAR # 32 # concat (map show_redir rs) @ y)"
    and good: "good_cmd b" "\<forall>r \<in> set rs. good_redir r" and y: "ends [BAR, RPAR, AMP, SEMI] y"
  shows "reads t (wrap b rs) y (parseblock (Suc n) t s)"
proof -
  let ?rs = "concat (map show_redir rs) @ y"
  have sr: "starts ?rs" by (rule starts_redirs [OF ends_starts [OF y]])
  have sb: "starts (show_cmd b @ RPAR # 32 # ?rs)" by (rule starts_show [OF good(1)]) (simp add: starts_def white_def whitespace_def)
  note g = gettoken_symbol [OF a sb]
  have "reads t b (RPAR # 32 # ?rs) (parseline n t (s + 2))" by (rule line) (use g good in \<open>auto simp: ends_def\<close>)
  then obtain b' s1 where b: "parseline n t (s + 2) = Inr (b', s1)" "map_cmd (cut t) b' = b" "at t s1 (RPAR # 32 # ?rs)" by (rule readsE)
  note g2 = gettoken_symbol [OF b(3) sr]
  have a2: "at t (s1 + 2) ?rs" using g2(2) by simp
  obtain rs' s' where r: "redirs t (s1 + 2) = Inr (rs', s')" "map (map_redir (cut t)) rs' = rs" "at t s' y"
    using redirs_at [OF a2 ends_starts [OF y] _ good(2)] y by (auto simp: ends_def)
  show ?thesis
    by (rule readsI [of _ "wrap b' rs'" s'])
      (use b g g2 r peek_symbol [OF a, of LPAR] peek_symbol [OF b(3), of RPAR] in \<open>auto simp: parseredirs_def map_wrap\<close>)
qed

lemma exec_reads:
  assumes block: "\<And>b rs y. at t s (LPAR # 32 # show_cmd b @ RPAR # 32 # concat (map show_redir rs) @ y) \<Longrightarrow> good_cmd b \<Longrightarrow>
      \<forall>r \<in> set rs. good_redir r \<Longrightarrow> ends [BAR, RPAR, AMP, SEMI] y \<Longrightarrow> reads t (wrap b rs) y (parseblock n t s)"
    and a: "at t s (show_at 3 c @ y)" and good: "good_cmd c" and y: "ends [BAR, RPAR, AMP, SEMI] y"
  shows "reads t c y (parseexec (Suc n) t s)"
proof -
  obtain b rs where c: "c = wrap b rs" "\<forall>d w mode fd. b \<noteq> Redir d w mode fd" "show_at 3 c = show_at 3 b @ concat (map show_redir rs)"
      "good_cmd b" "\<forall>r \<in> set rs. good_redir r"
    using unwrap [of c] good by blast
  note sy = ends_starts [OF y]
  show ?thesis
  proof (cases "rank b < 3")
    case True
    then have ab: "at t s (LPAR # 32 # show_cmd b @ RPAR # 32 # concat (map show_redir rs) @ y)" using a c(3) by (simp add: paren_def)
    show ?thesis using block [OF ab c(4,5) y] peek_symbol [OF ab, of LPAR] c(1) by simp
  next
    case False
    then obtain args where b: "b = Exec args" using c(2) by (cases b) auto
    have w: "length args < MAXARGS" "\<forall>w \<in> set args. good_word w" using c(4) b by auto
    let ?x = "concat (map show_word args) @ concat (map show_redir rs) @ y"
    have ax: "at t s ?x" using a c(3) b by (simp add: paren_def)
    have sx: "starts ?x" by (rule starts_words [OF w(2) starts_redirs [OF sy]])
    have hd: "?x = [] \<or> hd ?x \<noteq> LPAR" "args \<noteq> [] \<Longrightarrow> hd ?x \<notin> {LESS, GREATER}"
    proof -
      have "?x = [] \<or> hd ?x \<noteq> LPAR" if "args = []"
        using that y by (cases rs) (auto simp: ends_def show_redir_def split: prod.splits)
      moreover have "hd ?x \<notin> {LESS, GREATER, LPAR}" if ne: "args \<noteq> []"
      proof -
        obtain d w' ws where "args = (d # w') # ws" "word_char d"
          using ne w(2) by (cases args; cases "hd args") (auto simp: good_word_def)
        then show ?thesis using word_char_starts [of d] by (simp add: show_word_def)
      qed
      ultimately show "?x = [] \<or> hd ?x \<noteq> LPAR" "args \<noteq> [] \<Longrightarrow> hd ?x \<notin> {LESS, GREATER}" by blast+
    qed
    have pk: "peek t s [LPAR] = (s, False)" using peek_at [OF ax sx, of "[LPAR]"] hd(1) by auto
    show ?thesis
    proof (cases "args = []")
      case True
      have ar: "at t s (concat (map show_redir rs) @ y)" using ax True by simp
      obtain rs' s' where r: "redirs t s = Inr (rs', s')" "map (map_redir (cut t)) rs' = rs" "at t s' y"
        using redirs_at [OF ar sy _ c(5)] y by (auto simp: ends_def)
      show ?thesis by (rule readsI [of _ "wrap (Exec []) rs'" s'])
          (use pk r exec_stop [OF r(3) y, of "[]" rs'] c(1) b True in \<open>simp_all add: map_wrap\<close>)
    next
      case False
      have "redirs t s = Inr ([], s)" by (rule redirs_none [OF ax sx]) (use hd(2) False in simp)
      moreover obtain as rs' s' where "exec_loop t s [] [] = Inr (as, rs', s')" "map (cut t) as = args" "map (map_redir (cut t)) rs' = rs" "at t s' y"
        using exec_loop_at [OF ax y w(2) c(5), of "[]" "[]"] w(1) False by auto
      ultimately show ?thesis using pk c(1) b by (intro readsI [of _ "wrap (Exec as) rs'" s']) (simp_all add: map_wrap)
    qed
  qed
qed

lemma parse_reads:
  shows "at t s (show_cmd c @ y) \<Longrightarrow> good_cmd c \<Longrightarrow> ends [RPAR] y \<Longrightarrow> 4 * (length t - s) + 4 \<le> n \<Longrightarrow> reads t c y (parseline n t s)"
    and "at t s (show_at 2 c @ y) \<Longrightarrow> good_cmd c \<Longrightarrow> ends [RPAR, AMP, SEMI] y \<Longrightarrow> 4 * (length t - s) + 3 \<le> n \<Longrightarrow> reads t c y (parsepipe n t s)"
    and "at t s (show_at 3 c @ y) \<Longrightarrow> good_cmd c \<Longrightarrow> ends [BAR, RPAR, AMP, SEMI] y \<Longrightarrow> 4 * (length t - s) + 2 \<le> n \<Longrightarrow> reads t c y (parseexec n t s)"
    and "at t s (LPAR # 32 # show_cmd c @ RPAR # 32 # concat (map show_redir rs) @ y) \<Longrightarrow> good_cmd c \<Longrightarrow> \<forall>r \<in> set rs. good_redir r \<Longrightarrow>
      ends [BAR, RPAR, AMP, SEMI] y \<Longrightarrow> 4 * (length t - s) + 1 \<le> n \<Longrightarrow> reads t (wrap c rs) y (parseblock n t s)"
proof (induction n arbitrary: s c y rs)
  case (Suc n)
  have later: "4 * (length t - s') + k \<le> n" if "s < s'" "at t s' x" "4 * (length t - s) + l \<le> Suc n" "k \<le> l + 3" for s s' x k l
    using that by (auto simp: at_def)
  {
    case 1
    show ?case
    proof (rule line_reads [OF _ _ 1(1-3)])
      show "reads t c y (parsepipe n t s)" if "at t s (show_at 2 c @ y)" "good_cmd c" "ends [RPAR, AMP, SEMI] y" for c y
        by (rule Suc.IH(2) [OF that]) (use 1(4) in simp)
      show "reads t c y (parseline n t s')" if "s < s'" "at t s' (show_cmd c @ y)" "good_cmd c" "ends [RPAR] y" for c y s'
        by (rule Suc.IH(1) [OF that(2-4) later [OF that(1,2) 1(4)]]) simp
    qed
  next
    case 2
    show ?case
    proof (rule pipe_reads [OF _ _ 2(1-3)])
      show "reads t c y (parseexec n t s)" if "at t s (show_at 3 c @ y)" "good_cmd c" "ends [BAR, RPAR, AMP, SEMI] y" for c y
        by (rule Suc.IH(3) [OF that]) (use 2(4) in simp)
      show "reads t c y (parsepipe n t s')" if "s < s'" "at t s' (show_at 2 c @ y)" "good_cmd c" "ends [RPAR, AMP, SEMI] y" for c y s'
        by (rule Suc.IH(2) [OF that(2-4) later [OF that(1,2) 2(4)]]) simp
    qed
  next
    case 3
    show ?case by (rule exec_reads [OF _ 3(1-3)], rule Suc.IH(4)) (use 3(4) in auto)
  next
    case 4
    show ?case
    proof (rule block_reads [OF _ 4(1-4)])
      show "reads t c y (parseline n t s')" if "s < s'" "at t s' (show_cmd c @ y)" "good_cmd c" "ends [RPAR] y" for c y s'
        by (rule Suc.IH(1) [OF that(2-4) later [OF that(1,2) 4(5)]]) simp
    qed
  }
qed simp_all

section \<open>The parser reads back what is printed\<close>

lemma show_no_nul: "good_cmd c \<Longrightarrow> 0 \<notin> set (show_cmd c)"
proof (induction c)
  case (Exec args)
  then show ?case by (auto simp: show_word_def good_word_def word_char_def)
qed (auto simp: paren_def show_redir_def show_word_def good_word_def word_char_def)

text \<open>C12: The parser of the shell reads every printed command back as the same tree: lists, background
  commands, pipelines, blocks in parentheses, redirections and arguments, and every argument and file
  name in the terminated buffer is the string that was printed.\<close>

theorem parse_print:
  assumes "good_cmd c"
  shows "\<exists>c' b. parsecmd (show_cmd c) = Inr (c', b) \<and> map_cmd (\<lambda>(q, e). takeWhile (\<lambda>x. x \<noteq> 0) (drop q b)) c' = c"
proof -
  let ?t = "show_cmd c"
  have nz: "0 \<notin> set ?t" by (rule show_no_nul [OF assms])
  have "reads ?t c [] (parseline (4 * length ?t + 4) ?t 0)" by (rule parse_reads(1)) (use assms in \<open>auto simp: at_def ends_def\<close>)
  then obtain c' s where l: "parseline (4 * length ?t + 4) ?t 0 = Inr (c', s)" "map_cmd (cut ?t) c' = c" "at ?t s []" by (rule readsE)
  have "peek ?t s [] = (s, False)" using peek_at [OF l(3)] by (simp add: starts_def)
  then have p: "parsecmd ?t = Inr (c', nulterminate c' (?t @ [0]))" using l at_end [OF l(3)] by (simp add: parsecmd_def)
  have "\<forall>w \<in> set_cmd c'. is_word ?t w" using parse_total(1) [OF nz, of 0 "4 * length ?t + 4"] l(1) by (simp add: parsed_def between_def)
  then have "map_cmd (\<lambda>(q, e). takeWhile (\<lambda>x. x \<noteq> 0) (drop q (nulterminate c' (?t @ [0])))) c' = map_cmd (cut ?t) c'"
    by (intro cmd.map_cong refl) (auto simp: nulterminate_word)
  then show ?thesis using p l(2) by auto
qed

theorem parse_print_witness:
  "let c = ListC (Back (Exec [[108, 115], [47]])) (PipeC (Exec [[99]]) (Redir (ListC (Exec [[97]]) (Exec [])) [102] 0x201 1)) in
   good_cmd c \<and> (\<exists>c' b. parsecmd (show_cmd c) = Inr (c', b) \<and> map_cmd (\<lambda>(q, e). takeWhile (\<lambda>x. x \<noteq> 0) (drop q b)) c' = c)"
  unfolding Let_def
  by (intro conjI parse_print) (simp_all add: good_word_def word_char_def white_def whitespace_def symbol_def symbols_def MAXARGS_def)

end
