(* ===== verification/Umalloc.thy ===== *)
theory Umalloc
  imports Prelude
begin

text \<open>
  The user memory allocator (\<open>src/umalloc.c\<close>).  Its memory is a store of headers, by address: the
  pointer to the next free block and the size in units of one header (eight bytes).  The static header
  \<open>base\<close>, whose address the linker chooses, is the parameter \<open>base\<close> of the operations.  The system
  call \<open>sbrk\<close> returns the old end of the process and moves it up when the kernel can grow the
  process, which is the parameter \<open>grows\<close>.  A loop that does not end has the value \<open>None\<close>.
\<close>

section \<open>The allocator\<close>

record uheap =
  h_ptr :: "uint \<Rightarrow> uint"
  h_size :: "uint \<Rightarrow> uint"
  freep :: uint
  brk :: uint

definition HSIZE :: uint where "HSIZE = 8"

abbreviation set_ptr :: "uint \<Rightarrow> uint \<Rightarrow> uheap \<Rightarrow> uheap" where
  "set_ptr a v h \<equiv> h\<lparr>h_ptr := (h_ptr h)(a := v)\<rparr>"

abbreviation set_size :: "uint \<Rightarrow> uint \<Rightarrow> uheap \<Rightarrow> uheap" where
  "set_size a v h \<equiv> h\<lparr>h_size := (h_size h)(a := v)\<rparr>"

text \<open>The search of \<open>free\<close> for the place of the block \<open>bp\<close>.\<close>

partial_function (option) free_search :: "uheap \<Rightarrow> uint \<Rightarrow> uint \<Rightarrow> uint option" where
  "free_search h bp p =
     (if bp > p \<and> bp < h_ptr h p then Some p
      else if p \<ge> h_ptr h p \<and> (bp > p \<or> bp < h_ptr h p) then Some p
      else free_search h bp (h_ptr h p))"

definition free_insert :: "uheap \<Rightarrow> uint \<Rightarrow> uint \<Rightarrow> uheap" where
  "free_insert h bp p =
     (let nxt = h_ptr h p;
          h = (if bp + HSIZE * h_size h bp = nxt
               then (let h = set_size bp (h_size h bp + h_size h nxt) h in set_ptr bp (h_ptr h nxt) h)
               else set_ptr bp nxt h);
          h = (if p + HSIZE * h_size h p = bp
               then (let h = set_size p (h_size h p + h_size h bp) h in set_ptr p (h_ptr h bp) h)
               else set_ptr p bp h)
      in h\<lparr>freep := p\<rparr>)"

definition free :: "uheap \<Rightarrow> uint \<Rightarrow> uheap option" where
  "free h ap =
     (let bp = ap - HSIZE in case free_search h bp (freep h) of None \<Rightarrow> None | Some p \<Rightarrow> Some (free_insert h bp p))"

definition sbrk :: "(uint \<Rightarrow> uint \<Rightarrow> bool) \<Rightarrow> uheap \<Rightarrow> uint \<Rightarrow> uint \<times> uheap" where
  "sbrk grows h n = (if grows (brk h) n then (brk h, h\<lparr>brk := brk h + n\<rparr>) else (- 1, h))"

definition morecore :: "(uint \<Rightarrow> uint \<Rightarrow> bool) \<Rightarrow> uheap \<Rightarrow> uint \<Rightarrow> (uint \<times> uheap) option" where
  "morecore grows h nu =
     (let nu = (if nu < 4096 then 4096 else nu); (p, h) = sbrk grows h (nu * HSIZE)
      in if p = - 1 then Some (0, h)
         else (case free (set_size p nu h) (p + HSIZE) of None \<Rightarrow> None | Some h \<Rightarrow> Some (freep h, h)))"

text \<open>Taking \<open>nunits\<close> out of the block \<open>p\<close>, all of it or its tail.\<close>

definition malloc_take :: "uheap \<Rightarrow> uint \<Rightarrow> uint \<Rightarrow> uint \<Rightarrow> uint \<times> uheap" where
  "malloc_take h nunits prevp p =
     (let (p, h) = (if h_size h p = nunits then (p, set_ptr prevp (h_ptr h p) h)
                    else (let h = set_size p (h_size h p - nunits) h; q = p + HSIZE * h_size h p
                          in (q, set_size q nunits h)))
      in (p + HSIZE, h\<lparr>freep := prevp\<rparr>))"

partial_function (option) malloc_loop ::
  "(uint \<Rightarrow> uint \<Rightarrow> bool) \<Rightarrow> uint \<Rightarrow> uheap \<Rightarrow> uint \<Rightarrow> uint \<Rightarrow> (uint \<times> uheap) option" where
  "malloc_loop grows nunits h prevp p =
     (if h_size h p \<ge> nunits then Some (malloc_take h nunits prevp p)
      else if p = freep h
      then (case morecore grows h nunits of None \<Rightarrow> None | Some (p, h) \<Rightarrow>
            if p = 0 then Some (0, h) else malloc_loop grows nunits h p (h_ptr h p))
      else malloc_loop grows nunits h p (h_ptr h p))"

definition units :: "uint \<Rightarrow> uint" where
  "units nbytes = (nbytes + HSIZE - 1) div HSIZE + 1"

definition malloc_init :: "uint \<Rightarrow> uheap \<Rightarrow> uheap" where
  "malloc_init base h =
     (if freep h = 0 then set_size base 0 ((set_ptr base base h)\<lparr>freep := base\<rparr>) else h)"

definition malloc :: "uint \<Rightarrow> (uint \<Rightarrow> uint \<Rightarrow> bool) \<Rightarrow> uheap \<Rightarrow> uint \<Rightarrow> (uint \<times> uheap) option" where
  "malloc base grows h nbytes =
     (let h = malloc_init base h in malloc_loop grows (units nbytes) h (freep h) (h_ptr h (freep h)))"

section \<open>The ring of free blocks\<close>

text \<open>The end of a block, and the bytes of a block, as natural numbers.\<close>

definition fin :: "uheap \<Rightarrow> uint \<Rightarrow> nat" where
  "fin h x = unat x + 8 * unat (h_size h x)"

definition bytes :: "uheap \<Rightarrow> uint \<Rightarrow> nat set" where
  "bytes h x = {unat x ..< fin h x}"

fun path :: "uheap \<Rightarrow> uint list \<Rightarrow> uint \<Rightarrow> bool" where
  "path h [] z = True"
| "path h (x # xs) z = (h_ptr h x = hd (xs @ [z]) \<and> path h xs z)"

definition ring :: "uint \<Rightarrow> uheap \<Rightarrow> uint list \<Rightarrow> bool" where
  "ring base h xs \<longleftrightarrow> path h (base # xs) base \<and> h_size h base = 0 \<and> freep h \<in> set (base # xs) \<and> base \<noteq> 0 \<and> unat base + 8 \<le> unat (brk h) \<and>
     sorted_wrt (\<lambda>x y. fin h x \<le> unat y) xs \<and>
     (\<forall>x \<in> set xs. base < x \<and> 0 < h_size h x \<and> fin h x \<le> unat (brk h))"

definition free_bytes :: "uheap \<Rightarrow> uint list \<Rightarrow> nat set" where
  "free_bytes h xs = (\<Union>x \<in> set xs. bytes h x)"

lemma path_append [simp]: "path h (xs @ ys) z \<longleftrightarrow> path h xs (hd (ys @ [z])) \<and> path h ys z"
  by (induction xs) (auto simp: hd_append)

lemma path_nth: "path h r z \<Longrightarrow> i < length r \<Longrightarrow> h_ptr h (r ! i) = (if Suc i < length r then r ! Suc i else z)"
proof (induction r arbitrary: i)
  case (Cons x r)
  then show ?case by (cases i; cases r) auto
qed simp

lemma path_cong: "(\<And>x. x \<in> set xs \<Longrightarrow> h_ptr h' x = h_ptr h x) \<Longrightarrow> path h' xs z = path h xs z"
  by (induction xs) auto

lemma fin_pos: "0 < h_size h x \<Longrightarrow> unat x < fin h x"
  by (simp add: fin_def word_less_nat_alt)

lemma unat_units: "unat p + 8 * unat n < 2 ^ 32 \<Longrightarrow> unat (p + HSIZE * n :: uint) = unat p + 8 * unat n"
  by (simp add: HSIZE_def unat_word_ariths)

lemma fin_word:
  assumes "fin h x \<le> unat (y :: uint)"
  shows "unat (x + HSIZE * h_size h x) = fin h x" and "x + HSIZE * h_size h x = z \<longleftrightarrow> fin h x = unat z"
proof -
  have "fin h x < 2 ^ 32" using assms unsigned_less [of y, where ?'a = nat] by simp
  then have *: "unat (x + HSIZE * h_size h x) = fin h x"
    by (simp add: fin_def unat_units)
  show "unat (x + HSIZE * h_size h x) = fin h x" by (rule *)
  show "x + HSIZE * h_size h x = z \<longleftrightarrow> fin h x = unat z" using * by (simp add: word_unat_eq_iff)
qed

lemma ring_distinct:
  assumes "ring base h xs"
  shows "distinct (base # xs)" and "sorted_wrt (<) (base # xs)"
proof -
  have "x < y" if "fin h x \<le> unat y" "0 < h_size h x" for x y
    using fin_pos [OF that(2)] that(1) by (simp add: word_less_nat_alt)
  then show s: "sorted_wrt (<) (base # xs)"
    using assms unfolding ring_def by (auto intro: sorted_wrt_mono_rel [rotated])
  show "distinct (base # xs)" using s strict_sorted_iff by blast
qed

text \<open>Linking a block into the ring, and merging two adjacent blocks of it.\<close>

lemma ring_link:
  assumes r: "ring base h xs" and split: "base # xs = ys @ p # zs" and p: "fin h p \<le> unat bp" and bp: "base < bp" "0 < h_size h bp"
    and e: "fin h bp \<le> unat (brk h)" and nx: "zs \<noteq> [] \<Longrightarrow> fin h bp \<le> unat (hd zs)" and new: "bp \<notin> set xs"
  defines "h' \<equiv> (set_ptr p bp (set_ptr bp (h_ptr h p) h))\<lparr>freep := p\<rparr>"
  shows "ring base h' (tl (ys @ p # bp # zs))" and "free_bytes h' (tl (ys @ p # bp # zs)) = free_bytes h xs \<union> bytes h bp"
proof -
  have d: "distinct (ys @ p # zs)" using ring_distinct(1) [OF r] split by simp
  have ne: "bp \<notin> set (ys @ p # zs)" using new bp(1) unfolding split [symmetric] by auto
  have pa: "path h ys p" "h_ptr h p = hd (zs @ [base])" "path h zs base" using r unfolding ring_def split by auto
  have same: "path h' ys p = path h ys p" "path h' zs base = path h zs base" using d ne by (auto simp: h'_def intro!: path_cong)
  have "path h' (ys @ p # bp # zs) base" using pa same d ne by (auto simp: h'_def)
  moreover have fin: "fin h' x = fin h x" for x by (simp add: fin_def h'_def)
  have tl: "ys @ p # bp # zs = base # tl (ys @ p # bp # zs)" "set (tl (ys @ p # bp # zs)) = insert bp (set xs)"
    "freep h' \<in> set (ys @ p # bp # zs)"
    using split by (cases ys; auto simp: h'_def)+
  have "sorted_wrt (\<lambda>x y. fin h x \<le> unat y) (tl (ys @ p # bp # zs))"
  proof -
    have after: "fin h bp \<le> unat z" if "z \<in> set zs" for z
    proof (cases zs)
      case (Cons w ws)
      have "w \<le> z" using ring_distinct(2) [OF r] split that Cons by (auto simp: sorted_wrt_append)
      then show ?thesis using nx Cons by (simp add: word_le_nat_alt)
    qed (use that in simp)
    have before: "fin h y \<le> unat bp" if "y \<in> set (tl (ys @ [p]))" for y
    proof (cases "y = p")
      case False
      then have "y \<in> set (tl ys)" using that by (cases ys) auto
      then have "fin h y \<le> unat p" using r split by (cases ys) (auto simp: ring_def sorted_wrt_append)
      then show ?thesis using p by (simp add: fin_def)
    qed (use p in simp)
    have "sorted_wrt (\<lambda>x y. fin h x \<le> unat y) (tl (ys @ [p]) @ zs)" using r split by (cases ys) (auto simp: ring_def)
    then have "sorted_wrt (\<lambda>x y. fin h x \<le> unat y) (tl (ys @ [p]) @ bp # zs)" using after before by (auto simp: sorted_wrt_append)
    then show ?thesis by (cases ys) auto
  qed
  ultimately show "ring base h' (tl (ys @ p # bp # zs))"
    using r bp e tl unfolding ring_def fin by (auto simp: h'_def)
  show "free_bytes h' (tl (ys @ p # bp # zs)) = free_bytes h xs \<union> bytes h bp"
    unfolding free_bytes_def tl(2) by (auto simp: bytes_def fin)
qed

lemma ring_merge:
  assumes r: "ring base h (ys @ a # b # zs)" and adj: "fin h a = unat b" and fp: "freep h \<noteq> b"
  defines "h' \<equiv> set_ptr a (h_ptr h b) (set_size a (h_size h a + h_size h b) h)"
  shows "ring base h' (ys @ a # zs)" and "free_bytes h' (ys @ a # zs) = free_bytes h (ys @ a # b # zs)"
    and "bytes h' a = bytes h a \<union> bytes h b"
proof -
  have d: "distinct (base # ys @ a # b # zs)" by (rule ring_distinct(1) [OF r])
  have sz: "0 < h_size h a" "0 < h_size h b" "fin h b \<le> unat (brk h)" using r by (auto simp: ring_def)
  have "fin h b = unat a + 8 * (unat (h_size h a) + unat (h_size h b))" using adj by (simp add: fin_def)
  moreover have "fin h b < 2 ^ 32" using sz(3) unsigned_less [of "brk h", where ?'a = nat] by simp
  ultimately have un: "unat (h_size h a + h_size h b) = unat (h_size h a) + unat (h_size h b)" by (simp add: unat_word_ariths)
  then have fa: "fin h' a = fin h b" "0 < h_size h' a" using \<open>fin h b = _\<close> sz by (simp_all add: h'_def fin_def word_less_nat_alt)
  have fo: "fin h' x = fin h x" if "x \<noteq> a" for x using that by (simp add: h'_def fin_def)
  have fo': "fin h' x = fin h x" if "x \<in> set ys \<union> set zs" for x using d that by (intro fo) auto
  have "path h' (base # ys) a = path h (base # ys) a" "path h' zs base = path h zs base"
    by (rule path_cong; use d in \<open>auto simp: h'_def\<close>)+
  then have "path h' ((base # ys) @ a # zs) base" using r d unfolding ring_def by (auto simp: h'_def hd_append)
  moreover have "sorted_wrt (\<lambda>x y. fin h' x \<le> unat y) (ys @ a # zs)"
  proof -
    have s: "sorted_wrt (\<lambda>x y. fin h x \<le> unat y) (ys @ a # b # zs)" using r by (simp add: ring_def)
    have "sorted_wrt (\<lambda>x y. fin h' x \<le> unat y) ys" "sorted_wrt (\<lambda>x y. fin h' x \<le> unat y) zs"
      by (rule sorted_wrt_mono_rel [where P = "\<lambda>x y. fin h x \<le> unat y"]; use s fo' in \<open>auto simp: sorted_wrt_append\<close>)+
    then show ?thesis using s fo' fa(1) by (auto simp: sorted_wrt_append)
  qed
  ultimately show "ring base h' (ys @ a # zs)"
    using r fp d fo fa sz(3) unfolding ring_def by (auto simp: h'_def fin_def)
  show "bytes h' a = bytes h a \<union> bytes h b" using adj fa fin_pos [OF sz(1)] fin_pos [OF sz(2)] by (auto simp: bytes_def)
  moreover have "(\<Union>x \<in> set ys \<union> set zs. bytes h' x) = (\<Union>x \<in> set ys \<union> set zs. bytes h x)" using fo' by (auto simp: bytes_def)
  ultimately show "free_bytes h' (ys @ a # zs) = free_bytes h (ys @ a # b # zs)" by (auto simp: free_bytes_def)
qed

section \<open>free\<close>

lemma ring_nth:
  assumes "ring base h xs" and "r = base # xs"
  shows "i < j \<Longrightarrow> j < length r \<Longrightarrow> r ! i < r ! j" and "i \<le> j \<Longrightarrow> j < length r \<Longrightarrow> r ! i \<le> r ! j"
    and "i < length r \<Longrightarrow> h_ptr h (r ! i) = (if Suc i < length r then r ! Suc i else base)" and "i < length r \<Longrightarrow> base \<le> r ! i"
    and "freep h \<in> set r"
proof -
  show lt: "r ! i < r ! j" if "i < j" "j < length r" for i j
    using ring_distinct(2) [OF assms(1)] assms(2) that by (auto simp: sorted_wrt_iff_nth_less)
  show le: "r ! i \<le> r ! j" if "i \<le> j" "j < length r" for i j using lt [of i j] that by (cases "i = j") auto
  show "h_ptr h (r ! i) = (if Suc i < length r then r ! Suc i else base)" if "i < length r"
    using path_nth [of h r base i] assms that by (simp add: ring_def)
  show "base \<le> r ! i" if "i < length r" using le [of 0 i] that assms(2) by simp
  show "freep h \<in> set r" using assms by (simp add: ring_def)
qed

text \<open>The place of a block in the ring: the last free block below it.\<close>

lemma free_search_found:
  assumes r: "ring base h xs" "r = base # xs" and i: "i \<le> k" and k: "k < length r"
    and here: "r ! k < bp" "Suc k < length r \<Longrightarrow> bp < r ! Suc k"
  shows "free_search h bp (r ! i) = Some (r ! k)"
  using i
proof (induction "k - i" arbitrary: i)
  case 0
  then have [simp]: "i = k" by simp
  show ?case using ring_nth(3,4) [OF r k] here by (subst free_search.simps) auto
next
  case (Suc d)
  have lt: "Suc i < length r" using Suc(2) k by simp
  have nx: "h_ptr h (r ! i) = r ! Suc i" using ring_nth(3) [OF r, of i] lt by simp
  have up: "r ! i < r ! Suc i" using ring_nth(1) [OF r, of i "Suc i"] lt by simp
  have "r ! Suc i \<le> r ! k" by (rule ring_nth(2) [OF r]) (use Suc(2) k in auto)
  then have "\<not> bp < r ! Suc i" using here(1) by order
  moreover have "free_search h bp (r ! Suc i) = Some (r ! k)" by (rule Suc(1)) (use Suc(2) in auto)
  ultimately show ?case using nx up by (subst free_search.simps) auto
qed

lemma free_search_wraps:
  assumes r: "ring base h xs" "r = base # xs" and i: "k < i" "i < length r"
    and here: "r ! k < bp" "bp < r ! Suc k" and b: "base < bp"
  shows "free_search h bp (r ! i) = Some (r ! k)"
  using i
proof (induction "length r - i" arbitrary: i)
  case (Suc d)
  have above: "bp < r ! i" using ring_nth(2) [OF r, of "Suc k" i] Suc(3,4) here(2) by auto
  show ?case
  proof (cases "Suc i < length r")
    case True
    have nx: "h_ptr h (r ! i) = r ! Suc i" using ring_nth(3) [OF r, of i] True by simp
    have up: "r ! i < r ! Suc i" using ring_nth(1) [OF r, of i "Suc i"] True by simp
    have "free_search h bp (r ! Suc i) = Some (r ! k)" by (rule Suc(1)) (use Suc(2,3) True in auto)
    then show ?thesis using nx up above by (subst free_search.simps) auto
  next
    case False
    have nx: "h_ptr h (r ! i) = r ! 0" using ring_nth(3) [OF r Suc(4)] False r(2) by simp
    have "free_search h bp (r ! 0) = Some (r ! k)" by (rule free_search_found [OF r]) (use Suc(3,4) here in auto)
    then show ?thesis using nx b above r(2) by (subst free_search.simps) auto
  qed
qed simp

lemma split_below:
  assumes "sorted_wrt (<) r" and "r \<noteq> []" and "hd r < (bp :: uint)" and "bp \<notin> set r"
  shows "\<exists>k < length r. r ! k < bp \<and> (Suc k < length r \<longrightarrow> bp < r ! Suc k)"
  using assms
proof (induction r rule: induct_list012)
  case (3 x y r)
  show ?case
  proof (cases "y < bp")
    case True
    then obtain k where "k < length (y # r)" "(y # r) ! k < bp" "Suc k < length (y # r) \<longrightarrow> bp < (y # r) ! Suc k"
      using 3 by force
    then show ?thesis by (intro exI [of _ "Suc k"]) auto
  next
    case False
    then show ?thesis using 3(3-) by (intro exI [of _ 0]) auto
  qed
qed auto

lemma free_search_place:
  assumes ring: "ring base h xs" and b: "base < bp" "bp \<notin> set xs"
  shows "\<exists>ys p zs. base # xs = ys @ p # zs \<and> p < bp \<and> (zs \<noteq> [] \<longrightarrow> bp < hd zs) \<and> free_search h bp (freep h) = Some p"
proof -
  obtain r where r: "r = base # xs" by simp
  have "sorted_wrt (<) r" "r \<noteq> []" "hd r < bp" "bp \<notin> set r" using ring_distinct(2) [OF ring] r b by auto
  then obtain k where k: "k < length r" "r ! k < bp" "Suc k < length r \<longrightarrow> bp < r ! Suc k" using split_below by blast
  obtain i where i: "i < length r" "freep h = r ! i" using ring_nth(5) [OF ring r] by (metis in_set_conv_nth)
  have "free_search h bp (freep h) = Some (r ! k)"
  proof (cases "i \<le> k")
    case True
    then show ?thesis unfolding i(2) by (rule free_search_found [OF ring r]) (use k in auto)
  next
    case False
    then show ?thesis unfolding i(2) by (intro free_search_wraps [OF ring r]) (use k i b in auto)
  qed
  then show ?thesis unfolding r [symmetric]
    by (intro exI [of _ "take k r"] exI [of _ "r ! k"] exI [of _ "drop (Suc k) r"])
      (use k in \<open>auto simp: hd_drop_conv_nth intro: id_take_nth_drop\<close>)
qed

text \<open>\<open>free\<close> links the block in and merges it with its neighbours on both sides.\<close>

definition link :: "uint \<Rightarrow> uint \<Rightarrow> uheap \<Rightarrow> uheap" where
  "link p bp h = (set_ptr p bp (set_ptr bp (h_ptr h p) h))\<lparr>freep := p\<rparr>"

definition merge :: "uint \<Rightarrow> uheap \<Rightarrow> uheap" where
  "merge a h = (let b = h_ptr h a in set_ptr a (h_ptr h b) (set_size a (h_size h a + h_size h b) h))"

lemma free_insert_merge:
  assumes "p \<noteq> bp" and "h_ptr h p \<noteq> bp" and "bp + HSIZE * h_size h bp = h_ptr h p \<Longrightarrow> h_ptr h p \<noteq> p"
  shows "free_insert h bp p =
    (let h' = link p bp h;
         h' = (if bp + HSIZE * h_size h bp = h_ptr h p then merge bp h' else h')
     in if p + HSIZE * h_size h p = bp then merge p h' else h')"
  using assms unfolding free_insert_def link_def merge_def Let_def
  by (cases h) (auto simp: fun_eq_iff)

lemma merge_ring:
  assumes "ring base h (ys @ a # b # zs)" and "fin h a = unat b" and "freep h \<noteq> b"
  shows "ring base (merge a h) (ys @ a # zs)" and "free_bytes (merge a h) (ys @ a # zs) = free_bytes h (ys @ a # b # zs)"
    and "bytes (merge a h) a = bytes h a \<union> bytes h b"
proof -
  have "h_ptr h a = b" using assms(1) by (simp add: ring_def)
  then show "ring base (merge a h) (ys @ a # zs)" "free_bytes (merge a h) (ys @ a # zs) = free_bytes h (ys @ a # b # zs)"
    "bytes (merge a h) a = bytes h a \<union> bytes h b"
    using ring_merge [OF assms] by (simp_all add: merge_def)
qed

lemma merge_frame: "freep (merge a h) = freep h" "brk (merge a h) = brk h" "x \<noteq> a \<Longrightarrow> h_size (merge a h) x = h_size h x"
  by (simp_all add: merge_def Let_def)

lemma link_frame: "freep (link p bp h) = p" "brk (link p bp h) = brk h" "h_size (link p bp h) = h_size h"
  by (simp_all add: link_def)

lemma free_ring:
  assumes r: "ring base h xs" and bp: "base < bp" "0 < h_size h bp" "fin h bp \<le> unat (brk h)"
    and away: "bytes h bp \<inter> free_bytes h xs = {}"
  shows "\<exists>h' xs'. free h (bp + HSIZE) = Some h' \<and> ring base h' xs' \<and> free_bytes h' xs' = free_bytes h xs \<union> bytes h bp \<and>
    brk h' = brk h \<and> (\<forall>x. x \<notin> set xs \<and> x \<noteq> bp \<longrightarrow> h_size h' x = h_size h x) \<and> (\<exists>x \<in> set xs'. bytes h bp \<subseteq> bytes h' x)"
proof -
  have first: "unat x \<in> bytes h x" if "0 < h_size h x" for x using fin_pos [OF that] by (simp add: bytes_def)
  have sz: "0 < h_size h x" if "x \<in> set xs" for x using r that by (simp add: ring_def)
  have new: "bp \<notin> set xs" using away first [OF bp(2)] by (auto simp: free_bytes_def)
  obtain ys p zs where s: "base # xs = ys @ p # zs" "p < bp" "zs \<noteq> [] \<longrightarrow> bp < hd zs" "free_search h bp (freep h) = Some p"
    using free_search_place [OF r bp(1) new] by blast
  have p: "fin h p \<le> unat bp"
  proof (cases "p = base")
    case True
    then show ?thesis using r bp(1) by (simp add: ring_def fin_def word_less_nat_alt)
  next
    case False
    then have "p \<in> set xs" using s(1) by (cases ys) auto
    then have "unat bp \<notin> bytes h p" using away first [OF bp(2)] by (auto simp: free_bytes_def)
    then show ?thesis using s(2) by (simp add: bytes_def word_less_nat_alt)
  qed
  have z: "fin h bp \<le> unat (hd zs)" if "zs \<noteq> []"
  proof -
    have "hd zs \<in> set xs" using s(1) that by (cases ys; cases zs) auto
    then have "unat (hd zs) \<notin> bytes h bp" using away first [OF sz] by (auto simp: free_bytes_def)
    then show ?thesis using s(3) that by (auto simp: bytes_def word_less_nat_alt)
  qed
  have nx: "h_ptr h p = hd (zs @ [base])" using r unfolding ring_def s(1) by auto
  have up: "base < h_ptr h p" if "fin h bp = unat (h_ptr h p)"
    using that bp(1) fin_pos [OF bp(2)] by (simp add: word_less_nat_alt)
  have l: "ring base (link p bp h) (tl (ys @ p # bp # zs))" "free_bytes (link p bp h) (tl (ys @ p # bp # zs)) = free_bytes h xs \<union> bytes h bp"
    using ring_link [OF r s(1) p bp z new] by (simp_all add: link_def)
  let ?right = "bp + HSIZE * h_size h bp = h_ptr h p" let ?left = "p + HSIZE * h_size h p = bp"
  define h1 where "h1 = (if ?right then merge bp (link p bp h) else link p bp h)"
  define h2 where "h2 = (if ?left then merge p h1 else h1)"
  have "free h (bp + HSIZE) = Some h2"
  proof -
    have "h_ptr h p \<noteq> bp" using s(3) nx bp(1) by (cases zs) auto
    moreover have "h_ptr h p \<noteq> p" if ?right
      using that up fin_word(2) [OF bp(3)] s(2,3) nx by (cases zs) auto
    ultimately have "free_insert h bp p = h2"
      unfolding h2_def h1_def using s(2) by (subst free_insert_merge) (auto simp: Let_def)
    then show ?thesis using s(4) by (simp add: free_def)
  qed
  moreover have "\<exists>zs'. ring base h1 (tl (ys @ [p]) @ bp # zs') \<and> free_bytes h1 (tl (ys @ [p]) @ bp # zs') = free_bytes h xs \<union> bytes h bp \<and>
      bytes h bp \<subseteq> bytes h1 bp"
  proof (cases ?right)
    case True
    then have e: "fin h bp = unat (h_ptr h p)" using fin_word(2) [OF bp(3)] by simp
    then obtain zs' where zs: "zs = h_ptr h p # zs'" using up nx by (cases zs) auto
    show ?thesis
      using merge_ring [of base "link p bp h" "tl (ys @ [p])" bp "h_ptr h p" zs'] l e True zs s(1) ring_distinct(1) [OF r]
      by (intro exI [of _ zs']) (cases ys; auto simp: h1_def link_frame fin_def bytes_def)
  next
    case False
    then show ?thesis using l by (intro exI [of _ zs]) (cases ys; simp add: h1_def bytes_def fin_def link_frame)
  qed
  then obtain zs' where z': "ring base h1 (tl (ys @ [p]) @ bp # zs')" "free_bytes h1 (tl (ys @ [p]) @ bp # zs') = free_bytes h xs \<union> bytes h bp"
    "bytes h bp \<subseteq> bytes h1 bp" by blast
  have f1: "freep h1 = p" "brk h1 = brk h" "\<And>x. x \<noteq> bp \<Longrightarrow> h_size h1 x = h_size h x" by (auto simp: h1_def merge_frame link_frame)
  have "\<exists>xs'. ring base h2 xs' \<and> free_bytes h2 xs' = free_bytes h xs \<union> bytes h bp \<and> (\<exists>x \<in> set xs'. bytes h bp \<subseteq> bytes h2 x)"
  proof (cases ?left)
    case True
    then have e: "fin h1 p = unat bp" using fin_word(2) [OF p] f1(3) [of p] s(2) by (simp add: fin_def)
    have "p \<noteq> base" using True r bp(1) by (auto simp: ring_def)
    then obtain ys' where "ys = base # ys'" using s(1) by (cases ys) auto
    then have m: "ring base h1 (ys' @ p # bp # zs')" "free_bytes h1 (ys' @ p # bp # zs') = free_bytes h xs \<union> bytes h bp" using z' by auto
    have ne: "freep h1 \<noteq> bp" using f1(1) s(2) by auto
    have "h2 = merge p h1" using True by (simp add: h2_def)
    then show ?thesis using merge_ring [OF m(1) e ne] m(2) z'(3) by (intro exI [of _ "ys' @ p # zs'"]) auto
  qed (use z' in \<open>auto simp: h2_def\<close>)
  moreover have "brk h2 = brk h" "\<forall>x. x \<notin> set xs \<and> x \<noteq> bp \<longrightarrow> h_size h2 x = h_size h x"
  proof -
    show "brk h2 = brk h" using f1 by (simp add: h2_def merge_frame)
    have "p \<in> set xs" if ?left using that r bp(1) s(1) by (cases ys) (auto simp: ring_def)
    then have "h_size h2 x = h_size h x" if "x \<notin> set xs" "x \<noteq> bp" for x
      using f1(3) [OF that(2)] merge_frame(3) [of x p h1] that by (cases ?left) (auto simp: h2_def)
    then show "\<forall>x. x \<notin> set xs \<and> x \<noteq> bp \<longrightarrow> h_size h2 x = h_size h x" by blast
  qed
  ultimately show ?thesis by blast
qed

section \<open>malloc\<close>

text \<open>What a successful allocation of a block with header \<open>q\<close> does to the free bytes.\<close>

definition taken :: "uint \<Rightarrow> uint \<Rightarrow> uheap \<Rightarrow> uint list \<Rightarrow> uint \<Rightarrow> uheap \<Rightarrow> bool" where
  "taken base nunits h xs q h' \<longleftrightarrow> base < q \<and> h_size h' q = nunits \<and> fin h' q \<le> unat (brk h') \<and> bytes h' q \<subseteq> free_bytes h xs \<and>
     (\<exists>xs'. ring base h' xs' \<and> free_bytes h' xs' = free_bytes h xs - bytes h' q) \<and> brk h' = brk h \<and>
     (\<forall>x. unat x \<notin> free_bytes h xs \<longrightarrow> h_size h' x = h_size h x)"

lemma ring_bytes_disjoint:
  assumes "ring base h xs" and "x \<in> set xs" and "y \<in> set xs" and "x \<noteq> y"
  shows "bytes h x \<inter> bytes h y = {}"
proof -
  have s: "sorted_wrt (\<lambda>x y. fin h x \<le> unat y) xs" using assms(1) by (simp add: ring_def)
  have "fin h x \<le> unat y \<or> fin h y \<le> unat x"
    using s assms(2-4) by (induction xs) auto
  then show ?thesis by (auto simp: bytes_def)
qed

lemma take_exact:
  assumes r: "ring base h xs" and s: "base # xs = ys @ prevp # p # zs" and n: "h_size h p = nunits"
  shows "taken base nunits h xs p ((set_ptr prevp (h_ptr h p) h)\<lparr>freep := prevp\<rparr>)"
proof -
  define h' where "h' = (set_ptr prevp (h_ptr h p) h)\<lparr>freep := prevp\<rparr>"
  have h': "h_ptr h' = (h_ptr h)(prevp := h_ptr h p)" "h_size h' = h_size h" "freep h' = prevp" "brk h' = brk h" by (simp_all add: h'_def)
  have d: "distinct (ys @ prevp # p # zs)" using ring_distinct(1) [OF r] s by simp
  have px: "p \<in> set xs" using s by (cases ys) auto
  have f [simp]: "fin h' x = fin h x" "bytes h' x = bytes h x" for x by (simp_all add: fin_def bytes_def h')
  have pa: "path h ys prevp" "h_ptr h p = hd (zs @ [base])" "path h zs base" using r unfolding ring_def s by auto
  have "path h' ys prevp = path h ys prevp" "path h' zs base = path h zs base" by (rule path_cong; use d h' in auto)+
  then have pb: "path h' (ys @ prevp # zs) base" using pa h' by auto
  obtain xs' where xs': "ys @ prevp # zs = base # xs'" "set xs' = set xs - {p}"
    using s d by (cases ys) auto
  have "path h' (base # xs') base" "prevp \<in> set (base # xs')" using pb unfolding xs'(1) [symmetric] by simp_all
  moreover have "sorted_wrt (\<lambda>x y. fin h x \<le> unat y) xs'" using r s xs'(1) by (cases ys) (auto simp: ring_def sorted_wrt_append)
  ultimately have r': "ring base h' xs'" using r xs'(2) h' unfolding ring_def f by (simp del: path.simps)
  have "bytes h x \<inter> bytes h p = {}" if "x \<in> set xs'" for x using ring_bytes_disjoint [OF r _ px] that xs'(2) by auto
  then have "free_bytes h' xs' = free_bytes h xs - bytes h p" using px unfolding free_bytes_def xs'(2) f by blast
  then show ?thesis unfolding h'_def [symmetric] using r r' px n h' by (auto simp: taken_def ring_def free_bytes_def)
qed

lemma take_tail:
  assumes r: "ring base h xs" and p: "p \<in> set xs" "prevp \<in> set (base # xs)" and n: "nunits < h_size h p" "0 < nunits"
  defines "q \<equiv> p + HSIZE * (h_size h p - nunits)"
  shows "taken base nunits h xs q ((set_size q nunits (set_size p (h_size h p - nunits) h))\<lparr>freep := prevp\<rparr>)"
proof -
  define h' where "h' = (set_size q nunits (set_size p (h_size h p - nunits) h))\<lparr>freep := prevp\<rparr>"
  have h': "h_ptr h' = h_ptr h" "h_size h' = (h_size h)(p := h_size h p - nunits, q := nunits)" "freep h' = prevp" "brk h' = brk h" by (simp_all add: h'_def)
  have rp: "base < p" "fin h p \<le> unat (brk h)" using r p by (auto simp: ring_def)
  have un: "unat (h_size h p - nunits) = unat (h_size h p) - unat nunits" using n by (simp add: unat_sub order_less_imp_le)
  have small: "fin h p < 2 ^ 32" using rp(2) unsigned_less [of "brk h", where ?'a = nat] by simp
  have uq: "unat q = unat p + 8 * (unat (h_size h p) - unat nunits)"
    unfolding q_def by (subst unat_units) (use small in \<open>simp_all add: fin_def un\<close>)
  have nn: "unat nunits < unat (h_size h p)" "0 < unat nunits" using n by (simp_all add: word_less_nat_alt)
  have qp: "unat p < unat q" "unat q + 8 * unat nunits = fin h p" using uq nn by (auto simp: fin_def)
  have "q \<noteq> p" using qp by auto
  have fp: "fin h' p = unat q" "fin h' q = fin h p" using \<open>q \<noteq> p\<close> un uq qp h' by (simp_all add: fin_def)
  have out: "unat x < unat p \<or> fin h p \<le> unat x" if "x \<in> set xs" "x \<noteq> p" for x
  proof -
    have "0 < h_size h x" using r that by (simp add: ring_def)
    then show ?thesis using ring_bytes_disjoint [OF r that(1) p(1) that(2)] fin_pos [of h x] by (fastforce simp: bytes_def)
  qed
  have q: "q \<notin> set xs" "base \<noteq> q" using out [of q] qp \<open>q \<noteq> p\<close> nn rp(1) by (auto simp: word_less_nat_alt)
  have fo: "fin h' x = fin h x" "h_size h' x = h_size h x" if "x \<in> set xs" "x \<noteq> p" for x using that q h' by (auto simp: fin_def)
  have "sorted_wrt (\<lambda>x y. fin h' x \<le> unat y) xs"
  proof (rule sorted_wrt_mono_rel)
    show "sorted_wrt (\<lambda>x y. fin h x \<le> unat y) xs" using r by (simp add: ring_def)
    show "fin h' x \<le> unat y" if "x \<in> set xs" "y \<in> set xs" "fin h x \<le> unat y" for x y
      using that fo [of x] fp(1) qp by (cases "x = p") auto
  qed
  moreover have "path h' (base # xs) base = path h (base # xs) base" by (rule path_cong) (simp add: h')
  moreover have "0 < h_size h' p" using un nn \<open>q \<noteq> p\<close> h' by (simp add: word_less_nat_alt)
  moreover have "base \<noteq> p" using rp by auto
  moreover have "fin h' p \<le> unat (brk h)" using fp qp rp(2) by simp
  ultimately have r': "ring base h' xs" using r p q fo h' unfolding ring_def by (auto simp del: path.simps)
  have bq: "bytes h' q = {unat q ..< fin h p}" "bytes h' p = {unat p ..< unat q}" by (simp_all add: bytes_def fp)
  have "free_bytes h' xs = free_bytes h xs - bytes h' q"
  proof -
    have "bytes h' x = bytes h x - bytes h' q" if "x \<in> set xs" for x
      using that out [of x] fo [of x] bq qp ring_bytes_disjoint [OF r that p(1)] by (cases "x = p") (auto simp: bytes_def)
    then show ?thesis by (auto simp: free_bytes_def)
  qed
  moreover have "bytes h' q \<subseteq> free_bytes h xs" using bq qp p(1) by (auto simp: free_bytes_def bytes_def)
  moreover have "h_size h' x = h_size h x" if "unat x \<notin> free_bytes h xs" for x
  proof -
    have "unat p \<in> bytes h p" "unat q \<in> bytes h p" using qp nn by (auto simp: bytes_def)
    then show ?thesis using that p(1) h' by (auto simp: free_bytes_def)
  qed
  ultimately show ?thesis unfolding h'_def [symmetric] using r' fp rp q h' qp by (auto simp: taken_def word_less_nat_alt)
qed

text \<open>The free blocks in the order in which \<open>malloc\<close> looks at them: once around the ring from the block
  behind \<open>freep\<close> to \<open>freep\<close> itself.\<close>

lemma ring_next:
  assumes "ring base h xs" and "r = base # xs"
  shows "h_ptr h (r ! (i mod length r)) = r ! (Suc i mod length r)"
proof -
  have lt: "i mod length r < length r" using assms(2) by simp
  then have "Suc i mod length r = (if Suc (i mod length r) < length r then Suc (i mod length r) else 0)" by (auto simp: mod_Suc)
  moreover have "r ! 0 = base" using assms(2) by simp
  ultimately show ?thesis using ring_nth(3) [OF assms lt] by simp
qed

definition fits :: "uheap \<Rightarrow> uint \<Rightarrow> uint list \<Rightarrow> nat \<Rightarrow> bool" where
  "fits h nunits r i \<longleftrightarrow> h_size h (r ! (i mod length r)) \<ge> nunits"

lemma full_circle:
  assumes "distinct r" and "f < length r" and "f < j" and "j \<le> f + length r"
  shows "r ! (j mod length r) = r ! f \<longleftrightarrow> j = f + length r"
proof -
  have "j mod length r = f \<longleftrightarrow> j = f + length r"
    using assms by (cases "j < length r") (auto simp: mod_if)
  moreover have "j mod length r < length r" using assms(2) by (intro mod_less_divisor) linarith
  ultimately show ?thesis using assms by (simp add: nth_eq_iff_index_eq)
qed

lemma malloc_scan:
  assumes r: "ring base h xs" "r = base # xs" and f: "f < length r" "freep h = r ! f" and j: "f \<le> j" "j < f + length r"
  shows "(\<exists>i. j \<le> i \<and> fits h nunits r (Suc i) \<and>
      malloc_loop grows nunits h (r ! (j mod length r)) (r ! (Suc j mod length r)) =
        Some (malloc_take h nunits (r ! (i mod length r)) (r ! (Suc i mod length r)))) \<or>
    (\<forall>i. j \<le> i \<and> i < f + length r \<longrightarrow> \<not> fits h nunits r (Suc i)) \<and>
      malloc_loop grows nunits h (r ! (j mod length r)) (r ! (Suc j mod length r)) =
        (case morecore grows h nunits of None \<Rightarrow> None | Some (p, h) \<Rightarrow>
          if p = 0 then Some (0, h) else malloc_loop grows nunits h p (h_ptr h p))"
  using j
proof (induction "f + length r - j" arbitrary: j)
  case (Suc d)
  let ?prev = "r ! (j mod length r)" let ?p = "r ! (Suc j mod length r)"
  have d: "distinct r" using ring_distinct(1) [OF r(1)] r(2) by simp
  show ?case
  proof (cases "fits h nunits r (Suc j)")
    case True
    then have "malloc_loop grows nunits h ?prev ?p = Some (malloc_take h nunits ?prev ?p)"
      by (subst malloc_loop.simps) (simp add: fits_def)
    then show ?thesis using True by blast
  next
    case False
    then have small: "\<not> h_size h ?p \<ge> nunits" by (simp add: fits_def)
    show ?thesis
    proof (cases "Suc j = f + length r")
      case True
      then have "?p = freep h" using full_circle [OF d f(1), of "Suc j"] f by simp
      then have "malloc_loop grows nunits h ?prev ?p = (case morecore grows h nunits of None \<Rightarrow> None | Some (p, h) \<Rightarrow>
          if p = 0 then Some (0, h) else malloc_loop grows nunits h p (h_ptr h p))"
        using small by (subst malloc_loop.simps) simp
      moreover have "i = j" if "j \<le> i" "i < f + length r" for i using that True by simp
      ultimately show ?thesis using False by blast
    next
      case on: False
      then have "?p \<noteq> freep h" using full_circle [OF d f(1), of "Suc j"] f Suc(3,4) by simp
      then have eq: "malloc_loop grows nunits h ?prev ?p = malloc_loop grows nunits h ?p (r ! (Suc (Suc j) mod length r))"
        using small ring_next [OF r, of "Suc j"] by (subst malloc_loop.simps) simp
      have IH: "(\<exists>i. Suc j \<le> i \<and> fits h nunits r (Suc i) \<and>
          malloc_loop grows nunits h ?p (r ! (Suc (Suc j) mod length r)) =
            Some (malloc_take h nunits (r ! (i mod length r)) (r ! (Suc i mod length r)))) \<or>
        (\<forall>i. Suc j \<le> i \<and> i < f + length r \<longrightarrow> \<not> fits h nunits r (Suc i)) \<and>
          malloc_loop grows nunits h ?p (r ! (Suc (Suc j) mod length r)) =
            (case morecore grows h nunits of None \<Rightarrow> None | Some (p, h) \<Rightarrow>
              if p = 0 then Some (0, h) else malloc_loop grows nunits h p (h_ptr h p))"
        by (rule Suc(1)) (use Suc(2-4) on in auto)
      have low: "\<not> fits h nunits r (Suc i)" if "j \<le> i" "\<not> (Suc j \<le> i \<and> fits h nunits r (Suc i))" for i
        using that False by (cases "i = j") auto
      from IH show ?thesis
      proof (elim disjE conjE exE)
        fix i assume "Suc j \<le> i" "fits h nunits r (Suc i)" "malloc_loop grows nunits h ?p (r ! (Suc (Suc j) mod length r)) =
            Some (malloc_take h nunits (r ! (i mod length r)) (r ! (Suc i mod length r)))"
        then show ?thesis by (intro disjI1 exI [of _ i]) (simp add: eq)
      next
        assume "\<forall>i. Suc j \<le> i \<and> i < f + length r \<longrightarrow> \<not> fits h nunits r (Suc i)"
        "malloc_loop grows nunits h ?p (r ! (Suc (Suc j) mod length r)) =
            (case morecore grows h nunits of None \<Rightarrow> None | Some (p, h) \<Rightarrow>
              if p = 0 then Some (0, h) else malloc_loop grows nunits h p (h_ptr h p))"
        then show ?thesis using low by (intro disjI2) (auto simp: eq)
      qed
    qed
  qed
qed simp

lemma take_taken:
  assumes r: "ring base h xs" "r = base # xs" and n: "0 < nunits" "fits h nunits r (Suc i)"
  shows "\<exists>q h'. malloc_take h nunits (r ! (i mod length r)) (r ! (Suc i mod length r)) = (q + HSIZE, h') \<and> taken base nunits h xs q h'"
proof -
  let ?k = "i mod length r" let ?prev = "r ! ?k" let ?p = "r ! (Suc i mod length r)"
  have len: "?k < length r" using r(2) by simp
  have big: "nunits \<le> h_size h ?p" using n(2) by (simp add: fits_def)
  have nz: "Suc i mod length r \<noteq> 0"
  proof
    assume "Suc i mod length r = 0"
    then have "h_size h ?p = 0" using r by (simp add: ring_def)
    then show False using big n(1) by simp
  qed
  then have next_: "Suc i mod length r = Suc ?k" "Suc ?k < length r" using len by (auto simp: mod_Suc split: if_splits)
  have s: "base # xs = take ?k r @ ?prev # ?p # drop (Suc (Suc ?k)) r"
    using next_ r(2) by (metis Cons_nth_drop_Suc append_take_drop_id len)
  have px: "?p \<in> set xs" using next_ r(2) by simp
  have pr: "?prev \<in> set (base # xs)" using nth_mem [OF len] r(2) by simp
  show ?thesis
  proof (cases "h_size h ?p = nunits")
    case True
    then show ?thesis using take_exact [OF r(1) s True] by (simp add: malloc_take_def)
  next
    case False
    then have lt: "nunits < h_size h ?p" using big by simp
    show ?thesis using take_tail [OF r(1) px pr lt n(1)] False by (simp add: malloc_take_def Let_def)
  qed
qed

text \<open>What the kernel promises of \<open>sbrk\<close>: a process never grows past half of the address space.\<close>

definition sbrk_ok :: "(uint \<Rightarrow> uint \<Rightarrow> bool) \<Rightarrow> bool" where
  "sbrk_ok grows \<longleftrightarrow> (\<forall>b n. grows b n \<and> unat n < 2 ^ 31 \<longrightarrow> unat b + unat n < 2 ^ 31)"

lemma ring_brk:
  assumes "ring base h xs" and "p \<in> set (base # xs)"
  shows "unat p < unat (brk h)"
proof (cases "p = base")
  case False
  then have "fin h p \<le> unat (brk h)" "0 < h_size h p" using assms by (auto simp: ring_def)
  then show ?thesis using fin_pos [of h p] by simp
qed (use assms(1) in \<open>auto simp: ring_def\<close>)

lemma ring_grow:
  assumes "ring base h xs" and "brk h \<le> b" and "a \<notin> set (base # xs)"
  shows "ring base (set_size a n (h\<lparr>brk := b\<rparr>)) xs" and "free_bytes (set_size a n (h\<lparr>brk := b\<rparr>)) xs = free_bytes h xs"
proof -
  let ?h = "set_size a n (h\<lparr>brk := b\<rparr>)"
  have f: "fin ?h x = fin h x" "h_size ?h x = h_size h x" if "x \<in> set (base # xs)" for x using assms(3) that by (auto simp: fin_def)
  have "path ?h (base # xs) base = path h (base # xs) base" by (rule path_cong) simp
  moreover have "sorted_wrt (\<lambda>x y. fin ?h x \<le> unat y) xs"
    by (rule sorted_wrt_mono_rel [where P = "\<lambda>x y. fin h x \<le> unat y"]) (use assms(1) f in \<open>auto simp: ring_def\<close>)
  moreover have "unat (brk h) \<le> unat b" using assms(2) by (simp add: word_le_nat_alt)
  ultimately show "ring base ?h xs" using assms(1) f unfolding ring_def by (auto simp del: path.simps)
  show "free_bytes ?h xs = free_bytes h xs" using f by (auto simp: free_bytes_def bytes_def)
qed

text \<open>What \<open>morecore\<close> asks the kernel for.\<close>

definition wanted :: "uint \<Rightarrow> uint" where
  "wanted nunits = (if nunits < 4096 then 4096 else nunits) * HSIZE"

lemma morecore_ring:
  assumes r: "ring base h xs" and n: "8 * unat nunits < 2 ^ 31" and g: "sbrk_ok grows"
  shows "morecore grows h nunits = Some (0, h) \<and> \<not> grows (brk h) (wanted nunits) \<or>
    (\<exists>h' xs'. morecore grows h nunits = Some (freep h', h') \<and> freep h' \<noteq> 0 \<and> ring base h' xs' \<and> unat (brk h) \<le> unat (brk h') \<and>
       free_bytes h' xs' = free_bytes h xs \<union> {unat (brk h) ..< unat (brk h')} \<and> (\<exists>x \<in> set xs'. nunits \<le> h_size h' x) \<and>
       (\<forall>x. unat x \<notin> free_bytes h xs \<and> unat x < unat (brk h) \<longrightarrow> h_size h' x = h_size h x))"
proof -
  define nu :: uint where "nu = (if nunits < 4096 then 4096 else nunits)"
  have nu: "8 * unat nu < 2 ^ 31" "nunits \<le> nu" "0 < nu" using n by (auto simp: nu_def word_less_nat_alt word_le_nat_alt)
  have nb: "unat (nu * HSIZE) = 8 * unat nu" using nu(1) by (simp add: HSIZE_def unat_word_ariths)
  show ?thesis
  proof (cases "grows (brk h) (nu * HSIZE)")
    case False
    then show ?thesis by (simp add: morecore_def sbrk_def wanted_def nu_def [symmetric])
  next
    case True
    then have b: "unat (brk h) + 8 * unat nu < 2 ^ 31" using g nu(1) unfolding sbrk_ok_def nb [symmetric] by blast
    let ?b = "brk h + nu * HSIZE" let ?h = "set_size (brk h) nu (h\<lparr>brk := ?b\<rparr>)"
    have ub: "unat ?b = unat (brk h) + 8 * unat nu" using b nb by (simp add: unat_word_ariths)
    have m1: "brk h \<noteq> - 1" using b by auto
    have inb: "brk h \<notin> set (base # xs)" "base < brk h"
      using ring_brk [OF r] by (blast, simp add: word_less_nat_alt)
    have le: "brk h \<le> ?b" using ub by (simp add: word_le_nat_alt)
    note rg = ring_grow [OF r le inb(1), of nu]
    have fb: "bytes ?h (brk h) = {unat (brk h) ..< unat ?b}" "fin ?h (brk h) = unat ?b" by (simp_all add: bytes_def fin_def ub)
    have low: "k < unat (brk h)" if "k \<in> free_bytes h xs" for k
      using that r by (fastforce simp: free_bytes_def bytes_def ring_def)
    have "\<exists>h' xs'. free ?h (brk h + HSIZE) = Some h' \<and> ring base h' xs' \<and> free_bytes h' xs' = free_bytes ?h xs \<union> bytes ?h (brk h) \<and>
      brk h' = brk ?h \<and> (\<forall>x. x \<notin> set xs \<and> x \<noteq> brk h \<longrightarrow> h_size h' x = h_size ?h x) \<and> (\<exists>x \<in> set xs'. bytes ?h (brk h) \<subseteq> bytes h' x)"
    proof (rule free_ring [OF rg(1) inb(2)])
      show "bytes ?h (brk h) \<inter> free_bytes ?h xs = {}" unfolding fb rg(2) using low by force
      show "fin ?h (brk h) \<le> unat (brk ?h)" unfolding fb(2) by simp
    qed (use nu in simp)
    then obtain h' xs' where h': "free ?h (brk h + HSIZE) = Some h'" "ring base h' xs'" "free_bytes h' xs' = free_bytes h xs \<union> {unat (brk h) ..< unat ?b}"
      "brk h' = ?b" "\<forall>x. x \<notin> set xs \<and> x \<noteq> brk h \<longrightarrow> h_size h' x = h_size ?h x" "\<exists>x \<in> set xs'. bytes ?h (brk h) \<subseteq> bytes h' x"
      using rg(2) fb by auto
    obtain x where x: "x \<in> set xs'" "{unat (brk h) ..< unat ?b} \<subseteq> {unat x ..< fin h' x}" using h'(6) fb by (auto simp: bytes_def)
    have "8 * unat nu \<le> 8 * unat (h_size h' x)" using card_mono [OF _ x(2)] ub by (simp add: fin_def)
    then have "nunits \<le> h_size h' x" using nu(2) by (simp add: word_le_nat_alt)
    moreover have "freep h' \<noteq> 0" using h'(2) by (auto simp: ring_def)
    moreover have "h_size h' y = h_size h y" if "unat y \<notin> free_bytes h xs" "unat y < unat (brk h)" for y
    proof -
      have "y \<notin> set xs" using that(1) r fin_pos by (force simp: free_bytes_def bytes_def ring_def)
      then show ?thesis using h'(5) that(2) by auto
    qed
    ultimately show ?thesis using h' x(1) True m1 ub
      by (intro disjI2 exI [of _ h'] exI [of _ xs']) (auto simp: morecore_def sbrk_def nu_def [symmetric] Let_def)
  qed
qed

text \<open>A heap to which the kernel may have added memory.\<close>

definition grown :: "uint \<Rightarrow> uheap \<Rightarrow> uint list \<Rightarrow> uheap \<Rightarrow> uint list \<Rightarrow> bool" where
  "grown base h xs h' xs' \<longleftrightarrow> ring base h' xs' \<and> unat (brk h) \<le> unat (brk h') \<and>
     free_bytes h' xs' = free_bytes h xs \<union> {unat (brk h) ..< unat (brk h')} \<and>
     (\<forall>x. unat x \<notin> free_bytes h xs \<and> unat x < unat (brk h) \<longrightarrow> h_size h' x = h_size h x)"

lemma malloc_start:
  assumes r: "ring base h xs" and n: "0 < nunits"
  shows "(\<exists>q h'. malloc_loop grows nunits h (freep h) (h_ptr h (freep h)) = Some (q + HSIZE, h') \<and> taken base nunits h xs q h') \<or>
    (\<forall>x \<in> set xs. h_size h x < nunits) \<and>
      malloc_loop grows nunits h (freep h) (h_ptr h (freep h)) =
        (case morecore grows h nunits of None \<Rightarrow> None | Some (p, h) \<Rightarrow>
          if p = 0 then Some (0, h) else malloc_loop grows nunits h p (h_ptr h p))"
proof -
  obtain r where r': "r = base # xs" by simp
  obtain f where f: "f < length r" "freep h = r ! f" using ring_nth(5) [OF r r'] by (metis in_set_conv_nth)
  have p: "h_ptr h (freep h) = r ! (Suc f mod length r)" "freep h = r ! (f mod length r)" using ring_next [OF r r', of f] f by simp_all
  have all: "h_size h x < nunits" if none: "\<forall>i. f \<le> i \<and> i < f + length r \<longrightarrow> \<not> fits h nunits r (Suc i)" and x: "x \<in> set xs" for x
  proof -
    obtain k where k: "k < length r" "x = r ! k" using x r' by (metis in_set_conv_nth list.set_intros(2))
    define i where "i = (if f < k then k - 1 else k + length r - 1)"
    have "f \<le> i \<and> i < f + length r" using k(1) f(1) by (auto simp: i_def)
    moreover have "Suc i = k \<or> Suc i = k + length r" using k(1) by (auto simp: i_def)
    then have "Suc i mod length r = k" using k(1) by auto
    ultimately show ?thesis using none k(2) by (auto simp: fits_def not_le)
  qed
  have j: "f \<le> f" "f < f + length r" using f by auto
  from malloc_scan [OF r r' f j, of nunits grows] show ?thesis unfolding p [symmetric]
  proof (elim disjE exE conjE)
    fix i assume i: "fits h nunits r (Suc i)" and "malloc_loop grows nunits h (freep h) (h_ptr h (freep h)) =
      Some (malloc_take h nunits (r ! (i mod length r)) (r ! (Suc i mod length r)))"
    then show ?thesis using take_taken [OF r r' n i] by auto
  qed (use all in auto)
qed

lemma malloc_ring:
  assumes r: "ring base h xs" and n: "0 < nunits" "8 * unat nunits < 2 ^ 31" and g: "sbrk_ok grows"
  shows "malloc_loop grows nunits h (freep h) (h_ptr h (freep h)) = Some (0, h) \<and> (\<forall>x \<in> set xs. h_size h x < nunits) \<and> \<not> grows (brk h) (wanted nunits) \<or>
    (\<exists>q h' h1 xs1. malloc_loop grows nunits h (freep h) (h_ptr h (freep h)) = Some (q + HSIZE, h') \<and>
       grown base h xs h1 xs1 \<and> taken base nunits h1 xs1 q h')"
proof -
  have same: "grown base h xs h xs" using r by (simp add: grown_def)
  from malloc_start [OF r n(1), of grows] show ?thesis
  proof (elim disjE conjE)
    assume "\<exists>q h'. malloc_loop grows nunits h (freep h) (h_ptr h (freep h)) = Some (q + HSIZE, h') \<and> taken base nunits h xs q h'"
    then show ?thesis using same by blast
  next
    assume small: "\<forall>x \<in> set xs. h_size h x < nunits"
      and m: "malloc_loop grows nunits h (freep h) (h_ptr h (freep h)) = (case morecore grows h nunits of None \<Rightarrow> None | Some (p, h) \<Rightarrow>
          if p = 0 then Some (0, h) else malloc_loop grows nunits h p (h_ptr h p))"
    show ?thesis
    proof (cases "morecore grows h nunits = Some (0, h) \<and> \<not> grows (brk h) (wanted nunits)")
      case False
      then obtain h1 xs1 x where h1: "morecore grows h nunits = Some (freep h1, h1)" "freep h1 \<noteq> 0" "grown base h xs h1 xs1"
          "x \<in> set xs1" "nunits \<le> h_size h1 x"
        using morecore_ring [OF r n(2) g] by (auto simp: grown_def)
      have "ring base h1 xs1" using h1(3) by (simp add: grown_def)
      from malloc_start [OF this n(1), of grows] obtain q h' where
        "malloc_loop grows nunits h1 (freep h1) (h_ptr h1 (freep h1)) = Some (q + HSIZE, h')" "taken base nunits h1 xs1 q h'"
        using h1(4,5) by (auto simp: not_less [symmetric])
      then show ?thesis using m h1(1-3) by auto
    qed (use m small in simp)
  qed
qed

section \<open>Sequences of calls\<close>

text \<open>A run of the allocator from the start of the program, when the process ended at \<open>b0\<close>, with the
  pointers that have been returned and not yet freed, and the sizes that were asked for.  What the kernel
  grants may differ from call to call.\<close>

definition max_request :: nat where "max_request = 2 ^ 31 - 16"

inductive runs :: "uint \<Rightarrow> uint \<Rightarrow> uheap \<Rightarrow> (uint \<rightharpoonup> uint) \<Rightarrow> bool" for base b0 where
  start: "freep h = 0 \<Longrightarrow> brk h = b0 \<Longrightarrow> base \<noteq> 0 \<Longrightarrow> unat base + 8 \<le> unat b0 \<Longrightarrow> runs base b0 h Map.empty"
| alloc: "runs base b0 h L \<Longrightarrow> sbrk_ok grows \<Longrightarrow> unat n < max_request \<Longrightarrow> malloc base grows h n = Some (p, h') \<Longrightarrow>
    runs base b0 h' (if p = 0 then L else L(p \<mapsto> n))"
| release: "runs base b0 h L \<Longrightarrow> p \<in> dom L \<Longrightarrow> free h p = Some h' \<Longrightarrow> runs base b0 h' (L(p := None))"

text \<open>The headers of the live blocks, with sizes that suffice, away from the free blocks and each other;
  live and free blocks together make up all memory that the kernel has granted.\<close>

definition live :: "uint \<Rightarrow> uint \<Rightarrow> uheap \<Rightarrow> uint list \<Rightarrow> (uint \<rightharpoonup> uint) \<Rightarrow> bool" where
  "live base b0 h xs L \<longleftrightarrow> ring base h xs \<and>
     (\<forall>p n. L p = Some n \<longrightarrow> base < p - HSIZE \<and> 0 < h_size h (p - HSIZE) \<and> fin h (p - HSIZE) \<le> unat (brk h) \<and>
        unat n \<le> 8 * (unat (h_size h (p - HSIZE)) - 1) \<and> bytes h (p - HSIZE) \<inter> free_bytes h xs = {}) \<and>
     (\<forall>p \<in> dom L. \<forall>p' \<in> dom L. p \<noteq> p' \<longrightarrow> bytes h (p - HSIZE) \<inter> bytes h (p' - HSIZE) = {}) \<and>
     unat b0 \<le> unat (brk h) \<and> free_bytes h xs \<union> (\<Union>p \<in> dom L. bytes h (p - HSIZE)) = {unat b0 ..< unat (brk h)}"

definition heap_ok :: "uint \<Rightarrow> uint \<Rightarrow> uheap \<Rightarrow> (uint \<rightharpoonup> uint) \<Rightarrow> bool" where
  "heap_ok base b0 h L \<longleftrightarrow>
     (if freep h = 0 then L = Map.empty \<and> brk h = b0 \<and> base \<noteq> 0 \<and> unat base + 8 \<le> unat (brk h) else \<exists>xs. live base b0 h xs L)"

lemma units_enough:
  assumes "unat n < max_request"
  shows "unat n \<le> 8 * (unat (units n) - 1)" and "8 * unat (units n) < 2 ^ 31" and "0 < units n"
proof -
  have s: "unat n + 15 < 2 ^ 31" using assms by (simp add: max_request_def)
  have "unat (n + HSIZE - 1) = unat n + 7"
    using s by (simp add: HSIZE_def unat_word_ariths)
  then have u: "unat (units n) = (unat n + 7) div 8 + 1"
    using s by (simp add: units_def HSIZE_def unat_word_ariths unat_div)
  show "unat n \<le> 8 * (unat (units n) - 1)" "8 * unat (units n) < 2 ^ 31" "0 < units n" using s u by (simp_all add: word_less_nat_alt)
qed

lemma live_disjoint:
  assumes "live base b0 h xs L" and "p \<in> dom L" and "p' \<in> dom L" and "p \<noteq> p'"
  shows "bytes h (p - HSIZE) \<inter> bytes h (p' - HSIZE) = {}"
proof -
  from assms(1) have "\<forall>p \<in> dom L. \<forall>p' \<in> dom L. p \<noteq> p' \<longrightarrow> bytes h (p - HSIZE) \<inter> bytes h (p' - HSIZE) = {}"
    unfolding live_def by (elim conjE)
  then show ?thesis using assms(2-4) by simp
qed

lemma live_all:
  assumes "live base b0 h xs L"
  shows "unat b0 \<le> unat (brk h)" and "free_bytes h xs \<union> (\<Union>p \<in> dom L. bytes h (p - HSIZE)) = {unat b0 ..< unat (brk h)}"
  using assms unfolding live_def by presburger+

lemma live_in: "bytes h (p - HSIZE) \<inter> S = {} \<Longrightarrow> 0 < h_size h (p - HSIZE) \<Longrightarrow> unat (p - HSIZE) \<notin> S"
  using fin_pos [of h "p - HSIZE"] by (auto simp: bytes_def)

lemma live_frame:
  assumes l: "live base b0 h xs L" and g: "grown base h xs h1 xs1"
  shows "live base b0 h1 xs1 L" and "p \<in> dom L \<Longrightarrow> bytes h1 (p - HSIZE) = bytes h (p - HSIZE)"
proof -
  have same: "h_size h1 (p - HSIZE) = h_size h (p - HSIZE)" if "p \<in> dom L" for p
  proof -
    have b: "0 < h_size h (p - HSIZE)" "fin h (p - HSIZE) \<le> unat (brk h)" "bytes h (p - HSIZE) \<inter> free_bytes h xs = {}"
      using l that by (auto simp: live_def)
    then have "unat (p - HSIZE) \<notin> free_bytes h xs" "unat (p - HSIZE) < unat (brk h)"
      using live_in [OF b(3,1)] fin_pos [OF b(1)] by auto
    then show ?thesis using g by (simp add: grown_def)
  qed
  then have f: "fin h1 (p - HSIZE) = fin h (p - HSIZE)" "bytes h1 (p - HSIZE) = bytes h (p - HSIZE)" if "p \<in> dom L" for p
    using that by (simp_all add: fin_def bytes_def)
  show "p \<in> dom L \<Longrightarrow> bytes h1 (p - HSIZE) = bytes h (p - HSIZE)" by (rule f)
  have "bytes h1 (p - HSIZE) \<inter> free_bytes h1 xs1 = {}" if p: "p \<in> dom L" for p
  proof -
    have "fin h (p - HSIZE) \<le> unat (brk h)" "bytes h (p - HSIZE) \<inter> free_bytes h xs = {}" using l p by (auto simp: live_def)
    then show ?thesis using g unfolding f(2) [OF p] grown_def by (auto simp: bytes_def)
  qed
  moreover have "unat b0 \<le> unat (brk h1)" "free_bytes h1 xs1 \<union> (\<Union>p \<in> dom L. bytes h1 (p - HSIZE)) = {unat b0 ..< unat (brk h1)}"
  proof -
    note c = live_all [OF l]
    have d: "unat (brk h) \<le> unat (brk h1)" "free_bytes h1 xs1 = free_bytes h xs \<union> {unat (brk h) ..< unat (brk h1)}" using g unfolding grown_def by presburger+
    show "unat b0 \<le> unat (brk h1)" using c(1) d(1) by simp
    have "(\<Union>p \<in> dom L. bytes h1 (p - HSIZE)) = (\<Union>p \<in> dom L. bytes h (p - HSIZE))" using f(2) by simp
    then have "free_bytes h1 xs1 \<union> (\<Union>p \<in> dom L. bytes h1 (p - HSIZE)) = (free_bytes h xs \<union> (\<Union>p \<in> dom L. bytes h (p - HSIZE))) \<union> {unat (brk h) ..< unat (brk h1)}"
      by (simp only: d(2) Un_ac)
    then have "free_bytes h1 xs1 \<union> (\<Union>p \<in> dom L. bytes h1 (p - HSIZE)) = {unat b0 ..< unat (brk h)} \<union> {unat (brk h) ..< unat (brk h1)}"
      by (simp only: c(2))
    then show "free_bytes h1 xs1 \<union> (\<Union>p \<in> dom L. bytes h1 (p - HSIZE)) = {unat b0 ..< unat (brk h1)}" using c(1) d(1) ivl_disj_un_two(3) by metis
  qed
  ultimately show "live base b0 h1 xs1 L" using l g same f unfolding live_def grown_def by (auto simp: domI) (meson domI le_trans)+
qed

lemma live_take:
  assumes l: "live base b0 h xs L" and t: "taken base nunits h xs q h'" and n: "0 < nunits" "unat n \<le> 8 * (unat nunits - 1)"
  shows "\<exists>xs'. live base b0 h' xs' (L(q + HSIZE \<mapsto> n))" and "q + HSIZE \<notin> dom L"
proof -
  obtain xs' where xs': "ring base h' xs'" "free_bytes h' xs' = free_bytes h xs - bytes h' q" using t by (auto simp: taken_def)
  have q: "base < q" "h_size h' q = nunits" "fin h' q \<le> unat (brk h')" "bytes h' q \<subseteq> free_bytes h xs" "brk h' = brk h"
    using t by (auto simp: taken_def)
  have same: "bytes h' (p - HSIZE) = bytes h (p - HSIZE)" "h_size h' (p - HSIZE) = h_size h (p - HSIZE)" "fin h' (p - HSIZE) = fin h (p - HSIZE)"
    and away: "bytes h (p - HSIZE) \<inter> free_bytes h xs = {}" if "p \<in> dom L" for p
  proof -
    have b: "0 < h_size h (p - HSIZE)" "bytes h (p - HSIZE) \<inter> free_bytes h xs = {}" using l that by (auto simp: live_def)
    then show "h_size h' (p - HSIZE) = h_size h (p - HSIZE)" using t live_in [OF b(2,1)] by (simp add: taken_def)
    then show "bytes h' (p - HSIZE) = bytes h (p - HSIZE)" "fin h' (p - HSIZE) = fin h (p - HSIZE)" by (simp_all add: bytes_def fin_def)
    show "bytes h (p - HSIZE) \<inter> free_bytes h xs = {}" by (rule b(2))
  qed
  show new: "q + HSIZE \<notin> dom L"
  proof
    assume "q + HSIZE \<in> dom L"
    then have "bytes h' q \<inter> free_bytes h xs = {}" using same away [of "q + HSIZE"] by force
    then show False using q(2,4) n(1) fin_pos [of h' q] by (fastforce simp: bytes_def)
  qed
  have "live base b0 h' xs' (L(q + HSIZE \<mapsto> n))"
    unfolding live_def
  proof (intro conjI allI ballI impI)
    show "ring base h' xs'" by (rule xs'(1))
  next
    fix p m assume p: "(L(q + HSIZE \<mapsto> n)) p = Some m"
    show "base < p - HSIZE" "0 < h_size h' (p - HSIZE)" "fin h' (p - HSIZE) \<le> unat (brk h')" "unat m \<le> 8 * (unat (h_size h' (p - HSIZE)) - 1)"
      using p q n l same [OF domI] by (auto simp: live_def split: if_splits)
    show "bytes h' (p - HSIZE) \<inter> free_bytes h' xs' = {}"
    proof (cases "p = q + HSIZE")
      case False
      then have "p \<in> dom L" using p by auto
      then show ?thesis using same(1) away xs'(2) by blast
    qed (use xs'(2) in auto)
  next
    fix p p' assume d: "p \<in> dom (L(q + HSIZE \<mapsto> n))" "p' \<in> dom (L(q + HSIZE \<mapsto> n))" "p \<noteq> p'"
    have new: "bytes h' (p - HSIZE) \<inter> bytes h' q = {}" if "p \<in> dom L" for p using same(1) [OF that] away [OF that] q(4) by auto
    have old: "bytes h' (p - HSIZE) \<inter> bytes h' (p' - HSIZE) = {}" if "p \<in> dom L" "p' \<in> dom L"
      using live_disjoint [OF l that d(3)] same(1) that by simp
    show "bytes h' (p - HSIZE) \<inter> bytes h' (p' - HSIZE) = {}"
      using d new [of p] new [of p'] old by (cases "p = q + HSIZE"; cases "p' = q + HSIZE") (auto simp: Int_commute)
  next
    show "unat b0 \<le> unat (brk h')" using live_all(1) [OF l] q(5) by simp
    have "(\<Union>p \<in> dom (L(q + HSIZE \<mapsto> n)). bytes h' (p - HSIZE)) = bytes h' q \<union> (\<Union>p \<in> dom L. bytes h (p - HSIZE))" using same(1) by simp
    moreover have "free_bytes h xs \<union> (\<Union>p \<in> dom L. bytes h (p - HSIZE)) = {unat b0 ..< unat (brk h')}" using live_all(2) [OF l] q(5) by simp
    moreover have "(free_bytes h xs - bytes h' q) \<union> (bytes h' q \<union> B) = free_bytes h xs \<union> B" for B using q(4) by blast
    ultimately show "free_bytes h' xs' \<union> (\<Union>p \<in> dom (L(q + HSIZE \<mapsto> n)). bytes h' (p - HSIZE)) = {unat b0 ..< unat (brk h')}"
      unfolding xs'(2) by simp
  qed
  then show "\<exists>xs'. live base b0 h' xs' (L(q + HSIZE \<mapsto> n))" by blast
qed

lemma live_free:
  assumes l: "live base b0 h xs L" and p: "p \<in> dom L"
  shows "\<exists>h' xs'. free h p = Some h' \<and> live base b0 h' xs' (L(p := None))"
proof -
  let ?q = "p - HSIZE"
  have q: "base < ?q" "0 < h_size h ?q" "fin h ?q \<le> unat (brk h)" "bytes h ?q \<inter> free_bytes h xs = {}" and r: "ring base h xs"
    using l p by (auto simp: live_def)
  obtain h' xs' where h': "free h p = Some h'" "ring base h' xs'" "free_bytes h' xs' = free_bytes h xs \<union> bytes h ?q" "brk h' = brk h"
      "\<forall>x. x \<notin> set xs \<and> x \<noteq> ?q \<longrightarrow> h_size h' x = h_size h x"
    using free_ring [OF r q] by auto
  have same: "h_size h' (p' - HSIZE) = h_size h (p' - HSIZE)" and away: "bytes h (p' - HSIZE) \<inter> (free_bytes h xs \<union> bytes h ?q) = {}"
    if "p' \<in> dom L" "p' \<noteq> p" for p'
  proof -
    have b: "0 < h_size h (p' - HSIZE)" "bytes h (p' - HSIZE) \<inter> free_bytes h xs = {}" "bytes h (p' - HSIZE) \<inter> bytes h ?q = {}"
      using l p that by (auto simp: live_def)
    have "p' - HSIZE \<notin> set xs"
    proof
      assume "p' - HSIZE \<in> set xs"
      then show False using live_in [OF b(2,1)] r fin_pos [OF b(1)] by (auto simp: free_bytes_def bytes_def)
    qed
    moreover have "p' - HSIZE \<noteq> ?q" using that(2) by simp
    ultimately show "h_size h' (p' - HSIZE) = h_size h (p' - HSIZE)" using h'(5) by blast
    show "bytes h (p' - HSIZE) \<inter> (free_bytes h xs \<union> bytes h ?q) = {}" using b by blast
  qed
  then have f: "fin h' (p' - HSIZE) = fin h (p' - HSIZE)" "bytes h' (p' - HSIZE) = bytes h (p' - HSIZE)" if "p' \<in> dom L" "p' \<noteq> p" for p'
    using that by (simp_all add: fin_def bytes_def)
  have "live base b0 h' xs' (L(p := None))"
    unfolding live_def
  proof (intro conjI allI ballI impI)
    show "ring base h' xs'" by (rule h'(2))
  next
    fix p' m assume "(L(p := None)) p' = Some m"
    then have p': "p' \<in> dom L" "p' \<noteq> p" "L p' = Some m" by (auto split: if_splits)
    show "base < p' - HSIZE" "0 < h_size h' (p' - HSIZE)" "fin h' (p' - HSIZE) \<le> unat (brk h')" "unat m \<le> 8 * (unat (h_size h' (p' - HSIZE)) - 1)"
      using p'(3) l same [OF p'(1,2)] f [OF p'(1,2)] h'(4) by (auto simp: live_def)
    show "bytes h' (p' - HSIZE) \<inter> free_bytes h' xs' = {}" unfolding f(2) [OF p'(1,2)] h'(3) by (rule away [OF p'(1,2)])
  next
    fix a b assume "a \<in> dom (L(p := None))" "b \<in> dom (L(p := None))" "a \<noteq> b"
    then show "bytes h' (a - HSIZE) \<inter> bytes h' (b - HSIZE) = {}" using live_disjoint [OF l, of a b] f(2) by (auto split: if_splits)
  next
    show "unat b0 \<le> unat (brk h')" using live_all(1) [OF l] h'(4) by simp
    have "(\<Union>p' \<in> dom (L(p := None)). bytes h' (p' - HSIZE)) = (\<Union>p' \<in> dom L - {p}. bytes h (p' - HSIZE))" using f(2) by auto
    moreover have "bytes h ?q \<union> (\<Union>p' \<in> dom L - {p}. bytes h (p' - HSIZE)) = (\<Union>p' \<in> dom L. bytes h (p' - HSIZE))" using p by blast
    moreover have "free_bytes h xs \<union> (\<Union>p \<in> dom L. bytes h (p - HSIZE)) = {unat b0 ..< unat (brk h')}" using live_all(2) [OF l] h'(4) by simp
    ultimately show "free_bytes h' xs' \<union> (\<Union>p' \<in> dom (L(p := None)). bytes h' (p' - HSIZE)) = {unat b0 ..< unat (brk h')}"
      unfolding h'(3) by (metis Un_assoc)
  qed
  then show ?thesis using h'(1) by blast
qed

lemma heap_ok_init: "heap_ok base b0 h L \<Longrightarrow> \<exists>xs. live base b0 (malloc_init base h) xs L"
proof (cases "freep h = 0")
  case True
  then show "heap_ok base b0 h L \<Longrightarrow> ?thesis"
    by (intro exI [of _ "[]"]) (auto simp: heap_ok_def malloc_init_def live_def ring_def free_bytes_def)
qed (auto simp: heap_ok_def malloc_init_def)

lemma live_heap_ok:
  assumes "live base b0 h xs L"
  shows "heap_ok base b0 h L"
proof -
  have "freep h \<noteq> 0" using assms by (auto simp: live_def ring_def)
  then show ?thesis using assms unfolding heap_ok_def by auto
qed

lemma malloc_ok:
  assumes l: "live base b0 (malloc_init base h) xs L" and n: "unat n < max_request" and g: "sbrk_ok grows"
  shows "\<exists>p h'. malloc base grows h n = Some (p, h') \<and> heap_ok base b0 h' (if p = 0 then L else L(p \<mapsto> n)) \<and> (p \<noteq> 0 \<longrightarrow> p \<notin> dom L) \<and>
    (p = 0 \<longrightarrow> \<not> grows (brk h) (wanted (units n)) \<and> (\<forall>x \<in> set xs. h_size (malloc_init base h) x < units n))"
proof -
  let ?h = "malloc_init base h"
  have r: "ring base ?h xs" using l by (simp add: live_def)
  note u = units_enough [OF n]
  from malloc_ring [OF r u(3,2) g] show ?thesis
  proof (elim disjE exE conjE)
    assume "malloc_loop grows (units n) ?h (freep ?h) (h_ptr ?h (freep ?h)) = Some (0, ?h)"
      and "\<forall>x \<in> set xs. h_size ?h x < units n" "\<not> grows (brk ?h) (wanted (units n))"
    moreover have "brk ?h = brk h" by (simp add: malloc_init_def)
    ultimately show ?thesis using live_heap_ok [OF l] by (simp add: malloc_def Let_def)
  next
    fix q h' h1 xs1
    assume m: "malloc_loop grows (units n) ?h (freep ?h) (h_ptr ?h (freep ?h)) = Some (q + HSIZE, h')"
      and gr: "grown base ?h xs h1 xs1" and t: "taken base (units n) h1 xs1 q h'"
    note lt = live_take [OF live_frame(1) [OF l gr] t u(3,1)]
    have "unat (q + HSIZE) = unat q + 8"
    proof -
      have "unat q + 8 * 1 \<le> fin h' q" using t u(3) by (simp add: taken_def fin_def word_less_nat_alt)
      also have "\<dots> \<le> unat (brk h')" using t unfolding taken_def by blast
      also have "\<dots> < 2 ^ 32" using unsigned_less [of "brk h'", where ?'a = nat] by simp
      finally show ?thesis using unat_units [of q 1] by simp
    qed
    then have "q + HSIZE \<noteq> 0" by auto
    then show ?thesis using m lt live_heap_ok by (auto simp: malloc_def Let_def)
  qed
qed

lemma runs_heap_ok: "runs base b0 h L \<Longrightarrow> heap_ok base b0 h L"
proof (induction rule: runs.induct)
  case (alloc h L grows n p h')
  obtain xs where "live base b0 (malloc_init base h) xs L" using heap_ok_init [OF alloc.IH] by blast
  from malloc_ok [OF this alloc.hyps(3,2)] show ?case using alloc.hyps(4) by auto
next
  case (release h L p h')
  then have "freep h \<noteq> 0" by (auto simp: heap_ok_def)
  then obtain xs where "live base b0 h xs L" using release by (auto simp: heap_ok_def)
  from live_free [OF this release(2)] show ?case using release(3) live_heap_ok by (metis option.inject)
qed (auto simp: heap_ok_def)

text \<open>The bytes a caller may use behind a pointer.\<close>

definition area :: "uint \<Rightarrow> uint \<Rightarrow> nat set" where
  "area p n = {unat p ..< unat p + unat n}"

lemma area_in_block:
  assumes "live base b0 h xs L" and "L p = Some n"
  shows "area p n \<subseteq> {unat (p - HSIZE) + 8 ..< fin h (p - HSIZE)}" and "area p n \<subseteq> {unat base + 8 ..< unat (brk h)}"
    and "bytes h (p - HSIZE) \<inter> free_bytes h xs = {}"
proof -
  let ?q = "p - HSIZE"
  have q: "base < ?q" "0 < h_size h ?q" "fin h ?q \<le> unat (brk h)" "unat n \<le> 8 * (unat (h_size h ?q) - 1)" using assms by (auto simp: live_def)
  have "unat ?q + 8 * 1 \<le> fin h ?q" using q(2) by (simp add: fin_def word_less_nat_alt)
  also have "\<dots> < 2 ^ 32" using q(3) unsigned_less [of "brk h", where ?'a = nat] by simp
  finally have "unat p = unat ?q + 8" using unat_units [of ?q 1] by simp
  moreover have "unat base < unat ?q" "0 < unat (h_size h ?q)" using q(1,2) by (simp_all add: word_less_nat_alt)
  ultimately show "area p n \<subseteq> {unat ?q + 8 ..< fin h ?q}" "area p n \<subseteq> {unat base + 8 ..< unat (brk h)}"
    using q(3,4) by (auto simp: area_def bytes_def fin_def)
  show "bytes h ?q \<inter> free_bytes h xs = {}" using assms by (auto simp: live_def)
qed

lemma areas_disjoint:
  assumes "live base b0 h xs L" and "L p = Some n" and "L p' = Some n'" and "p \<noteq> p'"
  shows "area p n \<inter> area p' n' = {}"
proof -
  have "bytes h (p - HSIZE) \<inter> bytes h (p' - HSIZE) = {}" using live_disjoint [OF assms(1) _ _ assms(4)] assms(2,3) by blast
  then show ?thesis using area_in_block(1) [OF assms(1,2)] area_in_block(1) [OF assms(1,3)] by (fastforce simp: bytes_def)
qed

text \<open>C16: Take any sequence of calls of \<open>malloc\<close>, for fewer than \<open>max_request\<close> (2 GB less 16) bytes each, and
  of \<open>free\<close> on live pointers, from the start of a program that ends at \<open>b0\<close>; at each call the kernel may
  grant or refuse memory as it likes, as long as it never wraps around the address space, and nothing
  else in the program moves the break.  Then (with the
  list set up, as the first call does) the free list is an intact circle of blocks in address order.  The
  area of each live pointer has the size that was asked for and lies inside its block, behind the header, and inside the
  process above the allocator's own header; its block touches no free block, and the areas are pairwise
  disjoint.  Nothing leaks: the free blocks and the live blocks together are exactly the memory
  from \<open>b0\<close> to the present break.  Every further call returns: \<open>free\<close> of a live pointer, and \<open>malloc\<close>
  with a pointer that was not live, or with null, and then only if every free block was too small and
  the kernel refused to grow the process.\<close>

theorem malloc_areas:
  assumes "runs base b0 h L" and "sbrk_ok grows"
  shows "\<exists>xs. ring base (malloc_init base h) xs \<and>
    (\<forall>p n. L p = Some n \<longrightarrow> area p n \<subseteq> {unat (p - HSIZE) + 8 ..< fin h (p - HSIZE)} \<and> area p n \<subseteq> {unat base + 8 ..< unat (brk h)} \<and>
       bytes h (p - HSIZE) \<inter> free_bytes (malloc_init base h) xs = {}) \<and>
    (\<forall>p n p' n'. L p = Some n \<and> L p' = Some n' \<and> p \<noteq> p' \<longrightarrow> area p n \<inter> area p' n' = {}) \<and>
    free_bytes (malloc_init base h) xs \<union> (\<Union>p \<in> dom L. bytes h (p - HSIZE)) = {unat b0 ..< unat (brk h)} \<and>
    (\<forall>n. unat n < max_request \<longrightarrow> (\<exists>p h'. malloc base grows h n = Some (p, h') \<and> (p \<noteq> 0 \<longrightarrow> p \<notin> dom L) \<and>
       (p = 0 \<longrightarrow> (\<forall>x \<in> set xs. h_size (malloc_init base h) x < units n) \<and> \<not> grows (brk h) (wanted (units n))))) \<and>
    (\<forall>p \<in> dom L. \<exists>h'. free h p = Some h')"
proof -
  let ?h = "malloc_init base h"
  have ok: "heap_ok base b0 h L" by (rule runs_heap_ok [OF assms(1)])
  then obtain xs where l: "live base b0 ?h xs L" using heap_ok_init by blast
  have same: "fin ?h (p - HSIZE) = fin h (p - HSIZE)" "bytes ?h (p - HSIZE) = bytes h (p - HSIZE)" "live base b0 h xs L" if "p \<in> dom L" for p
  proof -
    have "freep h \<noteq> 0" using ok that by (auto simp: heap_ok_def)
    then have "?h = h" by (simp add: malloc_init_def)
    then show "fin ?h (p - HSIZE) = fin h (p - HSIZE)" "bytes ?h (p - HSIZE) = bytes h (p - HSIZE)" "live base b0 h xs L" using l by simp_all
  qed
  have brk: "brk ?h = brk h" by (simp add: malloc_init_def)
  have "(\<Union>p \<in> dom L. bytes ?h (p - HSIZE)) = (\<Union>p \<in> dom L. bytes h (p - HSIZE))" using same(2) by simp
  then have all: "free_bytes ?h xs \<union> (\<Union>p \<in> dom L. bytes h (p - HSIZE)) = {unat b0 ..< unat (brk h)}" using l brk unfolding live_def by simp
  show ?thesis
  proof (intro exI [of _ xs] conjI allI impI ballI all)
    show "ring base ?h xs" using l by (simp add: live_def)
  next
    fix p n assume p: "L p = Some n"
    then have "p \<in> dom L" by blast
    note a = area_in_block [OF l p, unfolded same(1,2) [OF this] brk]
    from a show "area p n \<subseteq> {unat (p - HSIZE) + 8 ..< fin h (p - HSIZE)}" "area p n \<subseteq> {unat base + 8 ..< unat (brk h)}"
      "bytes h (p - HSIZE) \<inter> free_bytes ?h xs = {}" by blast+
  next
    fix p n p' n' assume "L p = Some n \<and> L p' = Some n' \<and> p \<noteq> p'"
    then show "area p n \<inter> area p' n' = {}" using areas_disjoint [OF l] by blast
  next
    fix n :: uint assume "unat n < max_request"
    from malloc_ok [OF l this assms(2)] show "\<exists>p h'. malloc base grows h n = Some (p, h') \<and> (p \<noteq> 0 \<longrightarrow> p \<notin> dom L) \<and>
       (p = 0 \<longrightarrow> (\<forall>x \<in> set xs. h_size ?h x < units n) \<and> \<not> grows (brk h) (wanted (units n)))" by blast
  next
    fix p assume p: "p \<in> dom L"
    then show "\<exists>h'. free h p = Some h'" using live_free [OF same(3) [OF p] p] by blast
  qed
qed

section \<open>Concrete runs\<close>

definition demo_grows :: "uint \<Rightarrow> uint \<Rightarrow> bool" where
  "demo_grows b n \<longleftrightarrow> unat b + unat n < 2 ^ 31"

definition demo_heap :: uheap where
  "demo_heap = \<lparr>h_ptr = \<lambda>_. 0, h_size = \<lambda>_. 0, freep = 0, brk = 0x4000\<rparr>"

lemmas demo_simps = malloc_def malloc_init_def malloc_loop.simps [where prevp = "0x1000" and p = "0x1000"] malloc_loop.simps [where prevp = "0x1000" and p = "0x4000"]
  free_search.simps [where bp = "0x4000" and p = "0x1000"] morecore_def sbrk_def free_def free_insert_def malloc_take_def
  units_def HSIZE_def demo_heap_def demo_grows_def Let_def

lemma demo_malloc: "map_option fst (malloc 0x1000 demo_grows demo_heap 10) = Some 49136"
  by (simp add: demo_simps)

theorem malloc_areas_witness:
  "sbrk_ok demo_grows \<and> (\<exists>h. runs 0x1000 0x4000 h [49136 \<mapsto> 10] \<and> area 49136 10 \<subseteq> {0x1008 ..< unat (brk h)} \<and>
    (\<exists>xs. ring 0x1000 h xs \<and> free_bytes h xs \<union> bytes h 49128 = {0x4000 ..< unat (brk h)}) \<and> (\<exists>h'. free h 49136 = Some h'))"
proof -
  have g: "sbrk_ok demo_grows" by (simp add: sbrk_ok_def demo_grows_def)
  have s: "runs 0x1000 0x4000 demo_heap Map.empty" by (rule runs.start) (simp_all add: demo_heap_def)
  obtain h where m: "malloc 0x1000 demo_grows demo_heap 10 = Some (49136, h)" using demo_malloc by auto
  have f: "malloc_init 0x1000 h = h" using m by (auto simp: demo_simps)
  have r: "runs 0x1000 0x4000 h [49136 \<mapsto> 10]" using runs.alloc [OF s g _ m] by (simp add: max_request_def)
  from malloc_areas [OF r g] obtain xs where xs: "ring 0x1000 h xs" "area 49136 10 \<subseteq> {0x1008 ..< unat (brk h)}"
      "free_bytes h xs \<union> bytes h 49128 = {0x4000 ..< unat (brk h)}" "\<exists>h'. free h 49136 = Some h'"
    unfolding f by (auto simp: HSIZE_def split: if_splits)
  then show ?thesis using g r by blast
qed

text \<open>A request within seven bytes of the whole address space wraps around to one unit, the header alone:
  \<open>malloc\<close> returns a pointer behind which no byte is reserved.\<close>

lemma malloc_wraps:
  "map_option (\<lambda>(p, h). (p, h_size h (p - HSIZE))) (malloc 0x1000 demo_grows demo_heap 0xFFFFFFFF) = Some (49152, 1)"
  by (simp add: demo_simps)

end
