(* ===== verification/Console.thy ===== *)
theory Console
  imports Ring
begin

text \<open>
  The console (\<open>src/console.c\<close>, with the output half of \<open>src/uart.c\<close>): the screen and the serial line,
  formatted output, and the input buffer with its line editing.  The screen memory is a function from
  cells to characters with their colour, and the cursor position is what the CRT registers hold.
  Characters are C integers, because \<open>BACKSPACE\<close> lies outside the range of bytes.  The text that
  \<open>procdump\<close> prints is the parameter \<open>listing\<close>.
\<close>

section \<open>Output\<close>

record con =
  panicked :: bool
  uart :: bool
  serial :: "uchar list"
  crt :: "nat \<Rightarrow> ushort"
  cpos :: nat

definition BACKSPACE :: int where "BACKSPACE = 0x100"

text \<open>The wait for the line to be ready, at most 128 polls, does not change what is sent.\<close>

definition uartputc :: "int \<Rightarrow> con \<Rightarrow> con" where
  "uartputc c s = (if uart s then s\<lparr>serial := serial s @ [word_of_int c]\<rparr> else s)"

definition scroll :: "nat \<Rightarrow> (nat \<Rightarrow> ushort) \<Rightarrow> nat \<Rightarrow> ushort" where
  "scroll pos m = (\<lambda>i. if pos \<le> i \<and> i < 24 * 80 then 0 else if i < 23 * 80 then m (i + 80) else m i)"

text \<open>A cursor more than one row below the last line makes the count of the \<open>memset\<close> negative.\<close>

definition cgaputc :: "int \<Rightarrow> con \<Rightarrow> con res" where
  "cgaputc c s =
     (let pos = cpos s;
          (m, pos) = (if c = 10 then (crt s, pos + (80 - pos mod 80))
                      else if c = BACKSPACE then (crt s, pos - 1)
                      else ((crt s)(pos := (word_of_int c AND 0xff) OR 0x0700), pos + 1))
      in if pos div 80 \<ge> 24 \<and> pos - 80 > 24 * 80 then Inl OutOfBounds
         else let (m, pos) = (if pos div 80 \<ge> 24 then (scroll (pos - 80) m, pos - 80) else (m, pos))
              in Inr (s\<lparr>cpos := pos mod 65536, crt := m(pos := 0x0720)\<rparr>))"

definition consputc :: "int \<Rightarrow> con \<Rightarrow> con res" where
  "consputc c s =
     (if panicked s then Inl Spin
      else cgaputc c (if c = BACKSPACE then uartputc 8 (uartputc 32 (uartputc 8 s)) else uartputc c s))"

fun conputs :: "int list \<Rightarrow> con \<Rightarrow> con res" where
  "conputs [] s = Inr s"
| "conputs (c # cs) s = bindE (consputc c s) (conputs cs)"

section \<open>Formatted output\<close>

definition con_digit :: "nat \<Rightarrow> int" where
  "con_digit d = (if d < 10 then 48 + int d else 87 + int d)"

function con_digits :: "nat \<Rightarrow> nat \<Rightarrow> int list" where
  "con_digits b x = (if b < 2 then [] else con_digit (x mod b) # (if x div b = 0 then [] else con_digits b (x div b)))"
  by pat_completeness auto
termination
  by (relation "measure snd") (auto simp: div_eq_0_iff)

declare con_digits.simps [simp del]

definition con_printint :: "uint \<Rightarrow> nat \<Rightarrow> bool \<Rightarrow> int list" where
  "con_printint xx b sg =
     (let neg = sg \<and> sint xx < 0; x = (if neg then - xx else xx)
      in rev (con_digits b (unat x) @ (if neg then [45] else [])))"

text \<open>The characters \<open>cprintf\<close> puts on the console; \<open>strs\<close> are the strings in memory and \<open>ap\<close> the
  arguments behind the format.\<close>

fun cprintf_chars :: "(uint \<Rightarrow> uchar list) \<Rightarrow> (nat \<Rightarrow> uint) \<Rightarrow> nat \<Rightarrow> uchar list \<Rightarrow> int list" where
  "cprintf_chars strs ap k [] = []"
| "cprintf_chars strs ap k [c] = (if c \<noteq> 37 then [int (unat c)] else [])"
| "cprintf_chars strs ap k (c # d # fmt) =
     (if c \<noteq> 37 then int (unat c) # cprintf_chars strs ap k (d # fmt)
      else if d = 100 then con_printint (ap k) 10 True @ cprintf_chars strs ap (k + 1) fmt
      else if d = 120 \<or> d = 112 then con_printint (ap k) 16 False @ cprintf_chars strs ap (k + 1) fmt
      else if d = 115 then (if ap k = 0 then [40, 110, 117, 108, 108, 41] else map (\<lambda>c. int (unat c)) (strs (ap k))) @
             cprintf_chars strs ap (k + 1) fmt
      else if d = 37 then 37 # cprintf_chars strs ap k fmt
      else 37 # int (unat d) # cprintf_chars strs ap k fmt)"

definition cprintf :: "(uint \<Rightarrow> uchar list) \<Rightarrow> (nat \<Rightarrow> uint) \<Rightarrow> uchar list \<Rightarrow> con \<Rightarrow> con res" where
  "cprintf strs ap fmt s = conputs (cprintf_chars strs ap 0 fmt) s"

text \<open>\<open>panic\<close> prints the processor, the message, itself used as a format, and ten return addresses, and
  then sets the flag that stops every other processor at its next character.\<close>

definition panic_pre :: "uchar list" where
  "panic_pre = [99, 112, 117, 37, 100, 58, 32, 112, 97, 110, 105, 99, 58, 32]"

fun panic_pcs :: "(uint \<Rightarrow> uchar list) \<Rightarrow> uint list \<Rightarrow> con \<Rightarrow> con res" where
  "panic_pcs strs [] s = Inr s"
| "panic_pcs strs (pc # pcs) s = bindE (cprintf strs (\<lambda>_. pc) [32, 37, 112] s) (panic_pcs strs pcs)"

definition panic :: "(uint \<Rightarrow> uchar list) \<Rightarrow> uint \<Rightarrow> (nat \<Rightarrow> uint) \<Rightarrow> uchar list \<Rightarrow> uint list \<Rightarrow> con \<Rightarrow> con res" where
  "panic strs cpuid junk msg pcs s =
     bindE (cprintf strs (\<lambda>_. cpuid) panic_pre s) (\<lambda>s.
     bindE (cprintf strs junk msg s) (\<lambda>s.
     bindE (cprintf strs junk [10] s) (\<lambda>s.
     bindE (panic_pcs strs pcs s) (\<lambda>s. Inr (s\<lparr>panicked := True\<rparr>)))))"

section \<open>Input\<close>

definition INPUT_BUF :: nat where "INPUT_BUF = 128"

record inp =
  i_buf :: "uchar list"
  i_r :: uint
  i_w :: uint
  i_e :: uint
  i_wakeups :: nat

definition Ctl :: "int \<Rightarrow> int" where "Ctl x = x - 64"

text \<open>The loop that kills the line.\<close>

function kill_line :: "inp \<Rightarrow> con \<Rightarrow> (inp \<times> con) res" where
  "kill_line i s =
     (if i_e i \<noteq> i_w i \<and> i_buf i ! (unat (i_e i - 1) mod INPUT_BUF) \<noteq> 10
      then (case consputc BACKSPACE s of Inl e \<Rightarrow> Inl e | Inr s \<Rightarrow> kill_line (i\<lparr>i_e := i_e i - 1\<rparr>) s)
      else Inr (i, s))"
  by pat_completeness auto
termination
proof (relation "measure (\<lambda>(i, s). unat (i_e i - i_w i))")
  fix i :: inp and s s' :: con
  assume "i_e i \<noteq> i_w i \<and> i_buf i ! (unat (i_e i - 1) mod INPUT_BUF) \<noteq> 10"
  then have "i_e i - i_w i \<noteq> 0" by auto
  then have "unat (i_e i - i_w i - 1) < unat (i_e i - i_w i)" by (metis measure_unat)
  then show "((i\<lparr>i_e := i_e i - 1\<rparr>, s'), (i, s)) \<in> measure (\<lambda>(i, s). unat (i_e i - i_w i))"
    by (simp add: algebra_simps)
qed simp

declare kill_line.simps [simp del]

definition consoleintr_char :: "int list \<Rightarrow> int \<Rightarrow> inp \<times> con \<Rightarrow> (inp \<times> con) res" where
  "consoleintr_char listing c = (\<lambda>(i, s).
     if c = Ctl 80 then bindE (conputs listing s) (\<lambda>s. Inr (i, s))
     else if c = Ctl 85 then kill_line i s
     else if c = Ctl 72 \<or> c = 0x7f
     then if i_e i \<noteq> i_w i then bindE (consputc BACKSPACE s) (\<lambda>s. Inr (i\<lparr>i_e := i_e i - 1\<rparr>, s)) else Inr (i, s)
     else if c \<noteq> 0 \<and> i_e i - i_r i < word_of_nat INPUT_BUF
     then let c = (if c = 13 then 10 else c);
              i = i\<lparr>i_buf := (i_buf i)[unat (i_e i) mod INPUT_BUF := word_of_int c], i_e := i_e i + 1\<rparr>
          in bindE (consputc c s) (\<lambda>s.
             if c = 10 \<or> c = Ctl 68 \<or> i_e i = i_r i + word_of_nat INPUT_BUF
             then Inr (i\<lparr>i_w := i_e i, i_wakeups := Suc (i_wakeups i)\<rparr>, s) else Inr (i, s))
     else Inr (i, s))"

text \<open>\<open>consoleintr\<close> on the characters that \<open>getc\<close> returns before it returns a negative value.\<close>

fun consoleintr :: "int list \<Rightarrow> int list \<Rightarrow> inp \<times> con \<Rightarrow> (inp \<times> con) res" where
  "consoleintr listing [] is = Inr is"
| "consoleintr listing (c # cs) is = bindE (consoleintr_char listing c is) (consoleintr listing cs)"

text \<open>One stretch of \<open>consoleread\<close> under the input lock, up to a return or a call of \<open>sleep\<close>.\<close>

datatype cres = Line "uchar list" | Killed | Wait "uchar list"

fun consoleread_loop :: "bool \<Rightarrow> nat \<Rightarrow> nat \<Rightarrow> uchar list \<Rightarrow> inp \<Rightarrow> cres \<times> inp" where
  "consoleread_loop killed target 0 acc i = (Line acc, i)"
| "consoleread_loop killed target (Suc n) acc i =
     (if i_r i = i_w i then (if killed then Killed else Wait acc, i)
      else let c = i_buf i ! (unat (i_r i) mod INPUT_BUF); i = i\<lparr>i_r := i_r i + 1\<rparr>
           in if c = 4 then (Line acc, if Suc n < target then i\<lparr>i_r := i_r i - 1\<rparr> else i)
              else if c = 10 then (Line (acc @ [c]), i)
              else consoleread_loop killed target n (acc @ [c]) i)"

section \<open>The screen\<close>

definition on_screen :: "con \<Rightarrow> bool" where
  "on_screen s \<longleftrightarrow> cpos s < 24 * 80"

lemma next_row: "pos + (80 - pos mod 80) = 80 * (pos div 80 + 1)" for pos :: nat
proof -
  have "pos = 80 * (pos div 80) + pos mod 80" by simp
  moreover have "pos mod 80 < 80" by simp
  ultimately show ?thesis by (metis add.assoc add_diff_inverse_nat distrib_left less_imp_not_less mult.right_neutral)
qed

lemma cgaputc_ok:
  assumes "on_screen s"
  shows "\<exists>s'. cgaputc c s = Inr s' \<and> on_screen s' \<and> (\<forall>k \<ge> 24 * 80. crt s' k = crt s k) \<and> panicked s' = panicked s \<and> serial s' = serial s \<and> uart s' = uart s"
proof -
  define pos where "pos = (if c = 10 then cpos s + (80 - cpos s mod 80) else if c = BACKSPACE then cpos s - 1 else cpos s + 1)"
  define m where "m = (if c = 10 \<or> c = BACKSPACE then crt s else (crt s)(cpos s := (word_of_int c AND 0xff) OR 0x0700))"
  have p: "cpos s < 1920" using assms by (simp add: on_screen_def)
  have "cpos s div 80 < 24" using p by (simp add: less_mult_imp_div_less)
  then have pos: "pos \<le> 1920" using p unfolding pos_def next_row by auto
  have m: "m k = crt s k" if "24 * 80 \<le> k" for k using that p by (simp add: m_def)
  have eq: "cgaputc c s = (if pos div 80 \<ge> 24 \<and> pos - 80 > 24 * 80 then Inl OutOfBounds
     else let (m, pos) = (if pos div 80 \<ge> 24 then (scroll (pos - 80) m, pos - 80) else (m, pos))
          in Inr (s\<lparr>cpos := pos mod 65536, crt := m(pos := 0x0720)\<rparr>))"
    unfolding cgaputc_def Let_def pos_def m_def by auto
  show ?thesis
  proof (cases "pos = 1920")
    case True
    then show ?thesis unfolding eq using m by (auto simp: on_screen_def scroll_def)
  next
    case False
    then have "pos < 1920" using pos by simp
    then have "\<not> pos div 80 \<ge> 24" by (simp add: not_le less_mult_imp_div_less)
    then show ?thesis unfolding eq using m \<open>pos < 1920\<close> by (auto simp: on_screen_def)
  qed
qed

definition con_ok :: "con \<Rightarrow> bool" where
  "con_ok s \<longleftrightarrow> \<not> panicked s \<and> on_screen s"

definition rest_kept :: "con \<Rightarrow> con \<Rightarrow> bool" where
  "rest_kept s s' \<longleftrightarrow> (\<forall>k \<ge> 24 * 80. crt s' k = crt s k) \<and> uart s' = uart s"

lemma rest_kept_refl [simp]: "rest_kept s s"
  by (simp add: rest_kept_def)

lemma rest_kept_trans: "rest_kept s s' \<Longrightarrow> rest_kept s' s'' \<Longrightarrow> rest_kept s s''"
  by (simp add: rest_kept_def)

lemma uartputc_frame [simp]: "panicked (uartputc c s) = panicked s" "cpos (uartputc c s) = cpos s" "crt (uartputc c s) = crt s" "uart (uartputc c s) = uart s"
  "serial (uartputc c s) = serial s @ (if uart s then [word_of_int c] else [])"
  by (simp_all add: uartputc_def)

lemma consputc_ok:
  assumes "con_ok s"
  shows "\<exists>s'. consputc c s = Inr s' \<and> con_ok s' \<and> rest_kept s s' \<and>
    serial s' = serial s @ (if uart s then if c = BACKSPACE then [8, 32, 8] else [word_of_int c] else [])"
proof -
  define s1 where "s1 = (if c = BACKSPACE then uartputc 8 (uartputc 32 (uartputc 8 s)) else uartputc c s)"
  have "on_screen s1" "\<not> panicked s" using assms by (auto simp: s1_def on_screen_def con_ok_def)
  moreover have f: "crt s1 = crt s" "panicked s1 = panicked s" "uart s1 = uart s"
    "serial s1 = serial s @ (if uart s then if c = BACKSPACE then [8, 32, 8] else [word_of_int c] else [])" by (simp_all add: s1_def)
  moreover have "consputc c s = cgaputc c s1" using calculation(2) by (simp add: consputc_def s1_def)
  ultimately show ?thesis using cgaputc_ok [of s1 c] by (auto simp: con_ok_def rest_kept_def)
qed

lemma conputs_ok:
  assumes "con_ok s" and "BACKSPACE \<notin> set cs"
  shows "\<exists>s'. conputs cs s = Inr s' \<and> con_ok s' \<and> rest_kept s s' \<and> serial s' = serial s @ (if uart s then map word_of_int cs else [])"
  using assms
proof (induction cs arbitrary: s)
  case (Cons c cs)
  obtain s1 where s1: "consputc c s = Inr s1" "con_ok s1" "rest_kept s s1" "serial s1 = serial s @ (if uart s then [word_of_int c] else [])"
    using consputc_ok [OF Cons.prems(1), of c] Cons.prems(2) by auto
  moreover have "uart s1 = uart s" using s1(3) by (simp add: rest_kept_def)
  ultimately show ?case using Cons.IH [OF s1(2)] Cons.prems(2) rest_kept_trans [OF s1(3)] by auto
qed simp

lemma con_digits_char: "1 < b \<Longrightarrow> b \<le> 16 \<Longrightarrow> c \<in> set (con_digits b x) \<Longrightarrow> 0 < c \<and> c < 103"
proof (induction x rule: less_induct)
  case (less x)
  have "x mod b < 16" using less.prems(1,2) by (meson le_trans mod_less_divisor not_le not_less_zero less_le_trans zero_less_one less_trans)
  then have d: "0 < con_digit (x mod b) \<and> con_digit (x mod b) < 103" by (auto simp: con_digit_def)
  show ?case
  proof (cases "c = con_digit (x mod b)")
    case False
    then have "x div b \<noteq> 0" "c \<in> set (con_digits b (x div b))" using less.prems by (auto simp: con_digits.simps [of b x] split: if_splits)
    moreover have "x div b < x" using calculation(1) less.prems(1) by (simp add: div_eq_0_iff)
    ultimately show ?thesis using less by blast
  qed (use d in simp)
qed

lemma con_printint_char: "1 < b \<Longrightarrow> b \<le> 16 \<Longrightarrow> c \<in> set (con_printint x b sg) \<Longrightarrow> 0 < c \<and> c < 103"
  using con_digits_char by (auto simp: con_printint_def Let_def split: if_splits)

lemma cprintf_char: "c \<in> set (cprintf_chars strs ap k fmt) \<Longrightarrow> 0 \<le> c \<and> c < 256"
proof (induction strs ap k fmt rule: cprintf_chars.induct)
  case (3 strs ap k a d fmt)
  have u: "uint x < 256" for x :: uchar using unsigned_less [of x, where ?'a = int] by simp
  have p: "0 \<le> c \<and> c < 256" if "c \<in> set (con_printint x b sg)" "b = 10 \<or> b = 16" for x b sg
    using con_printint_char [of b c x sg] that by auto
  show ?case using 3 p u by (auto split: if_splits)
next
  case (2 strs ap k a)
  then show ?case using unsigned_less [of a, where ?'a = int] by (auto split: if_splits)
qed simp

text \<open>C21: Formatted output from a console that is alive: every format, with any arguments, is printed
  to the end; the cursor stays inside the 24 rows of text, no cell outside them is written, and the
  serial line receives exactly the formatted characters.\<close>

theorem cprintf_screen:
  assumes "con_ok s"
  shows "\<exists>s'. cprintf strs ap fmt s = Inr s' \<and> con_ok s' \<and> (\<forall>k \<ge> 24 * 80. crt s' k = crt s k) \<and>
    serial s' = serial s @ (if uart s then map word_of_int (cprintf_chars strs ap 0 fmt) else [])"
proof -
  have "BACKSPACE \<notin> set (cprintf_chars strs ap 0 fmt)" using cprintf_char by (force simp: BACKSPACE_def)
  from conputs_ok [OF assms this] show ?thesis by (auto simp: cprintf_def rest_kept_def)
qed

section \<open>The input as two lists\<close>

text \<open>The characters a reader may take, and the line that is still being edited.\<close>

definition ready :: "inp \<Rightarrow> uchar list" where
  "ready i = ring_list INPUT_BUF (i_buf i) (i_r i) (unat (i_w i - i_r i))"

definition editing :: "inp \<Rightarrow> uchar list" where
  "editing i = ring_list INPUT_BUF (i_buf i) (i_w i) (unat (i_e i - i_w i))"

definition inp_ok :: "inp \<Rightarrow> bool" where
  "inp_ok i \<longleftrightarrow> length (i_buf i) = INPUT_BUF \<and> unat (i_w i - i_r i) + unat (i_e i - i_w i) \<le> INPUT_BUF \<and> 10 \<notin> set (editing i)"

text \<open>The line discipline on lists.\<close>

definition type_char :: "int \<Rightarrow> uchar list \<times> uchar list \<Rightarrow> uchar list \<times> uchar list" where
  "type_char c = (\<lambda>(rd, ed).
     if c = Ctl 80 then (rd, ed)
     else if c = Ctl 85 then (rd, [])
     else if c = Ctl 72 \<or> c = 0x7f then (rd, butlast ed)
     else if c \<noteq> 0 \<and> length rd + length ed < INPUT_BUF
     then let c = (if c = 13 then 10 else c); ed = ed @ [word_of_int c]
          in if c = 10 \<or> c = Ctl 68 \<or> length rd + length ed = INPUT_BUF then (rd @ ed, []) else (rd, ed)
     else (rd, ed))"

fun take_line :: "nat \<Rightarrow> nat \<Rightarrow> uchar list \<Rightarrow> uchar list \<Rightarrow> (uchar list \<times> bool) \<times> uchar list" where
  "take_line target 0 acc rd = ((acc, True), rd)"
| "take_line target (Suc n) acc [] = ((acc, False), [])"
| "take_line target (Suc n) acc (c # rd) =
     (if c = 4 then ((acc, True), if Suc n < target then c # rd else rd)
      else if c = 10 then ((acc @ [c], True), rd)
      else take_line target n (acc @ [c]) rd)"

lemma INPUT_dvd: "INPUT_BUF dvd 2 ^ 32"
  by (simp add: INPUT_BUF_def)

lemma inp_sum:
  assumes "inp_ok i"
  shows "unat (i_e i - i_r i) = unat (i_w i - i_r i) + unat (i_e i - i_w i)"
proof -
  have "i_e i - i_r i = (i_w i - i_r i) + (i_e i - i_w i)" by simp
  moreover have "unat (i_w i - i_r i) + unat (i_e i - i_w i) < 2 ^ 32" using assms by (simp add: inp_ok_def INPUT_BUF_def)
  ultimately show ?thesis by (simp only: unat_plus_if') simp
qed

lemma ready_editing:
  assumes "inp_ok i"
  shows "ready i @ editing i = ring_list INPUT_BUF (i_buf i) (i_r i) (unat (i_e i - i_r i))"
  unfolding inp_sum [OF assms] ready_def editing_def ring_list_add by simp

lemma lengths: "length (ready i) = unat (i_w i - i_r i)" "length (editing i) = unat (i_e i - i_w i)"
  by (simp_all add: ready_def editing_def)

lemma erase_one:
  assumes "inp_ok i" and "i_e i \<noteq> i_w i"
  defines "i' \<equiv> i\<lparr>i_e := i_e i - 1\<rparr>"
  shows "editing i = editing i' @ [i_buf i ! (unat (i_e i - 1) mod INPUT_BUF)]" and "ready i' = ready i" and "inp_ok i'"
proof -
  have "i_e i - i_w i \<noteq> 0" using assms(2) by simp
  then have u: "unat (i_e i - i_w i) = Suc (unat (i_e i - 1 - i_w i))"
    using unat_minus_one_uint [of "i_e i - i_w i"] unat_eq_zero [of "i_e i - i_w i"] by (simp add: algebra_simps)
  have "i_w i + word_of_nat (unat (i_e i - 1 - i_w i)) = i_e i - 1" by simp
  then show e: "editing i = editing i' @ [i_buf i ! (unat (i_e i - 1) mod INPUT_BUF)]"
    unfolding editing_def u ring_list_snoc by (simp add: i'_def)
  show "ready i' = ready i" by (simp add: ready_def i'_def)
  show "inp_ok i'" using assms(1) e u by (auto simp: inp_ok_def i'_def)
qed

lemma kill_line_ok:
  assumes "inp_ok i" and "con_ok s"
  shows "\<exists>i' s'. kill_line i s = Inr (i', s') \<and> inp_ok i' \<and> con_ok s' \<and> ready i' = ready i \<and> editing i' = [] \<and> i_wakeups i' = i_wakeups i"
  using assms
proof (induction "unat (i_e i - i_w i)" arbitrary: i s)
  case 0
  then have "i_e i = i_w i" by (simp add: unat_eq_zero)
  then show ?case using 0 by (subst kill_line.simps) (simp add: editing_def)
next
  case (Suc n)
  then have ne: "i_e i \<noteq> i_w i" by auto
  let ?i = "i\<lparr>i_e := i_e i - 1\<rparr>"
  note er = erase_one [OF Suc.prems(1) ne]
  have "length (editing i) = Suc (length (editing ?i))" using er(1) by simp
  then have n: "n = unat (i_e ?i - i_w ?i)" using Suc(2) by (simp add: lengths)
  have "i_buf i ! (unat (i_e i - 1) mod INPUT_BUF) \<noteq> 10" using Suc.prems(1) er(1) by (auto simp: inp_ok_def)
  moreover obtain s1 where s1: "consputc BACKSPACE s = Inr s1" "con_ok s1" using consputc_ok [OF Suc.prems(2)] by blast
  ultimately have "kill_line i s = kill_line ?i s1" using ne by (subst kill_line.simps) simp
  then show ?case using Suc(1) [OF n er(3) s1(2)] er(2) by auto
qed

lemma type_one:
  fixes c :: uchar
  assumes "inp_ok i" and "length (ready i) + length (editing i) < INPUT_BUF"
  defines "i' \<equiv> i\<lparr>i_buf := (i_buf i)[unat (i_e i) mod INPUT_BUF := c], i_e := i_e i + 1\<rparr>"
  shows "ready i' = ready i" and "editing i' = editing i @ [c]" and "c \<noteq> 10 \<Longrightarrow> inp_ok i'"
    and "inp_ok (i'\<lparr>i_w := i_e i', i_wakeups := k\<rparr>)" and "ready (i'\<lparr>i_w := i_e i', i_wakeups := k\<rparr>) = ready i @ editing i @ [c]"
    and "editing (i'\<lparr>i_w := i_e i', i_wakeups := k\<rparr>) = []"
    and "i_e i' = i_r i' + word_of_nat INPUT_BUF \<longleftrightarrow> Suc (length (ready i) + length (editing i)) = INPUT_BUF"
proof -
  let ?n = "unat (i_e i - i_r i)"
  have n: "?n = length (ready i) + length (editing i)" using inp_sum [OF assms(1)] by (simp add: lengths)
  have len: "length (i_buf i) = INPUT_BUF" using assms(1) by (simp add: inp_ok_def)
  have at: "i_r i + word_of_nat ?n = i_e i" by simp
  have lt: "?n < INPUT_BUF" using n assms(2) by simp
  have all: "ring_list INPUT_BUF (i_buf i') (i_r i) (Suc ?n) = (ready i @ editing i) @ [c]"
    using ring_list_put [OF INPUT_dvd len lt, of "i_r i" c] ready_editing [OF assms(1)] unfolding at by (simp add: i'_def)
  have up: "unat (i_e i + 1 - x) = Suc (unat (i_e i - x))" if "unat (i_e i - x) < 2 ^ 32 - 1" for x
    using that unat_add_word_of_nat [of "i_e i - x" 1] by (simp add: algebra_simps)
  have small: "unat (i_e i - i_r i) < 2 ^ 32 - 1" "unat (i_e i - i_w i) < 2 ^ 32 - 1"
    using n assms(2) by (auto simp: lengths INPUT_BUF_def)
  have en: "unat (i_e i' - i_r i) = Suc ?n" "unat (i_e i' - i_w i) = Suc (length (editing i))"
    using up [OF small(1)] up [OF small(2)] by (simp_all add: i'_def lengths)
  have tk: "take (length (ready i)) (ring_list INPUT_BUF (i_buf i') (i_r i) (Suc ?n)) = ring_list INPUT_BUF (i_buf i') (i_r i) (length (ready i))"
    using n by (intro ring_list_take) simp
  show r: "ready i' = ready i" using tk unfolding all by (simp add: ready_def lengths i'_def)
  have sel: "i_w i' = i_w i" "i_r i' = i_r i" by (simp_all add: i'_def)
  have sum: "Suc ?n = length (ready i) + Suc (length (editing i))" using n by simp
  show e: "editing i' = editing i @ [c]"
  proof -
    have "ring_list INPUT_BUF (i_buf i') (i_r i) (Suc ?n) = ready i' @ editing i'"
      unfolding sum ring_list_add ready_def [of i'] editing_def [of i'] sel en(2) lengths by simp
    then show ?thesis using all r by simp
  qed
  show "c \<noteq> 10 \<Longrightarrow> inp_ok i'" using assms(1,2) e r en len by (auto simp: inp_ok_def i'_def lengths)
  show "ready (i'\<lparr>i_w := i_e i', i_wakeups := k\<rparr>) = ready i @ editing i @ [c]"
    using all en(1) by (simp add: ready_def) (simp add: i'_def)
  show ed: "editing (i'\<lparr>i_w := i_e i', i_wakeups := k\<rparr>) = []" by (simp add: editing_def)
  show "inp_ok (i'\<lparr>i_w := i_e i', i_wakeups := k\<rparr>)" using ed en(1) n assms(2) len by (simp add: inp_ok_def) (simp add: i'_def)
  have "i_e i' = i_r i' + word_of_nat INPUT_BUF \<longleftrightarrow> i_e i' - i_r i = word_of_nat INPUT_BUF" by (auto simp: i'_def algebra_simps)
  also have "\<dots> \<longleftrightarrow> unat (i_e i' - i_r i) = unat (word_of_nat INPUT_BUF :: uint)" by (simp only: word_eq_iff_unsigned)
  finally show "i_e i' = i_r i' + word_of_nat INPUT_BUF \<longleftrightarrow> Suc (length (ready i) + length (editing i)) = INPUT_BUF"
    using en(1) n by (simp add: INPUT_BUF_def)
qed

definition lists :: "inp \<Rightarrow> uchar list \<times> uchar list" where
  "lists i = (ready i, editing i)"

lemma has_room: "inp_ok i \<Longrightarrow> i_e i - i_r i < word_of_nat INPUT_BUF \<longleftrightarrow> length (ready i) + length (editing i) < INPUT_BUF"
  by (simp add: word_less_nat_alt inp_sum lengths INPUT_BUF_def)

lemma byte_ten: "0 \<le> c \<Longrightarrow> c < 256 \<Longrightarrow> (word_of_int c :: uchar) = 10 \<longleftrightarrow> c = 10"
  by (simp add: word_uint_eq_iff uint_word_of_int)

lemma intr_char_ok:
  assumes i: "inp_ok i" and s: "con_ok s" and c: "0 \<le> c" "c < 256" and l: "BACKSPACE \<notin> set listing"
  shows "\<exists>i' s'. consoleintr_char listing c (i, s) = Inr (i', s') \<and> inp_ok i' \<and> con_ok s' \<and> lists i' = type_char c (lists i) \<and>
    i_wakeups i \<le> i_wakeups i' \<and> (ready i' \<noteq> ready i \<longrightarrow> i_wakeups i < i_wakeups i')"
proof -
  obtain s1 where s1: "consputc BACKSPACE s = Inr s1" "con_ok s1" using consputc_ok [OF s] by blast
  consider (list) "c = Ctl 80" | (kill) "c = Ctl 85" | (bsp) "c = Ctl 72 \<or> c = 0x7f" |
    (put) "c \<noteq> Ctl 80" "c \<noteq> Ctl 85" "\<not> (c = Ctl 72 \<or> c = 0x7f)" by blast
  then show ?thesis
  proof cases
    case list
    then show ?thesis using conputs_ok [OF s l] i by (auto simp: consoleintr_char_def lists_def type_char_def)
  next
    case kill
    then show ?thesis using kill_line_ok [OF i s] by (auto simp: consoleintr_char_def lists_def type_char_def Ctl_def)
  next
    case bsp
    then have b: "c \<noteq> Ctl 80" "c \<noteq> Ctl 85" by (auto simp: Ctl_def)
    show ?thesis
    proof (cases "i_e i = i_w i")
      case True
      then show ?thesis using bsp b i s by (auto simp: consoleintr_char_def lists_def type_char_def editing_def)
    next
      case False
      then show ?thesis using bsp b s1 erase_one [OF i False] by (auto simp: consoleintr_char_def lists_def type_char_def)
    qed
  next
    case put
    show ?thesis
    proof (cases "c \<noteq> 0 \<and> length (ready i) + length (editing i) < INPUT_BUF")
      case True
      define d where "d = (if c = 13 then 10 else c)"
      have d: "0 \<le> d" "d < 256" using c by (auto simp: d_def)
      obtain s2 where s2: "consputc d s = Inr s2" "con_ok s2" using consputc_ok [OF s] by blast
      note t = type_one [OF i conjunct2 [OF True], where c = "word_of_int d"]
      show ?thesis
        using True put s2 t byte_ten [OF d] has_room [OF i]
        by (auto simp: consoleintr_char_def lists_def type_char_def Let_def d_def [symmetric])
    next
      case False
      then show ?thesis using put i s has_room [OF i] by (auto simp: consoleintr_char_def lists_def type_char_def)
    qed
  qed
qed

lemma consoleintr_ok:
  assumes "inp_ok i" and "con_ok s" and "\<forall>c \<in> set cs. 0 \<le> c \<and> c < 256" and "BACKSPACE \<notin> set listing"
  shows "\<exists>i' s'. consoleintr listing cs (i, s) = Inr (i', s') \<and> inp_ok i' \<and> con_ok s' \<and> lists i' = fold type_char cs (lists i) \<and>
    i_wakeups i \<le> i_wakeups i' \<and> (ready i' \<noteq> ready i \<longrightarrow> i_wakeups i < i_wakeups i')"
  using assms(1-3)
proof (induction cs arbitrary: i s)
  case (Cons c cs)
  obtain i1 s1 where 1: "consoleintr_char listing c (i, s) = Inr (i1, s1)" "inp_ok i1" "con_ok s1" "lists i1 = type_char c (lists i)"
      "i_wakeups i \<le> i_wakeups i1" "ready i1 \<noteq> ready i \<longrightarrow> i_wakeups i < i_wakeups i1"
    using intr_char_ok [OF Cons.prems(1,2) _ _ assms(4), of c] Cons.prems(3) by auto
  from Cons.IH [OF 1(2,3)] Cons.prems(3) obtain i2 s2 where 2: "consoleintr listing cs (i1, s1) = Inr (i2, s2)" "inp_ok i2" "con_ok s2"
      "lists i2 = fold type_char cs (lists i1)" "i_wakeups i1 \<le> i_wakeups i2" "ready i2 \<noteq> ready i1 \<longrightarrow> i_wakeups i1 < i_wakeups i2" by auto
  show ?case using 1 2 by (intro exI [of _ i2] exI [of _ s2]) auto
qed simp

lemma take_one:
  assumes "inp_ok i" and "i_r i \<noteq> i_w i"
  defines "i' \<equiv> i\<lparr>i_r := i_r i + 1\<rparr>"
  shows "ready i = i_buf i ! (unat (i_r i) mod INPUT_BUF) # ready i'" and "editing i' = editing i" and "inp_ok i'"
proof -
  have "i_w i - i_r i \<noteq> 0" using assms(2) by simp
  then have u: "unat (i_w i - i_r i) = Suc (unat (i_w i - (i_r i + 1)))"
    using unat_minus_one_uint [of "i_w i - i_r i"] unat_eq_zero [of "i_w i - i_r i"] by (simp add: algebra_simps)
  show "ready i = i_buf i ! (unat (i_r i) mod INPUT_BUF) # ready i'" unfolding ready_def u ring_list_Suc by (simp add: i'_def)
  show e: "editing i' = editing i" by (simp add: editing_def i'_def)
  show "inp_ok i'" using assms(1) u e by (simp add: inp_ok_def i'_def)
qed

lemma consoleread_ok:
  assumes "inp_ok i" and "take_line target n acc (ready i) = ((bs, fin), rest)"
  shows "\<exists>i'. consoleread_loop killed target n acc i = (if fin then Line bs else if killed then Killed else Wait bs, i') \<and>
    lists i' = (rest, editing i) \<and> inp_ok i'"
  using assms
proof (induction n arbitrary: acc i)
  case 0
  then show ?case by (simp add: lists_def)
next
  case (Suc n)
  show ?case
  proof (cases "i_r i = i_w i")
    case True
    then have "ready i = []" by (simp add: ready_def)
    then show ?thesis using True Suc.prems by (auto simp: lists_def)
  next
    case False
    let ?c = "i_buf i ! (unat (i_r i) mod INPUT_BUF)" let ?i = "i\<lparr>i_r := i_r i + 1\<rparr>"
    note t = take_one [OF Suc.prems(1) False]
    consider "?c = 4" | "?c = 10" | "?c \<noteq> 4" "?c \<noteq> 10" by blast
    then show ?thesis
    proof cases
      case 1
      then show ?thesis using Suc.prems t False by (auto simp: lists_def Let_def split: if_splits)
    next
      case 2
      then show ?thesis using Suc.prems t False by (auto simp: lists_def Let_def)
    next
      case 3
      then have "take_line target n (acc @ [?c]) (ready ?i) = ((bs, fin), rest)" using Suc.prems(2) t(1) by simp
      from Suc.IH [OF t(3) this] show ?thesis using 3 False t(2) by (simp add: Let_def)
    qed
  qed
qed

text \<open>C18: The console implements a line discipline on two lists.  Typing any characters on a live console
  appends to the line being edited, rubs out its last character, kills it, or hands it to the reader when
  it is complete or the buffer is full, and whenever the reader's list grows the reader is woken.  A read
  then takes characters up to a newline, an end-of-file mark or its count, and waits exactly when the
  reader's list runs out.  The counters may wrap.\<close>

theorem console_lines:
  assumes "inp_ok i" and "con_ok s" and "\<forall>c \<in> set cs. 0 \<le> c \<and> c < 256" and "BACKSPACE \<notin> set listing"
  shows "\<exists>i' s'. consoleintr listing cs (i, s) = Inr (i', s') \<and> inp_ok i' \<and> con_ok s' \<and>
    (ready i', editing i') = fold type_char cs (ready i, editing i) \<and> (ready i' \<noteq> ready i \<longrightarrow> i_wakeups i < i_wakeups i') \<and>
    (\<forall>killed target n bs fin rest. take_line target n [] (ready i') = ((bs, fin), rest) \<longrightarrow>
      (\<exists>i''. consoleread_loop killed target n [] i' = (if fin then Line bs else if killed then Killed else Wait bs, i'') \<and>
        ready i'' = rest \<and> editing i'' = editing i' \<and> inp_ok i''))"
proof -
  obtain i' s' where *: "consoleintr listing cs (i, s) = Inr (i', s')" "inp_ok i'" "con_ok s'" "lists i' = fold type_char cs (lists i)"
      "ready i' \<noteq> ready i \<longrightarrow> i_wakeups i < i_wakeups i'"
    using consoleintr_ok [OF assms] by blast
  show ?thesis
  proof (rule exI [of _ i'], rule exI [of _ s'], intro conjI allI impI)
    show "consoleintr listing cs (i, s) = Inr (i', s')" "inp_ok i'" "con_ok s'" by (rule * )+
    show "(ready i', editing i') = fold type_char cs (ready i, editing i)" using *(4) by (simp add: lists_def)
    show "i_wakeups i < i_wakeups i'" if "ready i' \<noteq> ready i" using *(5) that by blast
    show "\<exists>i''. consoleread_loop killed target n [] i' = (if fin then Line bs else if killed then Killed else Wait bs, i'') \<and>
        ready i'' = rest \<and> editing i'' = editing i' \<and> inp_ok i''"
      if "take_line target n [] (ready i') = ((bs, fin), rest)" for killed target n bs fin rest
      using consoleread_ok [OF *(2) that, of killed] by (auto simp: lists_def)
  qed
qed

definition demo_con :: con where
  "demo_con = \<lparr>panicked = False, uart = True, serial = [], crt = \<lambda>_. 0, cpos = 0\<rparr>"

definition demo_inp :: inp where
  "demo_inp = \<lparr>i_buf = replicate 128 0, i_r = 0xFFFFFFFF, i_w = 0xFFFFFFFF, i_e = 0xFFFFFFFF, i_wakeups = 0\<rparr>"

text \<open>Typing \<open>a b DEL c RETURN\<close> with the counters about to wrap: the reader gets the three characters of
  the corrected line.\<close>

theorem console_lines_witness:
  "\<exists>i' s'. consoleintr [] [97, 98, 127, 99, 13] (demo_inp, demo_con) = Inr (i', s') \<and> ready i' = [97, 99, 10] \<and>
     fst (consoleread_loop False 64 64 [] i') = Line [97, 99, 10]"
proof -
  have ok: "inp_ok demo_inp" "con_ok demo_con" by (simp_all add: inp_ok_def demo_inp_def editing_def INPUT_BUF_def con_ok_def demo_con_def on_screen_def)
  have start: "(ready demo_inp, editing demo_inp) = ([], [])" by (simp add: ready_def editing_def demo_inp_def)
  have edit: "fold type_char [97, 98, 127, 99, 13] ([], []) = ([97, 99, 10], [])" by code_simp
  have chars: "\<forall>c \<in> set [97, 98, 127, 99, 13 :: int]. 0 \<le> c \<and> c < 256" "BACKSPACE \<notin> set []" by simp_all
  obtain i' s' where i': "consoleintr [] [97, 98, 127, 99, 13] (demo_inp, demo_con) = Inr (i', s')"
      "(ready i', editing i') = fold type_char [97, 98, 127, 99, 13] (ready demo_inp, editing demo_inp)"
      "\<forall>killed target n bs fin rest. take_line target n [] (ready i') = ((bs, fin), rest) \<longrightarrow>
        (\<exists>i''. consoleread_loop killed target n [] i' = (if fin then Line bs else if killed then Killed else Wait bs, i'') \<and>
          ready i'' = rest \<and> editing i'' = editing i' \<and> inp_ok i'')"
    using console_lines [OF ok chars] by (elim exE conjE) blast
  have r: "ready i' = [97, 99, 10]" using i'(2) unfolding start edit by simp
  have "take_line 64 64 [] (ready i') = (([97, 99, 10], True), [])" unfolding r by code_simp
  from i'(3) [rule_format, OF this, of False] show ?thesis using i'(1) r by auto
qed

theorem cprintf_screen_witness:
  "con_ok demo_con \<and> (\<exists>s'. cprintf (\<lambda>_. []) (\<lambda>_. 42) [37, 100, 10] demo_con = Inr s' \<and> con_ok s' \<and> serial s' = [52, 50, 10])"
proof -
  have ok: "con_ok demo_con" by (simp add: con_ok_def demo_con_def on_screen_def)
  have "map word_of_int (cprintf_chars (\<lambda>_. []) (\<lambda>_. 42) 0 [37, 100, 10]) = [52, 50, 10 :: uchar]" by code_simp
  then show ?thesis using cprintf_screen [OF ok, of "\<lambda>_. []" "\<lambda>_. 42" "[37, 100, 10]"] ok by (auto simp: demo_con_def)
qed

end
