(* ===== verification/Kbd.thy ===== *)
theory Kbd
  imports Console
begin

text \<open>
  The keyboard (\<open>src/kbd.c\<close>, \<open>src/kbd.h\<close>) and the receiving half of \<open>src/uart.c\<close>: scan codes become
  characters by way of the tables and the shift state, and the characters go to \<open>consoleintr\<close>.  The
  bytes that the controller has ready are a list; the handler runs until there are no more.
\<close>

section \<open>Tables\<close>

text \<open>A table with designated initializers: the positional entries first, then the indexed ones; the
  other entries are zero.\<close>

definition designated :: "uchar list \<Rightarrow> (nat \<times> uchar) list \<Rightarrow> uchar list" where
  "designated xs des = fold (\<lambda>(k, v) t. t[k := v]) des (xs @ replicate (256 - length xs) 0)"

definition SHIFT :: uint where "SHIFT = 1"
definition CTL :: uint where "CTL = 2"
definition CAPSLOCK :: uint where "CAPSLOCK = 8"
definition E0ESC :: uint where "E0ESC = 0x40"

definition shiftcode :: "uchar list" where
  "shiftcode = designated []
    [(0x1D, 2), (0x2A, 1), (0x36, 1), (0x38, 4), (0x9D, 2), (0xB8, 4)]"

definition togglecode :: "uchar list" where
  "togglecode = designated []
    [(0x3A, 8), (0x45, 16), (0x46, 32)]"

definition normalmap :: "uchar list" where
  "normalmap = designated [0, 27, 49, 50, 51, 52, 53, 54, 55, 56, 57, 48, 45, 61, 8, 9,
     113, 119, 101, 114, 116, 121, 117, 105, 111, 112, 91, 93, 10, 0, 97, 115,
     100, 102, 103, 104, 106, 107, 108, 59, 39, 96, 0, 92, 122, 120, 99, 118,
     98, 110, 109, 44, 46, 47, 0, 42, 0, 32, 0, 0, 0, 0, 0, 0,
     0, 0, 0, 0, 0, 0, 0, 55, 56, 57, 45, 52, 53, 54, 43, 49,
     50, 51, 48, 46, 0, 0, 0, 0]
    [(0x9C, 10), (0xB5, 47), (0xC8, 226), (0xD0, 227), (0xC9, 230), (0xD1, 231), (0xCB, 228), (0xCD, 229), (0x97, 224), (0xCF, 225), (0xD2, 232), (0xD3, 233)]"

definition shiftmap :: "uchar list" where
  "shiftmap = designated [0, 27, 33, 64, 35, 36, 37, 94, 38, 42, 40, 41, 95, 43, 8, 9,
     81, 87, 69, 82, 84, 89, 85, 73, 79, 80, 123, 125, 10, 0, 65, 83,
     68, 70, 71, 72, 74, 75, 76, 58, 34, 126, 0, 124, 90, 88, 67, 86,
     66, 78, 77, 60, 62, 63, 0, 42, 0, 32, 0, 0, 0, 0, 0, 0,
     0, 0, 0, 0, 0, 0, 0, 55, 56, 57, 45, 52, 53, 54, 43, 49,
     50, 51, 48, 46, 0, 0, 0, 0]
    [(0x9C, 10), (0xB5, 47), (0xC8, 226), (0xD0, 227), (0xC9, 230), (0xD1, 231), (0xCB, 228), (0xCD, 229), (0x97, 224), (0xCF, 225), (0xD2, 232), (0xD3, 233)]"

definition ctlmap :: "uchar list" where
  "ctlmap = designated [0, 0, 0, 0, 0, 0, 0, 0, 0, 0, 0, 0, 0, 0, 0, 0,
     17, 23, 5, 18, 20, 25, 21, 9, 15, 16, 0, 0, 13, 0, 1, 19,
     4, 6, 7, 8, 10, 11, 12, 0, 0, 0, 0, 28, 26, 24, 3, 22,
     2, 14, 13, 0, 0, 239, 0, 0]
    [(0x9C, 13), (0xB5, 239), (0xC8, 226), (0xD0, 227), (0xC9, 230), (0xD1, 231), (0xCB, 228), (0xCD, 229), (0x97, 224), (0xCF, 225), (0xD2, 232), (0xD3, 233)]"

lemma length_designated [simp]: "length xs \<le> 256 \<Longrightarrow> length (designated xs des) = 256"
proof -
  have "length (fold (\<lambda>(k, v) t. t[k := v]) des t) = length t" for t :: "uchar list"
    by (induction des arbitrary: t) auto
  then show "length xs \<le> 256 \<Longrightarrow> length (designated xs des) = 256" by (simp add: designated_def)
qed

lemma length_tables [simp]: "length shiftcode = 256" "length togglecode = 256" "length normalmap = 256" "length shiftmap = 256" "length ctlmap = 256"
  by (simp_all add: shiftcode_def togglecode_def normalmap_def shiftmap_def ctlmap_def)

section \<open>Reading keys\<close>

definition charcode :: "uchar list list" where
  "charcode = [normalmap, shiftmap, ctlmap, ctlmap]"

definition capital :: "uint \<Rightarrow> uint" where
  "capital c = (if 97 \<le> c \<and> c \<le> 122 then c + 65 - 97 else if 65 \<le> c \<and> c \<le> 90 then c + 97 - 65 else c)"

text \<open>\<open>kbdgetc\<close> when the controller holds the byte \<open>data\<close>; the second result is the new shift state.\<close>

definition kbdgetc :: "uchar \<Rightarrow> uint \<Rightarrow> (int \<times> uint) res" where
  "kbdgetc byte shift =
     (let data = ucast byte :: uint in
      if data = 0xE0 then Inr (0, shift OR E0ESC)
      else if data AND 0x80 \<noteq> 0
      then let data = (if shift AND E0ESC \<noteq> 0 then data else data AND 0x7F)
           in if unat data < length shiftcode then Inr (0, shift AND NOT (ucast (shiftcode ! unat data) OR E0ESC)) else Inl OutOfBounds
      else let (data, shift) = (if shift AND E0ESC \<noteq> 0 then (data OR 0x80, shift AND NOT E0ESC) else (data, shift))
           in if unat data \<ge> length shiftcode then Inl OutOfBounds
              else let shift = shift OR ucast (shiftcode ! unat data);
                       shift = shift XOR ucast (togglecode ! unat data);
                       k = unat (shift AND (CTL OR SHIFT))
                   in if k \<ge> length charcode then Inl OutOfBounds
                      else let c = ucast (charcode ! k ! unat data);
                               c = (if shift AND CAPSLOCK \<noteq> 0 then capital c else c)
                           in Inr (sint c, shift))"

fun kbd_chars :: "uchar list \<Rightarrow> uint \<Rightarrow> (int list \<times> uint) res" where
  "kbd_chars [] shift = Inr ([], shift)"
| "kbd_chars (b # bs) shift =
     bindE (kbdgetc b shift) (\<lambda>(c, shift). bindE (kbd_chars bs shift) (\<lambda>(cs, shift). Inr (c # cs, shift)))"

definition kbdintr :: "int list \<Rightarrow> uchar list \<Rightarrow> uint \<times> inp \<times> con \<Rightarrow> (uint \<times> inp \<times> con) res" where
  "kbdintr listing bs = (\<lambda>(shift, i, s).
     bindE (kbd_chars bs shift) (\<lambda>(cs, shift). bindE (consoleintr listing cs (i, s)) (\<lambda>(i, s). Inr (shift, i, s))))"

text \<open>\<open>uartgetc\<close> returns the received bytes as they are, when there is a serial line at all.\<close>

definition uartintr :: "int list \<Rightarrow> uchar list \<Rightarrow> inp \<times> con \<Rightarrow> (inp \<times> con) res" where
  "uartintr listing bs = (\<lambda>(i, s). consoleintr listing (if uart s then map (\<lambda>b. int (unat b)) bs else []) (i, s))"

section \<open>Every sequence of bytes is handled\<close>

lemma unat_byte: "unat (ucast (b :: uchar) :: uint) < 256"
  using unsigned_less [of b, where ?'a = nat] by (simp add: unsigned_ucast_eq take_bit_nat_eq_self)

lemma unat_byte_or: "unat (ucast (b :: uchar) OR 0x80 :: uint) < 256"
proof -
  have "ucast b OR 0x80 = (ucast (b OR 0x80) :: uint)" by (simp add: unsigned_or_eq)
  then show ?thesis using unat_byte [of "b OR 0x80"] by simp
qed

lemma unat_and_below: "unat (a AND b :: uint) \<le> unat a" "unat (a AND b :: uint) \<le> unat b"
  by (simp_all add: word_and_le1 word_and_le2 flip: word_le_nat_alt)

lemma capital_byte:
  assumes "unat c < 256"
  shows "unat (capital c) < 256"
proof -
  consider "97 \<le> c" "c \<le> 122" | "\<not> (97 \<le> c \<and> c \<le> 122)" "65 \<le> c" "c \<le> 90" | "\<not> (97 \<le> c \<and> c \<le> 122)" "\<not> (65 \<le> c \<and> c \<le> 90)" by blast
  then show ?thesis
  proof cases
    case 1
    then have "capital c = c - 32" by (simp add: capital_def)
    moreover have "32 \<le> c" using 1(1) by (simp add: word_le_nat_alt)
    ultimately show ?thesis using assms unat_sub [of 32 c] by simp
  next
    case 2
    then have "capital c = c + word_of_nat 32" by (auto simp: capital_def)
    then show ?thesis using 2(3) unat_add_word_of_nat [of c 32] by (simp add: word_le_nat_alt)
  next
    case 3
    then have "capital c = c" unfolding capital_def by meson
    then show ?thesis using assms by simp
  qed
qed

lemma sint_byte: "unat (c :: uint) < 256 \<Longrightarrow> 0 \<le> sint c \<and> sint c < 256"
proof -
  assume "unat c < 256"
  then have "uint c < 256" by (metis of_nat_less_iff of_nat_numeral uint_nat)
  moreover have "sint c = uint c"
  proof -
    have "- (2 ^ 31) \<le> uint c" by (rule order_trans [OF _ uint_ge_0]) simp
    then show ?thesis using calculation signed_take_bit_int_eq_self [of 31 "uint c"] by (simp add: sint_uint)
  qed
  ultimately show ?thesis by simp
qed

lemma charcode_ok: "unat (x AND (CTL OR SHIFT) :: uint) < length charcode"
  using unat_and_below(2) [of x "CTL OR SHIFT"] by (simp add: charcode_def CTL_def SHIFT_def)

lemma kbdgetc_ok: "\<exists>c shift'. kbdgetc b shift = Inr (c, shift') \<and> 0 \<le> c \<and> c < 256"
proof -
  have release: "unat (if p then ucast b else ucast b AND 0x7F :: uint) < 256" for p
    using unat_byte [of b] unat_and_below(1) [of "ucast b" "0x7F"] by (auto intro: le_less_trans)
  have press: "unat (if p then ucast b OR 0x80 else ucast b :: uint) < 256" for p
    using unat_byte [of b] unat_byte_or [of b] by auto
  have c: "0 \<le> sint (if p then capital (ucast x) else ucast (x :: uchar) :: uint) \<and> sint (if p then capital (ucast x) else ucast x :: uint) < 256" for p x
    using sint_byte unat_byte [of x] capital_byte by auto
  consider "ucast b = (0xE0 :: uint)" | "ucast b \<noteq> (0xE0 :: uint)" "ucast b AND 0x80 \<noteq> (0 :: uint)" |
    "ucast b \<noteq> (0xE0 :: uint)" "ucast b AND 0x80 = (0 :: uint)" by blast
  then show ?thesis
  proof cases
    case 1
    then show ?thesis by (simp add: kbdgetc_def)
  next
    case 2
    then show ?thesis using release [of "shift AND E0ESC \<noteq> 0"] unfolding kbdgetc_def Let_def length_tables by auto
  next
    case 3
    define d where "d = (if shift AND E0ESC \<noteq> 0 then ucast b OR 0x80 else ucast b :: uint)"
    define sh where "sh = (if shift AND E0ESC \<noteq> 0 then shift AND NOT E0ESC else shift)"
    have "\<not> 256 \<le> unat d" using press [of "shift AND E0ESC \<noteq> 0"] by (simp add: d_def)
    moreover have "\<not> length charcode \<le> unat (x AND (CTL OR SHIFT))" for x using charcode_ok [of x] by simp
    moreover have "(if shift AND E0ESC \<noteq> 0 then (ucast b OR 0x80, shift AND NOT E0ESC) else (ucast b, shift)) = (d, sh)"
      by (simp add: d_def sh_def)
    ultimately show ?thesis using 3 c unfolding kbdgetc_def Let_def length_tables by (simp del: if_split_asm)
  qed
qed

lemma kbd_chars_ok: "\<exists>cs shift'. kbd_chars bs shift = Inr (cs, shift') \<and> (\<forall>c \<in> set cs. 0 \<le> c \<and> c < 256)"
proof (induction bs arbitrary: shift)
  case (Cons b bs)
  obtain c sh where "kbdgetc b shift = Inr (c, sh)" "0 \<le> c" "c < 256" using kbdgetc_ok by blast
  then show ?case using Cons.IH [of sh] by auto
qed simp

text \<open>C20: Whatever bytes the keyboard or the serial line deliver, in whatever shift state, the interrupt
  handlers run to the end without reading outside a table, keep the input buffer and the console well
  formed, and apply the line discipline to characters of one byte each.\<close>

theorem input_interrupts:
  assumes "inp_ok i" and "con_ok s" and "BACKSPACE \<notin> set listing"
  shows "(\<exists>shift' i' s' cs. kbdintr listing bs (shift, i, s) = Inr (shift', i', s') \<and> inp_ok i' \<and> con_ok s' \<and>
      kbd_chars bs shift = Inr (cs, shift') \<and> (ready i', editing i') = fold type_char cs (ready i, editing i)) \<and>
    (\<exists>i' s'. uartintr listing bs (i, s) = Inr (i', s') \<and> inp_ok i' \<and> con_ok s' \<and>
      (ready i', editing i') = fold type_char (if uart s then map (\<lambda>b. int (unat b)) bs else []) (ready i, editing i))"
proof
  obtain cs shift' where k: "kbd_chars bs shift = Inr (cs, shift')" "\<forall>c \<in> set cs. 0 \<le> c \<and> c < 256" using kbd_chars_ok by blast
  show "\<exists>shift' i' s' cs. kbdintr listing bs (shift, i, s) = Inr (shift', i', s') \<and> inp_ok i' \<and> con_ok s' \<and>
      kbd_chars bs shift = Inr (cs, shift') \<and> (ready i', editing i') = fold type_char cs (ready i, editing i)"
    using consoleintr_ok [OF assms(1,2) k(2) assms(3)] k(1) by (auto simp: kbdintr_def lists_def)
  let ?cs = "if uart s then map (\<lambda>b. int (unat b)) bs else []"
  have "\<forall>c \<in> set ?cs. 0 \<le> c \<and> c < 256"
    using unsigned_less [where ?'a = int and ?'b = 8] by (auto split: if_splits)
  from consoleintr_ok [OF assms(1,2) this assms(3)] show "\<exists>i' s'. uartintr listing bs (i, s) = Inr (i', s') \<and> inp_ok i' \<and> con_ok s' \<and>
      (ready i', editing i') = fold type_char ?cs (ready i, editing i)"
    unfolding uartintr_def prod.case lists_def by blast
qed

text \<open>Shift, the key \<open>A\<close>, and both released: the capital letter arrives, and the shift state is as before.\<close>

theorem input_interrupts_witness:
  "\<exists>i' s'. kbdintr [] [0x2A, 0x1E, 0x9E, 0xAA] (0, demo_inp, demo_con) = Inr (0, i', s') \<and> editing i' = [65]"
proof -
  have ok: "inp_ok demo_inp" "con_ok demo_con" "BACKSPACE \<notin> set []"
    by (simp_all add: inp_ok_def demo_inp_def editing_def INPUT_BUF_def con_ok_def demo_con_def on_screen_def)
  have "shiftcode ! 42 = 1" "shiftcode ! 30 = 0" "togglecode ! 42 = 0" "togglecode ! 30 = 0" "shiftmap ! 42 = 0" "shiftmap ! 30 = 65"
    by (simp_all add: shiftcode_def togglecode_def shiftmap_def designated_def nth_append)
  then have k: "kbd_chars [0x2A, 0x1E, 0x9E, 0xAA] 0 = Inr ([0, 65, 0, 0], 0)"
    by (simp add: kbdgetc_def Let_def E0ESC_def SHIFT_def CTL_def CAPSLOCK_def charcode_def)
  have "(ready demo_inp, editing demo_inp) = ([], [])" by (simp add: ready_def editing_def demo_inp_def)
  moreover have "fold type_char [0, 65, 0, 0] ([], []) = ([], [65])" by code_simp
  ultimately show ?thesis using input_interrupts [OF ok, of "[0x2A, 0x1E, 0x9E, 0xAA]" 0] k by auto
qed

end
