(* ===== verification/ConsoleDev.thy ===== *)
theory ConsoleDev
  imports Kbd FsProps
begin

text \<open>
  The console as a device of the file system (\<open>consoleread\<close>, \<open>consolewrite\<close> and the entries that
  \<open>consoleinit\<close> makes in \<open>devsw\<close>, \<open>src/console.c\<close>).  The state of the file system is extended by
  the input buffer and the console; whether the reading process has been killed is an argument.
\<close>

record cfs = fsdev +
  c_in :: inp
  c_out :: con

definition CONSOLE :: nat where "CONSOLE = 1"

text \<open>A call of \<open>consoleread\<close> runs in stretches: from its start, or from where \<open>sleep\<close> comes back, to its return or
  to the next \<open>sleep\<close>.  \<open>RDone v bs\<close>: it has returned \<open>v\<close> with the bytes \<open>bs\<close>, and has the inode locked again.
  \<open>RWait bs\<close>: it sleeps, having copied \<open>bs\<close> so far; the inode, given up at the start, stays free for others.  (What was
  copied for a process that is killed does not matter: it never returns to its program.)\<close>

datatype cread = RDone int "uchar list" | RWait "uchar list"

definition consoleread_stretch :: "bool \<Rightarrow> nat \<Rightarrow> nat \<Rightarrow> nat \<Rightarrow> uchar list \<Rightarrow> cfs \<Rightarrow> (cread \<times> cfs) res" where
  "consoleread_stretch killed i target n acc s =
     (case consoleread_loop killed target n acc (c_in s) of (r, inp) \<Rightarrow>
      let s = s\<lparr>c_in := inp\<rparr> in
      case r of
        Line bs \<Rightarrow> bindE (ilock (Some i) s) (\<lambda>s. Inr (RDone (int (length bs)) bs, s))
      | Killed \<Rightarrow> bindE (ilock (Some i) s) (\<lambda>s. Inr (RDone (-1) [], s))
      | Wait bs \<Rightarrow> Inr (RWait bs, s))"

definition consoleread_start :: "bool \<Rightarrow> nat \<Rightarrow> uint \<Rightarrow> cfs \<Rightarrow> (cread \<times> cfs) res" where
  "consoleread_start killed i n s =
     bindE (iunlock (Some i) s) (consoleread_stretch killed i (unat n) (nat (sint n)) [])"

definition consoleread_resume :: "bool \<Rightarrow> nat \<Rightarrow> uint \<Rightarrow> uchar list \<Rightarrow> cfs \<Rightarrow> (cread \<times> cfs) res" where
  "consoleread_resume killed i n acc s = consoleread_stretch killed i (unat n) (nat (sint n) - length acc) acc s"

text \<open>The entry for the device table, whose callers see a call that sleeps as one that has not returned.\<close>

definition consoleread :: "bool \<Rightarrow> nat \<Rightarrow> uint \<Rightarrow> cfs \<Rightarrow> (int \<times> uchar list \<times> cfs) res" where
  "consoleread killed i n s =
     bindE (consoleread_start killed i n s) (\<lambda>(r, s).
     case r of RDone v bs \<Rightarrow> Inr (v, bs, s) | RWait bs \<Rightarrow> Inl Asleep)"

definition consolewrite :: "nat \<Rightarrow> uchar list \<Rightarrow> uint \<Rightarrow> cfs \<Rightarrow> (int \<times> cfs) res" where
  "consolewrite i buf n s =
     bindE (iunlock (Some i) s) (\<lambda>s.
     bindE (conputs (map (\<lambda>b. int (unat b)) (take (nat (sint n)) buf)) (c_out s)) (\<lambda>con.
     bindE (ilock (Some i) (s\<lparr>c_out := con\<rparr>)) (\<lambda>s. Inr (sint n, s))))"

definition console_read_entry :: "bool \<Rightarrow> cfs devread" where
  "console_read_entry killed m = (if m = CONSOLE then Some (consoleread killed) else None)"

definition console_write_entry :: "cfs devwrite" where
  "console_write_entry m = (if m = CONSOLE then Some consolewrite else None)"

section \<open>Through the file system\<close>

text \<open>A locked inode of the console.\<close>

definition console_inode :: "nat \<Rightarrow> cfs \<Rightarrow> bool" where
  "console_inode i s \<longleftrightarrow> i < length (icache s) \<and> i_type (icache s ! i) = T_DEV \<and> i_major (icache s ! i) = 1 \<and>
     i_busy (icache s ! i) \<and> 1 \<le> i_ref (icache s ! i) \<and> i_valid (icache s ! i)"

definition released :: "nat \<Rightarrow> cfs \<Rightarrow> cfs" where
  "released i s = (upd_inode i (\<lambda>ip. ip\<lparr>i_busy := False\<rparr>) s)\<lparr>iwoken := i # iwoken s\<rparr>"

lemma console_unlock: "console_inode i s \<Longrightarrow> iunlock (Some i) s = Inr (released i s)"
  by (simp add: iunlock_def console_inode_def released_def)

lemma released_io [simp]: "c_in (released i s) = c_in s" "c_out (released i s) = c_out s"
  by (simp_all add: released_def upd_inode_def)

lemma console_lock:
  assumes "console_inode i s"
  shows "ilock (Some i) ((released i s)\<lparr>c_in := a, c_out := b\<rparr>) = Inr (s\<lparr>iwoken := i # iwoken s, c_in := a, c_out := b\<rparr>)"
proof -
  have b: "i < length (icache s)" "i_busy (icache s ! i)" "1 \<le> i_ref (icache s ! i)" "i_valid (icache s ! i)"
    using assms by (auto simp: console_inode_def)
  have "(icache s ! i)\<lparr>i_busy := True\<rparr> = icache s ! i" using b(2) by (cases "icache s ! i") simp
  then have "(icache s)[i := (icache s ! i)\<lparr>i_busy := True\<rparr>] = icache s" by simp
  then show ?thesis using b by (simp add: ilock_def released_def upd_inode_def Let_def)
qed

text \<open>An inode of the console that nobody has locked.\<close>

definition console_free :: "nat \<Rightarrow> cfs \<Rightarrow> bool" where
  "console_free i s \<longleftrightarrow> i < length (icache s) \<and> \<not> i_busy (icache s ! i) \<and> 1 \<le> i_ref (icache s ! i) \<and> i_valid (icache s ! i)"

definition relocked :: "nat \<Rightarrow> cfs \<Rightarrow> cfs" where
  "relocked i s = upd_inode i (\<lambda>ip. ip\<lparr>i_busy := True\<rparr>) s"

lemma console_free_lock: "console_free i s \<Longrightarrow> ilock (Some i) (s\<lparr>c_in := a\<rparr>) = Inr (relocked i (s\<lparr>c_in := a\<rparr>))"
  by (simp add: ilock_def console_free_def relocked_def upd_inode_def Let_def)

lemma released_free: "console_inode i s \<Longrightarrow> console_free i ((released i s)\<lparr>c_in := a\<rparr>)"
  by (simp add: console_inode_def console_free_def released_def upd_inode_def)

lemma released_relocked:
  assumes "console_inode i s"
  shows "relocked i ((released i s)\<lparr>c_in := a\<rparr>) = s\<lparr>iwoken := i # iwoken s, c_in := a\<rparr>"
proof -
  have "relocked i ((released i s)\<lparr>c_in := a\<rparr>) = relocked i ((released i s)\<lparr>c_in := a, c_out := c_out s\<rparr>)" by (simp add: released_def upd_inode_def)
  moreover have "ilock (Some i) ((released i s)\<lparr>c_in := a, c_out := c_out s\<rparr>) = ilock (Some i) ((released i s)\<lparr>c_in := a\<rparr>)"
    by (simp add: released_def upd_inode_def)
  ultimately show ?thesis
    using console_lock [OF assms, where a = a and b = "c_out s"] console_free_lock [of i "released i s" a] released_free [OF assms, of "c_in s"]
    by (simp add: console_free_def)
qed

lemma consoleread_stretch_ok:
  assumes "console_free i u" and "inp_ok (c_in u)" and "take_line target n acc (ready (c_in u)) = ((bs, fin), rest)"
  shows "\<exists>inp. consoleread_stretch killed i target n acc u =
      Inr (if fin then (RDone (int (length bs)) bs, relocked i (u\<lparr>c_in := inp\<rparr>))
           else if killed then (RDone (-1) [], relocked i (u\<lparr>c_in := inp\<rparr>)) else (RWait bs, u\<lparr>c_in := inp\<rparr>)) \<and>
    inp_ok inp \<and> ready inp = rest \<and> editing inp = editing (c_in u)"
proof -
  obtain inp where inp: "consoleread_loop killed target n acc (c_in u) = (if fin then Line bs else if killed then Killed else Wait bs, inp)"
      "lists inp = (rest, editing (c_in u))" "inp_ok inp"
    using consoleread_ok [OF assms(2,3), of killed] by blast
  then show ?thesis
    using console_free_lock [OF assms(1), of inp] by (intro exI [of _ inp]) (auto simp: consoleread_stretch_def Let_def lists_def)
qed

lemma consoleread_start_ok:
  assumes "console_inode i s" and "inp_ok (c_in s)" and "take_line (unat n) (nat (sint n)) [] (ready (c_in s)) = ((bs, fin), rest)"
  shows "\<exists>inp. consoleread_start killed i n s =
      Inr (if fin then (RDone (int (length bs)) bs, s\<lparr>iwoken := i # iwoken s, c_in := inp\<rparr>)
           else if killed then (RDone (-1) [], s\<lparr>iwoken := i # iwoken s, c_in := inp\<rparr>) else (RWait bs, (released i s)\<lparr>c_in := inp\<rparr>)) \<and>
    inp_ok inp \<and> ready inp = rest \<and> editing inp = editing (c_in s)"
proof -
  have "console_free i (released i s)" using released_free [OF assms(1), of "c_in s"] by (simp add: console_free_def)
  then show ?thesis
    using consoleread_stretch_ok [of i "released i s" "unat n" "nat (sint n)" "[]" bs fin rest killed] assms
      console_unlock [OF assms(1)] released_relocked [OF assms(1)] by (auto simp: consoleread_start_def)
qed

text \<open>C19: The console is a device file.  Through a locked inode of the console, \<open>readi\<close> delivers the
  line that the line discipline has ready; if there is none it returns \<open>-1\<close> for a killed process, and otherwise goes to sleep,
  and then, until the call returns, the inode is unlocked, with those who waited for it woken, and the characters
  read so far are kept.  A sleeping call that resumes, with the inode not locked by another process at that moment, goes
  on with what has been typed since: it returns the line with the inode locked, returns \<open>-1\<close> with the inode locked if
  the process has been killed, or sleeps again with the inode left alone.  \<open>writei\<close> puts every byte on the console.
  Every call that returns from a locked inode has the inode locked again, and nothing of the file system has
  changed but the record that waiters on the inode were woken.\<close>

theorem console_device:
  assumes "console_inode i s" and "inp_ok (c_in s)" and "con_ok (c_out s)"
  shows "(\<forall>n off bs rest. take_line (unat n) (nat (sint n)) [] (ready (c_in s)) = ((bs, True), rest) \<longrightarrow>
      (\<exists>inp. readi (console_read_entry killed) i off n s = Inr (int (length bs), bs, s\<lparr>iwoken := i # iwoken s, c_in := inp\<rparr>) \<and>
        inp_ok inp \<and> ready inp = rest \<and> editing inp = editing (c_in s))) \<and>
    (\<forall>n off bs rest. take_line (unat n) (nat (sint n)) [] (ready (c_in s)) = ((bs, False), rest) \<longrightarrow>
      (\<exists>inp. inp_ok inp \<and> ready inp = rest \<and> editing inp = editing (c_in s) \<and>
        (if killed then readi (console_read_entry killed) i off n s = Inr (-1, [], s\<lparr>iwoken := i # iwoken s, c_in := inp\<rparr>)
         else readi (console_read_entry killed) i off n s = Inl Asleep \<and>
           (\<exists>t. consoleread_start killed i n s = Inr (RWait bs, t) \<and> c_in t = inp \<and> console_free i t \<and> i \<in> set (iwoken t))))) \<and>
    (\<forall>u n acc bs fin rest. console_free i u \<and> inp_ok (c_in u) \<and>
        take_line (unat n) (nat (sint n) - length acc) acc (ready (c_in u)) = ((bs, fin), rest) \<longrightarrow>
      (\<exists>inp. consoleread_resume killed i n acc u =
           Inr (if fin then (RDone (int (length bs)) bs, relocked i (u\<lparr>c_in := inp\<rparr>))
                else if killed then (RDone (-1) [], relocked i (u\<lparr>c_in := inp\<rparr>)) else (RWait bs, u\<lparr>c_in := inp\<rparr>)) \<and>
        inp_ok inp \<and> ready inp = rest \<and> editing inp = editing (c_in u))) \<and>
    (\<forall>src off n. sint n = int (length src) \<longrightarrow>
      (\<exists>con. writei console_write_entry i src off n s = Inr (int (length src), s\<lparr>iwoken := i # iwoken s, c_out := con\<rparr>) \<and>
        con_ok con \<and> serial con = serial (c_out s) @ (if uart (c_out s) then src else [])))"
proof (intro conjI allI impI)
  have dev: "i_type (icache s ! i) = T_DEV" "i_major (icache s ! i) = 1" using assms(1) by (auto simp: console_inode_def)
  have rd: "readi (console_read_entry killed) i off n s = consoleread killed i n s" for off n
    using dev by (simp add: readi_def console_read_entry_def CONSOLE_def NDEV_def)
  fix n off :: uint and bs rest
  {
    assume "take_line (unat n) (nat (sint n)) [] (ready (c_in s)) = ((bs, True), rest)"
    from consoleread_start_ok [OF assms(1,2) this, of killed] show
      "\<exists>inp. readi (console_read_entry killed) i off n s = Inr (int (length bs), bs, s\<lparr>iwoken := i # iwoken s, c_in := inp\<rparr>) \<and>
        inp_ok inp \<and> ready inp = rest \<and> editing inp = editing (c_in s)" unfolding rd by (auto simp: consoleread_def)
  next
    assume "take_line (unat n) (nat (sint n)) [] (ready (c_in s)) = ((bs, False), rest)"
    from consoleread_start_ok [OF assms(1,2) this, of killed] obtain inp where
      inp: "inp_ok inp" "ready inp = rest" "editing inp = editing (c_in s)" and
      r: "consoleread_start killed i n s = Inr (if killed then (RDone (-1) [], s\<lparr>iwoken := i # iwoken s, c_in := inp\<rparr>) else (RWait bs, (released i s)\<lparr>c_in := inp\<rparr>))"
      by auto
    have "i \<in> set (iwoken ((released i s)\<lparr>c_in := inp\<rparr>))" by (simp add: released_def)
    then show "\<exists>inp. inp_ok inp \<and> ready inp = rest \<and> editing inp = editing (c_in s) \<and>
        (if killed then readi (console_read_entry killed) i off n s = Inr (-1, [], s\<lparr>iwoken := i # iwoken s, c_in := inp\<rparr>)
         else readi (console_read_entry killed) i off n s = Inl Asleep \<and>
           (\<exists>t. consoleread_start killed i n s = Inr (RWait bs, t) \<and> c_in t = inp \<and> console_free i t \<and> i \<in> set (iwoken t)))"
      unfolding rd using inp r released_free [OF assms(1), of inp] by (intro exI [of _ inp], cases killed) (simp_all add: consoleread_def)
  }
next
  fix u and n :: uint and acc bs fin rest
  assume "console_free i u \<and> inp_ok (c_in u) \<and> take_line (unat n) (nat (sint n) - length acc) acc (ready (c_in u)) = ((bs, fin), rest)"
  then show "\<exists>inp. consoleread_resume killed i n acc u =
           Inr (if fin then (RDone (int (length bs)) bs, relocked i (u\<lparr>c_in := inp\<rparr>))
                else if killed then (RDone (-1) [], relocked i (u\<lparr>c_in := inp\<rparr>)) else (RWait bs, u\<lparr>c_in := inp\<rparr>)) \<and>
        inp_ok inp \<and> ready inp = rest \<and> editing inp = editing (c_in u)"
    unfolding consoleread_resume_def using consoleread_stretch_ok by blast
next
  have dev: "i_type (icache s ! i) = T_DEV" "i_major (icache s ! i) = 1" using assms(1) by (auto simp: console_inode_def)
  fix src :: "uchar list" and off n :: uint assume n: "sint n = int (length src)"
  let ?cs = "map (\<lambda>b. int (unat b)) src"
  have "int (unat b) \<noteq> BACKSPACE" for b :: uchar using unsigned_less [of b, where ?'a = int] by (simp add: BACKSPACE_def)
  then have "BACKSPACE \<notin> set ?cs" by (metis (no_types, lifting) in_set_conv_nth length_map nth_map)
  then obtain con where con: "conputs ?cs (c_out s) = Inr con" "con_ok con" "serial con = serial (c_out s) @ (if uart (c_out s) then map word_of_int ?cs else [])"
    using conputs_ok [OF assms(3)] by blast
  have "writei console_write_entry i src off n s = consolewrite i src n s"
    using dev by (simp add: writei_def console_write_entry_def CONSOLE_def NDEV_def)
  also have "\<dots> = Inr (int (length src), s\<lparr>iwoken := i # iwoken s, c_out := con\<rparr>)"
    using console_unlock [OF assms(1)] console_lock [OF assms(1), where a = "c_in s" and b = con] con(1) n
    by (simp add: consolewrite_def) (simp add: released_def upd_inode_def)
  finally show "\<exists>con. writei console_write_entry i src off n s = Inr (int (length src), s\<lparr>iwoken := i # iwoken s, c_out := con\<rparr>) \<and>
        con_ok con \<and> serial con = serial (c_out s) @ (if uart (c_out s) then src else [])" using con(2,3) by (auto simp: comp_def)
qed

definition demo_line :: inp where
  "demo_line = \<lparr>i_buf = [104, 105, 10] @ replicate 125 0, i_r = 0, i_w = 3, i_e = 3, i_wakeups = 1\<rparr>"

definition demo_cfs :: cfs where
  "demo_cfs = fsdev.extend (demo_fs\<lparr>icache := [demo_ip\<lparr>i_type := T_DEV, i_major := 1\<rparr>]\<rparr>) (cfs.fields demo_line demo_con)"

lemma demo_cfs_ok: "console_inode 0 demo_cfs" "c_in demo_cfs = demo_line" "c_out demo_cfs = demo_con" "inp_ok demo_line" "con_ok demo_con" "ready demo_line = [104, 105, 10]"
  by (simp_all add: console_inode_def demo_cfs_def fsdev.defs cfs.defs demo_ip_def inp_ok_def demo_line_def editing_def ready_def INPUT_BUF_def
      con_ok_def demo_con_def on_screen_def ring_list_def upt_rec nth_append)

lemma demo_waits: "take_line (unat (2 :: uint)) (nat (sint (2 :: uint))) [] (ready (c_in (demo_cfs\<lparr>c_in := demo_inp\<rparr>))) = (([], False), [])"
proof -
  have "ready demo_inp = []" by (simp add: ready_def demo_inp_def)
  then show ?thesis by (simp add: numeral_2_eq_2)
qed

theorem console_device_witness:
  "console_inode 0 demo_cfs \<and>
   (\<exists>inp. readi (console_read_entry False) 0 0 64 demo_cfs = Inr (3, [104, 105, 10], demo_cfs\<lparr>iwoken := 0 # iwoken demo_cfs, c_in := inp\<rparr>) \<and> ready inp = []) \<and>
   (\<exists>t. consoleread_start False 0 2 (demo_cfs\<lparr>c_in := demo_inp\<rparr>) = Inr (RWait [], t) \<and> console_free 0 t) \<and>
   (\<exists>con. writei console_write_entry 0 [111, 107] 0 2 demo_cfs = Inr (2, demo_cfs\<lparr>iwoken := 0 # iwoken demo_cfs, c_out := con\<rparr>) \<and> serial con = [111, 107])"
proof -
  have ok: "inp_ok (c_in demo_cfs)" "con_ok (c_out demo_cfs)" using demo_cfs_ok by simp_all
  have t: "take_line (unat (64 :: uint)) (nat (sint (64 :: uint))) [] (ready (c_in demo_cfs)) = (([104, 105, 10], True), [])"
    unfolding demo_cfs_ok by code_simp
  note d = console_device [OF demo_cfs_ok(1) ok, of False]
  have "\<exists>inp. readi (console_read_entry False) 0 0 64 demo_cfs = Inr (int (length [104, 105, 10 :: uchar]), [104, 105, 10], demo_cfs\<lparr>iwoken := 0 # iwoken demo_cfs, c_in := inp\<rparr>) \<and> ready inp = []"
    using d [THEN conjunct1, rule_format, OF t, of 0] by blast
  moreover have "\<exists>con. writei console_write_entry 0 [111, 107] 0 2 demo_cfs = Inr (int (length [111, 107 :: uchar]), demo_cfs\<lparr>iwoken := 0 # iwoken demo_cfs, c_out := con\<rparr>) \<and>
      serial con = serial (c_out demo_cfs) @ (if uart (c_out demo_cfs) then [111, 107] else [])"
    using d [THEN conjunct2, THEN conjunct2, THEN conjunct2, rule_format, of 2 "[111, 107]" 0] by auto
  moreover have "\<exists>t. consoleread_start False 0 2 (demo_cfs\<lparr>c_in := demo_inp\<rparr>) = Inr (RWait [], t) \<and> console_free 0 t"
  proof -
    let ?s = "demo_cfs\<lparr>c_in := demo_inp\<rparr>"
    have "console_inode 0 ?s" "inp_ok (c_in ?s)" "con_ok (c_out ?s)"
      using demo_cfs_ok(1,3,5) by (simp_all add: console_inode_def inp_ok_def demo_inp_def editing_def INPUT_BUF_def)
    from console_device [OF this, of False, THEN conjunct2, THEN conjunct1, rule_format, OF demo_waits, of 0] show ?thesis by auto
  qed
  ultimately show ?thesis using demo_cfs_ok(1,3) by (simp add: demo_con_def)
qed

end
