(* ===== verification/Ide.thy ===== *)
theory Ide
  imports Bio
begin

text \<open>
  The driver of the IDE disk (\<open>src/ide.c\<close>): the queue of requests through the \<open>qnext\<close> pointers of the
  buffers, the programming of the controller by port writes, and the interrupt handler.  The disk
  hardware is modelled by its registers: a write of the command register takes over the sector and drive
  that the other registers hold, and completion of a command moves the data and raises the interrupt.
  The status that a poll of the controller finally reads is the argument \<open>st\<close>.  The platter is the
  \<open>disk\<close> of the buffer cache model, so that the driver can be compared with the memory disk.
\<close>

section \<open>State\<close>

record job =
  j_write :: bool
  j_drive :: bool
  j_sector :: nat
  j_count :: nat
  j_data :: block

record ide = dev +
  qnext :: "nat \<Rightarrow> nat option"
  idequeue :: "nat option"
  havedisk1 :: bool
  hd_regs :: "nat \<Rightarrow> uchar"
  hd_job :: "job option"
  hd_data :: block
  hd_woken :: "nat list"

definition SECTOR_SIZE :: nat where "SECTOR_SIZE = 512"
definition IDE_BSY :: uchar where "IDE_BSY = 0x80"
definition IDE_DRDY :: uchar where "IDE_DRDY = 0x40"
definition IDE_DF :: uchar where "IDE_DF = 0x20"
definition IDE_ERR :: uchar where "IDE_ERR = 0x01"
definition IDE_CMD_READ :: uchar where "IDE_CMD_READ = 0x20"
definition IDE_CMD_WRITE :: uchar where "IDE_CMD_WRITE = 0x30"

section \<open>The controller\<close>

definition hd_sector :: "(nat \<Rightarrow> uchar) \<Rightarrow> nat" where
  "hd_sector r = unat (r 0x1f3) + 256 * unat (r 0x1f4) + 65536 * unat (r 0x1f5) + 16777216 * (unat (r 0x1f6) mod 16)"

definition outb :: "nat \<Rightarrow> uchar \<Rightarrow> ide \<Rightarrow> ide" where
  "outb port v s =
     (if port = 0x1f7
      then s\<lparr>hd_job := Some \<lparr>j_write = (v = IDE_CMD_WRITE), j_drive = bit (hd_regs s 0x1f6) 4, j_sector = hd_sector (hd_regs s),
                             j_count = unat (hd_regs s 0x1f2), j_data = []\<rparr>\<rparr>
      else s\<lparr>hd_regs := (hd_regs s)(port := v)\<rparr>)"

definition outsl :: "block \<Rightarrow> ide \<Rightarrow> ide" where
  "outsl data s = s\<lparr>hd_job := map_option (\<lambda>j. j\<lparr>j_data := data\<rparr>) (hd_job s)\<rparr>"

text \<open>The platter is kept in blocks; only a transfer of exactly one block is modelled.\<close>

definition hd_finish :: "ide \<Rightarrow> ide" where
  "hd_finish s =
     (case hd_job s of None \<Rightarrow> s | Some j \<Rightarrow>
      let n = word_of_nat (j_sector j); s = s\<lparr>hd_job := None\<rparr> in
      if \<not> j_drive j \<or> j_count j * SECTOR_SIZE \<noteq> BSIZE then s
      else if j_write j then s\<lparr>disk := (disk s)(n := j_data j), dwrites := dwrites s @ [(n, j_data j)]\<rparr>
      else s\<lparr>hd_data := disk s n\<rparr>)"

section \<open>The driver\<close>

text \<open>The result \<open>-1\<close> is \<open>False\<close>.\<close>

definition idewait :: "uchar \<Rightarrow> bool \<Rightarrow> bool res" where
  "idewait st checkerr =
     (if st AND (IDE_BSY OR IDE_DRDY) \<noteq> IDE_DRDY then Inl Spin
      else Inr (\<not> (checkerr \<and> st AND (IDE_DF OR IDE_ERR) \<noteq> 0)))"

text \<open>\<open>ideinit\<close> after the interrupt controllers are set up; \<open>polls\<close> are the values that the status port of disk 1
  reads as, one after the other.\<close>

definition ideinit :: "uchar \<Rightarrow> (nat \<Rightarrow> uchar) \<Rightarrow> ide \<Rightarrow> ide res" where
  "ideinit st polls s =
     bindE (idewait st False) (\<lambda>_.
     let s = outb 0x1f6 (0xe0 OR push_bit 4 1) s;
         s = (if list_ex (\<lambda>i. polls i \<noteq> 0) [0..<1000] then s\<lparr>havedisk1 := True\<rparr> else s)
     in Inr (outb 0x1f6 (0xe0 OR push_bit 4 0) s))"

definition idestart :: "uchar \<Rightarrow> nat option \<Rightarrow> ide \<Rightarrow> ide res" where
  "idestart st p s =
     (case p of None \<Rightarrow> Inl (Panic ''idestart'') | Some b \<Rightarrow>
      let x = bufs s ! b in
      if b_blockno x \<ge> FSSIZE then Inl (Panic ''incorrect blockno'')
      else let spb = BSIZE div SECTOR_SIZE; sector = b_blockno x * word_of_nat spb in
        if spb > 7 then Inl (Panic ''idestart'')
        else bindE (idewait st False) (\<lambda>_.
          let s = outb 0x3f6 0 s;
              s = outb 0x1f2 (word_of_nat spb) s;
              s = outb 0x1f3 (ucast (sector AND 0xff)) s;
              s = outb 0x1f4 (ucast (drop_bit 8 sector AND 0xff)) s;
              s = outb 0x1f5 (ucast (drop_bit 16 sector AND 0xff)) s;
              s = outb 0x1f6 (ucast (0xe0 OR push_bit 4 (b_dev x AND 1) OR (drop_bit 24 sector AND 0x0f))) s
          in if b_dirty x then Inr (outsl (b_data x) (outb 0x1f7 IDE_CMD_WRITE s)) else Inr (outb 0x1f7 IDE_CMD_READ s)))"

definition ideintr :: "uchar \<Rightarrow> ide \<Rightarrow> ide res" where
  "ideintr st s =
     (case idequeue s of None \<Rightarrow> Inr s | Some b \<Rightarrow>
      let dirty = b_dirty (bufs s ! b); s = s\<lparr>idequeue := qnext s b\<rparr> in
      bindE (if \<not> dirty then idewait st True else Inr False) (\<lambda>ok.
      let s = (if ok then upd_buf b (\<lambda>x. x\<lparr>b_data := hd_data s\<rparr>) s else s);
          s = upd_buf b (\<lambda>x. x\<lparr>b_valid := True, b_dirty := False\<rparr>) s;
          s = s\<lparr>hd_woken := b # hd_woken s\<rparr>
      in if idequeue s \<noteq> None then idestart st (idequeue s) s else Inr s))"

text \<open>The walk to the end of the queue.\<close>

partial_function (option) ide_tail :: "(nat \<Rightarrow> nat option) \<Rightarrow> nat \<Rightarrow> nat option" where
  "ide_tail nx b = (case nx b of None \<Rightarrow> Some b | Some c \<Rightarrow> ide_tail nx c)"

text \<open>\<open>iderw\<close> up to the first call of \<open>sleep\<close>.\<close>

definition ide_rw :: "uchar \<Rightarrow> nat \<Rightarrow> ide \<Rightarrow> ide res" where
  "ide_rw st b s =
     (let x = bufs s ! b in
      if \<not> b_busy x then Inl (Panic ''iderw: buf not busy'')
      else if b_valid x \<and> \<not> b_dirty x then Inl (Panic ''iderw: nothing to do'')
      else if b_dev x \<noteq> 0 \<and> \<not> havedisk1 s then Inl (Panic ''iderw: ide disk 1 not present'')
      else let s = s\<lparr>qnext := (qnext s)(b := None)\<rparr> in
        bindE (case idequeue s of None \<Rightarrow> Inr (s\<lparr>idequeue := Some b\<rparr>)
               | Some h \<Rightarrow> (case ide_tail (qnext s) h of None \<Rightarrow> Inl Diverge
                            | Some t \<Rightarrow> Inr (s\<lparr>qnext := (qnext s)(t := Some b)\<rparr>))) (\<lambda>s.
        if idequeue s = Some b then idestart st (Some b) s else Inr s))"

section \<open>The queue as a list\<close>

fun chain :: "(nat \<Rightarrow> nat option) \<Rightarrow> nat option \<Rightarrow> nat list \<Rightarrow> bool" where
  "chain nx p [] = (p = None)"
| "chain nx p (b # q) = (p = Some b \<and> chain nx (nx b) q)"

lemma chain_other: "a \<notin> set q \<Longrightarrow> chain (nx(a := v)) p q = chain nx p q"
  by (induction q arbitrary: p) auto

lemma chain_tail: "chain nx (Some h) q \<Longrightarrow> ide_tail nx h = Some (last q)"
proof (induction q arbitrary: h)
  case (Cons b q)
  then show ?case by (cases q) (auto simp: ide_tail.simps [of nx b])
qed simp

lemma chain_append:
  assumes "chain nx p q" and "distinct q" and "b \<notin> set q" and "q \<noteq> []" and "nx b = None"
  shows "chain (nx(last q := Some b)) p (q @ [b])"
  using assms
proof (induction q arbitrary: p)
  case (Cons a q)
  show ?case
  proof (cases "q = []")
    case False
    then have "last (a # q) \<noteq> a" using Cons.prems(2) by auto
    then show ?thesis using Cons False by auto
  qed (use Cons.prems in auto)
qed simp

definition wants :: "'a dev_scheme \<Rightarrow> nat \<Rightarrow> bool" where
  "wants s b \<longleftrightarrow> b < length (bufs s) \<and> (let x = bufs s ! b in b_busy x \<and> \<not> (b_valid x \<and> \<not> b_dirty x) \<and> b_dev x = 1 \<and> b_blockno x < FSSIZE)"

definition job_of :: "buf \<Rightarrow> job" where
  "job_of x = \<lparr>j_write = b_dirty x, j_drive = True, j_sector = unat (b_blockno x), j_count = 1, j_data = (if b_dirty x then b_data x else [])\<rparr>"

definition ide_inv :: "ide \<Rightarrow> nat list \<Rightarrow> bool" where
  "ide_inv s q \<longleftrightarrow> chain (qnext s) (idequeue s) q \<and> distinct q \<and> (\<forall>b \<in> set q. wants s b) \<and> havedisk1 s \<and> disksize s = FSSIZE \<and>
     hd_job s = (case q of [] \<Rightarrow> None | b # _ \<Rightarrow> Some (job_of (bufs s ! b)))"

definition ready_status :: "uchar \<Rightarrow> bool" where
  "ready_status st \<longleftrightarrow> st AND (IDE_BSY OR IDE_DRDY) = IDE_DRDY \<and> st AND (IDE_DF OR IDE_ERR) = 0"

section \<open>Programming the controller\<close>

lemma low_byte: "unat (ucast (w AND 0xff :: uint) :: uchar) = unat w mod 256"
proof -
  have "w AND 0xff = take_bit 8 w" by (simp add: take_bit_eq_mask mask_eq_exp_minus_1)
  then show ?thesis by (simp add: unsigned_ucast_eq take_bit_eq_mod unat_mod)
qed

lemma unat_shift: "unat (drop_bit n w :: uint) = unat w div 2 ^ n"
  unfolding unsigned_drop_bit_eq using unat_uint_less [of w] by (simp add: drop_bit_eq_div take_bit_nat_eq_self)

lemma shift_zero: "w < FSSIZE \<Longrightarrow> 10 \<le> n \<Longrightarrow> drop_bit n w = 0"
proof -
  assume w: "w < FSSIZE" and n: "10 \<le> n"
  have "unat w < 2 ^ 10" using w by (simp add: FSSIZE_def word_less_nat_alt)
  also have "\<dots> \<le> 2 ^ n" using n by (intro power_increasing) auto
  finally have "unat (drop_bit n w) = 0" by (simp add: unat_shift)
  then show "drop_bit n w = 0" by (simp add: unat_eq_zero)
qed

lemma idestart_job:
  assumes st: "ready_status st" and w: "wants s b"
  shows "\<exists>r. idestart st (Some b) s = Inr (s\<lparr>hd_regs := r, hd_job := Some (job_of (bufs s ! b))\<rparr>)"
proof -
  let ?x = "bufs s ! b" let ?n = "b_blockno ?x"
  have n: "?n < FSSIZE" "b_dev ?x = 1" using w by (auto simp: wants_def Let_def)
  have z: "drop_bit 16 ?n = 0" "drop_bit 24 ?n = 0" using shift_zero [OF n(1)] by simp_all
  have u: "unat ?n < 65536" using n(1) by (simp add: FSSIZE_def word_less_nat_alt)
  have lo: "unat (ucast (?n AND 0xff) :: uchar) + 256 * unat (ucast (drop_bit 8 ?n AND 0xff) :: uchar) = unat ?n"
    using u by (simp add: low_byte unat_shift)
  have hi: "ucast (0xe0 OR push_bit 4 (b_dev ?x AND 1) OR (drop_bit 24 ?n AND 0x0f)) = (0xf0 :: uchar)" using n(2) z(2) by simp
  have spb: "BSIZE div SECTOR_SIZE = 1" by (simp add: BSIZE_def SECTOR_SIZE_def)
  show ?thesis
    using st n(1) lo hi z
    by (simp add: idestart_def spb idewait_def ready_status_def Let_def outb_def outsl_def hd_sector_def job_of_def not_le IDE_CMD_WRITE_def IDE_CMD_READ_def bit_numeral_rec) blast
qed

text \<open>A second disk that answers within a thousand polls leaves the driver ready for requests.\<close>

lemma ideinit_ready:
  assumes "ready_status st" and "i < 1000" and "polls i \<noteq> 0" and "idequeue s = None" and "hd_job s = None" and "disksize s = FSSIZE"
  shows "\<exists>s'. ideinit st polls s = Inr s' \<and> ide_inv s' [] \<and> dev.truncate s' = dev.truncate s"
proof -
  have "list_ex (\<lambda>i. polls i \<noteq> 0) [0..<1000]" using assms(2,3) by (auto simp: list_ex_iff)
  then show ?thesis using assms by (simp add: ideinit_def idewait_def ready_status_def outb_def ide_inv_def Let_def dev.defs)
qed

section \<open>Requests and interrupts\<close>

lemma wants_update: "c \<noteq> b \<Longrightarrow> wants (upd_buf b f s) c = wants s c"
  by (simp add: wants_def upd_buf_def)

lemma dev_same: "dev.truncate (s\<lparr>hd_regs := r, hd_job := j\<rparr>) = dev.truncate s" "dev.truncate (s\<lparr>qnext := nx\<rparr>) = dev.truncate s"
  "dev.truncate (s\<lparr>idequeue := p\<rparr>) = dev.truncate s" "dev.truncate (s\<lparr>hd_woken := w\<rparr>) = dev.truncate s"
  for s :: ide
  by (simp_all add: dev.defs)

lemma request_ok:
  assumes inv: "ide_inv s q" and st: "ready_status st" and b: "wants s b" "b \<notin> set q"
  shows "\<exists>s'. ide_rw st b s = Inr s' \<and> ide_inv s' (q @ [b]) \<and> dev.truncate s' = dev.truncate s"
proof -
  define s1 where "s1 = s\<lparr>qnext := (qnext s)(b := None)\<rparr>"
  have x: "b_busy (bufs s ! b)" "\<not> (b_valid (bufs s ! b) \<and> \<not> b_dirty (bufs s ! b))" "b_dev (bufs s ! b) = 1" using b(1) by (auto simp: wants_def Let_def)
  have c1: "chain (qnext s1) (idequeue s1) q" using inv b(2) by (simp add: s1_def ide_inv_def chain_other)
  have w1: "wants s1 c = wants s c" for c by (simp add: wants_def s1_def)
  show ?thesis
  proof (cases q)
    case Nil
    then have e: "idequeue s1 = None" using c1 by simp
    have rw: "ide_rw st b s = idestart st (Some b) (s1\<lparr>idequeue := Some b\<rparr>)"
      using x e inv by (auto simp: ide_rw_def Let_def s1_def ide_inv_def)
    have wb: "wants (s1\<lparr>idequeue := Some b\<rparr>) b" using b(1) w1 [of b] by (simp add: wants_def)
    obtain r where "idestart st (Some b) (s1\<lparr>idequeue := Some b\<rparr>) =
        Inr (s1\<lparr>idequeue := Some b, hd_regs := r, hd_job := Some (job_of (bufs s ! b))\<rparr>)"
      using idestart_job [OF st wb] by (auto simp: s1_def)
    moreover have "ide_inv (s1\<lparr>idequeue := Some b, hd_regs := r, hd_job := Some (job_of (bufs s ! b))\<rparr>) [b]"
      using inv b(1) by (auto simp: ide_inv_def s1_def wants_def)
    ultimately show ?thesis using rw Nil by (auto simp: s1_def dev.defs)
  next
    case (Cons h q')
    have e: "idequeue s1 = Some h" using c1 Cons by simp
    have t: "ide_tail (qnext s1) h = Some (last q)" using chain_tail [of "qnext s1" h q] c1 e by simp
    have ne: "h \<noteq> b" using b(2) Cons by auto
    have rw: "ide_rw st b s = Inr (s1\<lparr>qnext := (qnext s1)(last q := Some b)\<rparr>)"
      using x e t inv ne by (auto simp: ide_rw_def Let_def s1_def ide_inv_def)
    have "chain ((qnext s1)(last q := Some b)) (idequeue s1) (q @ [b])"
      using inv b(2) Cons by (intro chain_append [OF c1]) (auto simp: ide_inv_def s1_def)
    then have "ide_inv (s1\<lparr>qnext := (qnext s1)(last q := Some b)\<rparr>) (q @ [b])"
      using inv b Cons by (auto simp: ide_inv_def s1_def wants_def)
    then show ?thesis using rw by (auto simp: s1_def dev.defs)
  qed
qed

lemma flags_order: "x\<lparr>b_valid := v, b_dirty := d\<rparr> = x\<lparr>b_dirty := d, b_valid := v\<rparr>" for x :: buf
  by (cases x) simp

lemma clean_flags: "\<not> b_dirty x \<Longrightarrow> x\<lparr>b_data := y, b_dirty := False, b_valid := v\<rparr> = x\<lparr>b_data := y, b_valid := v\<rparr>" for x :: buf
  by (cases x) simp

lemma interrupt_ok:
  assumes inv: "ide_inv s (b # q)" and st: "ready_status st"
  shows "\<exists>s'. ideintr st (hd_finish s) = Inr s' \<and> ide_inv s' q \<and> iderw b (dev.truncate s) = Inr (dev.truncate s') \<and> hd_woken s' = b # hd_woken s"
proof -
  let ?x = "bufs s ! b" let ?n = "b_blockno ?x"
  have wb: "wants s b" and job: "hd_job s = Some (job_of ?x)" and ch: "idequeue s = Some b" "chain (qnext s) (qnext s b) q"
    and q: "b \<notin> set q" "distinct q" "\<forall>c \<in> set q. wants s c" and rest: "havedisk1 s" "disksize s = FSSIZE"
    using inv by (auto simp: ide_inv_def)
  have x: "b < length (bufs s)" "b_busy ?x" "\<not> (b_valid ?x \<and> \<not> b_dirty ?x)" "b_dev ?x = 1" "?n < FSSIZE" using wb by (auto simp: wants_def Let_def)
  define f :: "buf \<Rightarrow> buf" where "f = (\<lambda>x. if b_dirty ?x then x\<lparr>b_dirty := False, b_valid := True\<rparr> else x\<lparr>b_data := disk s ?n, b_valid := True\<rparr>)"
  define s1 where "s1 = (upd_buf b f ((hd_finish s)\<lparr>idequeue := qnext s b\<rparr>))\<lparr>hd_woken := b # hd_woken s\<rparr>"
  have fin: "hd_finish s = (if b_dirty ?x then s\<lparr>hd_job := None, disk := (disk s)(?n := b_data ?x), dwrites := dwrites s @ [(?n, b_data ?x)]\<rparr>
      else s\<lparr>hd_job := None, hd_data := disk s ?n\<rparr>)"
    using job by (auto simp: hd_finish_def job_of_def Let_def SECTOR_SIZE_def BSIZE_def)
  have mem: "iderw b (dev.truncate s) = Inr (dev.truncate s1)"
    using x rest by (auto simp: iderw_def Let_def s1_def fin f_def upd_buf_def dev.defs)
  have intr: "ideintr st (hd_finish s) = (if qnext s b \<noteq> None then idestart st (qnext s b) s1 else Inr s1)"
    using st ch(1) x(1,3) by (auto simp: ideintr_def fin s1_def f_def Let_def idewait_def ready_status_def upd_buf_def flags_order clean_flags)
  have same: "bufs s1 ! c = bufs s ! c" "length (bufs s1) = length (bufs s)" if "c \<in> set q" for c
  proof -
    have "b \<noteq> c" using that q(1) by auto
    then show "bufs s1 ! c = bufs s ! c" "length (bufs s1) = length (bufs s)" by (simp_all add: s1_def upd_buf_def fin)
  qed
  then have w1: "wants s1 c" if "c \<in> set q" for c using that q(3) by (auto simp: wants_def)
  have s1: "qnext s1 = qnext s" "idequeue s1 = qnext s b" "havedisk1 s1" "disksize s1 = FSSIZE" "hd_job s1 = None" "hd_woken s1 = b # hd_woken s"
    using rest by (auto simp: s1_def fin upd_buf_def)
  show ?thesis
  proof (cases q)
    case Nil
    then have "qnext s b = None" using ch(2) by simp
    then show ?thesis using intr mem s1 Nil by (auto simp: ide_inv_def)
  next
    case (Cons c q')
    then have nx: "qnext s b = Some c" using ch(2) by simp
    obtain r where r: "idestart st (Some c) s1 = Inr (s1\<lparr>hd_regs := r, hd_job := Some (job_of (bufs s1 ! c))\<rparr>)"
      using idestart_job [OF st w1 [of c]] Cons by auto
    moreover have "ide_inv (s1\<lparr>hd_regs := r, hd_job := Some (job_of (bufs s1 ! c))\<rparr>) q"
      using s1 ch(2) q w1 Cons nx by (auto simp: ide_inv_def wants_def)
    ultimately show ?thesis using intr mem s1 nx by (auto simp: dev.defs)
  qed
qed

section \<open>The driver refines the memory disk\<close>

text \<open>Requests arrive and interrupts complete them; the specification keeps the requests in a list and
  carries each out at once, by the \<open>iderw\<close> of the memory disk, when its turn comes.\<close>

datatype event = Request nat | Interrupt

fun ide_run :: "uchar \<Rightarrow> event list \<Rightarrow> ide \<Rightarrow> ide res" where
  "ide_run st [] s = Inr s"
| "ide_run st (Request b # es) s = bindE (ide_rw st b s) (ide_run st es)"
| "ide_run st (Interrupt # es) s = bindE (ideintr st (hd_finish s)) (ide_run st es)"

fun spec_run :: "event list \<Rightarrow> dev \<times> nat list \<Rightarrow> (dev \<times> nat list) res" where
  "spec_run [] dq = Inr dq"
| "spec_run (Request b # es) dq = (case dq of (d, q) \<Rightarrow> spec_run es (d, q @ [b]))"
| "spec_run (Interrupt # es) dq = (case dq of (d, []) \<Rightarrow> spec_run es (d, []) | (d, b # q) \<Rightarrow> bindE (iderw b d) (\<lambda>d. spec_run es (d, q)))"

text \<open>A request is for a busy buffer of disk 1 that has something to do and is not queued yet.\<close>

fun allowed :: "event list \<Rightarrow> dev \<times> nat list \<Rightarrow> bool" where
  "allowed [] dq = True"
| "allowed (Request b # es) dq = (case dq of (d, q) \<Rightarrow> wants d b \<and> b \<notin> set q \<and> allowed es (d, q @ [b]))"
| "allowed (Interrupt # es) dq = (case dq of (d, []) \<Rightarrow> allowed es (d, []) | (d, b # q) \<Rightarrow> (case iderw b d of Inl e \<Rightarrow> True | Inr d \<Rightarrow> allowed es (d, q)))"

lemma wants_truncate: "wants (dev.truncate s) b = wants s b"
  by (simp add: wants_def dev.defs)

lemma idle_interrupt: "ide_inv s [] \<Longrightarrow> ideintr st (hd_finish s) = Inr s"
  by (simp add: ide_inv_def hd_finish_def ideintr_def)

lemma run_refines:
  assumes "ide_inv s q" and "ready_status st" and "allowed es (dev.truncate s, q)"
  shows "\<exists>s' q'. ide_run st es s = Inr s' \<and> spec_run es (dev.truncate s, q) = Inr (dev.truncate s', q') \<and> ide_inv s' q'"
  using assms(1,3)
proof (induction es arbitrary: s q)
  case (Cons e es)
  show ?case
  proof (cases e)
    case (Request b)
    then have b: "wants s b" "b \<notin> set q" "allowed es (dev.truncate s, q @ [b])" using Cons.prems(2) by (auto simp: wants_truncate)
    obtain s1 where s1: "ide_rw st b s = Inr s1" "ide_inv s1 (q @ [b])" "dev.truncate s1 = dev.truncate s"
      using request_ok [OF Cons.prems(1) assms(2) b(1,2)] by blast
    then show ?thesis using Cons.IH [OF s1(2)] b(3) Request by auto
  next
    case Interrupt
    show ?thesis
    proof (cases q)
      case Nil
      then show ?thesis using Cons.IH [OF Cons.prems(1)] Cons.prems Interrupt idle_interrupt [of s st] by auto
    next
      case q: (Cons b q')
      obtain s1 where s1: "ideintr st (hd_finish s) = Inr s1" "ide_inv s1 q'" "iderw b (dev.truncate s) = Inr (dev.truncate s1)"
        using interrupt_ok [of s b q' st] Cons.prems(1) assms(2) q by blast
      then show ?thesis using Cons.IH [OF s1(2)] Cons.prems(2) Interrupt q by auto
    qed
  qed
qed auto

text \<open>C17: The IDE driver refines the memory disk.  However requests and completion interrupts are
  interleaved, the driver never panics or loops, its linked queue stays intact with the controller working
  on the request at its head, and the requests take effect one after the other in the order in which they
  were made, each as the memory disk would have carried it out at once.\<close>

theorem ide_refines:
  assumes "ide_inv s []" and "ready_status st" and "allowed es (dev.truncate s, [])"
  shows "\<exists>s' q. ide_run st es s = Inr s' \<and> spec_run es (dev.truncate s, []) = Inr (dev.truncate s', q) \<and>
    chain (qnext s') (idequeue s') q \<and> distinct q \<and> hd_job s' = (case q of [] \<Rightarrow> None | b # _ \<Rightarrow> Some (job_of (bufs s' ! b)))"
  using run_refines [OF assms] by (auto simp: ide_inv_def)

definition demo_ide :: ide where
  "demo_ide = \<lparr>bufs = [zero_buf\<lparr>b_busy := True, b_dirty := True, b_dev := 1, b_blockno := 7, b_data := replicate 512 42\<rparr>,
      zero_buf\<lparr>b_busy := True, b_dev := 1, b_blockno := 7\<rparr>], lru = [0, 1], disk = \<lambda>_. replicate 512 0, disksize = 1000, dwrites = [],
     qnext = \<lambda>_. None, idequeue = None, havedisk1 = True, hd_regs = \<lambda>_. 0, hd_job = None, hd_data = [], hd_woken = []\<rparr>"

text \<open>A write and a read of the same block: the read returns what was written.\<close>

theorem ide_refines_witness:
  "ide_inv demo_ide [] \<and> ready_status 0x40 \<and>
   (\<exists>s'. ide_run 0x40 [Request 0, Request 1, Interrupt, Interrupt] demo_ide = Inr s' \<and> b_data (bufs s' ! 1) = replicate 512 42 \<and> idequeue s' = None)"
proof -
  let ?es = "[Request 0, Request 1, Interrupt, Interrupt]"
  have i: "ide_inv demo_ide []" "ready_status 0x40"
    by (simp_all add: ide_inv_def demo_ide_def FSSIZE_def ready_status_def IDE_BSY_def IDE_DRDY_def IDE_DF_def IDE_ERR_def)
  have al: "allowed ?es (dev.truncate demo_ide, [])"
    by (simp add: demo_ide_def dev.defs wants_def FSSIZE_def iderw_def upd_buf_def zero_buf_def)
  have sp: "\<exists>d. spec_run ?es (dev.truncate demo_ide, []) = Inr (d, []) \<and> b_data (bufs d ! 1) = replicate 512 42"
    by (simp add: demo_ide_def dev.defs iderw_def upd_buf_def zero_buf_def)
  obtain s' q where r: "ide_run 0x40 ?es demo_ide = Inr s'" "spec_run ?es (dev.truncate demo_ide, []) = Inr (dev.truncate s', q)" "chain (qnext s') (idequeue s') q"
    using ide_refines [OF i al] by blast
  then have "q = []" "b_data (bufs s' ! 1) = replicate 512 42" using sp by (auto simp: dev.defs)
  then show ?thesis using i r by auto
qed

text \<open>A read that the controller reports as failed still marks the buffer valid, with its old contents.\<close>

lemma read_error_ignored:
  "\<exists>s'. ide_run 0x40 [Request 1] demo_ide = Inr s' \<and>
    (\<exists>s''. ideintr 0x41 (hd_finish s') = Inr s'' \<and> b_valid (bufs s'' ! 1) \<and> b_data (bufs s'' ! 1) = b_data (bufs demo_ide ! 1))"
proof -
  have i: "ide_inv demo_ide []" "ready_status 0x40" "wants demo_ide 1"
    by (simp_all add: ide_inv_def demo_ide_def FSSIZE_def ready_status_def IDE_BSY_def IDE_DRDY_def IDE_DF_def IDE_ERR_def wants_def zero_buf_def)
  obtain s' where s': "ide_rw 0x40 1 demo_ide = Inr s'" "ide_inv s' [1]" "dev.truncate s' = dev.truncate demo_ide" using request_ok [OF i] by auto
  then have b: "bufs s' = bufs demo_ide" by (simp add: dev.defs)
  have q: "idequeue s' = Some 1" "qnext s' 1 = None" "hd_job s' = Some (job_of (bufs s' ! 1))" using s'(2) by (auto simp: ide_inv_def)
  have "b_dirty (bufs s' ! 1) = False" unfolding b by (simp add: demo_ide_def zero_buf_def)
  then show ?thesis using s'(1) q b
    by (auto simp: ideintr_def hd_finish_def job_of_def Let_def SECTOR_SIZE_def BSIZE_def idewait_def IDE_BSY_def IDE_DRDY_def IDE_DF_def IDE_ERR_def upd_buf_def)
      (simp_all add: demo_ide_def)
qed

end
