(* ===== verification/Spec2Isabelle.thy ===== *)
theory Spec2Isabelle
  imports Wakeup SysProps Grep ShPrint Umalloc ConsoleDev Ide
begin

text \<open>
  A verification development for RT-xv6, the xv6 teaching kernel with a real-time scheduler.
\<close>

end
